(* ===== verification/Prelude.thy ===== *)
theory Prelude
  imports Main "HOL-Library.Word"
begin

text \<open>
  Shared vocabulary of the development: the machine integers of the code, the wrap-around of a
  32-bit unsigned computation, bytes in memory and the generic lemmas on lists, words and
  powers of two that the component theories use.

  Conventions.  An \<open>uint8_t\<close> that is data is an \<^typ>\<open>8 word\<close>.  An \<open>uint32_t\<close> or an
  \<open>uintptr_t\<close> (32 bits on the RV32 targets) that counts or indexes is a \<^typ>\<open>nat\<close> whose
  wrap-around is written out with \<open>wrap32\<close> wherever the operands do not exclude it; where bits
  of it are taken apart it is a \<^typ>\<open>32 word\<close>.
\<close>

unbundle bit_operations_syntax

named_theorems wf_simps \<open>unfolding rules of the components' well-formedness predicates\<close>
named_theorems step_defs \<open>definitions of the operations of a component\<close>

type_synonym u8 = "8 word"
type_synonym u16 = "16 word"
type_synonym u32 = "32 word"
type_synonym u64 = "64 word"
type_synonym bytes = "8 word list"

section \<open>Unsigned 32-bit arithmetic on natural numbers\<close>

definition wrap32 :: "nat \<Rightarrow> nat" where
  "wrap32 n = n mod 2 ^ 32"

lemma wrap32_id [simp]: "n < 4294967296 \<Longrightarrow> wrap32 n = n"
  by (simp add: wrap32_def)

lemma wrap32_less [simp]: "wrap32 n < 4294967296"
  by (simp add: wrap32_def)

lemma wrap32_le: "wrap32 n \<le> n"
  by (simp add: wrap32_def)

section \<open>Powers of two\<close>

text \<open>\<open>v != 0 && (v & (v - 1)) == 0\<close>, the test the code uses throughout.\<close>

definition is_pow2 :: "nat \<Rightarrow> bool" where
  "is_pow2 v \<longleftrightarrow> v \<noteq> 0 \<and> v AND (v - 1) = 0"

lemma and_mask_nat: "(x::nat) AND (2 ^ k - 1) = x mod 2 ^ k"
  by (metis mask_eq_exp_minus_1 take_bit_eq_mask take_bit_eq_mod)

lemma is_pow2_exp [simp]: "is_pow2 (2 ^ k)"
proof -
  have "(2 ^ k :: nat) AND (2 ^ k - 1) = 0"
    by (simp only: and_mask_nat) simp
  then show ?thesis by (simp add: is_pow2_def)
qed

lemma is_pow2_obtain:
  assumes "is_pow2 v"
  obtains k where "v = 2 ^ k"
proof -
  have "\<exists>k. v = 2 ^ k" using assms
  proof (induction v rule: less_induct)
    case (less v)
    show ?case
    proof (cases "even v")
      case True
      with less.prems obtain w where v: "v = 2 * w" and w: "w \<noteq> 0"
        by (auto simp: is_pow2_def elim!: evenE)
      have "w AND (w - 1) = 0"
      proof (rule bit_eqI)
        fix n
        have "v AND (v - 1) = 0" using less.prems by (simp add: is_pow2_def)
        then have "\<not> bit (v AND (v - 1)) (Suc n)" by simp
        then have "\<not> (bit v (Suc n) \<and> bit (v - 1) (Suc n))" unfolding bit_and_iff .
        moreover have "v - 1 = Suc (2 * (w - 1))" using v w by simp
        then have "bit (v - 1) (Suc n) = bit (w - 1) n" by (simp add: bit_Suc)
        moreover have "bit v (Suc n) = bit w n" by (simp add: v bit_Suc)
        ultimately show "bit (w AND (w - 1)) n = bit (0::nat) n"
          by (simp add: bit_and_iff)
      qed
      with w have "is_pow2 w" by (simp add: is_pow2_def)
      moreover have "w < v" using v w by simp
      ultimately obtain k where "w = 2 ^ k" using less.IH by blast
      then have "v = 2 ^ Suc k" by (simp add: v)
      then show ?thesis by blast
    next
      case False
      then obtain w where v: "v = 2 * w + 1" by (blast elim: oddE)
      have "w = 0"
      proof (rule ccontr)
        assume "w \<noteq> 0"
        then obtain n where "bit w n" by (auto simp: bit_eq_iff)
        then have "bit v (Suc n) \<and> bit (v - 1) (Suc n)"
          by (simp add: v bit_Suc)
        then have "bit (v AND (v - 1)) (Suc n)" unfolding bit_and_iff .
        with less.prems show False by (simp add: is_pow2_def)
      qed
      then have "v = 2 ^ 0" by (simp add: v)
      then show ?thesis by blast
    qed
  qed
  then show ?thesis using that by blast
qed

lemma is_pow2_pos: "is_pow2 v \<Longrightarrow> 0 < v"
  by (simp add: is_pow2_def)

lemma and_pow2_mod: "is_pow2 a \<Longrightarrow> x AND (a - 1) = x mod a"
  by (erule is_pow2_obtain) (simp only: and_mask_nat)

section \<open>Memory\<close>

text \<open>Writing a run of bytes into a buffer.\<close>

definition blit :: "nat \<Rightarrow> bytes \<Rightarrow> bytes \<Rightarrow> bytes" where
  "blit i xs d = take i d @ xs @ drop (i + length xs) d"

lemma blit_length [simp]: "i + length xs \<le> length d \<Longrightarrow> length (blit i xs d) = length d"
  by (simp add: blit_def)

lemma blit_Nil [simp]: "blit i [] d = d"
  by (simp add: blit_def)

lemma blit_update: "i < length d \<Longrightarrow> d[i := x] = blit i [x] d"
  by (simp add: blit_def upd_conv_take_nth_drop)

lemma blit_blit:
  "i + length xs + length ys \<le> length d \<Longrightarrow> blit (i + length xs) ys (blit i xs d) = blit i (xs @ ys) d"
  using min_absorb2 [of i "length d"] by (simp add: blit_def add_ac)

lemma take_blit: "i + length xs \<le> length d \<Longrightarrow> take (i + length xs) (blit i xs d) = take i d @ xs"
  using min_absorb2 [of i "length d"] by (simp add: blit_def)

text \<open>\<open>memcpy(dst, src, n)\<close> on a flat memory, the two ranges being apart.\<close>

definition mem_copy :: "(nat \<Rightarrow> u8) \<Rightarrow> nat \<Rightarrow> nat \<Rightarrow> nat \<Rightarrow> nat \<Rightarrow> u8" where
  "mem_copy mem dst src n = (\<lambda>a. if dst \<le> a \<and> a < dst + n then mem (src + (a - dst)) else mem a)"

definition mem_bytes :: "(nat \<Rightarrow> u8) \<Rightarrow> nat \<Rightarrow> nat \<Rightarrow> bytes" where
  "mem_bytes mem a n = map (\<lambda>i. mem (a + i)) [0..<n]"

lemma length_mem_bytes [simp]: "length (mem_bytes mem a n) = n"
  by (simp add: mem_bytes_def)

lemma mem_bytes_nth [simp]: "i < n \<Longrightarrow> mem_bytes mem a n ! i = mem (a + i)"
  by (simp add: mem_bytes_def)

lemma mem_bytes_copy_dst [simp]: "mem_bytes (mem_copy mem dst src n) dst n = mem_bytes mem src n"
  by (simp add: mem_bytes_def mem_copy_def)

lemma mem_bytes_copy_other:
  "b + m \<le> dst \<or> dst + n \<le> b \<Longrightarrow> mem_bytes (mem_copy mem dst src n) b m = mem_bytes mem b m"
  by (auto simp: mem_bytes_def mem_copy_def)

text \<open>A 32-bit word in memory, least significant byte first, as the RISC-V targets store it.\<close>

definition store32 :: "nat \<Rightarrow> u32 \<Rightarrow> (nat \<Rightarrow> u8) \<Rightarrow> nat \<Rightarrow> u8" where
  "store32 a v mem = mem(a := ucast v, a + 1 := ucast (drop_bit 8 v),
     a + 2 := ucast (drop_bit 16 v), a + 3 := ucast (drop_bit 24 v))"

definition load32 :: "nat \<Rightarrow> (nat \<Rightarrow> u8) \<Rightarrow> u32" where
  "load32 a mem = ucast (mem a) OR push_bit 8 (ucast (mem (a + 1)))
     OR push_bit 16 (ucast (mem (a + 2))) OR push_bit 24 (ucast (mem (a + 3)))"

lemma load32_store32 [simp]: "load32 a (store32 a v mem) = v"
proof (rule bit_word_eqI)
  fix n assume n: "n < LENGTH(32)"
  then show "bit (load32 a (store32 a v mem)) n = bit v n"
    by (cases "24 \<le> n"; cases "16 \<le> n"; cases "8 \<le> n") (auto simp: load32_def store32_def bit_simps)
qed

lemma load32_store32_apart: "a + 4 \<le> b \<or> b + 4 \<le> a \<Longrightarrow> load32 a (store32 b v mem) = load32 a mem"
  unfolding load32_def store32_def by auto

lemma store32_outside: "x < a \<or> a + 4 \<le> x \<Longrightarrow> store32 a v mem x = mem x"
  unfolding store32_def by auto

end
