(* ===== verification/Page_Alloc.thy ===== *)
theory Page_Alloc
  imports Prelude
begin

text \<open>
  The page allocator, \<^verbatim>\<open>kernel/palloc.c\<close>.

  A zone is one contiguous range of pages with its bitmap (bytes, one bit per page, as the code
  packs it), the owner word of each page and two counters.  The state has the fast zone and, where
  the board configures one, the bulk zone, the count of bulk requests served by the fast zone, and
  the bytes of memory that the allocator zeroes.  Every operation runs its scan and its update of
  the bitmap under one spinlock (\<open>g_palloc_lock\<close>), so an operation is one step of the model.
  \<open>printk\<close> lines and \<open>palloc_report_alloc\<close> (a diagnostic of the scheduler) leave the state alone
  and are left out; the uncached alias of the PSRAM names the same bytes as the cached address, so
  both ways \<open>zone_zero\<close> clears a run are the same update of memory.
\<close>

section \<open>The zone\<close>

abbreviation PAGE_SIZE :: nat where
  "PAGE_SIZE \<equiv> 4096"

record zone =
  z_base :: nat
  z_num_pages :: nat
  z_bitmap :: bytes
  z_owner :: "nat list"
  z_max_pages :: nat
  z_used_pages :: nat
  z_peak_used :: nat
  z_uncached_delta :: nat

definition OWNER_CONT :: nat where
  "OWNER_CONT = 1"

definition OWNER_UNKNOWN :: nat where
  "OWNER_UNKNOWN = 3"

definition bit_get :: "zone \<Rightarrow> nat \<Rightarrow> bool" where
  "bit_get z i \<longleftrightarrow> drop_bit (i mod 8) (z_bitmap z ! (i div 8)) AND 1 \<noteq> 0"

definition bit_set :: "zone \<Rightarrow> nat \<Rightarrow> zone" where
  "bit_set z i = z\<lparr>z_bitmap :=
     (z_bitmap z)[i div 8 := z_bitmap z ! (i div 8) OR push_bit (i mod 8) 1]\<rparr>"

definition bit_clear :: "zone \<Rightarrow> nat \<Rightarrow> zone" where
  "bit_clear z i = z\<lparr>z_bitmap :=
     (z_bitmap z)[i div 8 := z_bitmap z ! (i div 8) AND NOT (push_bit (i mod 8) 1)]\<rparr>"

section \<open>Setting a zone up\<close>

text \<open>\<open>(a + PAGE_SIZE - 1) & ~(PAGE_SIZE - 1)\<close> and \<open>a & ~(PAGE_SIZE - 1)\<close> on 32-bit addresses.\<close>

definition page_up :: "nat \<Rightarrow> nat" where
  "page_up a = wrap32 (a + (PAGE_SIZE - 1)) div PAGE_SIZE * PAGE_SIZE"

definition page_down :: "nat \<Rightarrow> nat" where
  "page_down a = a div PAGE_SIZE * PAGE_SIZE"

definition zone_setup :: "zone \<Rightarrow> nat \<Rightarrow> nat \<Rightarrow> zone" where
  "zone_setup z start stop =
     (let s = page_up start;
          e = page_down stop;
          z0 = z\<lparr>z_bitmap := replicate ((z_max_pages z + 7) div 8) 0,
                 z_owner := replicate (z_max_pages z) 0,
                 z_used_pages := 0, z_peak_used := 0, z_base := s, z_num_pages := 0\<rparr>
      in if e \<le> s then z0
         else let pages = (e - s) div PAGE_SIZE
              in z0\<lparr>z_num_pages := (if pages > z_max_pages z then z_max_pages z else pages)\<rparr>)"

section \<open>Allocating from a zone\<close>

text \<open>The inner scan: the first offset \<open>j\<close> below \<open>n\<close> whose page is taken.\<close>

definition first_busy :: "zone \<Rightarrow> nat \<Rightarrow> nat \<Rightarrow> nat option" where
  "first_busy z i n = List.find (\<lambda>j. bit_get z (i + j)) [0..<n]"

text \<open>
  The outer loop from index \<open>i\<close>.  A misaligned index is passed over; a taken page at offset \<open>j\<close>
  moves the loop past it (\<open>i += j\<close> and then the loop's own increment).
\<close>

function zone_scan :: "zone \<Rightarrow> nat \<Rightarrow> nat \<Rightarrow> nat \<Rightarrow> nat \<Rightarrow> nat option" where
  "zone_scan z n align_pages phase i =
     (if i + n \<le> z_num_pages z then
        if (i - phase) AND (align_pages - 1) \<noteq> 0 then zone_scan z n align_pages phase (Suc i)
        else (case first_busy z i n of
                Some j \<Rightarrow> zone_scan z n align_pages phase (Suc (i + j))
              | None \<Rightarrow> Some i)
      else None)"
  by pat_completeness auto
termination
  by (relation "measure (\<lambda>(z, n, a, ph, i). Suc (z_num_pages z) - i)") auto

declare zone_scan.simps [simp del]

fun claim_pages :: "zone \<Rightarrow> nat \<Rightarrow> nat \<Rightarrow> zone" where
  "claim_pages z i 0 = z"
| "claim_pages z i (Suc m) =
     (let z1 = bit_set z i in claim_pages (z1\<lparr>z_owner := (z_owner z1)[i := OWNER_CONT]\<rparr>) (Suc i) m)"

text \<open>Marks the run and keeps the counters; \<open>caller\<close> 0 stands for an unknown return address.\<close>

definition claim_run :: "zone \<Rightarrow> nat \<Rightarrow> nat \<Rightarrow> nat \<Rightarrow> zone" where
  "claim_run z i n caller =
     (let z1 = claim_pages z i n;
          z2 = z1\<lparr>z_owner := (z_owner z1)[i := (if caller \<noteq> 0 then caller else OWNER_UNKNOWN)],
                  z_used_pages := z_used_pages z1 + n\<rparr>
      in if z_used_pages z2 > z_peak_used z2 then z2\<lparr>z_peak_used := z_used_pages z2\<rparr> else z2)"

text \<open>
  The offset of the zone's base within the requested alignment, in pages, and the first index that
  lands on the boundary.  \<open>align_bytes\<close> is a \<open>uint32_t\<close>.
\<close>

definition align_skew :: "zone \<Rightarrow> nat \<Rightarrow> nat" where
  "align_skew z align_pages =
     (let align_bytes = wrap32 (align_pages * PAGE_SIZE)
      in (z_base z AND wrap32 (align_bytes + 4294967295)) div PAGE_SIZE)"

definition align_phase :: "zone \<Rightarrow> nat \<Rightarrow> nat" where
  "align_phase z align_pages =
     (let skew = align_skew z align_pages in if skew \<noteq> 0 then align_pages - skew else 0)"

definition zone_alloc :: "zone \<Rightarrow> nat \<Rightarrow> nat \<Rightarrow> nat \<Rightarrow> nat option \<times> zone" where
  "zone_alloc z n align_pages caller =
     (if n = 0 \<or> n > z_num_pages z then (None, z)
      else if align_pages = 0 \<or> align_pages AND (align_pages - 1) \<noteq> 0 then (None, z)
      else let phase = align_phase z align_pages
           in case zone_scan z n align_pages phase phase of
                None \<Rightarrow> (None, z)
              | Some i \<Rightarrow> (Some (z_base z + i * PAGE_SIZE), claim_run z i n caller))"

section \<open>Freeing into a zone\<close>

definition free_page :: "zone \<Rightarrow> nat \<Rightarrow> zone" where
  "free_page z i =
     (let z1 = (if bit_get z i then let zc = bit_clear z i in zc\<lparr>z_used_pages := z_used_pages zc - 1\<rparr>
                else z)
      in z1\<lparr>z_owner := (z_owner z1)[i := 0]\<rparr>)"

text \<open>
  The loop of \<open>palloc_free\<close>.  \<open>None\<close>: an index past the zone's bitmap and owner table is read and
  written, which C leaves undefined.
\<close>

fun free_pages :: "zone \<Rightarrow> nat \<Rightarrow> nat \<Rightarrow> zone option" where
  "free_pages z i 0 = Some z"
| "free_pages z i (Suc m) =
     (if i < z_max_pages z then free_pages (free_page z i) (Suc i) m else None)"

text \<open>The range check is on \<open>uint32_t\<close>: \<open>idx + n\<close> wraps.\<close>

definition zone_free :: "zone \<Rightarrow> nat \<Rightarrow> nat \<Rightarrow> zone option" where
  "zone_free z addr n =
     (let off = addr - z_base z
      in if off mod PAGE_SIZE \<noteq> 0 then Some z
         else let idx = off div PAGE_SIZE
              in if wrap32 (idx + n) > z_num_pages z then Some z
                 else free_pages z idx n)"


section \<open>The bitmap as a set of pages\<close>

lemma bit_get_iff: "bit_get z i \<longleftrightarrow> bit (z_bitmap z ! (i div 8)) (i mod 8)"
  by (simp add: bit_get_def bit_iff_odd_drop_bit and_one_eq odd_iff_mod_2_eq_one)

lemma bit_push_bit_one: "k < 8 \<Longrightarrow> bit (2 ^ k :: 8 word) m \<longleftrightarrow> m = k"
  by (auto simp: bit_exp_iff)

lemma same_bit_index: "j div 8 = i div 8 \<Longrightarrow> j mod 8 = i mod 8 \<Longrightarrow> j = (i::nat)"
  by (metis div_mult_mod_eq)

lemma bit_get_bit_set:
  assumes "i div 8 < length (z_bitmap z)"
  shows "bit_get (bit_set z i) j \<longleftrightarrow> j = i \<or> bit_get z j"
  using assms
  by (auto simp: bit_get_iff bit_set_def nth_list_update bit_or_iff bit_push_bit_one dest: same_bit_index)

lemma bit_get_bit_clear:
  assumes "i div 8 < length (z_bitmap z)"
  shows "bit_get (bit_clear z i) j \<longleftrightarrow> j \<noteq> i \<and> bit_get z j"
proof -
  have "bit (NOT (push_bit (i mod 8) (1::8 word))) (j mod 8) \<longleftrightarrow> j mod 8 \<noteq> i mod 8"
    by (simp add: bit_not_iff bit_push_bit_one)
  with assms show ?thesis
    by (auto simp: bit_get_iff bit_clear_def nth_list_update bit_and_iff dest: same_bit_index)
qed

lemma bit_set_simps [simp]:
  "z_base (bit_set z i) = z_base z" "z_num_pages (bit_set z i) = z_num_pages z"
  "z_owner (bit_set z i) = z_owner z" "z_max_pages (bit_set z i) = z_max_pages z"
  "z_used_pages (bit_set z i) = z_used_pages z" "z_peak_used (bit_set z i) = z_peak_used z"
  "z_uncached_delta (bit_set z i) = z_uncached_delta z"
  "length (z_bitmap (bit_set z i)) = length (z_bitmap z)"
  by (simp_all add: bit_set_def)

lemma bit_clear_simps [simp]:
  "z_base (bit_clear z i) = z_base z" "z_num_pages (bit_clear z i) = z_num_pages z"
  "z_owner (bit_clear z i) = z_owner z" "z_max_pages (bit_clear z i) = z_max_pages z"
  "z_used_pages (bit_clear z i) = z_used_pages z" "z_peak_used (bit_clear z i) = z_peak_used z"
  "z_uncached_delta (bit_clear z i) = z_uncached_delta z"
  "length (z_bitmap (bit_clear z i)) = length (z_bitmap z)"
  by (simp_all add: bit_clear_def)

lemma bit_get_updates [simp]:
  "bit_get (z\<lparr>z_owner := ow\<rparr>) i = bit_get z i"
  "bit_get (z\<lparr>z_used_pages := u\<rparr>) i = bit_get z i"
  "bit_get (z\<lparr>z_peak_used := p\<rparr>) i = bit_get z i"
  by (simp_all add: bit_get_def)

definition taken :: "zone \<Rightarrow> nat set" where
  "taken z = {i. i < z_num_pages z \<and> bit_get z i}"

lemma finite_taken [simp]: "finite (taken z)"
  by (simp add: taken_def)

text \<open>
  The well-formedness every operation keeps: the tables have their configured sizes, the zone is
  page aligned and does not run past the address space, no bit above the managed pages is set, the
  counters agree with the bitmap and a page has an owner word exactly when its bit is set.
\<close>

definition wf_zone :: "zone \<Rightarrow> bool" where
  [wf_simps]: "wf_zone z \<longleftrightarrow>
     z_num_pages z \<le> z_max_pages z
     \<and> length (z_bitmap z) = (z_max_pages z + 7) div 8
     \<and> length (z_owner z) = z_max_pages z
     \<and> PAGE_SIZE dvd z_base z
     \<and> z_base z + z_num_pages z * PAGE_SIZE < 2 ^ 32
     \<and> (\<forall>i < z_max_pages z. bit_get z i \<longrightarrow> i < z_num_pages z)
     \<and> z_used_pages z = card (taken z)
     \<and> z_used_pages z \<le> z_peak_used z
     \<and> (\<forall>i < z_max_pages z. z_owner z ! i \<noteq> 0 \<longleftrightarrow> bit_get z i)"

lemma wf_bitmap_index:
  "wf_zone z \<Longrightarrow> i < z_max_pages z \<Longrightarrow> i div 8 < length (z_bitmap z)"
  by (simp add: wf_zone_def)

lemma wf_bitmap_covers:
  assumes "wf_zone z" and "k \<le> z_num_pages z"
  shows "k \<le> 8 * length (z_bitmap z)"
proof -
  have "k \<le> z_max_pages z" "length (z_bitmap z) = (z_max_pages z + 7) div 8"
    using assms by (auto simp: wf_zone_def)
  then show ?thesis by linarith
qed

lemma wf_used_le: "wf_zone z \<Longrightarrow> z_used_pages z \<le> z_num_pages z"
proof -
  assume "wf_zone z"
  have "card (taken z) \<le> card {..<z_num_pages z}"
    by (rule card_mono) (auto simp: taken_def)
  with \<open>wf_zone z\<close> show ?thesis by (simp add: wf_zone_def)
qed


section \<open>What the scan finds\<close>

definition run_free :: "zone \<Rightarrow> nat \<Rightarrow> nat \<Rightarrow> bool" where
  "run_free z i n \<longleftrightarrow> (\<forall>j < n. \<not> bit_get z (i + j))"

definition fits_at :: "zone \<Rightarrow> nat \<Rightarrow> nat \<Rightarrow> nat \<Rightarrow> nat \<Rightarrow> bool" where
  "fits_at z n align_pages phase i \<longleftrightarrow>
     phase \<le> i \<and> i + n \<le> z_num_pages z \<and> (i - phase) AND (align_pages - 1) = 0 \<and> run_free z i n"

lemma first_busy_None: "first_busy z i n = None \<longleftrightarrow> run_free z i n"
  by (auto simp: first_busy_def run_free_def find_None_iff)

lemma first_busy_Some:
  "first_busy z i n = Some j \<Longrightarrow> j < n \<and> bit_get z (i + j)"
  by (auto simp: first_busy_def find_Some_iff)

lemma busy_excludes:
  assumes "bit_get z (i + j)" and "i \<le> k" and "k \<le> i + j" and "j < n"
  shows "\<not> run_free z k n"
proof
  assume "run_free z k n"
  moreover from assms have "i + j - k < n" and "k + (i + j - k) = i + j" by simp_all
  ultimately show False using assms(1) by (metis run_free_def)
qed

text \<open>The result of a scan from \<open>s\<close>: the lowest fitting index at or above \<open>s\<close>, if there is one.\<close>

definition scan_ok :: "zone \<Rightarrow> nat \<Rightarrow> nat \<Rightarrow> nat \<Rightarrow> nat \<Rightarrow> nat option \<Rightarrow> bool" where
  "scan_ok z n a phase s r \<longleftrightarrow> (case r of
       None \<Rightarrow> (\<forall>k. s \<le> k \<longrightarrow> \<not> fits_at z n a phase k)
     | Some i \<Rightarrow> s \<le> i \<and> fits_at z n a phase i \<and> (\<forall>k. s \<le> k \<and> k < i \<longrightarrow> \<not> fits_at z n a phase k))"

lemma scan_ok_advance:
  assumes "scan_ok z n a phase t r" and "s \<le> t"
    and "\<And>k. s \<le> k \<Longrightarrow> k < t \<Longrightarrow> \<not> fits_at z n a phase k"
  shows "scan_ok z n a phase s r"
  using assms by (cases r) (auto simp: scan_ok_def, (metis linorder_not_le)+)

lemma zone_scan_correct:
  "phase \<le> s \<Longrightarrow> scan_ok z n a phase s (zone_scan z n a phase s)"
proof (induction z n a phase s rule: zone_scan.induct)
  case (1 z n a phase s)
  note unf = zone_scan.simps [of z n a phase s]
  consider (stop) "\<not> s + n \<le> z_num_pages z"
    | (skip) "s + n \<le> z_num_pages z" "(s - phase) AND (a - 1) \<noteq> 0"
    | (busy) j where "s + n \<le> z_num_pages z" "\<not> (s - phase) AND (a - 1) \<noteq> 0" "first_busy z s n = Some j"
    | (found) "s + n \<le> z_num_pages z" "\<not> (s - phase) AND (a - 1) \<noteq> 0" "first_busy z s n = None"
    by fastforce
  then show ?case
  proof cases
    case stop
    then show ?thesis by (auto simp: unf fits_at_def scan_ok_def)
  next
    case skip
    then have "\<not> fits_at z n a phase s" by (simp add: fits_at_def)
    moreover have "scan_ok z n a phase (Suc s) (zone_scan z n a phase (Suc s))"
      using "1.IH"(1) [OF skip] "1.prems" by simp
    ultimately have "scan_ok z n a phase s (zone_scan z n a phase (Suc s))"
      by (elim scan_ok_advance) (auto simp: less_Suc_eq_le dest: le_antisym)
    with skip show ?thesis by (simp add: unf)
  next
    case busy
    note j = first_busy_Some [OF busy(3)]
    have "\<not> fits_at z n a phase k" if "s \<le> k" "k < Suc (s + j)" for k
      using busy_excludes [of z s j k n] j that by (simp add: fits_at_def)
    moreover have "scan_ok z n a phase (Suc (s + j)) (zone_scan z n a phase (Suc (s + j)))"
      using "1.IH"(2) [OF busy] "1.prems" by simp
    ultimately have "scan_ok z n a phase s (zone_scan z n a phase (Suc (s + j)))"
      by (elim scan_ok_advance) auto
    with busy show ?thesis by (simp add: unf)
  next
    case found
    then have "run_free z s n" by (simp add: first_busy_None)
    with found "1.prems" show ?thesis
      by (auto simp: unf fits_at_def scan_ok_def)
  qed
qed

lemma zone_scan_SomeD:
  "zone_scan z n a phase phase = Some i \<Longrightarrow>
     fits_at z n a phase i \<and> (\<forall>k < i. \<not> fits_at z n a phase k)"
  using zone_scan_correct [of phase phase z n a] by (auto simp: scan_ok_def fits_at_def)

lemma zone_scan_NoneD:
  "zone_scan z n a phase phase = None \<Longrightarrow> \<not> fits_at z n a phase k"
  using zone_scan_correct [of phase phase z n a] by (auto simp: scan_ok_def fits_at_def)

section \<open>What claiming a run does\<close>

lemma claim_pages_simps [simp]:
  "z_base (claim_pages z i m) = z_base z" "z_num_pages (claim_pages z i m) = z_num_pages z"
  "z_max_pages (claim_pages z i m) = z_max_pages z"
  "z_used_pages (claim_pages z i m) = z_used_pages z"
  "z_peak_used (claim_pages z i m) = z_peak_used z"
  "z_uncached_delta (claim_pages z i m) = z_uncached_delta z"
  "length (z_bitmap (claim_pages z i m)) = length (z_bitmap z)"
  "length (z_owner (claim_pages z i m)) = length (z_owner z)"
  by (induction m arbitrary: z i) (simp_all add: Let_def)

lemma bit_get_claim_pages:
  "i + m \<le> 8 * length (z_bitmap z) \<Longrightarrow>
   bit_get (claim_pages z i m) k \<longleftrightarrow> bit_get z k \<or> (i \<le> k \<and> k < i + m)"
proof (induction m arbitrary: z i)
  case 0
  then show ?case by auto
next
  case (Suc m)
  then have "i div 8 < length (z_bitmap z)" by linarith
  with Suc show ?case by (auto simp: Let_def bit_get_bit_set)
qed

lemma owner_claim_pages:
  "k < length (z_owner z) \<Longrightarrow>
   z_owner (claim_pages z i m) ! k = (if i \<le> k \<and> k < i + m then OWNER_CONT else z_owner z ! k)"
  by (induction m arbitrary: z i) (auto simp: Let_def nth_list_update)

lemma claim_run_simps [simp]:
  "z_base (claim_run z i n c) = z_base z" "z_num_pages (claim_run z i n c) = z_num_pages z"
  "z_max_pages (claim_run z i n c) = z_max_pages z"
  "z_used_pages (claim_run z i n c) = z_used_pages z + n"
  "z_peak_used (claim_run z i n c) = max (z_peak_used z) (z_used_pages z + n)"
  "z_uncached_delta (claim_run z i n c) = z_uncached_delta z"
  "length (z_bitmap (claim_run z i n c)) = length (z_bitmap z)"
  "length (z_owner (claim_run z i n c)) = length (z_owner z)"
  by (auto simp: claim_run_def Let_def)

lemma bit_get_claim_run:
  "i + n \<le> 8 * length (z_bitmap z) \<Longrightarrow>
   bit_get (claim_run z i n c) k \<longleftrightarrow> bit_get z k \<or> (i \<le> k \<and> k < i + n)"
  by (simp add: claim_run_def Let_def bit_get_claim_pages)

lemma owner_claim_run:
  "k < length (z_owner z) \<Longrightarrow>
   z_owner (claim_run z i n c) ! k =
     (if k = i then (if c \<noteq> 0 then c else OWNER_UNKNOWN)
      else if i \<le> k \<and> k < i + n then OWNER_CONT else z_owner z ! k)"
  by (auto simp: claim_run_def Let_def owner_claim_pages nth_list_update)

lemma taken_claim_run:
  assumes "wf_zone z" and "i + n \<le> z_num_pages z"
  shows "taken (claim_run z i n c) = taken z \<union> {i..<i + n}"
proof -
  have "i + n \<le> 8 * length (z_bitmap z)" using assms by (rule wf_bitmap_covers)
  with assms(2) show ?thesis by (auto simp: taken_def bit_get_claim_run)
qed

lemma wf_claim_run:
  assumes wf: "wf_zone z" and fit: "i + n \<le> z_num_pages z" and free: "run_free z i n" and n: "0 < n"
  shows "wf_zone (claim_run z i n c)"
proof -
  have len: "i + n \<le> 8 * length (z_bitmap z)" using wf fit by (rule wf_bitmap_covers)
  have "{i..<i + n} \<inter> taken z = {}"
  proof -
    have "\<not> bit_get z k" if "i \<le> k" "k < i + n" for k
    proof -
      from that have "k - i < n" "i + (k - i) = k" by simp_all
      with free show ?thesis unfolding run_free_def by metis
    qed
    then show ?thesis by (auto simp: taken_def)
  qed
  then have "card (taken (claim_run z i n c)) = z_used_pages z + n"
    using wf fit by (simp add: taken_claim_run card_Un_disjoint Int_commute wf_zone_def)
  moreover have "z_owner (claim_run z i n c) ! k \<noteq> 0 \<longleftrightarrow> bit_get (claim_run z i n c) k"
    if "k < z_max_pages z" for k
    using wf that len n
    by (auto simp: owner_claim_run bit_get_claim_run wf_zone_def OWNER_CONT_def OWNER_UNKNOWN_def)
  ultimately show ?thesis
    using wf fit len by (auto simp: wf_zone_def bit_get_claim_run)
qed


section \<open>What freeing a run does\<close>

lemma free_page_simps [simp]:
  "z_base (free_page z i) = z_base z" "z_num_pages (free_page z i) = z_num_pages z"
  "z_max_pages (free_page z i) = z_max_pages z" "z_peak_used (free_page z i) = z_peak_used z"
  "z_uncached_delta (free_page z i) = z_uncached_delta z"
  "length (z_bitmap (free_page z i)) = length (z_bitmap z)"
  "length (z_owner (free_page z i)) = length (z_owner z)"
  by (simp_all add: free_page_def Let_def)

lemma bit_get_free_page:
  assumes "i div 8 < length (z_bitmap z)"
  shows "bit_get (free_page z i) k \<longleftrightarrow> k \<noteq> i \<and> bit_get z k"
  using assms by (auto simp: free_page_def Let_def bit_get_bit_clear)

lemma owner_free_page:
  "k < length (z_owner z) \<Longrightarrow> z_owner (free_page z i) ! k = (if k = i then 0 else z_owner z ! k)"
  by (auto simp: free_page_def Let_def nth_list_update)

lemma wf_free_page:
  assumes wf: "wf_zone z" and i: "i < z_max_pages z"
  shows "wf_zone (free_page z i)"
proof -
  have idx: "i div 8 < length (z_bitmap z)" using assms by (rule wf_bitmap_index)
  have taken': "taken (free_page z i) = taken z - {i}"
    by (auto simp: taken_def bit_get_free_page [OF idx])
  have "z_used_pages (free_page z i) = card (taken (free_page z i))"
  proof (cases "bit_get z i")
    case True
    then have "i \<in> taken z" using wf i by (auto simp: taken_def wf_zone_def)
    with True taken' wf show ?thesis by (simp add: free_page_def Let_def wf_zone_def)
  next
    case False
    then have "i \<notin> taken z" by (simp add: taken_def)
    with False taken' wf show ?thesis by (simp add: free_page_def Let_def wf_zone_def)
  qed
  moreover have "card (taken (free_page z i)) \<le> card (taken z)"
    unfolding taken' by (rule card_mono) auto
  ultimately have "z_used_pages (free_page z i) \<le> z_peak_used (free_page z i)"
    using wf by (simp add: wf_zone_def)
  moreover note \<open>z_used_pages (free_page z i) = card (taken (free_page z i))\<close>
  moreover have "z_owner (free_page z i) ! k \<noteq> 0 \<longleftrightarrow> bit_get (free_page z i) k"
    if "k < z_max_pages z" for k
    using wf that by (simp add: wf_zone_def bit_get_free_page [OF idx] owner_free_page)
  moreover have "k < z_num_pages z" if "k < z_max_pages z" "bit_get (free_page z i) k" for k
    using wf that by (simp add: wf_zone_def bit_get_free_page [OF idx])
  ultimately show ?thesis using wf by (simp add: wf_zone_def)
qed

lemma free_pages_Some:
  assumes "wf_zone z" and "i + m \<le> z_max_pages z"
  shows "\<exists>z'. free_pages z i m = Some z' \<and> wf_zone z' \<and> z_base z' = z_base z
     \<and> z_num_pages z' = z_num_pages z \<and> z_max_pages z' = z_max_pages z
     \<and> z_peak_used z' = z_peak_used z
     \<and> (\<forall>k. bit_get z' k \<longleftrightarrow> bit_get z k \<and> \<not> (i \<le> k \<and> k < i + m))"
  using assms
proof (induction m arbitrary: z i)
  case 0
  then show ?case by auto
next
  case (Suc m)
  then have i: "i < z_max_pages z" and idx: "i div 8 < length (z_bitmap z)"
    by (auto intro: wf_bitmap_index)
  have "wf_zone (free_page z i)" using Suc.prems(1) i by (rule wf_free_page)
  moreover have "Suc i + m \<le> z_max_pages (free_page z i)" using Suc.prems(2) by simp
  ultimately obtain z' where z': "free_pages (free_page z i) (Suc i) m = Some z'" "wf_zone z'"
    "z_base z' = z_base z" "z_num_pages z' = z_num_pages z" "z_max_pages z' = z_max_pages z"
    "z_peak_used z' = z_peak_used z"
    "\<forall>k. bit_get z' k \<longleftrightarrow> bit_get (free_page z i) k \<and> \<not> (Suc i \<le> k \<and> k < Suc i + m)"
    using Suc.IH [of "free_page z i" "Suc i"] by (metis free_page_simps(1-4))
  moreover have "bit_get z' k \<longleftrightarrow> bit_get z k \<and> \<not> (i \<le> k \<and> k < i + Suc m)" for k
    using spec [OF z'(7), of k] bit_get_free_page [OF idx, of k] by auto
  ultimately show ?case using i by auto
qed

lemma free_pages_None:
  "free_pages z i m = None \<longleftrightarrow> m \<noteq> 0 \<and> z_max_pages z < i + m"
  by (induction m arbitrary: z i) auto

section \<open>The allocator's state and its entry points\<close>

record palloc =
  pa_fast :: zone
  pa_bulk :: "zone option"
  pa_fallbacks :: nat
  pa_mem :: "nat \<Rightarrow> u8"

definition zone_zero :: "zone \<Rightarrow> nat \<Rightarrow> nat \<Rightarrow> (nat \<Rightarrow> u8) \<Rightarrow> (nat \<Rightarrow> u8)" where
  "zone_zero z p len mem = (\<lambda>a. if p \<le> a \<and> a < p + len then 0 else mem a)"

definition alloc_fast :: "palloc \<Rightarrow> nat \<Rightarrow> nat \<Rightarrow> nat \<Rightarrow> nat option \<times> palloc" where
  "alloc_fast s n align_pages caller =
     (case zone_alloc (pa_fast s) n align_pages caller of
        (None, z) \<Rightarrow> (None, s)
      | (Some p, z) \<Rightarrow> (Some p, s\<lparr>pa_fast := z, pa_mem := zone_zero z p (n * PAGE_SIZE) (pa_mem s)\<rparr>))"

definition palloc_pages :: "palloc \<Rightarrow> nat \<Rightarrow> nat \<Rightarrow> nat option \<times> palloc" where
  "palloc_pages s n caller = alloc_fast s n 1 caller"

definition palloc_pages_aligned :: "palloc \<Rightarrow> nat \<Rightarrow> nat \<Rightarrow> nat \<Rightarrow> nat option \<times> palloc" where
  "palloc_pages_aligned s n align_pages caller = alloc_fast s n align_pages caller"

definition palloc_pages_bulk_aligned :: "palloc \<Rightarrow> nat \<Rightarrow> nat \<Rightarrow> nat \<Rightarrow> nat option \<times> palloc" where
  "palloc_pages_bulk_aligned s n align_pages caller =
     (case pa_bulk s of
        None \<Rightarrow> alloc_fast s n align_pages caller
      | Some b \<Rightarrow>
          if z_num_pages b = 0 then alloc_fast s n align_pages caller
          else (case zone_alloc b n align_pages caller of
                  (Some p, b') \<Rightarrow>
                    (Some p, s\<lparr>pa_bulk := Some b', pa_mem := zone_zero b' p (n * PAGE_SIZE) (pa_mem s)\<rparr>)
                | (None, _) \<Rightarrow>
                    (case alloc_fast s n align_pages caller of
                       (Some p, s') \<Rightarrow> (Some p, s'\<lparr>pa_fallbacks := wrap32 (pa_fallbacks s' + 1)\<rparr>)
                     | (None, s') \<Rightarrow> (None, s'))))"

definition palloc_pages_bulk :: "palloc \<Rightarrow> nat \<Rightarrow> nat \<Rightarrow> nat option \<times> palloc" where
  "palloc_pages_bulk s n caller = palloc_pages_bulk_aligned s n 1 caller"

datatype zone_sel = Fast | Bulk

definition in_zone :: "zone \<Rightarrow> nat \<Rightarrow> bool" where
  "in_zone z addr \<longleftrightarrow> z_base z \<le> addr \<and> addr < wrap32 (z_base z + z_num_pages z * PAGE_SIZE)"

definition zone_of :: "palloc \<Rightarrow> nat \<Rightarrow> zone_sel option" where
  "zone_of s addr =
     (if in_zone (pa_fast s) addr then Some Fast
      else case pa_bulk s of
             None \<Rightarrow> None
           | Some b \<Rightarrow> if z_num_pages b \<noteq> 0 \<and> in_zone b addr then Some Bulk else None)"

text \<open>\<open>None\<close>: undefined behaviour, see \<open>free_pages\<close>.\<close>

definition palloc_free :: "palloc \<Rightarrow> nat \<Rightarrow> nat \<Rightarrow> palloc option" where
  "palloc_free s p n =
     (if p = 0 \<or> n = 0 then Some s
      else case zone_of s p of
             None \<Rightarrow> Some s
           | Some Fast \<Rightarrow> map_option (\<lambda>z. s\<lparr>pa_fast := z\<rparr>) (zone_free (pa_fast s) p n)
           | Some Bulk \<Rightarrow> map_option (\<lambda>z. s\<lparr>pa_bulk := Some z\<rparr>) (zone_free (the (pa_bulk s)) p n))"

definition palloc_is_bulk :: "palloc \<Rightarrow> nat \<Rightarrow> bool" where
  "palloc_is_bulk s p \<longleftrightarrow> zone_of s p = Some Bulk"


section \<open>Bringing the zones up\<close>

text \<open>
  The board's generated configuration: the capacity of the fast zone's bitmap, that of the bulk
  zone where there is one, the optional cap on the managed heap and whether the board has PSRAM.
\<close>

record palloc_config =
  cfg_max_pages :: nat
  cfg_bulk_pages :: "nat option"
  cfg_heap_cap :: "nat option"
  cfg_psram :: bool

definition blank_zone :: "nat \<Rightarrow> zone" where
  "blank_zone m = \<lparr>z_base = 0, z_num_pages = 0, z_bitmap = replicate ((m + 7) div 8) 0,
     z_owner = replicate m 0, z_max_pages = m, z_used_pages = 0, z_peak_used = 0,
     z_uncached_delta = 0\<rparr>"

text \<open>The statically initialised state, before \<open>palloc_init\<close>; \<open>mem\<close> is what memory holds.\<close>

definition palloc_boot :: "palloc_config \<Rightarrow> (nat \<Rightarrow> u8) \<Rightarrow> palloc" where
  "palloc_boot cfg mem = \<lparr>pa_fast = blank_zone (cfg_max_pages cfg),
     pa_bulk = map_option blank_zone (cfg_bulk_pages cfg), pa_fallbacks = 0, pa_mem = mem\<rparr>"

definition palloc_init_bulk :: "palloc \<Rightarrow> nat \<Rightarrow> nat \<Rightarrow> nat \<Rightarrow> palloc" where
  "palloc_init_bulk s start stop uncached_delta =
     (case pa_bulk s of
        None \<Rightarrow> s
      | Some z \<Rightarrow> s\<lparr>pa_bulk := Some ((zone_setup z start stop)\<lparr>z_uncached_delta := uncached_delta\<rparr>)\<rparr>)"

definition heap_capped :: "palloc_config \<Rightarrow> nat \<Rightarrow> nat \<Rightarrow> nat" where
  "heap_capped cfg start stop =
     (case cfg_heap_cap cfg of
        None \<Rightarrow> stop
      | Some cap \<Rightarrow>
          let lim = wrap32 (page_up start + cap * PAGE_SIZE) in if stop > lim then lim else stop)"

definition palloc_init :: "palloc_config \<Rightarrow> palloc \<Rightarrow> nat \<Rightarrow> nat \<Rightarrow> palloc" where
  "palloc_init cfg s start stop0 =
     (let stop = heap_capped cfg start stop0;
          s1 = s\<lparr>pa_fast := zone_setup (pa_fast s) start stop\<rparr>
      in case cfg_bulk_pages cfg of
           None \<Rightarrow> s1
         | Some bulk \<Rightarrow>
             if cfg_psram cfg then s1
             else let fast_end = wrap32 (z_base (pa_fast s1) + z_num_pages (pa_fast s1) * PAGE_SIZE);
                      want = wrap32 (fast_end + bulk * PAGE_SIZE)
                  in if want \<le> page_down stop then palloc_init_bulk s1 fast_end want 0 else s1)"

section \<open>Statistics and the listing of runs\<close>

definition counts_step :: "zone \<Rightarrow> nat \<times> nat \<times> nat \<Rightarrow> nat \<Rightarrow> nat \<times> nat \<times> nat" where
  "counts_step z = (\<lambda>(free, best, run) i.
     if bit_get z i then (free, best, 0)
     else (free + 1, (if run + 1 > best then run + 1 else best), run + 1))"

definition zone_counts :: "zone \<Rightarrow> nat \<times> nat" where
  "zone_counts z =
     (case foldl (counts_step z) (0, 0, 0) [0..<z_num_pages z] of (free, best, _) \<Rightarrow> (free, best))"

definition palloc_stats :: "palloc \<Rightarrow> nat \<times> nat" where
  "palloc_stats s = (z_num_pages (pa_fast s), fst (zone_counts (pa_fast s)))"

definition palloc_extra_stats :: "palloc \<Rightarrow> nat \<times> nat" where
  "palloc_extra_stats s = (z_peak_used (pa_fast s), snd (zone_counts (pa_fast s)))"

record palloc_zone_stats =
  zs_base :: nat
  zs_total_pages :: nat
  zs_free_pages :: nat
  zs_peak_used_pages :: nat
  zs_largest_free_run :: nat
  zs_fallbacks :: nat

definition palloc_bulk_stats :: "palloc \<Rightarrow> palloc_zone_stats option" where
  "palloc_bulk_stats s =
     (case pa_bulk s of
        None \<Rightarrow> None
      | Some b \<Rightarrow>
          if z_num_pages b = 0 then None
          else Some \<lparr>zs_base = z_base b, zs_total_pages = z_num_pages b,
                     zs_free_pages = fst (zone_counts b), zs_peak_used_pages = z_peak_used b,
                     zs_largest_free_run = snd (zone_counts b), zs_fallbacks = pa_fallbacks s\<rparr>)"

record palloc_run =
  run_base :: nat
  run_pages :: nat
  run_caller :: nat
  run_bulk :: bool

function skip_free :: "zone \<Rightarrow> nat \<Rightarrow> nat" where
  "skip_free z p = (if p < z_num_pages z \<and> \<not> bit_get z p then skip_free z (Suc p) else p)"
  by pat_completeness auto
termination by (relation "measure (\<lambda>(z, p). z_num_pages z - p)") auto

function run_end :: "zone \<Rightarrow> nat \<Rightarrow> nat" where
  "run_end z q =
     (if q < z_num_pages z \<and> bit_get z q \<and> z_owner z ! q = OWNER_CONT then run_end z (Suc q) else q)"
  by pat_completeness auto
termination by (relation "measure (\<lambda>(z, q). z_num_pages z - q)") auto

declare skip_free.simps [simp del] run_end.simps [simp del]

definition zone_next_run :: "zone \<Rightarrow> nat \<Rightarrow> palloc_run option \<times> nat" where
  "zone_next_run z i =
     (let p = skip_free z i
      in if p \<ge> z_num_pages z then (None, p)
         else let who = z_owner z ! p; q = run_end z (Suc p)
              in (Some \<lparr>run_base = z_base z + p * PAGE_SIZE, run_pages = q - p,
                        run_caller = (if who = OWNER_CONT \<or> who = OWNER_UNKNOWN then 0 else who),
                        run_bulk = False\<rparr>, q))"

record palloc_cursor =
  cur_zone :: nat
  cur_page :: nat

definition bulk_run_next :: "palloc \<Rightarrow> palloc_cursor \<Rightarrow> palloc_run option \<times> palloc_cursor" where
  "bulk_run_next s c =
     (case pa_bulk s of
        Some b \<Rightarrow>
          if cur_zone c = 1 \<and> z_num_pages b \<noteq> 0 then
            (case zone_next_run b (cur_page c) of
               (Some r, i) \<Rightarrow> (Some (r\<lparr>run_bulk := True\<rparr>), c\<lparr>cur_page := i\<rparr>)
             | (None, i) \<Rightarrow> (None, c\<lparr>cur_zone := 2, cur_page := i\<rparr>))
          else (None, c\<lparr>cur_zone := 2\<rparr>)
      | None \<Rightarrow> (None, c\<lparr>cur_zone := 2\<rparr>))"

definition palloc_run_next :: "palloc \<Rightarrow> palloc_cursor \<Rightarrow> palloc_run option \<times> palloc_cursor" where
  "palloc_run_next s c =
     (if cur_zone c = 0 then
        (case zone_next_run (pa_fast s) (cur_page c) of
           (Some r, i) \<Rightarrow> (Some (r\<lparr>run_bulk := False\<rparr>), c\<lparr>cur_page := i\<rparr>)
         | (None, i) \<Rightarrow> bulk_run_next s (c\<lparr>cur_zone := 1, cur_page := 0\<rparr>))
      else bulk_run_next s c)"

end
