(* ===== verification/Page_Source.thy ===== *)
theory Page_Source
  imports Prelude
begin

text \<open>
  The contract between the page allocator and the code that carves a run of pages up (the buddy
  allocator): the operation the client calls and the laws it relies on.  \<open>inv\<close>, \<open>live\<close> and
  \<open>mem\<close> are the provider's invariant, the bytes it has handed out and the bytes of memory.
\<close>

definition run_bytes :: "nat \<Rightarrow> nat \<Rightarrow> nat set" where
  "run_bytes p n = {p..<p + n * 4096}"

locale page_source =
  fixes alloc :: "'s \<Rightarrow> nat \<Rightarrow> nat \<Rightarrow> nat option \<times> 's"
    and inv :: "'s \<Rightarrow> bool"
    and live :: "'s \<Rightarrow> nat set"
    and mem :: "'s \<Rightarrow> nat \<Rightarrow> u8"
  assumes alloc_inv: "inv s \<Longrightarrow> a < 2 ^ 20 \<Longrightarrow> alloc s n a = (Some p, s') \<Longrightarrow> inv s'"
    and alloc_aligned: "inv s \<Longrightarrow> a < 2 ^ 20 \<Longrightarrow> alloc s n a = (Some p, s') \<Longrightarrow> a * 4096 dvd p"
    and alloc_fresh: "inv s \<Longrightarrow> a < 2 ^ 20 \<Longrightarrow> alloc s n a = (Some p, s') \<Longrightarrow>
      run_bytes p n \<inter> live s = {} \<and> live s' = live s \<union> run_bytes p n"
    and alloc_addressable: "inv s \<Longrightarrow> a < 2 ^ 20 \<Longrightarrow> alloc s n a = (Some p, s') \<Longrightarrow>
      0 < p \<and> p + n * 4096 < 2 ^ 32"
    and alloc_zeroed: "inv s \<Longrightarrow> a < 2 ^ 20 \<Longrightarrow> alloc s n a = (Some p, s') \<Longrightarrow>
      x \<in> run_bytes p n \<Longrightarrow> mem s' x = 0"
    and alloc_frame: "inv s \<Longrightarrow> a < 2 ^ 20 \<Longrightarrow> alloc s n a = (Some p, s') \<Longrightarrow>
      x \<notin> run_bytes p n \<Longrightarrow> mem s' x = mem s x"
    and alloc_fail: "alloc s n a = (None, s') \<Longrightarrow> s' = s"
begin

lemma alloc_live_grows:
  "inv s \<Longrightarrow> a < 2 ^ 20 \<Longrightarrow> alloc s n a = (r, s') \<Longrightarrow> live s \<subseteq> live s'"
  using alloc_fresh alloc_fail by (cases r) blast+

lemma alloc_keeps_live_bytes:
  "inv s \<Longrightarrow> a < 2 ^ 20 \<Longrightarrow> alloc s n a = (r, s') \<Longrightarrow> x \<in> live s \<Longrightarrow> mem s' x = mem s x"
  using alloc_fresh alloc_fail alloc_frame by (cases r) blast+

end

text \<open>The same pages together with a way of writing the memory they are.\<close>

locale page_memory = page_source +
  fixes upd :: "((nat \<Rightarrow> u8) \<Rightarrow> nat \<Rightarrow> u8) \<Rightarrow> 'a \<Rightarrow> 'a"
  assumes upd_mem: "mem (upd f s) = f (mem s)"
    and upd_inv: "inv (upd f s) = inv s"
    and upd_live: "live (upd f s) = live s"

text \<open>
  The pages seen as a pool of blocks: taking one and giving one back.  \<open>pool s B\<close> says that exactly
  the blocks \<open>B\<close> are out.
\<close>

locale block_pool =
  fixes take_block :: "'s \<Rightarrow> nat \<Rightarrow> nat option \<times> 's"
    and give_block :: "'s \<Rightarrow> nat \<Rightarrow> nat \<Rightarrow> 's option"
    and pool :: "'s \<Rightarrow> (nat \<times> nat) set \<Rightarrow> bool"
  assumes take_new: "pool s B \<Longrightarrow> take_block s n = (Some p, s') \<Longrightarrow> pool s' (insert (p, n) B) \<and> (p, n) \<notin> B \<and> p \<noteq> 0"
    and take_fail: "take_block s n = (None, s') \<Longrightarrow> s' = s"
    and give_back: "pool s B \<Longrightarrow> (p, n) \<in> B \<Longrightarrow> \<exists>s'. give_block s p n = Some s' \<and> pool s' (B - {(p, n)})"
    and apart: "pool s B \<Longrightarrow> x \<in> B \<Longrightarrow> y \<in> B \<Longrightarrow> x \<noteq> y \<Longrightarrow>
      run_bytes (fst x) (snd x) \<inter> run_bytes (fst y) (snd y) = {}"
begin

text \<open>
  A client that records its blocks in a table: \<open>f k\<close> is the block of the entry \<open>k\<close>, the entries \<open>K\<close>
  are in use, and \<open>B\<close> are the blocks that others hold.
\<close>

definition table_ok :: "'s \<Rightarrow> ('k \<Rightarrow> nat \<times> nat) \<Rightarrow> 'k set \<Rightarrow> (nat \<times> nat) set \<Rightarrow> bool" where
  "table_ok s f K B \<longleftrightarrow> inj_on f K \<and> f ` K \<inter> B = {} \<and> pool s (f ` K \<union> B)"

lemma table_apart:
  "table_ok s f K B \<Longrightarrow> j \<in> K \<Longrightarrow> k \<in> K \<Longrightarrow> j \<noteq> k \<Longrightarrow>
    run_bytes (fst (f j)) (snd (f j)) \<inter> run_bytes (fst (f k)) (snd (f k)) = {}"
  unfolding table_ok_def by (rule apart [of s "f ` K \<union> B"]) (auto dest: inj_onD)

lemma table_apart_others:
  "table_ok s f K B \<Longrightarrow> k \<in> K \<Longrightarrow> b \<in> B \<Longrightarrow>
    run_bytes (fst (f k)) (snd (f k)) \<inter> run_bytes (fst b) (snd b) = {}"
  unfolding table_ok_def by (rule apart [of s "f ` K \<union> B"]) auto

lemma table_same: "table_ok s f K B \<Longrightarrow> (\<And>k. k \<in> K \<Longrightarrow> g k = f k) \<Longrightarrow> table_ok s g K B"
proof -
  assume t: "table_ok s f K B" and g: "\<And>k. k \<in> K \<Longrightarrow> g k = f k"
  have "g ` K = f ` K" using g by (rule image_cong [OF refl])
  moreover have "inj_on g K \<longleftrightarrow> inj_on f K" using g by (rule inj_on_cong)
  ultimately show "table_ok s g K B" using t by (simp add: table_ok_def)
qed

lemma table_add:
  assumes t: "table_ok s f K B" and a: "take_block s n = (Some p, s')" and k: "k \<notin> K"
    and g: "g k = (p, n)" "\<And>j. j \<in> K \<Longrightarrow> g j = f j"
  shows "table_ok s' g (insert k K) B"
proof -
  have new: "pool s' (insert (p, n) (f ` K \<union> B))" "(p, n) \<notin> f ` K \<union> B"
    using take_new [OF _ a] t unfolding table_ok_def by blast+
  have im: "g ` K = f ` K" using g(2) by (rule image_cong [OF refl])
  moreover have "inj_on g K" using t inj_on_cong [of K g f] g(2) by (simp add: table_ok_def)
  ultimately show ?thesis using new t g(1) k
    by (auto simp: table_ok_def insert_commute)
qed

lemma table_remove:
  assumes t: "table_ok s f K B" and k: "k \<in> K"
  shows "\<exists>s'. give_block s (fst (f k)) (snd (f k)) = Some s' \<and> table_ok s' f (K - {k}) B"
proof -
  have mem: "(fst (f k), snd (f k)) \<in> f ` K \<union> B" using k by simp
  from t have "pool s (f ` K \<union> B)" by (simp add: table_ok_def)
  from give_back [OF this mem] obtain s' where s': "give_block s (fst (f k)) (snd (f k)) = Some s'"
    "pool s' (f ` K \<union> B - {f k})" by auto
  have "f ` (K - {k}) = f ` K - {f k}" using t k by (auto simp: table_ok_def dest: inj_onD)
  moreover have "f k \<notin> B" using t k by (auto simp: table_ok_def)
  ultimately have "f ` K \<union> B - {f k} = f ` (K - {k}) \<union> B" by blast
  with s' t show ?thesis unfolding table_ok_def by (auto intro: inj_on_subset)
qed

lemma table_move:
  assumes t: "table_ok s f K B" and k: "k \<in> K" and j: "j \<notin> K"
    and g: "g j = f k" "\<And>i. i \<in> K \<Longrightarrow> i \<noteq> k \<Longrightarrow> g i = f i"
  shows "table_ok s g (insert j (K - {k})) B"
proof -
  have jk: "j \<noteq> k" using j k by blast
  have "g ` (K - {k}) = f ` (K - {k})" by (rule image_cong [OF refl]) (use g(2) in blast)
  then have im: "g ` insert j (K - {k}) = f ` K" using g(1) k by auto
  have "inj_on g (K - {k}) \<longleftrightarrow> inj_on f (K - {k})" by (rule inj_on_cong) (use g(2) in blast)
  moreover have "f k \<notin> f ` (K - {k})" "inj_on f (K - {k})"
    using t k by (auto simp: table_ok_def dest: inj_onD intro: inj_on_subset)
  ultimately have "inj_on g (insert j (K - {k}))"
    using \<open>g ` (K - {k}) = f ` (K - {k})\<close> g(1) by auto
  with im t show ?thesis by (simp add: table_ok_def)
qed

lemma table_others_take:
  assumes "table_ok s f K B" and "take_block s n = (Some p, s')"
  shows "table_ok s' f K (insert (p, n) B)"
  using assms take_new [OF _ assms(2), of "f ` K \<union> B"] by (auto simp: table_ok_def)

lemma table_others_give:
  assumes "table_ok s f K B" and "(p, n) \<in> B" and "give_block s p n = Some s'"
  shows "table_ok s' f K (B - {(p, n)})"
proof -
  have "pool s' (f ` K \<union> B - {(p, n)})"
    using assms give_back [of s "f ` K \<union> B" p n] by (auto simp: table_ok_def)
  moreover have "f ` K \<union> B - {(p, n)} = f ` K \<union> (B - {(p, n)})" using assms by (auto simp: table_ok_def)
  ultimately show ?thesis using assms by (auto simp: table_ok_def)
qed

end

end
