(* ===== verification/Page_Alloc_Correct.thy ===== *)
theory Page_Alloc_Correct
  imports Page_Alloc Page_Source
begin

text \<open>
  What the page allocator promises: the abstract specification of one allocation (an aligned block
  inside the zone that no live block touches, the lowest such block), the proof that the scan of
  \<open>zone_alloc\<close> decides it, the invariant of the two zones over any sequence of operations, and the
  listing of runs that \<open>/proc/pages\<close> reads.
\<close>

section \<open>Live bytes and blocks\<close>

definition block :: "nat \<Rightarrow> nat \<Rightarrow> nat set" where
  "block p n = {p..<p + n * PAGE_SIZE}"

definition zone_range :: "zone \<Rightarrow> nat set" where
  "zone_range z = block (z_base z) (z_num_pages z)"

definition zone_live :: "zone \<Rightarrow> nat set" where
  "zone_live z = (\<Union>i \<in> taken z. block (z_base z + i * PAGE_SIZE) 1)"

lemma in_block_page: "a \<in> block (b + i * PAGE_SIZE) 1 \<longleftrightarrow> b \<le> a \<and> (a - b) div PAGE_SIZE = i"
  by (auto simp: block_def div_nat_eqI)

lemma zone_live_iff:
  "a \<in> zone_live z \<longleftrightarrow> z_base z \<le> a \<and> (a - z_base z) div PAGE_SIZE \<in> taken z"
  unfolding zone_live_def UN_iff in_block_page by blast

lemma in_block_run:
  "a \<in> block (b + i * PAGE_SIZE) n \<longleftrightarrow> b \<le> a \<and> i \<le> (a - b) div PAGE_SIZE \<and> (a - b) div PAGE_SIZE < i + n"
  (is "?l \<longleftrightarrow> ?r")
proof
  assume ?l
  then have "i * PAGE_SIZE \<le> a - b" "a - b < (i + n) * PAGE_SIZE" "b \<le> a"
    by (auto simp: block_def algebra_simps)
  then show ?r by (simp add: less_eq_div_iff_mult_less_eq div_less_iff_less_mult)
next
  assume ?r
  then have "i * PAGE_SIZE \<le> a - b" "a - b < (i + n) * PAGE_SIZE" "b \<le> a"
    by (simp_all add: less_eq_div_iff_mult_less_eq div_less_iff_less_mult)
  then show ?l by (auto simp: block_def algebra_simps)
qed

lemma zone_live_range: "zone_live z \<subseteq> zone_range z"
proof
  fix a assume "a \<in> zone_live z"
  then show "a \<in> zone_range z"
    using in_block_run [of a "z_base z" 0 "z_num_pages z"]
    by (simp add: zone_live_iff zone_range_def taken_def)
qed

section \<open>The abstract allocation\<close>

text \<open>
  A block of \<open>n\<close> pages at \<open>p\<close> can be handed out: it starts on an \<open>align_pages\<close> boundary, lies in
  the zone and shares no byte with a live page.
\<close>

definition placeable :: "zone \<Rightarrow> nat \<Rightarrow> nat \<Rightarrow> nat \<Rightarrow> bool" where
  "placeable z n align_pages p \<longleftrightarrow>
     align_pages * PAGE_SIZE dvd p \<and> block p n \<subseteq> zone_range z \<and> block p n \<inter> zone_live z = {}"

lemma align_phase_eq:
  assumes wf: "wf_zone z" and a: "is_pow2 a" "a < 2 ^ 20"
  shows "align_phase z a = (a - (z_base z div PAGE_SIZE) mod a) mod a"
proof -
  from a obtain k where k: "a = 2 ^ k" by (blast elim: is_pow2_obtain)
  have lt: "a * PAGE_SIZE < 4294967296" using a(2) by simp
  have "0 < a" using a by (rule_tac is_pow2_pos)
  then have mask: "wrap32 (a * PAGE_SIZE + 4294967295) = a * PAGE_SIZE - 1"
    using lt by (simp add: wrap32_def mod_if)
  have pow: "a * PAGE_SIZE = 2 ^ (k + 12)" by (simp add: k power_add)
  obtain b where b: "z_base z = PAGE_SIZE * b" using wf by (auto simp: wf_zone_def elim: dvdE)
  have "z_base z AND (a * PAGE_SIZE - 1) = z_base z mod (a * PAGE_SIZE)"
    unfolding pow by (rule and_mask_nat)
  also have "\<dots> = PAGE_SIZE * (b mod a)" by (simp add: b mult_mod_right mult.commute)
  finally have "align_skew z a = b mod a"
    using lt by (simp add: align_skew_def Let_def mask)
  moreover have "b mod a < a" using \<open>0 < a\<close> by simp
  ultimately show ?thesis
    by (simp add: align_phase_def Let_def b)
qed

lemma phase_aligned_iff:
  fixes a b i :: nat
  assumes "0 < a"
  shows "a dvd b + i \<longleftrightarrow> (a - b mod a) mod a \<le> i \<and> (i - (a - b mod a) mod a) mod a = 0"
proof -
  define r where "r = b mod a"
  define ph where "ph = (a - r) mod a"
  have r: "r < a" using assms by (simp add: r_def)
  have eq: "a dvd b + i \<longleftrightarrow> (r + i) mod a = 0"
    by (simp add: r_def mod_eq_0_iff_dvd [symmetric] mod_simps)
  show ?thesis
  proof (cases "r = 0")
    case True
    with eq show ?thesis by (simp add: r_def [symmetric] True)
  next
    case False
    then have ph: "ph = a - r" using r by (simp add: ph_def)
    have "(r + i) mod a = 0 \<longleftrightarrow> ph \<le> i \<and> (i - ph) mod a = 0"
    proof
      assume z: "(r + i) mod a = 0"
      then obtain q where q: "r + i = a * q" by (auto simp: mod_eq_0_iff_dvd elim: dvdE)
      with False have "q \<noteq> 0" by (metis add_is_0 mult_0_right)
      then obtain q' where q': "q = Suc q'" by (cases q) auto
      with q ph r have "i = ph + a * q'" by (simp add: algebra_simps)
      then show "ph \<le> i \<and> (i - ph) mod a = 0" by simp
    next
      assume "ph \<le> i \<and> (i - ph) mod a = 0"
      then obtain q where "ph \<le> i" "i - ph = a * q" by (auto simp: mod_eq_0_iff_dvd elim: dvdE)
      then have "i = ph + a * q" by simp
      then have "r + i = a * Suc q" using ph r by simp
      then show "(r + i) mod a = 0" by simp
    qed
    with eq show ?thesis by (simp add: ph_def r_def)
  qed
qed

lemma fits_at_iff_placeable:
  assumes wf: "wf_zone z" and a: "is_pow2 a" "a < 2 ^ 20" and n: "0 < n"
  shows "fits_at z n a (align_phase z a) i \<longleftrightarrow> placeable z n a (z_base z + i * PAGE_SIZE)"
proof -
  obtain b where b: "z_base z = b * PAGE_SIZE"
    using wf by (auto simp: wf_zone_def mult.commute elim: dvdE)
  have "0 < a" using a(1) by (rule is_pow2_pos)
  have "a * PAGE_SIZE dvd z_base z + i * PAGE_SIZE \<longleftrightarrow> a dvd b + i"
    unfolding b add_mult_distrib [symmetric] by (rule dvd_times_right_cancel_iff) simp
  also have "\<dots> \<longleftrightarrow> align_phase z a \<le> i \<and> (i - align_phase z a) AND (a - 1) = 0"
    unfolding align_phase_eq [OF wf a] and_pow2_mod [OF a(1)]
    using phase_aligned_iff [OF \<open>0 < a\<close>, of b i] by (simp add: b)
  finally have al: "a * PAGE_SIZE dvd z_base z + i * PAGE_SIZE \<longleftrightarrow>
      align_phase z a \<le> i \<and> (i - align_phase z a) AND (a - 1) = 0" .
  have inside: "block (z_base z + i * PAGE_SIZE) n \<subseteq> zone_range z \<longleftrightarrow> i + n \<le> z_num_pages z"
    using n by (auto simp: zone_range_def block_def)
  have free: "block (z_base z + i * PAGE_SIZE) n \<inter> zone_live z = {} \<longleftrightarrow> run_free z i n"
    if "i + n \<le> z_num_pages z"
  proof
    assume dis: "block (z_base z + i * PAGE_SIZE) n \<inter> zone_live z = {}"
    show "run_free z i n"
      unfolding run_free_def
    proof (intro allI impI notI)
      fix j assume j: "j < n" "bit_get z (i + j)"
      let ?a = "z_base z + (i + j) * PAGE_SIZE"
      have "?a \<in> block (z_base z + i * PAGE_SIZE) n" "?a \<in> zone_live z"
        using j that by (simp_all add: in_block_run zone_live_iff taken_def)
      with dis show False by blast
    qed
  next
    assume rf: "run_free z i n"
    show "block (z_base z + i * PAGE_SIZE) n \<inter> zone_live z = {}"
    proof (rule ccontr)
      assume "\<not> ?thesis"
      then obtain x where "x \<in> block (z_base z + i * PAGE_SIZE) n" "x \<in> zone_live z" by blast
      then obtain k where "i \<le> k" "k < i + n" "bit_get z k"
        by (auto simp: in_block_run zone_live_iff taken_def)
      with rf show False by (metis add_diff_inverse_nat linorder_not_le nat_add_left_cancel_less run_free_def)
    qed
  qed
  from al inside free show ?thesis by (auto simp: fits_at_def placeable_def)
qed


lemma placeable_index:
  assumes "placeable z n a p" and "0 < n" and "wf_zone z"
  obtains i where "p = z_base z + i * PAGE_SIZE"
proof -
  have "p \<in> block p n" using assms(2) by (simp add: block_def)
  then have "z_base z \<le> p" using assms(1) by (auto simp: placeable_def zone_range_def block_def)
  moreover have "PAGE_SIZE dvd p" using assms(1) by (auto simp: placeable_def elim: dvd_mult_right)
  moreover have "PAGE_SIZE dvd z_base z" using assms(3) by (simp add: wf_zone_def)
  ultimately have "PAGE_SIZE dvd p - z_base z" by (simp add: dvd_diff_nat)
  then obtain i where "p - z_base z = PAGE_SIZE * i" by (elim dvdE)
  with \<open>z_base z \<le> p\<close> have "p = z_base z + i * PAGE_SIZE" by simp
  then show thesis by (rule that)
qed

section \<open>One allocation and one free\<close>

lemma zone_live_claim_run:
  assumes "wf_zone z" and "i + n \<le> z_num_pages z"
  shows "zone_live (claim_run z i n c) = zone_live z \<union> block (z_base z + i * PAGE_SIZE) n"
  unfolding set_eq_iff Un_iff zone_live_iff in_block_run claim_run_simps taken_claim_run [OF assms]
  by auto

lemma zone_alloc_SomeD:
  assumes wf: "wf_zone z" and a: "a < 2 ^ 20" and res: "zone_alloc z n a c = (Some p, z')"
  shows "0 < n \<and> is_pow2 a \<and> placeable z n a p \<and> (\<forall>q < p. \<not> placeable z n a q) \<and> wf_zone z'
     \<and> zone_range z' = zone_range z \<and> z_base z' = z_base z \<and> z_num_pages z' = z_num_pages z
     \<and> zone_live z' = zone_live z \<union> block p n"
proof -
  let ?ph = "align_phase z a"
  from res have n: "0 < n" and pow: "is_pow2 a"
    by (auto simp: zone_alloc_def is_pow2_def split: if_splits)
  from res obtain i where i: "zone_scan z n a ?ph ?ph = Some i" "p = z_base z + i * PAGE_SIZE"
      "z' = claim_run z i n c"
    by (auto simp: zone_alloc_def Let_def split: if_splits option.splits)
  note scan = zone_scan_SomeD [OF i(1)]
  note iff = fits_at_iff_placeable [OF wf pow a n]
  have fit: "i + n \<le> z_num_pages z" "run_free z i n" using scan by (auto simp: fits_at_def)
  have "placeable z n a p" using scan iff i by simp
  moreover have "\<not> placeable z n a q" if "q < p" for q
  proof
    assume pl: "placeable z n a q"
    then obtain j where j: "q = z_base z + j * PAGE_SIZE" using n wf by (rule placeable_index)
    with that i have "j < i" by simp
    moreover have "fits_at z n a ?ph j" using iff pl j by simp
    ultimately show False using scan by blast
  qed
  ultimately show ?thesis
    using n pow i fit wf zone_live_claim_run [OF wf fit(1)] wf_claim_run [OF wf fit n]
    by (simp add: zone_range_def)
qed

lemma zone_alloc_NoneD:
  assumes wf: "wf_zone z" and a: "a < 2 ^ 20" "is_pow2 a" and n: "0 < n"
    and res: "zone_alloc z n a c = (None, z')"
  shows "z' = z \<and> \<not> placeable z n a p"
proof -
  let ?ph = "align_phase z a"
  have pow: "a \<noteq> 0" "a AND (a - 1) = 0" using a(2) by (auto simp: is_pow2_def)
  have "\<not> placeable z n a p"
  proof
    assume pl: "placeable z n a p"
    then obtain j where j: "p = z_base z + j * PAGE_SIZE" using n wf by (rule placeable_index)
    with pl have fit: "fits_at z n a ?ph j" by (simp add: fits_at_iff_placeable [OF wf a(2,1) n])
    then have "n \<le> z_num_pages z" by (simp add: fits_at_def)
    with res n pow have "zone_scan z n a ?ph ?ph = None"
      by (auto simp: zone_alloc_def Let_def split: if_splits option.splits)
    with fit show False using zone_scan_NoneD by blast
  qed
  with res show ?thesis by (auto simp: zone_alloc_def Let_def split: if_splits option.splits)
qed

lemma zone_alloc_None_same: "zone_alloc z n a c = (None, z') \<Longrightarrow> z' = z"
  by (auto simp: zone_alloc_def Let_def split: if_splits option.splits)

lemma zone_free_Some:
  assumes wf: "wf_zone z" and fit: "i + n \<le> z_num_pages z"
  shows "\<exists>z'. zone_free z (z_base z + i * PAGE_SIZE) n = Some z' \<and> wf_zone z'
     \<and> zone_range z' = zone_range z \<and> z_base z' = z_base z \<and> z_num_pages z' = z_num_pages z
     \<and> zone_live z' = zone_live z - block (z_base z + i * PAGE_SIZE) n"
proof -
  have small: "z_num_pages z \<le> z_max_pages z" "z_num_pages z * PAGE_SIZE < 4294967296"
    using wf by (auto simp: wf_zone_def)
  then have nowrap: "wrap32 (i + n) = i + n" using fit by simp
  obtain z' where z': "free_pages z i n = Some z'" "wf_zone z'" "z_base z' = z_base z"
      "z_num_pages z' = z_num_pages z"
      "\<And>k. bit_get z' k \<longleftrightarrow> bit_get z k \<and> \<not> (i \<le> k \<and> k < i + n)"
    using free_pages_Some [OF wf, of i n] fit small by auto
  have "zone_free z (z_base z + i * PAGE_SIZE) n = Some z'"
    using z'(1) fit by (simp add: zone_free_def Let_def nowrap)
  moreover have "zone_live z' = zone_live z - block (z_base z + i * PAGE_SIZE) n"
    unfolding set_eq_iff Diff_iff zone_live_iff in_block_run
    using z' by (auto simp: taken_def)
  ultimately show ?thesis using z' by (auto simp: zone_range_def)
qed


section \<open>The two zones together\<close>

definition palloc_inv :: "palloc \<Rightarrow> bool" where
  [wf_simps]: "palloc_inv s \<longleftrightarrow>
     wf_zone (pa_fast s) \<and> (0 < z_num_pages (pa_fast s) \<longrightarrow> 0 < z_base (pa_fast s))
     \<and> (\<forall>b. pa_bulk s = Some b \<longrightarrow>
          wf_zone b \<and> (0 < z_num_pages b \<longrightarrow> 0 < z_base b)
          \<and> zone_range (pa_fast s) \<inter> zone_range b = {})"

definition live :: "palloc \<Rightarrow> nat set" where
  "live s = zone_live (pa_fast s) \<union> (case pa_bulk s of None \<Rightarrow> {} | Some b \<Rightarrow> zone_live b)"

text \<open>The block lies inside one of the zones, on a page boundary.\<close>

definition in_one_zone :: "palloc \<Rightarrow> nat \<Rightarrow> nat \<Rightarrow> bool" where
  "in_one_zone s p n \<longleftrightarrow> 0 < n \<and> PAGE_SIZE dvd p
     \<and> (block p n \<subseteq> zone_range (pa_fast s)
        \<or> (\<exists>b. pa_bulk s = Some b \<and> block p n \<subseteq> zone_range b))"

text \<open>What any successful allocation of the module guarantees, stated on the state before and after.\<close>

definition alloc_post :: "palloc \<Rightarrow> nat \<Rightarrow> nat \<Rightarrow> nat \<Rightarrow> palloc \<Rightarrow> bool" where
  "alloc_post s n align_pages p s' \<longleftrightarrow>
     palloc_inv s' \<and> p \<noteq> 0 \<and> align_pages * PAGE_SIZE dvd p \<and> in_one_zone s p n
     \<and> block p n \<inter> live s = {} \<and> live s' = live s \<union> block p n
     \<and> (\<forall>a \<in> block p n. pa_mem s' a = 0) \<and> (\<forall>a. a \<notin> block p n \<longrightarrow> pa_mem s' a = pa_mem s a)
     \<and> (\<forall>q m. in_one_zone s' q m \<longleftrightarrow> in_one_zone s q m)"

lemma alloc_fast_post:
  assumes inv: "palloc_inv s" and a: "a < 2 ^ 20" and res: "alloc_fast s n a c = (Some p, s')"
  shows "alloc_post s n a p s'"
proof -
  from res obtain z where za: "zone_alloc (pa_fast s) n a c = (Some p, z)"
    and s': "s' = s\<lparr>pa_fast := z, pa_mem := zone_zero z p (n * PAGE_SIZE) (pa_mem s)\<rparr>"
    by (auto simp: alloc_fast_def split: prod.splits option.splits)
  have wf: "wf_zone (pa_fast s)" using inv by (simp add: palloc_inv_def)
  note z = zone_alloc_SomeD [OF wf a za]
  then have pl: "placeable (pa_fast s) n a p" and n: "0 < n" by simp_all
  have p: "p \<in> block p n" using n by (simp add: block_def)
  with pl have "p \<in> zone_range (pa_fast s)" by (auto simp: placeable_def)
  then have "0 < z_base (pa_fast s)" "z_base (pa_fast s) \<le> p"
    using inv by (auto simp: palloc_inv_def zone_range_def block_def)
  then have "p \<noteq> 0" by simp
  moreover have "PAGE_SIZE dvd p" using pl by (auto simp: placeable_def elim: dvd_mult_right)
  moreover have "block p n \<inter> live s = {}"
    using pl inv zone_live_range by (fastforce simp: placeable_def live_def palloc_inv_def split: option.splits)
  moreover have "palloc_inv s'" using z inv s' by (auto simp: palloc_inv_def)
  moreover have "live s' = live s \<union> block p n" using z s' by (auto simp: live_def)
  ultimately show ?thesis
    using pl z n s' by (auto simp: alloc_post_def in_one_zone_def placeable_def zone_zero_def block_def)
qed

lemma bulk_alloc_post:
  assumes inv: "palloc_inv s" and a: "a < 2 ^ 20"
    and res: "palloc_pages_bulk_aligned s n a c = (Some p, s')"
  shows "alloc_post s n a p s'"
proof (cases "\<exists>b b'. pa_bulk s = Some b \<and> z_num_pages b \<noteq> 0 \<and> zone_alloc b n a c = (Some p, b')
    \<and> s' = s\<lparr>pa_bulk := Some b', pa_mem := zone_zero b' p (n * PAGE_SIZE) (pa_mem s)\<rparr>")
  case True
  then obtain b b' where b: "pa_bulk s = Some b" and nb: "z_num_pages b \<noteq> 0"
    and za: "zone_alloc b n a c = (Some p, b')"
    and s': "s' = s\<lparr>pa_bulk := Some b', pa_mem := zone_zero b' p (n * PAGE_SIZE) (pa_mem s)\<rparr>"
    by blast
  have wf: "wf_zone b" using inv b by (simp add: palloc_inv_def)
  note z = zone_alloc_SomeD [OF wf a za]
  then have pl: "placeable b n a p" and n: "0 < n" by simp_all
  have p: "p \<in> block p n" using n by (simp add: block_def)
  with pl have "p \<in> zone_range b" by (auto simp: placeable_def)
  then have "0 < z_base b" "z_base b \<le> p"
    using inv b by (auto simp: palloc_inv_def zone_range_def block_def)
  then have "p \<noteq> 0" by simp
  moreover have "PAGE_SIZE dvd p" using pl by (auto simp: placeable_def elim: dvd_mult_right)
  moreover have "block p n \<inter> live s = {}"
    using pl inv b zone_live_range by (fastforce simp: placeable_def live_def palloc_inv_def)
  moreover have "palloc_inv s'" using z inv s' b by (auto simp: palloc_inv_def)
  moreover have "live s' = live s \<union> block p n" using z s' b by (auto simp: live_def)
  ultimately show ?thesis
    using pl z n s' b by (auto simp: alloc_post_def in_one_zone_def placeable_def zone_zero_def block_def)
next
  case False
  with res have "alloc_fast s n a c = (Some p, s')
      \<or> (\<exists>t f. alloc_fast s n a c = (Some p, t) \<and> s' = t\<lparr>pa_fallbacks := f\<rparr>)"
    by (auto simp: palloc_pages_bulk_aligned_def split: option.splits prod.splits if_splits)
  then show ?thesis
  proof
    assume "alloc_fast s n a c = (Some p, s')"
    with inv a show ?thesis by (rule alloc_fast_post)
  next
    assume "\<exists>t f. alloc_fast s n a c = (Some p, t) \<and> s' = t\<lparr>pa_fallbacks := f\<rparr>"
    then obtain t f where fast: "alloc_fast s n a c = (Some p, t)" and s': "s' = t\<lparr>pa_fallbacks := f\<rparr>"
      by blast
    from alloc_fast_post [OF inv a fast] s' show ?thesis
      by (simp add: alloc_post_def palloc_inv_def live_def in_one_zone_def)
  qed
qed

lemma alloc_None_unchanged:
  "alloc_fast s n a c = (None, s') \<Longrightarrow> s' = s"
  "palloc_pages_bulk_aligned s n a c = (None, s') \<Longrightarrow> s' = s"
  by (auto simp: alloc_fast_def palloc_pages_bulk_aligned_def
      split: option.splits prod.splits if_splits)

lemma palloc_free_block:
  assumes inv: "palloc_inv s" and blk: "in_one_zone s p n"
  shows "\<exists>s'. palloc_free s p n = Some s' \<and> palloc_inv s' \<and> live s' = live s - block p n
     \<and> pa_mem s' = pa_mem s \<and> pa_fallbacks s' = pa_fallbacks s
     \<and> (\<forall>q m. in_one_zone s' q m \<longleftrightarrow> in_one_zone s q m)"
proof -
  have n: "0 < n" and pg: "PAGE_SIZE dvd p" using blk by (auto simp: in_one_zone_def)
  have p: "p \<in> block p n" using n by (simp add: block_def)
  have pos: "0 < p \<and> in_zone z p \<and> (\<exists>i. p = z_base z + i * PAGE_SIZE \<and> i + n \<le> z_num_pages z)"
    if sub: "block p n \<subseteq> zone_range z" and wf: "wf_zone z" and b0: "0 < z_num_pages z \<longrightarrow> 0 < z_base z" for z
  proof -
    have r: "z_base z \<le> p" "p < z_base z + z_num_pages z * PAGE_SIZE"
      using sub p by (auto simp: zone_range_def block_def)
    moreover have "z_base z + z_num_pages z * PAGE_SIZE < 4294967296" using wf by (simp add: wf_zone_def)
    moreover have "PAGE_SIZE dvd p - z_base z" using pg wf by (simp add: wf_zone_def dvd_diff_nat)
    then obtain i where "p - z_base z = PAGE_SIZE * i" by (elim dvdE)
    with r have i: "p = z_base z + i * PAGE_SIZE" by simp
    have "p + (n * PAGE_SIZE - 1) \<in> block p n" using n by (simp add: block_def)
    with sub have "p + (n * PAGE_SIZE - 1) \<in> zone_range z" by blast
    then have "i + n \<le> z_num_pages z" using n i by (auto simp: zone_range_def block_def)
    ultimately show ?thesis using i b0 by (auto simp: in_zone_def)
  qed
  show ?thesis
  proof (cases "block p n \<subseteq> zone_range (pa_fast s)")
    case True
    have wf: "wf_zone (pa_fast s)" using inv by (simp add: palloc_inv_def)
    from pos [OF True wf] inv obtain i where i: "0 < p" "in_zone (pa_fast s) p"
      "p = z_base (pa_fast s) + i * PAGE_SIZE" "i + n \<le> z_num_pages (pa_fast s)"
      by (auto simp: palloc_inv_def)
    from zone_free_Some [OF wf i(4)] i obtain z' where z': "zone_free (pa_fast s) p n = Some z'"
      "wf_zone z'" "zone_range z' = zone_range (pa_fast s)" "z_base z' = z_base (pa_fast s)"
      "z_num_pages z' = z_num_pages (pa_fast s)" "zone_live z' = zone_live (pa_fast s) - block p n"
      by auto
    have "palloc_free s p n = Some (s\<lparr>pa_fast := z'\<rparr>)"
      using i(1,2) n z'(1) by (simp add: palloc_free_def zone_of_def)
    moreover have "zone_live b \<inter> block p n = {}" if "pa_bulk s = Some b" for b
      using True that inv zone_live_range [of b] by (auto simp: palloc_inv_def)
    ultimately show ?thesis
      using inv z' by (auto simp: palloc_inv_def live_def in_one_zone_def split: option.splits)
  next
    case False
    then obtain b where b: "pa_bulk s = Some b" and sub: "block p n \<subseteq> zone_range b"
      using blk by (auto simp: in_one_zone_def)
    have wf: "wf_zone b" "zone_range (pa_fast s) \<inter> zone_range b = {}"
      using inv b by (auto simp: palloc_inv_def)
    from pos [OF sub wf(1)] inv b obtain i where i: "0 < p" "in_zone b p"
      "p = z_base b + i * PAGE_SIZE" "i + n \<le> z_num_pages b"
      by (auto simp: palloc_inv_def)
    from zone_free_Some [OF wf(1) i(4)] i obtain z' where z': "zone_free b p n = Some z'"
      "wf_zone z'" "zone_range z' = zone_range b" "z_base z' = z_base b"
      "z_num_pages z' = z_num_pages b" "zone_live z' = zone_live b - block p n"
      by auto
    have "p \<notin> zone_range (pa_fast s)" using wf(2) sub p by auto
    moreover have "z_base (pa_fast s) + z_num_pages (pa_fast s) * PAGE_SIZE < 4294967296"
      using inv by (simp add: palloc_inv_def wf_zone_def)
    ultimately have "\<not> in_zone (pa_fast s) p" by (auto simp: in_zone_def zone_range_def block_def)
    moreover have "z_num_pages b \<noteq> 0" using i n by simp
    ultimately have "palloc_free s p n = Some (s\<lparr>pa_bulk := Some z'\<rparr>)"
      using i(1,2) n z'(1) b by (simp add: palloc_free_def zone_of_def)
    moreover have "zone_live (pa_fast s) \<inter> block p n = {}"
      using sub wf(2) zone_live_range [of "pa_fast s"] by auto
    ultimately show ?thesis
      using inv z' b by (auto simp: palloc_inv_def live_def in_one_zone_def)
  qed
qed


section \<open>Boot and the ownership of blocks\<close>

lemma page_up_dvd [simp]: "PAGE_SIZE dvd page_up a"
  by (simp add: page_up_def)

lemma page_up_pos: "0 < a \<Longrightarrow> a \<le> 4294963200 \<Longrightarrow> 0 < page_up a"
  by (simp add: page_up_def)

lemma page_up_aligned: "PAGE_SIZE dvd a \<Longrightarrow> a < 4294967296 \<Longrightarrow> page_up a = a"
  by (elim dvdE) (simp add: page_up_def)

lemma zone_setup_wf:
  assumes "stop < 4294967296"
  shows "wf_zone (zone_setup z start stop)" and "zone_live (zone_setup z start stop) = {}"
    and "z_base (zone_setup z start stop) = page_up start"
    and "0 < z_num_pages (zone_setup z start stop) \<Longrightarrow>
         page_up start + z_num_pages (zone_setup z start stop) * PAGE_SIZE \<le> page_down stop"
proof -
  let ?z = "zone_setup z start stop"
  have base: "z_base ?z = page_up start" and max: "z_max_pages ?z = z_max_pages z"
    and used: "z_used_pages ?z = 0" and peak: "z_peak_used ?z = 0"
    and bm: "z_bitmap ?z = replicate ((z_max_pages z + 7) div 8) 0"
    and ow: "z_owner ?z = replicate (z_max_pages z) 0"
    by (simp_all add: zone_setup_def Let_def)
  have num: "z_num_pages ?z \<le> z_max_pages z" by (simp add: zone_setup_def Let_def)
  have nobit: "\<not> bit_get ?z i" if "i < z_max_pages z" for i
    using that by (simp add: bit_get_iff bm)
  then have taken: "taken ?z = {}" using num by (auto simp: taken_def)
  show "z_base ?z = page_up start" by (rule base)
  show "zone_live ?z = {}" using taken by (simp add: zone_live_def)
  have fits: "page_up start + z_num_pages ?z * PAGE_SIZE \<le> page_down stop" if "0 < z_num_pages ?z"
  proof -
    have gt: "page_up start < page_down stop"
      using that by (auto simp: zone_setup_def Let_def split: if_splits)
    have "z_num_pages ?z \<le> (page_down stop - page_up start) div PAGE_SIZE"
      by (simp add: zone_setup_def Let_def)
    then have "z_num_pages ?z * PAGE_SIZE \<le> page_down stop - page_up start"
      by (simp add: less_eq_div_iff_mult_less_eq)
    with gt show ?thesis by simp
  qed
  then show "0 < z_num_pages ?z \<Longrightarrow> page_up start + z_num_pages ?z * PAGE_SIZE \<le> page_down stop" .
  have "page_up start \<le> wrap32 (start + (PAGE_SIZE - 1))" by (simp add: page_up_def)
  then have "page_up start < 4294967296" using wrap32_less order_le_less_trans by blast
  moreover have "page_down stop < 4294967296"
    using assms by (simp add: page_down_def order_le_less_trans [OF div_times_less_eq_dividend])
  ultimately have "z_base ?z + z_num_pages ?z * PAGE_SIZE < 4294967296"
    using fits base by (cases "z_num_pages ?z = 0") auto
  then show "wf_zone ?z"
    using num nobit taken by (simp add: wf_zone_def base max used peak bm ow)
qed

lemma zone_setup_num_0: "page_down stop \<le> page_up start \<Longrightarrow> z_num_pages (zone_setup z start stop) = 0"
  by (simp add: zone_setup_def Let_def)

lemma block_0 [simp]: "block p 0 = {}"
  by (simp add: block_def)

text \<open>
  The states a run of the kernel reaches, each with the set of blocks handed out and not yet given
  back: \<open>(p, n)\<close> is the caller's pointer and page count.  A caller frees what it was given.
\<close>

inductive owned :: "palloc_config \<Rightarrow> palloc \<Rightarrow> (nat \<times> nat) set \<Rightarrow> bool" for cfg :: palloc_config where
  boot: "0 < start \<Longrightarrow> start \<le> 4294963200 \<Longrightarrow> stop < 4294967296 \<Longrightarrow>
    owned cfg (palloc_init cfg (palloc_boot cfg mem) start stop) {}"
| psram_up: "owned cfg s B \<Longrightarrow> pa_bulk s = Some b \<Longrightarrow> z_num_pages b = 0 \<Longrightarrow>
    0 < start \<Longrightarrow> start \<le> 4294963200 \<Longrightarrow> stop < 4294967296 \<Longrightarrow>
    zone_range (pa_fast s) \<inter> {start..<stop} = {} \<Longrightarrow>
    owned cfg (palloc_init_bulk s start stop delta) B"
| pages: "owned cfg s B \<Longrightarrow> palloc_pages s n c = (Some p, s') \<Longrightarrow> owned cfg s' (insert (p, n) B)"
| aligned: "owned cfg s B \<Longrightarrow> a < 2 ^ 20 \<Longrightarrow> palloc_pages_aligned s n a c = (Some p, s') \<Longrightarrow>
    owned cfg s' (insert (p, n) B)"
| bulk: "owned cfg s B \<Longrightarrow> palloc_pages_bulk s n c = (Some p, s') \<Longrightarrow> owned cfg s' (insert (p, n) B)"
| bulk_aligned: "owned cfg s B \<Longrightarrow> a < 2 ^ 20 \<Longrightarrow> palloc_pages_bulk_aligned s n a c = (Some p, s') \<Longrightarrow>
    owned cfg s' (insert (p, n) B)"
| free: "owned cfg s B \<Longrightarrow> (p, n) \<in> B \<Longrightarrow> palloc_free s p n = Some s' \<Longrightarrow>
    owned cfg s' (B - {(p, n)})"

definition blk :: "nat \<times> nat \<Rightarrow> nat set" where
  "blk x = block (fst x) (snd x)"

definition owned_inv :: "palloc \<Rightarrow> (nat \<times> nat) set \<Rightarrow> bool" where
  "owned_inv s B \<longleftrightarrow> palloc_inv s \<and> live s = (\<Union>x \<in> B. blk x)
     \<and> (\<forall>x \<in> B. in_one_zone s (fst x) (snd x))
     \<and> (\<forall>x \<in> B. \<forall>y \<in> B. x \<noteq> y \<longrightarrow> blk x \<inter> blk y = {})"

lemma owned_invD:
  assumes "owned_inv s B"
  shows "palloc_inv s" and "live s = (\<Union>x \<in> B. blk x)"
    and "x \<in> B \<Longrightarrow> in_one_zone s (fst x) (snd x)"
    and "x \<in> B \<Longrightarrow> y \<in> B \<Longrightarrow> x \<noteq> y \<Longrightarrow> blk x \<inter> blk y = {}"
  using assms unfolding owned_inv_def by blast+

lemma owned_inv_alloc:
  assumes inv: "owned_inv s B" and post: "alloc_post s n a p s'"
  shows "owned_inv s' (insert (p, n) B)"
proof -
  have dis: "blk (p, n) \<inter> blk x = {}" if "x \<in> B" for x
  proof -
    have "blk (p, n) \<inter> live s = {}" using post by (simp add: alloc_post_def blk_def)
    then show ?thesis using that owned_invD(2) [OF inv] by blast
  qed
  have "live s' = (\<Union>x \<in> insert (p, n) B. blk x)"
    using post owned_invD(2) [OF inv] by (auto simp: alloc_post_def blk_def)
  moreover have "in_one_zone s' (fst x) (snd x)" if "x \<in> insert (p, n) B" for x
    using that post owned_invD(3) [OF inv, of x] by (auto simp: alloc_post_def)
  moreover have "blk x \<inter> blk y = {}" if "x \<in> insert (p, n) B" "y \<in> insert (p, n) B" "x \<noteq> y" for x y
    using that dis owned_invD(4) [OF inv, of x y] by blast
  moreover have "palloc_inv s'" using post by (simp add: alloc_post_def)
  ultimately show ?thesis unfolding owned_inv_def by blast
qed

lemma owned_inv_free:
  assumes inv: "owned_inv s B" and mem: "(p, n) \<in> B" and res: "palloc_free s p n = Some s'"
  shows "owned_inv s' (B - {(p, n)})"
proof -
  have "palloc_inv s" "in_one_zone s p n" using owned_invD(1,3) [OF inv] mem by force+
  from palloc_free_block [OF this] res have s': "palloc_inv s'" "live s' = live s - block p n"
    "\<And>q m. in_one_zone s' q m \<longleftrightarrow> in_one_zone s q m" by auto
  have dis: "blk x \<inter> blk (p, n) = {}" if "x \<in> B" "x \<noteq> (p, n)" for x
    using owned_invD(4) [OF inv that(1) mem that(2)] .
  have "live s' = (\<Union>x \<in> B. blk x) - blk (p, n)"
    using s'(2) owned_invD(2) [OF inv] by (simp add: blk_def)
  also have "\<dots> = (\<Union>x \<in> B - {(p, n)}. blk x)" using dis by blast
  finally have "live s' = (\<Union>x \<in> B - {(p, n)}. blk x)" .
  moreover have "in_one_zone s' (fst x) (snd x)" if "x \<in> B" for x
    unfolding s'(3) using that by (rule owned_invD(3) [OF inv])
  moreover have "blk x \<inter> blk y = {}" if "x \<in> B" "y \<in> B" "x \<noteq> y" for x y
    using that by (rule owned_invD(4) [OF inv])
  ultimately show ?thesis using s'(1) unfolding owned_inv_def by blast
qed

lemma palloc_init_inv:
  assumes "0 < start" and "start \<le> 4294963200" and "stop < 4294967296"
  shows "owned_inv (palloc_init cfg (palloc_boot cfg mem) start stop) {}"
proof -
  define e where "e = heap_capped cfg start stop"
  define F where "F = zone_setup (blank_zone (cfg_max_pages cfg)) start e"
  have e: "e < 4294967296"
    using assms(3) by (auto simp: e_def heap_capped_def Let_def split: option.splits)
  note F = zone_setup_wf [OF e, where z = "blank_zone (cfg_max_pages cfg)" and start = start, folded F_def]
  have Fbase: "0 < z_base F" using F(3) page_up_pos [OF assms(1,2)] by simp
  have Fend: "z_base F + z_num_pages F * PAGE_SIZE < 4294967296" using F(1) by (simp add: wf_zone_def)
  have blank: "wf_zone (blank_zone m)" "zone_range (blank_zone m) = {}" "zone_live (blank_zone m) = {}"
    "z_num_pages (blank_zone m) = 0" for m
    by (auto simp: wf_zone_def blank_zone_def bit_get_iff taken_def zone_range_def zone_live_def)
  let ?s1 = "(palloc_boot cfg mem)\<lparr>pa_fast := F\<rparr>"
  have s1: "owned_inv ?s1 {}"
    using F Fbase blank by (auto simp: owned_inv_def palloc_inv_def live_def palloc_boot_def split: option.splits)
  show ?thesis
  proof (cases "cfg_bulk_pages cfg")
    case None
    with s1 show ?thesis
      by (simp add: palloc_init_def Let_def palloc_boot_def e_def [symmetric] F_def [symmetric])
  next
    case (Some m)
    define fe where "fe = z_base F + z_num_pages F * PAGE_SIZE"
    define want where "want = wrap32 (fe + m * PAGE_SIZE)"
    define G where "G = (zone_setup (blank_zone m) fe want)\<lparr>z_uncached_delta := 0\<rparr>"
    have fe: "fe < 4294967296" "0 < fe" "PAGE_SIZE dvd fe"
      using Fend Fbase F(1) by (simp_all add: fe_def wf_zone_def)
    have w: "want < 4294967296" by (simp add: want_def)
    have G: "wf_zone G" "zone_live G = {}" "z_base G = fe"
      using zone_setup_wf(1-3) [OF w, where z = "blank_zone m" and start = fe] fe
      by (simp_all add: G_def wf_zone_def zone_live_def taken_def bit_get_def page_up_aligned)
    have "zone_range F \<inter> zone_range G = {}"
      using G(3) by (auto simp: zone_range_def block_def fe_def)
    then have "owned_inv (?s1\<lparr>pa_bulk := Some G\<rparr>) {}"
      using s1 G fe(2) by (auto simp: owned_inv_def palloc_inv_def live_def palloc_boot_def)
    moreover have "palloc_init cfg (palloc_boot cfg mem) start stop = ?s1 \<or>
       palloc_init cfg (palloc_boot cfg mem) start stop = ?s1\<lparr>pa_bulk := Some G\<rparr>"
      using Some fe(1)
      by (simp add: palloc_init_def Let_def palloc_boot_def palloc_init_bulk_def
          e_def [symmetric] F_def [symmetric] fe_def [symmetric] want_def [symmetric] G_def [symmetric])
    ultimately show ?thesis using s1 by metis
  qed
qed

lemma palloc_init_bulk_inv:
  assumes inv: "owned_inv s B" and b: "pa_bulk s = Some b" "z_num_pages b = 0"
    and r: "0 < start" "start \<le> 4294963200" "stop < 4294967296"
    and dis: "zone_range (pa_fast s) \<inter> {start..<stop} = {}"
  shows "owned_inv (palloc_init_bulk s start stop delta) B"
proof -
  define G where "G = (zone_setup b start stop)\<lparr>z_uncached_delta := delta\<rparr>"
  note Z = zone_setup_wf [OF r(3), where z = b and start = start]
  have G: "wf_zone G" "zone_live G = {}" "z_base G = page_up start"
    using Z(1-3) by (simp_all add: G_def wf_zone_def zone_live_def taken_def bit_get_def)
  have up: "start \<le> page_up start"
    using r(2) by (simp add: page_up_def)
  have down: "page_down stop \<le> stop" by (simp add: page_down_def)
  have "zone_range G \<subseteq> {start..<stop}"
    using Z(4) up down G(3)
    by (cases "z_num_pages G = 0") (auto simp: zone_range_def block_def G_def)
  with dis have "zone_range (pa_fast s) \<inter> zone_range G = {}" by blast
  moreover have "zone_live b = {}" "zone_range b = {}"
    using b(2) by (simp_all add: zone_live_def taken_def zone_range_def)
  moreover have "palloc_init_bulk s start stop delta = s\<lparr>pa_bulk := Some G\<rparr>"
    using b by (simp add: palloc_init_bulk_def G_def)
  moreover have "0 < z_base G" using G(3) page_up_pos [OF r(1,2)] by simp
  moreover have "\<not> block p n \<subseteq> {}" if "0 < n" for p n using that by (simp add: block_def)
  ultimately show ?thesis
    using inv b G unfolding owned_inv_def palloc_inv_def live_def in_one_zone_def by fastforce
qed


lemma owned_reach: "owned cfg s B \<Longrightarrow> owned_inv s B"
proof (induction rule: owned.induct)
  case (boot start stop mem)
  then show ?case by (rule palloc_init_inv)
next
  case (psram_up s B b start stop delta)
  then show ?case by (blast intro: palloc_init_bulk_inv)
next
  case (pages s B n c p s')
  then show ?case
    by (intro owned_inv_alloc [where a = 1 and s = s] alloc_fast_post [where c = c])
      (auto simp: palloc_pages_def dest: owned_invD(1))
next
  case (aligned s B a n c p s')
  then show ?case
    by (intro owned_inv_alloc [where a = a and s = s] alloc_fast_post [where c = c])
      (auto simp: palloc_pages_aligned_def dest: owned_invD(1))
next
  case (bulk s B n c p s')
  then show ?case
    by (intro owned_inv_alloc [where a = 1 and s = s] bulk_alloc_post [where c = c])
      (auto simp: palloc_pages_bulk_def dest: owned_invD(1))
next
  case (bulk_aligned s B a n c p s')
  then show ?case
    by (intro owned_inv_alloc [where a = a and s = s] bulk_alloc_post [where c = c])
      (auto dest: owned_invD(1))
next
  case (free s B p n s')
  then show ?case by (blast intro: owned_inv_free)
qed

interpretation palloc_source: page_source "\<lambda>s n a. palloc_pages_aligned s n a caller" palloc_inv live pa_mem
  for caller
proof
  fix s n a p s'
  assume inv: "palloc_inv s" and a: "a < 2 ^ 20" and res: "palloc_pages_aligned s n a caller = (Some p, s')"
  have post: "alloc_post s n a p s'"
    using alloc_fast_post [OF inv a] res by (simp add: palloc_pages_aligned_def)
  have blk: "run_bytes p n = block p n" by (simp add: run_bytes_def block_def)
  from post show "palloc_inv s'" "a * 4096 dvd p" by (auto simp: alloc_post_def)
  from post show "run_bytes p n \<inter> live s = {} \<and> live s' = live s \<union> run_bytes p n"
    by (simp add: alloc_post_def blk)
  show "0 < p \<and> p + n * 4096 < 2 ^ 32"
  proof -
    have "\<exists>z. wf_zone z \<and> block p n \<subseteq> zone_range z" "0 < n" "p \<noteq> 0"
      using post inv by (auto simp: alloc_post_def in_one_zone_def palloc_inv_def)
    then obtain z where z: "wf_zone z" "block p n \<subseteq> zone_range z" by blast
    obtain m where m: "n * PAGE_SIZE = Suc m" using \<open>0 < n\<close> by (cases "n * PAGE_SIZE") auto
    then have "p + m \<in> block p n" by (simp add: block_def)
    with z(2) have "p + m \<in> zone_range z" by blast
    then have "p + n * PAGE_SIZE \<le> z_base z + z_num_pages z * PAGE_SIZE"
      unfolding m by (simp add: zone_range_def block_def)
    with z(1) \<open>p \<noteq> 0\<close> show ?thesis by (simp add: wf_zone_def)
  qed
  fix x
  from post show "x \<in> run_bytes p n \<Longrightarrow> pa_mem s' x = 0" "x \<notin> run_bytes p n \<Longrightarrow> pa_mem s' x = pa_mem s x"
    by (auto simp: alloc_post_def blk)
next
  fix s s' n a
  assume "palloc_pages_aligned s n a caller = (None, s')"
  then show "s' = s" by (simp add: palloc_pages_aligned_def alloc_None_unchanged)
qed

interpretation palloc_memory: page_memory "\<lambda>s n a. palloc_pages_aligned s n a caller" palloc_inv live pa_mem
    pa_mem_update for caller
  by unfold_locales (simp_all add: palloc_inv_def live_def)

text \<open>The pages as a pool of blocks, for the clients that hold many.\<close>

interpretation kernel_pages: block_pool "\<lambda>s n. palloc_pages s n caller" palloc_free owned_inv for caller
proof
  fix s B n p s'
  assume inv: "owned_inv s B" and res: "palloc_pages s n caller = (Some p, s')"
  have post: "alloc_post s n 1 p s'"
    using alloc_fast_post [OF owned_invD(1) [OF inv], of 1 n caller p s'] res by (simp add: palloc_pages_def)
  have "blk (p, n) \<inter> live s = {}" "blk (p, n) \<noteq> {}"
    using post by (auto simp: alloc_post_def blk_def block_def in_one_zone_def)
  then have "(p, n) \<notin> B" using owned_invD(2) [OF inv] by blast
  with owned_inv_alloc [OF inv post] post
  show "owned_inv s' (insert (p, n) B) \<and> (p, n) \<notin> B \<and> p \<noteq> 0" by (simp add: alloc_post_def)
next
  fix s n s'
  assume "palloc_pages s n caller = (None, s')"
  then show "s' = s" by (auto simp: palloc_pages_def alloc_fast_def split: prod.splits option.splits)
next
  fix s B p n
  assume inv: "owned_inv s B" and mem: "(p, n) \<in> B"
  obtain s' where "palloc_free s p n = Some s'"
    using palloc_free_block [OF owned_invD(1) [OF inv], of p n] owned_invD(3) [OF inv mem] by auto
  with owned_inv_free [OF inv mem] show "\<exists>s'. palloc_free s p n = Some s' \<and> owned_inv s' (B - {(p, n)})" by blast
next
  fix s B x y
  assume "owned_inv s B" "x \<in> B" "y \<in> B" "(x :: nat \<times> nat) \<noteq> y"
  from owned_invD(4) [OF this]
  show "run_bytes (fst x) (snd x) \<inter> run_bytes (fst y) (snd y) = {}"
    by (simp add: blk_def block_def run_bytes_def)
qed

section \<open>Counting free pages\<close>

lemma run_free_0 [simp]: "run_free z i 0"
  by (simp add: run_free_def)

lemma run_free_Suc: "run_free z i (Suc n) \<longleftrightarrow> run_free z i n \<and> \<not> bit_get z (i + n)"
  by (auto simp: run_free_def less_Suc_eq)

lemma run_free_prefix: "run_free z i n \<Longrightarrow> m \<le> n \<Longrightarrow> run_free z i m"
  by (simp add: run_free_def)

text \<open>What the counting loop has established after the first \<open>k\<close> pages.\<close>

definition counts_inv :: "zone \<Rightarrow> nat \<Rightarrow> nat \<times> nat \<times> nat \<Rightarrow> bool" where
  "counts_inv z k = (\<lambda>(free, best, run).
     free + card {i. i < k \<and> bit_get z i} = k
     \<and> run \<le> k \<and> run_free z (k - run) run
     \<and> (\<forall>i n. i + n = k \<and> run_free z i n \<longrightarrow> n \<le> run)
     \<and> run \<le> best \<and> (\<exists>i. i + best \<le> k \<and> run_free z i best)
     \<and> (\<forall>i n. i + n \<le> k \<and> run_free z i n \<longrightarrow> n \<le> best))"

lemma counts_inv_step:
  assumes "counts_inv z k (free, best, run)"
  shows "counts_inv z (Suc k) (counts_step z (free, best, run) k)"
proof (cases "bit_get z k")
  case True
  have "{i. i < Suc k \<and> bit_get z i} = insert k {i. i < k \<and> bit_get z i}" using True by (auto simp: less_Suc_eq)
  then have card: "card {i. i < Suc k \<and> bit_get z i} = Suc (card {i. i < k \<and> bit_get z i})" by simp
  have last: "n = 0" if "i + n = Suc k" "run_free z i n" for i n
  proof (rule ccontr)
    assume "n \<noteq> 0"
    then obtain m where "n = Suc m" by (cases n) auto
    with that True show False by (simp add: run_free_Suc)
  qed
  have old: "n \<le> best" if "i + n \<le> k" "run_free z i n" for i n
    using that assms by (simp add: counts_inv_def)
  have all: "n \<le> best" if "i + n \<le> Suc k" "run_free z i n" for i n
  proof (cases "i + n = Suc k")
    case True
    then show ?thesis using last [OF True that(2)] by simp
  next
    case False
    with that(1) have "i + n \<le> k" by simp
    then show ?thesis using that(2) by (rule old)
  qed
  have parts: "free + card {i. i < k \<and> bit_get z i} = k" "\<exists>i. i + best \<le> k \<and> run_free z i best"
    using assms by (simp_all add: counts_inv_def)
  then have ex: "\<exists>i. i + best \<le> Suc k \<and> run_free z i best" by (auto intro: le_SucI)
  have "counts_inv z (Suc k) (free, best, 0)"
    using parts(1) card ex last all unfolding counts_inv_def by auto
  then show ?thesis using True by (simp add: counts_step_def)
next
  case False
  have "{i. i < Suc k \<and> bit_get z i} = {i. i < k \<and> bit_get z i}" using False by (auto simp: less_Suc_eq)
  then have card: "card {i. i < Suc k \<and> bit_get z i} = card {i. i < k \<and> bit_get z i}" by simp
  have run: "run \<le> k" "run_free z (k - run) run" using assms by (auto simp: counts_inv_def)
  with False have ext: "run_free z (k - run) (Suc run)" by (simp add: run_free_Suc)
  have last: "n \<le> Suc run" if "i + n = Suc k" "run_free z i n" for i n
  proof (cases n)
    case (Suc m)
    with that have "i + m = k" "run_free z i m" by (auto simp: run_free_Suc)
    with assms Suc show ?thesis by (auto simp: counts_inv_def)
  qed simp
  have old: "n \<le> best" if "i + n \<le> k" "run_free z i n" for i n
    using that assms by (simp add: counts_inv_def)
  have all: "n \<le> max best (Suc run)" if "i + n \<le> Suc k" "run_free z i n" for i n
    using that last [of i n] old [of i n] by (cases "i + n \<le> k") (simp_all add: max_def)
  have "\<exists>i. i + max best (Suc run) \<le> Suc k \<and> run_free z i (max best (Suc run))"
  proof (cases "best < Suc run")
    case True
    then have "max best (Suc run) = Suc run" by simp
    then show ?thesis using ext run(1) by (intro exI [of _ "k - run"]) simp
  next
    case False
    then have "max best (Suc run) = best" by simp
    then show ?thesis using assms by (auto simp: counts_inv_def intro: le_SucI)
  qed
  then have "counts_inv z (Suc k) (Suc free, max best (Suc run), Suc run)"
    using all last assms ext run card by (auto simp: counts_inv_def)
  moreover have "counts_step z (free, best, run) k = (Suc free, max best (Suc run), Suc run)"
    using False by (auto simp: counts_step_def)
  ultimately show ?thesis by simp
qed

lemma counts_inv_foldl: "counts_inv z k (foldl (counts_step z) (0, 0, 0) [0..<k])"
proof (induction k)
  case 0
  then show ?case by (simp add: counts_inv_def)
next
  case (Suc k)
  then show ?case by (cases "foldl (counts_step z) (0, 0, 0) [0..<k]") (simp add: counts_inv_step)
qed

lemma zone_counts_correct:
  assumes "zone_counts z = (free, largest)"
  shows "free + card (taken z) = z_num_pages z"
    and "\<exists>i. i + largest \<le> z_num_pages z \<and> run_free z i largest"
    and "i + n \<le> z_num_pages z \<Longrightarrow> run_free z i n \<Longrightarrow> n \<le> largest"
  using counts_inv_foldl [of z "z_num_pages z"] assms
  by (auto simp: zone_counts_def counts_inv_def taken_def split: prod.splits)


section \<open>Properties of the page allocator\<close>

text \<open>
  C1: Whatever the kernel does with the page allocator, the blocks it holds never overlap, each
  lies on page boundaries inside one zone, the allocator counts exactly their bytes as in use, and
  giving any of them back succeeds and frees exactly its bytes.
\<close>

theorem owned_blocks_disjoint:
  assumes "owned cfg s B"
  shows "live s = (\<Union>x \<in> B. blk x)
    \<and> (\<forall>x \<in> B. \<forall>y \<in> B. x \<noteq> y \<longrightarrow> blk x \<inter> blk y = {})
    \<and> (\<forall>(p, n) \<in> B. in_one_zone s p n
         \<and> (\<exists>s'. palloc_free s p n = Some s' \<and> live s' = live s - block p n))"
proof -
  have inv: "owned_inv s B" using assms by (rule owned_reach)
  have "\<exists>s'. palloc_free s p n = Some s' \<and> live s' = live s - block p n" if "(p, n) \<in> B" for p n
    using palloc_free_block [OF owned_invD(1) [OF inv], of p n] owned_invD(3) [OF inv that] by auto
  with inv show ?thesis by (auto simp: owned_inv_def)
qed

lemmas zone_eval = zone_alloc_def align_phase_def align_skew_def zone_scan.simps first_busy_def
  bit_get_iff upt_rec Let_def wrap32_def

definition demo_cfg :: palloc_config where
  "demo_cfg = \<lparr>cfg_max_pages = 8, cfg_bulk_pages = None, cfg_heap_cap = None, cfg_psram = False\<rparr>"

definition demo_boot :: palloc where
  "demo_boot = palloc_init demo_cfg (palloc_boot demo_cfg (\<lambda>_. 7)) 0x1234 0x6000"

lemma demo_boot_owned: "owned demo_cfg demo_boot {}"
  unfolding demo_boot_def by (rule owned.boot) simp_all

theorem owned_blocks_disjoint_witness:
  "owned demo_cfg (snd (palloc_pages_aligned demo_boot 2 2 0)) {(0x2000, 2)}
   \<and> live (snd (palloc_pages_aligned demo_boot 2 2 0)) = block 0x2000 2"
proof -
  have res: "fst (palloc_pages_aligned demo_boot 2 2 0) = Some 0x2000"
    by (simp add: palloc_pages_aligned_def demo_boot_def palloc_init_def palloc_boot_def demo_cfg_def
        Let_def heap_capped_def blank_zone_def zone_setup_def page_up_def page_down_def alloc_fast_def
        zone_eval)
  have own: "owned demo_cfg (snd (palloc_pages_aligned demo_boot 2 2 0)) (insert (0x2000, 2) {})"
    by (rule owned.aligned [OF demo_boot_owned, of 2 2 0]) (simp_all add: prod_eq_iff res)
  from owned_blocks_disjoint [OF own] own show ?thesis by (simp add: blk_def)
qed

text \<open>
  C32: A zone's allocation is exactly the lowest admissible block: whenever the zone holds an
  aligned run of free pages of the length asked for, the scan returns the one at the lowest
  address, and it fails only when there is none.
\<close>

theorem zone_alloc_first_fit:
  assumes "wf_zone z" and "0 < n" and "is_pow2 a" and "a < 2 ^ 20"
  shows "fst (zone_alloc z n a caller) =
    (if \<exists>p. placeable z n a p then Some (LEAST p. placeable z n a p) else None)"
proof (cases "zone_alloc z n a caller")
  case (Pair r z')
  show ?thesis
  proof (cases r)
    case None
    with Pair zone_alloc_NoneD [OF assms(1,4,3,2)] show ?thesis by auto
  next
    case (Some p)
    with Pair zone_alloc_SomeD [OF assms(1,4)] have "placeable z n a p" "\<forall>q < p. \<not> placeable z n a q"
      by blast+
    then have "(LEAST p. placeable z n a p) = p"
      by (intro Least_equality) (auto simp: not_less [symmetric])
    with Pair Some \<open>placeable z n a p\<close> show ?thesis by auto
  qed
qed

definition demo_zone :: zone where
  "demo_zone = \<lparr>z_base = 0x2000, z_num_pages = 6, z_bitmap = [0x21], z_owner = [7, 0, 0, 0, 0, 7, 0, 0],
     z_max_pages = 8, z_used_pages = 2, z_peak_used = 2, z_uncached_delta = 0\<rparr>"


lemma less_8_cases:
  "i < 8 \<longleftrightarrow> i = 0 \<or> i = 1 \<or> i = 2 \<or> i = 3 \<or> i = 4 \<or> i = 5 \<or> i = 6 \<or> i = (7 :: nat)"
  by auto

lemma demo_zone_bits: "i < 8 \<Longrightarrow> bit_get demo_zone i \<longleftrightarrow> i = 0 \<or> i = 5"
  unfolding less_8_cases by (elim disjE) (simp_all add: demo_zone_def bit_get_iff)

lemma demo_zone_wf: "wf_zone demo_zone"
proof -
  have "taken demo_zone = {0, 5}"
    unfolding taken_def set_eq_iff using demo_zone_bits by (auto simp: demo_zone_def)
  then show ?thesis by (simp add: wf_zone_def) (auto simp: demo_zone_def less_8_cases bit_get_iff)
qed

theorem zone_alloc_first_fit_witness:
  "wf_zone demo_zone \<and> (LEAST p. placeable demo_zone 2 2 p) = 0x4000"
proof -
  have "fst (zone_alloc demo_zone 2 2 0) = Some 0x4000"
    by (simp add: demo_zone_def zone_eval)
  with zone_alloc_first_fit [OF demo_zone_wf, of 2 2 0] demo_zone_wf show ?thesis
    by (simp add: is_pow2_def split: if_splits)
qed

text \<open>
  The page counts behind \<open>/proc/meminfo\<close> are right: free plus used pages is the size of the
  zone, and the reported largest run is the length of the longest stretch of free pages.
\<close>

theorem zone_stats_correct:
  assumes "wf_zone z"
  shows "fst (zone_counts z) + z_used_pages z = z_num_pages z
    \<and> snd (zone_counts z) = Max {n. \<exists>i. i + n \<le> z_num_pages z \<and> run_free z i n}"
proof (cases "zone_counts z")
  case (Pair free largest)
  note c = zone_counts_correct [OF Pair]
  have "Max {n. \<exists>i. i + n \<le> z_num_pages z \<and> run_free z i n} = largest"
  proof (rule Max_eqI)
    show "finite {n. \<exists>i. i + n \<le> z_num_pages z \<and> run_free z i n}"
      by (rule finite_subset [of _ "{.. z_num_pages z}"]) auto
  qed (use c in auto)
  with Pair c(1) assms show ?thesis by (simp add: wf_zone_def)
qed

theorem zone_stats_correct_witness:
  "fst (zone_counts demo_zone) = 4
   \<and> Max {n. \<exists>i. i + n \<le> z_num_pages demo_zone \<and> run_free demo_zone i n} = 4"
proof -
  have "zone_counts demo_zone = (4, 4)"
    by (simp add: zone_counts_def demo_zone_def counts_step_def bit_get_iff upt_rec)
  with zone_stats_correct [OF demo_zone_wf] show ?thesis by simp
qed

section \<open>The listing of runs\<close>

lemma skip_free_ge: "p \<le> skip_free z p"
  by (induction z p rule: skip_free.induct) (subst skip_free.simps, auto)

lemma run_end_ge: "q \<le> run_end z q"
  by (induction z q rule: run_end.induct) (subst run_end.simps, auto)

text \<open>The runs a reader collects by calling \<open>zone_next_run\<close> until it reports no more.\<close>

function zone_runs :: "zone \<Rightarrow> nat \<Rightarrow> palloc_run list" where
  "zone_runs z i =
     (case zone_next_run z i of (None, _) \<Rightarrow> [] | (Some r, j) \<Rightarrow> r # zone_runs z j)"
  by pat_completeness auto
termination
proof (relation "measure (\<lambda>(z, i). Suc (z_num_pages z) - i)", simp, goal_cases)
  case (1 z i x q)
  then have "skip_free z i < z_num_pages z" "q = run_end z (Suc (skip_free z i))"
    by (auto simp: zone_next_run_def Let_def split: if_splits)
  then show ?case
    using skip_free_ge [of i z] run_end_ge [of "Suc (skip_free z i)" z] by simp
qed

declare zone_runs.simps [simp del]

definition run_page_addrs :: "palloc_run \<Rightarrow> nat list" where
  "run_page_addrs r = map (\<lambda>k. run_base r + k * PAGE_SIZE) [0..<run_pages r]"

lemma upt_skip: "i < n \<Longrightarrow> [i..<n] = i # [Suc i..<n]"
  by (rule upt_conv_Cons)

lemma filter_skip_free:
  "filter (bit_get z) [i..<z_num_pages z] = filter (bit_get z) [skip_free z i..<z_num_pages z]"
proof (induction z i rule: skip_free.induct)
  case (1 z p)
  then show ?case
    by (subst skip_free.simps) (simp add: upt_skip)
qed

lemma skip_free_stops: "skip_free z i < z_num_pages z \<Longrightarrow> bit_get z (skip_free z i)"
proof (induction z i rule: skip_free.induct)
  case (1 z p)
  then show ?case
    by (cases "p < z_num_pages z \<and> \<not> bit_get z p") (simp_all add: skip_free.simps [of z p])
qed

lemma filter_run_end:
  "q \<le> z_num_pages z \<Longrightarrow>
   run_end z q \<le> z_num_pages z \<and>
   filter (bit_get z) [q..<z_num_pages z]
     = [q..<run_end z q] @ filter (bit_get z) [run_end z q..<z_num_pages z]"
proof (induction z q rule: run_end.induct)
  case (1 z q)
  show ?case
  proof (cases "q < z_num_pages z \<and> bit_get z q \<and> z_owner z ! q = OWNER_CONT")
    case True
    then have step: "run_end z q = run_end z (Suc q)" by (simp add: run_end.simps [of z q])
    from 1 True have IH: "run_end z (Suc q) \<le> z_num_pages z"
      "filter (bit_get z) [Suc q..<z_num_pages z]
       = [Suc q..<run_end z (Suc q)] @ filter (bit_get z) [run_end z (Suc q)..<z_num_pages z]"
      by simp_all
    have "[q..<run_end z (Suc q)] = q # [Suc q..<run_end z (Suc q)]"
      using run_end_ge [of "Suc q" z] by (simp add: upt_conv_Cons)
    then show ?thesis unfolding step using IH True by (simp add: upt_skip)
  next
    case False
    then have "run_end z q = q" by (auto simp: run_end.simps [of z q])
    with 1(2) show ?thesis by simp
  qed
qed

text \<open>
  Reading \<open>/proc/pages\<close> to its end reports every allocated page of the zone exactly once, in
  address order, and no free page.
\<close>

theorem run_listing_complete:
  "concat (map run_page_addrs (zone_runs z i))
   = map (\<lambda>k. z_base z + k * PAGE_SIZE) (filter (bit_get z) [i..<z_num_pages z])"
proof (induction z i rule: zone_runs.induct)
  case (1 z i)
  let ?p = "skip_free z i" and ?q = "run_end z (Suc (skip_free z i))"
  show ?case
  proof (cases "?p < z_num_pages z")
    case False
    then show ?thesis
      by (subst zone_runs.simps) (simp add: zone_next_run_def Let_def filter_skip_free [of z i])
  next
    case True
    then obtain r where next_run: "zone_next_run z i = (Some r, ?q)"
      and r: "run_base r = z_base z + ?p * PAGE_SIZE" "run_pages r = ?q - ?p"
      by (simp add: zone_next_run_def Let_def)
    have bit: "bit_get z ?p" using True by (rule skip_free_stops)
    have le: "Suc ?p \<le> ?q" by (rule run_end_ge)
    have "filter (bit_get z) [i..<z_num_pages z] = ?p # filter (bit_get z) [Suc ?p..<z_num_pages z]"
      using True bit by (simp add: filter_skip_free [of z i] upt_skip)
    also have "\<dots> = [?p..<?q] @ filter (bit_get z) [?q..<z_num_pages z]"
      using filter_run_end [of "Suc ?p" z] True le by (simp add: upt_conv_Cons [of ?p ?q])
    finally have split: "filter (bit_get z) [i..<z_num_pages z]
      = [?p..<?q] @ filter (bit_get z) [?q..<z_num_pages z]" .
    have "run_page_addrs r = map (\<lambda>k. z_base z + k * PAGE_SIZE) [?p..<?q]"
      using le by (auto simp: run_page_addrs_def r algebra_simps intro!: nth_equalityI)
    with split 1 [OF next_run [symmetric] refl] show ?thesis
      by (subst zone_runs.simps) (simp add: next_run)
  qed
qed

text \<open>
  Giving a block back is refused when it does not start in any zone, and a free whose page
  count overshoots the zone is ignored, unless the 32-bit sum of the page index and the count
  wraps: then the check passes and the loop runs past the end of the zone's tables.
\<close>

theorem zone_free_length_check:
  assumes "wf_zone z" and "z_max_pages z < 2 ^ 32" and "n < 2 ^ 32"
    and "p = z_base z + i * PAGE_SIZE" and "i < z_num_pages z"
  shows "zone_free z p n =
    (if i + n \<le> z_num_pages z then free_pages z i n
     else if i + n < 2 ^ 32 then Some z
     else None)"
proof -
  have small: "z_num_pages z \<le> z_max_pages z" "z_num_pages z * PAGE_SIZE < 4294967296"
    using assms(1) by (auto simp: wf_zone_def)
  have idx: "(p - z_base z) div PAGE_SIZE = i" "(p - z_base z) mod PAGE_SIZE = 0"
    using assms(4) by simp_all
  show ?thesis
  proof (cases "i + n < 2 ^ 32")
    case True
    then show ?thesis using small by (simp add: zone_free_def Let_def idx)
  next
    case False
    with assms have "wrap32 (i + n) = i + n - 4294967296"
      using small by (simp add: wrap32_def mod_if)
    with False assms small have "wrap32 (i + n) \<le> z_num_pages z" by simp
    moreover have "free_pages z i n = None"
      using False assms(2,5) small by (simp add: free_pages_None)
    ultimately show ?thesis using False small by (simp add: zone_free_def Let_def idx)
  qed
qed


theorem zone_free_length_check_witness:
  "zone_free demo_zone 0x5000 0xfffffffd = None"
  using zone_free_length_check [OF demo_zone_wf, where n = 4294967293 and p = 20480 and i = 3]
  by (simp add: demo_zone_def)

end
