(* ===== verification/Buddy.thy ===== *)
theory Buddy
  imports Page_Alloc_Correct
begin

text \<open>
  The buddy allocator of \<open>kernel/balloc.c\<close>: an arena of pages taken from the page allocator on first
  use, carved into self-aligned power-of-two blocks of at least \<open>BALLOC_MIN_BLOCK\<close> bytes.  The state
  is the array \<open>g_longest\<close> over the nodes of a binary tree, the arena's base and whether it is held.
  The page allocator is a parameter \<open>alloc\<close> of the operations that call it, and \<open>upd\<close> applies a
  change to the memory it manages; the locale \<open>page_source\<close> states what is assumed of them.
\<close>

section \<open>State and operations\<close>

abbreviation BALLOC_MIN_BLOCK :: nat where
  "BALLOC_MIN_BLOCK \<equiv> 32"

definition num_leaves :: "nat \<Rightarrow> nat" where
  "num_leaves pages = pages * 4096 div BALLOC_MIN_BLOCK"

definition arena_bytes :: "nat \<Rightarrow> nat" where
  "arena_bytes pages = num_leaves pages * BALLOC_MIN_BLOCK"

definition node_count :: "nat \<Rightarrow> nat" where
  "node_count pages = 2 * num_leaves pages - 1"

record balloc =
  g_longest :: "nat list"
  g_arena_base :: nat
  g_ready :: bool

definition node_left :: "nat \<Rightarrow> nat" where "node_left i = 2 * i + 1"
definition node_right :: "nat \<Rightarrow> nat" where "node_right i = 2 * i + 2"
definition node_parent :: "nat \<Rightarrow> nat" where "node_parent i = (i - 1) div 2"

text \<open>\<open>(uint16_t)\<close>, applied to every value stored in the array.\<close>

definition cast16 :: "nat \<Rightarrow> nat" where
  "cast16 n = n mod 2 ^ 16"

definition smear :: "u32 \<Rightarrow> nat \<Rightarrow> u32" where
  "smear v s = v OR drop_bit s v"

definition next_pow2 :: "u32 \<Rightarrow> u32" where
  "next_pow2 v = (if v = 0 then 1 else foldl smear (v - 1) [1, 2, 4, 8, 16] + 1)"

definition balloc_init :: "balloc \<Rightarrow> balloc" where
  "balloc_init b = b\<lparr>g_ready := False, g_arena_base := 0\<rparr>"

definition tree_step :: "nat \<times> nat list \<Rightarrow> nat \<Rightarrow> nat \<times> nat list" where
  "tree_step = (\<lambda>(node_size, xs) i.
     let node_size = (if is_pow2 (i + 1) then node_size div 2 else node_size)
     in (node_size, xs[i := cast16 node_size]))"

definition tree_init :: "nat \<Rightarrow> nat list \<Rightarrow> nat list" where
  "tree_init pages xs = snd (foldl tree_step (num_leaves pages * 2, xs) [0..<node_count pages])"

definition balloc_reserve ::
    "('s \<Rightarrow> nat \<Rightarrow> nat \<Rightarrow> nat option \<times> 's) \<Rightarrow> nat \<Rightarrow> balloc \<Rightarrow> 's \<Rightarrow> bool \<times> balloc \<times> 's" where
  "balloc_reserve alloc pages b s =
     (case alloc s pages pages of
        (None, s') \<Rightarrow> (False, b, s')
      | (Some arena, s') \<Rightarrow>
          (True, b\<lparr>g_arena_base := arena, g_longest := tree_init pages (g_longest b), g_ready := True\<rparr>, s'))"

text \<open>
  The descent towards a block of \<open>need\<close> leaves; \<open>None\<close> is the loop that halves a node size past
  \<open>need\<close> for ever.
\<close>

function descend :: "nat list \<Rightarrow> nat \<Rightarrow> nat \<Rightarrow> nat \<Rightarrow> (nat \<times> nat) option" where
  "descend xs need index node_size =
     (if node_size = need then Some (index, node_size)
      else if node_size = 0 then None
      else descend xs need
             (if xs ! node_left index \<ge> need then node_left index else node_right index)
             (node_size div 2))"
  by pat_completeness auto
termination by (relation "measure (\<lambda>(xs, need, index, node_size). node_size)") auto

function fix_up :: "nat list \<Rightarrow> nat \<Rightarrow> nat list" where
  "fix_up xs index =
     (if index = 0 then xs
      else let p = node_parent index; l = xs ! node_left p; r = xs ! node_right p
           in fix_up (xs[p := cast16 (if l > r then l else r)]) p)"
  by pat_completeness auto
termination by (relation "measure (\<lambda>(xs, index). index)") (auto simp: node_parent_def)

text \<open>The walk up from a leaf to the zeroed node; \<open>None\<close> is the return at the root.\<close>

function find_zero :: "nat list \<Rightarrow> nat \<Rightarrow> nat \<Rightarrow> (nat \<times> nat) option" where
  "find_zero xs index node_size =
     (if xs ! index = 0 then Some (index, node_size)
      else if index = 0 then None
      else find_zero xs (node_parent index) (node_size * 2))"
  by pat_completeness auto
termination by (relation "measure (\<lambda>(xs, index, node_size). index)") (auto simp: node_parent_def)

function merge_up :: "nat list \<Rightarrow> nat \<Rightarrow> nat \<Rightarrow> nat list" where
  "merge_up xs index node_size =
     (if index = 0 then xs
      else let p = node_parent index; node_size = node_size * 2;
               l = xs ! node_left p; r = xs ! node_right p
           in merge_up (xs[p := cast16 (if l + r = node_size then node_size
                                        else if l > r then l else r)]) p node_size)"
  by pat_completeness auto
termination by (relation "measure (\<lambda>(xs, index, node_size). index)") (auto simp: node_parent_def)

declare descend.simps [simp del] fix_up.simps [simp del] find_zero.simps [simp del] merge_up.simps [simp del]

text \<open>The claim of a block in the tree: what runs under \<open>g_balloc_lock\<close>.\<close>

definition tree_alloc :: "nat \<Rightarrow> nat list \<Rightarrow> nat \<Rightarrow> (nat \<times> nat \<times> nat list) option" where
  "tree_alloc pages xs need =
     (case descend xs need 0 (num_leaves pages) of
        None \<Rightarrow> None
      | Some (index, node_size) \<Rightarrow>
          Some ((index + 1) * node_size - num_leaves pages, node_size, fix_up (xs[index := 0]) index))"

definition balloc_alloc ::
    "('s \<Rightarrow> nat \<Rightarrow> nat \<Rightarrow> nat option \<times> 's) \<Rightarrow> (((nat \<Rightarrow> u8) \<Rightarrow> nat \<Rightarrow> u8) \<Rightarrow> 's \<Rightarrow> 's) \<Rightarrow> nat
     \<Rightarrow> balloc \<Rightarrow> 's \<Rightarrow> u32 \<Rightarrow> nat option \<times> balloc \<times> 's" where
  "balloc_alloc alloc upd pages b s size0 =
     (if size0 = 0 \<or> unat size0 > arena_bytes pages then (None, b, s)
      else case (if g_ready b then (True, b, s) else balloc_reserve alloc pages b s) of
        (False, b1, s1) \<Rightarrow> (None, b1, s1)
      | (True, b1, s1) \<Rightarrow>
          let size = (if size0 < 32 then 32 else size0);
              need = unat (next_pow2 size) div BALLOC_MIN_BLOCK
          in if g_longest b1 ! 0 < need then (None, b1, s1)
             else case tree_alloc pages (g_longest b1) need of
               None \<Rightarrow> (None, b1, s1)
             | Some (offset_leaves, node_size, xs) \<Rightarrow>
                 let p = g_arena_base b1 + offset_leaves * BALLOC_MIN_BLOCK
                 in (Some p, b1\<lparr>g_longest := xs\<rparr>,
                     upd (\<lambda>m a. if p \<le> a \<and> a < p + node_size * BALLOC_MIN_BLOCK then 0 else m a) s1))"

definition tree_free :: "nat \<Rightarrow> nat list \<Rightarrow> nat \<Rightarrow> nat list" where
  "tree_free pages xs offset_leaves =
     (case find_zero xs (offset_leaves + num_leaves pages - 1) 1 of
        None \<Rightarrow> xs
      | Some (index, node_size) \<Rightarrow> merge_up (xs[index := cast16 node_size]) index node_size)"

definition balloc_free :: "nat \<Rightarrow> balloc \<Rightarrow> nat \<Rightarrow> balloc" where
  "balloc_free pages b addr =
     (if \<not> g_ready b \<or> addr = 0 then b
      else if addr < g_arena_base b then b
      else let off = addr - g_arena_base b
           in if off mod BALLOC_MIN_BLOCK \<noteq> 0 then b
              else let offset_leaves = off div BALLOC_MIN_BLOCK
                   in if offset_leaves \<ge> num_leaves pages then b
                      else b\<lparr>g_longest := tree_free pages (g_longest b) offset_leaves\<rparr>)"

definition balloc_stats :: "nat \<Rightarrow> balloc \<Rightarrow> nat \<times> nat" where
  "balloc_stats pages b =
     (arena_bytes pages,
      if \<not> g_ready b then arena_bytes pages else g_longest b ! 0 * BALLOC_MIN_BLOCK)"

section \<open>Rounding up to a power of two\<close>

definition smeared :: "u32 \<Rightarrow> u32 \<Rightarrow> nat \<Rightarrow> bool" where
  "smeared v0 v w \<longleftrightarrow> (\<forall>i. bit v i \<longleftrightarrow> (\<exists>j. i \<le> j \<and> j < i + w \<and> bit v0 j))"

lemma smeared_1: "smeared v v 1"
  by (auto simp: smeared_def less_Suc_eq_le dest: le_antisym)

lemma smeared_double: "smeared v0 v w \<Longrightarrow> smeared v0 (smear v w) (w + w)"
  unfolding smeared_def smear_def bit_or_iff bit_drop_bit_eq o_def
proof (intro allI iffI, goal_cases)
  case (1 i)
  then show ?case by (metis add.assoc add.commute le_add1 le_trans trans_less_add1)
next
  case (2 i)
  then obtain j where j: "i \<le> j" "j < i + (w + w)" "bit v0 j" by blast
  show ?case
  proof (cases "j < i + w")
    case True
    with 2 j show ?thesis by blast
  next
    case False
    then have "w + i \<le> j" "j < w + i + w" using j(2) by simp_all
    with 2(1) j(3) show ?thesis by blast
  qed
qed

lemma smear_all: "smeared v (foldl smear v [1, 2, 4, 8, 16]) 32"
proof -
  have s1: "smeared v (smear v 1) 2" using smeared_double [OF smeared_1, of v] by (simp add: numeral_2_eq_2)
  have s2: "smeared v (smear (smear v 1) 2) 4" using smeared_double [OF s1] by simp
  have s3: "smeared v (smear (smear (smear v 1) 2) 4) 8" using smeared_double [OF s2] by simp
  have s4: "smeared v (smear (smear (smear (smear v 1) 2) 4) 8) 16" using smeared_double [OF s3] by simp
  from smeared_double [OF s4] show ?thesis by simp
qed

lemma highest_bit:
  fixes w :: u32
  assumes "w \<noteq> 0"
  obtains n where "bit w n" and "\<And>j. n < j \<Longrightarrow> \<not> bit w j" and "n < 32"
proof -
  have fin: "finite {j. bit w j}"
    by (rule finite_subset [of _ "{..<32}"]) (auto dest: bit_imp_le_length)
  have ne: "{j. bit w j} \<noteq> {}" using assms by (auto simp: bit_eq_iff)
  let ?n = "Max {j. bit w j}"
  have "bit w ?n" using Max_in [OF fin ne] by simp
  moreover have "\<not> bit w j" if "?n < j" for j using that Max_ge [OF fin, of j] by (meson mem_Collect_eq not_le)
  moreover have "?n < 32" using \<open>bit w ?n\<close> bit_imp_le_length by fastforce
  ultimately show thesis by (rule that)
qed

lemma smear_mask:
  assumes "bit w n" and "\<And>j. n < j \<Longrightarrow> \<not> bit w j" and "n < 32"
  shows "foldl smear w [1, 2, 4, 8, 16] = (mask (Suc n) :: u32)"
proof (rule bit_eqI)
  fix i
  have "bit (foldl smear w [1, 2, 4, 8, 16]) i \<longleftrightarrow> (\<exists>j\<ge>i. j < i + 32 \<and> bit w j)"
    using smear_all [of w] unfolding smeared_def by blast
  also have "\<dots> \<longleftrightarrow> i \<le> n"
  proof
    assume "\<exists>j\<ge>i. j < i + 32 \<and> bit w j"
    then show "i \<le> n" using assms(2) by (meson le_trans not_le)
  next
    assume "i \<le> n"
    with assms(1,3) show "\<exists>j\<ge>i. j < i + 32 \<and> bit w j" by (intro exI [of _ n]) simp
  qed
  also have "\<dots> \<longleftrightarrow> bit (mask (Suc n) :: u32) i" using assms(3) by (auto simp: bit_mask_iff)
  finally show "bit (foldl smear w [1, 2, 4, 8, 16]) i \<longleftrightarrow> bit (mask (Suc n) :: u32) i" .
qed

lemma unat_bounds_highest:
  fixes w :: u32
  assumes "bit w n" and "\<And>j. n < j \<Longrightarrow> \<not> bit w j"
  shows "2 ^ n \<le> unat w" and "unat w < 2 ^ Suc n"
proof -
  have "bit (unat w) n" using assms(1) by (simp add: bit_unsigned_iff)
  then show "2 ^ n \<le> unat w"
    by (metis bit_iff_odd div_less even_zero linorder_not_less)
  have "take_bit (Suc n) w = w"
    by (rule bit_eqI) (simp add: bit_take_bit_iff less_Suc_eq_le, meson assms(2) not_le)
  then have "unat w = take_bit (Suc n) (unat w)" by (metis unsigned_take_bit_eq)
  then show "unat w < 2 ^ Suc n" by (metis take_bit_nat_less_exp)
qed

lemma next_pow2_spec:
  assumes "v \<noteq> 0" and "unat v \<le> 2 ^ 31"
  obtains k where "unat (next_pow2 v) = 2 ^ k" and "unat v \<le> 2 ^ k" and "2 ^ k < 2 * unat v" and "k \<le> 31"
proof (cases "v - 1 = 0")
  case True
  then have v: "v = 1" by simp
  have "next_pow2 v = 1" by (simp add: v next_pow2_def smear_def)
  then show thesis using v by (intro that [of 0]) simp_all
next
  case False
  then obtain n where n: "bit (v - 1) n" "\<And>j. n < j \<Longrightarrow> \<not> bit (v - 1) j" "n < 32"
    by (rule highest_bit) blast
  have uv: "unat (v - 1) = unat v - 1" "0 < unat v"
    using assms(1) by (simp_all add: unat_minus_one unat_gt_0)
  note b = unat_bounds_highest [OF n(1,2)]
  from b(1) assms(2) uv have "(2 :: nat) ^ n < 2 ^ 31" by linarith
  then have n31: "n < 31" using power_less_imp_less_exp [of "2 :: nat" n 31] by simp
  have "next_pow2 v = mask (Suc n) + 1"
    using assms(1) smear_mask [OF n] by (simp add: next_pow2_def)
  also have "\<dots> = 2 ^ Suc n" by (simp add: mask_eq_exp_minus_1)
  finally have "unat (next_pow2 v) = unat (of_nat (2 ^ Suc n) :: u32)" by simp
  also have "\<dots> = 2 ^ Suc n"
    using n31 power_strict_increasing [of "Suc n" 32 "2 :: nat"]
    by (simp only: unsigned_of_nat) (simp add: take_bit_nat_eq_self)
  finally have "unat (next_pow2 v) = 2 ^ Suc n" .
  then show thesis using b uv n31 by (intro that [of "Suc n"]) auto
qed

section \<open>The tree the array stands for\<close>

text \<open>
  A node is free as a whole, handed out as a whole, or split into two halves not both free.
  Nodes are named by their index plus one, so that the children of \<open>m\<close> are \<open>2 m\<close> and \<open>2 m + 1\<close>;
  the node of level \<open>k\<close> covers \<open>2 ^ k\<close> leaves.
\<close>

datatype bud = Free | Used | Split bud bud

fun avail :: "nat \<Rightarrow> bud \<Rightarrow> nat" where
  "avail k Free = 2 ^ k"
| "avail k Used = 0"
| "avail k (Split a b) = max (avail (k - 1) a) (avail (k - 1) b)"

fun wf_bud :: "nat \<Rightarrow> bud \<Rightarrow> bool" where
  "wf_bud k (Split a b) \<longleftrightarrow>
     0 < k \<and> \<not> (a = Free \<and> b = Free) \<and> wf_bud (k - 1) a \<and> wf_bud (k - 1) b"
| "wf_bud k _ \<longleftrightarrow> True"

fun nodes :: "nat \<Rightarrow> nat \<Rightarrow> nat set" where
  "nodes 0 m = {m - 1}"
| "nodes (Suc k) m = insert (m - 1) (nodes k (2 * m) \<union> nodes k (2 * m + 1))"

fun full :: "nat list \<Rightarrow> nat \<Rightarrow> nat \<Rightarrow> bool" where
  "full xs 0 m \<longleftrightarrow> xs ! (m - 1) = 1"
| "full xs (Suc k) m \<longleftrightarrow> xs ! (m - 1) = 2 ^ Suc k \<and> full xs k (2 * m) \<and> full xs k (2 * m + 1)"

fun below_full :: "nat list \<Rightarrow> nat \<Rightarrow> nat \<Rightarrow> bool" where
  "below_full xs 0 m \<longleftrightarrow> True"
| "below_full xs (Suc k) m \<longleftrightarrow> full xs k (2 * m) \<and> full xs k (2 * m + 1)"

fun rep :: "nat list \<Rightarrow> nat \<Rightarrow> nat \<Rightarrow> bud \<Rightarrow> bool" where
  "rep xs k m Free \<longleftrightarrow> full xs k m"
| "rep xs k m Used \<longleftrightarrow> xs ! (m - 1) = 0 \<and> below_full xs k m"
| "rep xs 0 m (Split a b) \<longleftrightarrow> False"
| "rep xs (Suc k) m (Split a b) \<longleftrightarrow>
     xs ! (m - 1) = max (avail k a) (avail k b) \<and> \<not> (a = Free \<and> b = Free)
     \<and> rep xs k (2 * m) a \<and> rep xs k (2 * m + 1) b"

lemma full_iff: "full xs k m \<longleftrightarrow> xs ! (m - 1) = 2 ^ k \<and> below_full xs k m"
  by (cases k) auto

lemma rep_avail: "rep xs k m t \<Longrightarrow> xs ! (m - 1) = avail k t"
  by (cases "(xs, k, m, t)" rule: rep.cases) (auto simp: full_iff)

lemma rep_wf: "rep xs k m t \<Longrightarrow> wf_bud k t"
  by (induction xs k m t rule: rep.induct) auto

lemma nodes_depth: "j \<in> nodes k m \<Longrightarrow> 0 < m \<Longrightarrow> \<exists>e \<le> k. Suc j div 2 ^ e = m"
proof (induction k arbitrary: m)
  case 0
  then show ?case by simp
next
  case (Suc k)
  show ?case
  proof (cases "j = m - 1")
    case True
    with Suc.prems show ?thesis by (intro exI [of _ 0]) simp
  next
    case False
    with Suc obtain c where c: "c = 2 * m \<or> c = 2 * m + 1" "j \<in> nodes k c" by auto
    with Suc.IH [of c] Suc.prems obtain e where "e \<le> k" "Suc j div 2 ^ e = c" by auto
    with c(1) show ?thesis by (intro exI [of _ "Suc e"]) (auto simp: div_mult2_eq mult.commute [of 2])
  qed
qed

lemma nodes_bound: "j \<in> nodes k m \<Longrightarrow> 0 < m \<Longrightarrow> m \<le> Suc j \<and> Suc j < (m + 1) * 2 ^ k"
proof (induction k arbitrary: m)
  case (Suc k)
  show ?case
  proof (cases "j = m - 1")
    case True
    have "(m + 1) * 1 \<le> (m + 1) * 2 ^ Suc k" by (intro mult_le_mono) simp_all
    with True Suc.prems show ?thesis by (simp del: power_Suc)
  next
    case False
    with Suc obtain c where c: "c = 2 * m \<or> c = 2 * m + 1" "j \<in> nodes k c" by auto
    with Suc.IH [of c] Suc.prems have "c \<le> Suc j" "Suc j < (c + 1) * 2 ^ k" by auto
    moreover have "(c + 1) * 2 ^ k \<le> (m + 1) * 2 * 2 ^ k" using c(1) by auto
    ultimately show ?thesis using c(1) by (auto simp: algebra_simps)
  qed
qed simp

lemma nodes_children_disjoint:
  assumes "0 < m"
  shows "nodes k (2 * m) \<inter> nodes k (2 * m + 1) = {}"
proof (rule ccontr)
  assume "\<not> ?thesis"
  then obtain j where "j \<in> nodes k (2 * m)" "j \<in> nodes k (2 * m + 1)" by blast
  with assms obtain e f where e: "Suc j div 2 ^ e = 2 * m" and f: "Suc j div 2 ^ f = 2 * m + 1"
    using nodes_depth [of j k "2 * m"] nodes_depth [of j k "2 * m + 1"] by auto
  consider "e = f" | d where "f = e + Suc d" | d where "e = f + Suc d"
    by (metis less_imp_Suc_add linorder_neqE_nat add_Suc_right)
  then show False
  proof cases
    case 1
    with e f show False by simp
  next
    case (2 d)
    then have "Suc j div 2 ^ f = 2 * m div 2 ^ Suc d" by (simp only: power_add div_mult2_eq e)
    with f have "2 * m div 2 ^ Suc d = 2 * m + 1" by simp
    then show False by (metis Suc_n_not_le_n div_le_dividend Suc_eq_plus1)
  next
    case (3 d)
    then have "Suc j div 2 ^ e = (2 * m + 1) div 2 ^ Suc d" by (simp only: power_add div_mult2_eq f)
    also have "\<dots> = m div 2 ^ d" by (simp add: div_mult2_eq)
    finally have "2 * m = m div 2 ^ d" using e by simp
    with assms show False using div_le_dividend [of m "2 ^ d"] by linarith
  qed
qed

lemma nodes_child_self: "0 < m \<Longrightarrow> m - 1 \<notin> nodes k (2 * m) \<and> m - 1 \<notin> nodes k (2 * m + 1)"
  using nodes_bound [of "m - 1" k "2 * m"] nodes_bound [of "m - 1" k "2 * m + 1"] by auto

lemma self_in_nodes [simp]: "m - 1 \<in> nodes k m"
  by (cases k) auto

lemma full_cong: "\<forall>j \<in> nodes k m. xs ! j = ys ! j \<Longrightarrow> full xs k m = full ys k m"
  by (induction k arbitrary: m) auto

lemma below_full_cong: "\<forall>j \<in> nodes k m. xs ! j = ys ! j \<Longrightarrow> below_full xs k m = below_full ys k m"
  by (cases k) (simp_all add: full_cong [of _ _ xs ys])

lemma rep_cong: "\<forall>j \<in> nodes k m. xs ! j = ys ! j \<Longrightarrow> rep xs k m t = rep ys k m t"
proof (induction k arbitrary: m t)
  case 0
  then show ?case by (cases t) auto
next
  case (Suc k)
  then have hd: "xs ! (m - 1) = ys ! (m - 1)"
    and l: "\<forall>j \<in> nodes k (2 * m). xs ! j = ys ! j"
    and r: "\<forall>j \<in> nodes k (2 * m + 1). xs ! j = ys ! j" by auto
  show ?case
    using hd full_cong [OF l] full_cong [OF r] Suc.IH [OF l] Suc.IH [OF r] by (cases t) simp_all
qed

section \<open>Abstract allocation and release\<close>

definition halves :: "bud \<Rightarrow> bud \<times> bud" where
  "halves t = (case t of Split a b \<Rightarrow> (a, b) | _ \<Rightarrow> (Free, Free))"

text \<open>Take a block of \<open>2 ^ n\<close> leaves, preferring the left half; the result has its offset.\<close>

fun alloc_bud :: "nat \<Rightarrow> nat \<Rightarrow> bud \<Rightarrow> bud \<times> nat" where
  "alloc_bud 0 n t = (Used, 0)"
| "alloc_bud (Suc k) n t =
     (if n = Suc k then (Used, 0)
      else let a = fst (halves t); b = snd (halves t) in
        if 2 ^ n \<le> avail k a then (Split (fst (alloc_bud k n a)) b, snd (alloc_bud k n a))
        else (Split a (fst (alloc_bud k n b)), 2 ^ k + snd (alloc_bud k n b)))"

definition join :: "bud \<Rightarrow> bud \<Rightarrow> bud" where
  "join a b = (if a = Free \<and> b = Free then Free else Split a b)"

text \<open>Release the block that covers the leaf \<open>p\<close>; \<open>None\<close> when the leaf is in no block.\<close>

fun free_bud :: "nat \<Rightarrow> nat \<Rightarrow> bud \<Rightarrow> bud option" where
  "free_bud k p Free = None"
| "free_bud k p Used = Some Free"
| "free_bud k p (Split a b) =
     (if p < 2 ^ (k - 1) then map_option (\<lambda>a'. join a' b) (free_bud (k - 1) p a)
      else map_option (\<lambda>b'. join a b') (free_bud (k - 1) (p - 2 ^ (k - 1)) b))"

text \<open>The blocks handed out, each with the offset of its first leaf and its level.\<close>

fun blocks :: "nat \<Rightarrow> nat \<Rightarrow> bud \<Rightarrow> (nat \<times> nat) set" where
  "blocks k p Free = {}"
| "blocks k p Used = {(p, k)}"
| "blocks k p (Split a b) = blocks (k - 1) p a \<union> blocks (k - 1) (p + 2 ^ (k - 1)) b"

lemma avail_le: "avail k t \<le> 2 ^ k"
proof (induction t arbitrary: k)
  case (Split a b)
  have "(2 :: nat) ^ (k - 1) \<le> 2 ^ k" by (rule power_increasing) simp_all
  with Split [of "k - 1"] show ?case by (auto intro: order_trans)
qed simp_all

lemma avail_full: "wf_bud k t \<Longrightarrow> 2 ^ k \<le> avail k t \<longleftrightarrow> t = Free"
proof (cases t)
  case (Split a b)
  assume "wf_bud k t"
  with Split obtain j where k: "k = Suc j" by (cases k) auto
  have "avail j a < 2 ^ k" "avail j b < 2 ^ k"
    using avail_le [of j a] avail_le [of j b] by (simp_all add: k less_le_trans le_less_trans)
  with Split k show ?thesis by simp
qed simp_all

lemma halves_wf: "wf_bud (Suc k) t \<Longrightarrow> wf_bud k (fst (halves t)) \<and> wf_bud k (snd (halves t))"
  by (cases t) (simp_all add: halves_def)

lemma halves_avail:
  assumes "2 ^ n \<le> avail (Suc k) t" and "n \<le> k"
  shows "2 ^ n \<le> avail k (fst (halves t)) \<or> 2 ^ n \<le> avail k (snd (halves t))"
  using assms by (cases t) (auto simp: halves_def le_max_iff_disj)

lemma halves_blocks:
  "t \<noteq> Used \<Longrightarrow> blocks (Suc k) p t = blocks k p (fst (halves t)) \<union> blocks k (p + 2 ^ k) (snd (halves t))"
  by (cases t) (simp_all add: halves_def)

lemma blocks_range:
  "wf_bud k t \<Longrightarrow> (q, d) \<in> blocks k p t \<Longrightarrow> p \<le> q \<and> q + 2 ^ d \<le> p + 2 ^ k \<and> d \<le> k \<and> 2 ^ d dvd q - p"
proof (induction t arbitrary: k p)
  case (Split a b)
  from Split.prems(1) obtain j where k: "k = Suc j" by (cases k) auto
  show ?case
  proof (cases "(q, d) \<in> blocks j p a")
    case True
    with Split k show ?thesis by fastforce
  next
    case False
    with Split.prems k have "(q, d) \<in> blocks j (p + 2 ^ j) b" by simp
    with Split.IH(2) [of j "p + 2 ^ j"] Split.prems k
    have r: "p + 2 ^ j \<le> q" "q + 2 ^ d \<le> p + 2 ^ j + 2 ^ j" "d \<le> j" "2 ^ d dvd q - (p + 2 ^ j)" by auto
    have "2 ^ d dvd (2 :: nat) ^ j" using r(3) by (rule le_imp_power_dvd)
    then have "2 ^ d dvd (q - (p + 2 ^ j)) + 2 ^ j" using r(4) by simp
    moreover have "(q - (p + 2 ^ j)) + 2 ^ j = q - p" using r(1) by simp
    ultimately show ?thesis using r k by simp
  qed
qed auto

lemma blocks_disjoint:
  "wf_bud k t \<Longrightarrow> (q, d) \<in> blocks k p t \<Longrightarrow> (r, e) \<in> blocks k p t \<Longrightarrow> (q, d) \<noteq> (r, e) \<Longrightarrow>
   q + 2 ^ d \<le> r \<or> r + 2 ^ e \<le> q"
proof (induction t arbitrary: k p)
  case (Split a b)
  from Split.prems(1) obtain j where k: "k = Suc j" by (cases k) auto
  with Split.prems have wf: "wf_bud j a" "wf_bud j b" by auto
  note ra = blocks_range [OF wf(1), of _ _ p] and rb = blocks_range [OF wf(2), of _ _ "p + 2 ^ j"]
  from Split.prems k consider
      "(q, d) \<in> blocks j p a" "(r, e) \<in> blocks j p a"
    | "(q, d) \<in> blocks j p a" "(r, e) \<in> blocks j (p + 2 ^ j) b"
    | "(q, d) \<in> blocks j (p + 2 ^ j) b" "(r, e) \<in> blocks j p a"
    | "(q, d) \<in> blocks j (p + 2 ^ j) b" "(r, e) \<in> blocks j (p + 2 ^ j) b"
    by auto
  then show ?case
  proof cases
    case 1
    with Split.IH(1) [OF wf(1)] Split.prems(4) show ?thesis by blast
  next
    case 2
    with ra [of q d] rb [of r e] show ?thesis by linarith
  next
    case 3
    with ra [of r e] rb [of q d] show ?thesis by linarith
  next
    case 4
    with Split.IH(2) [OF wf(2)] Split.prems(4) show ?thesis by blast
  qed
qed auto

lemma alloc_bud_blocks:
  assumes "wf_bud k t" and "2 ^ n \<le> avail k t" and "n \<le> k"
  shows "wf_bud k (fst (alloc_bud k n t))
    \<and> blocks k p (fst (alloc_bud k n t)) = insert (p + snd (alloc_bud k n t), n) (blocks k p t)
    \<and> fst (alloc_bud k n t) \<noteq> Free"
  using assms
proof (induction k arbitrary: p t)
  case 0
  then have "t = Free" using avail_full [of 0 t] by simp
  with 0 show ?case by simp
next
  case (Suc k)
  show ?case
  proof (cases "n = Suc k")
    case True
    with Suc.prems have "t = Free" using avail_full [of "Suc k" t] by simp
    with True show ?thesis by simp
  next
    case False
    with Suc.prems have n: "n \<le> k" by simp
    let ?a = "fst (halves t)" and ?b = "snd (halves t)"
    have "t \<noteq> Used" using Suc.prems by auto
    note bl = halves_blocks [OF this, of k p]
    have wf: "wf_bud k ?a" "wf_bud k ?b" using halves_wf Suc.prems by blast+
    show ?thesis
    proof (cases "2 ^ n \<le> avail k ?a")
      case True
      with Suc.IH [OF wf(1) True n, of p] wf False bl show ?thesis
        by (auto simp: Let_def)
    next
      case nl: False
      with halves_avail [of n k t] Suc.prems n have "2 ^ n \<le> avail k ?b" by blast
      with Suc.IH [OF wf(2) this n, of "p + 2 ^ k"] wf False nl bl show ?thesis
        by (auto simp: Let_def add.assoc)
    qed
  qed
qed

lemma join_blocks: "blocks (Suc k) p (join a b) = blocks k p a \<union> blocks k (p + 2 ^ k) b"
  by (auto simp: join_def)

lemma join_wf: "wf_bud k a \<Longrightarrow> wf_bud k b \<Longrightarrow> wf_bud (Suc k) (join a b)"
  by (auto simp: join_def)

lemma free_bud_wf: "wf_bud k t \<Longrightarrow> free_bud k p t = Some t' \<Longrightarrow> wf_bud k t'"
proof (induction t arbitrary: k p t')
  case (Split a b)
  from Split.prems(1) obtain j where k: "k = Suc j" by (cases k) auto
  from Split.prems k have wf: "wf_bud j a" "wf_bud j b" by auto
  from Split.prems(2) k show ?case
    using Split.IH(1) [OF wf(1)] Split.IH(2) [OF wf(2)] wf by (auto intro: join_wf split: if_splits)
qed auto

lemma free_alloc_bud:
  assumes "wf_bud k t" and "2 ^ n \<le> avail k t" and "n \<le> k"
  shows "free_bud k (snd (alloc_bud k n t)) (fst (alloc_bud k n t)) = Some t
    \<and> snd (alloc_bud k n t) + 2 ^ n \<le> 2 ^ k"
  using assms
proof (induction k arbitrary: t)
  case 0
  then show ?case using avail_full [of 0 t] by simp
next
  case (Suc k)
  show ?case
  proof (cases "n = Suc k")
    case True
    with Suc.prems show ?thesis using avail_full [of "Suc k" t] by simp
  next
    case False
    with Suc.prems have n: "n \<le> k" by simp
    let ?a = "fst (halves t)" and ?b = "snd (halves t)"
    have t: "join ?a ?b = t" using Suc.prems by (cases t) (auto simp: halves_def join_def)
    have wf: "wf_bud k ?a" "wf_bud k ?b" using halves_wf Suc.prems by blast+
    show ?thesis
    proof (cases "2 ^ n \<le> avail k ?a")
      case True
      note IH = Suc.IH [OF wf(1) True n]
      have "(0 :: nat) < 2 ^ n" by simp
      with IH have lt: "snd (alloc_bud k n ?a) < 2 ^ k" by linarith
      from IH have le: "snd (alloc_bud k n ?a) + 2 ^ n \<le> 2 ^ k" by simp
      with True False IH lt t show ?thesis by (simp add: Let_def)
    next
      case nl: False
      with halves_avail [of n k t] Suc.prems n have "2 ^ n \<le> avail k ?b" by blast
      from Suc.IH [OF wf(2) this n] nl False t show ?thesis by (simp add: Let_def)
    qed
  qed
qed

lemma alloc_bud_was_free:
  assumes "wf_bud k t" and "2 ^ n \<le> avail k t" and "n \<le> k"
  shows "free_bud k (snd (alloc_bud k n t)) t = None"
  using assms
proof (induction k arbitrary: t)
  case 0
  then show ?case using avail_full [of 0 t] by simp
next
  case (Suc k)
  show ?case
  proof (cases "n = Suc k")
    case True
    with Suc.prems show ?thesis using avail_full [of "Suc k" t] by simp
  next
    case False
    with Suc.prems have n: "n \<le> k" by simp
    show ?thesis
    proof (cases t)
      case (Split a b)
      then have wf: "wf_bud k a" "wf_bud k b" using Suc.prems by auto
      show ?thesis
      proof (cases "2 ^ n \<le> avail k a")
        case True
        have "(0 :: nat) < 2 ^ n" by simp
        with free_alloc_bud [OF wf(1) True n] have "snd (alloc_bud k n a) < 2 ^ k" by linarith
        with Suc.IH [OF wf(1) True n] Split False True show ?thesis by (simp add: halves_def)
      next
        case nl: False
        then have "2 ^ n \<le> avail k b" using Suc.prems Split by (auto simp: le_max_iff_disj)
        with Suc.IH [OF wf(2) this n] Split False nl show ?thesis by (simp add: halves_def)
      qed
    qed (use Suc.prems in auto)
  qed
qed

lemma free_bud_outside:
  "wf_bud k t \<Longrightarrow> (\<And>r e. (r, e) \<in> blocks k p t \<Longrightarrow> p + q < r \<or> r + 2 ^ e \<le> p + q) \<Longrightarrow> q < 2 ^ k \<Longrightarrow>
   free_bud k q t = None"
proof (induction t arbitrary: k p q)
  case Used
  from Used.prems(2) [of p k] Used.prems(3) show ?case by simp
next
  case (Split a b)
  from Split.prems(1) obtain j where k: "k = Suc j" by (cases k) auto
  with Split.prems have wf: "wf_bud j a" "wf_bud j b" by auto
  show ?case
  proof (cases "q < 2 ^ j")
    case True
    have "free_bud j q a = None"
      by (rule Split.IH(1) [OF wf(1), of p]) (use Split.prems(2) k True in auto)
    with True k show ?thesis by simp
  next
    case False
    then have s: "(p + 2 ^ j) + (q - 2 ^ j) = p + q" by simp
    have "free_bud j (q - 2 ^ j) b = None"
    proof (rule Split.IH(2) [OF wf(2), of "p + 2 ^ j"])
      fix r e assume "(r, e) \<in> blocks j (p + 2 ^ j) b"
      then have "(r, e) \<in> blocks k p (Split a b)" using k by simp
      then show "p + 2 ^ j + (q - 2 ^ j) < r \<or> r + 2 ^ e \<le> p + 2 ^ j + (q - 2 ^ j)"
        unfolding s by (rule Split.prems(2))
    next
      show "q - 2 ^ j < 2 ^ j" using Split.prems(3) k by auto
    qed
    with False k show ?thesis by simp
  qed
qed simp

lemma free_bud_blocks:
  "wf_bud k t \<Longrightarrow> (p + q, d) \<in> blocks k p t \<Longrightarrow>
   \<exists>t'. free_bud k q t = Some t' \<and> blocks k p t' = blocks k p t - {(p + q, d)}"
proof (induction t arbitrary: k p q)
  case (Split a b)
  from Split.prems(1) obtain j where k: "k = Suc j" by (cases k) auto
  with Split.prems have wf: "wf_bud j a" "wf_bud j b" by auto
  note ra = blocks_range [OF wf(1), of _ _ p] and rb = blocks_range [OF wf(2), of _ _ "p + 2 ^ j"]
  show ?case
  proof (cases "(p + q, d) \<in> blocks j p a")
    case True
    from Split.IH(1) [OF wf(1) True] obtain a' where
      a': "free_bud j q a = Some a'" "blocks j p a' = blocks j p a - {(p + q, d)}" by blast
    have "(0 :: nat) < 2 ^ d" by simp
    with ra [OF True] have "q < 2 ^ j" by linarith
    moreover have "(p + q, d) \<notin> blocks j (p + 2 ^ j) b"
      using rb [of "p + q" d] \<open>q < 2 ^ j\<close> by auto
    ultimately show ?thesis using a' k join_blocks [of j p a' b] by auto
  next
    case False
    with Split.prems k have inb: "(p + q, d) \<in> blocks j (p + 2 ^ j) b" by simp
    with rb have q: "2 ^ j \<le> q" by fastforce
    then have "(p + 2 ^ j) + (q - 2 ^ j) = p + q" by simp
    with Split.IH(2) [OF wf(2), of "p + 2 ^ j" "q - 2 ^ j"] inb obtain b' where
      b': "free_bud j (q - 2 ^ j) b = Some b'"
        "blocks j (p + 2 ^ j) b' = blocks j (p + 2 ^ j) b - {(p + q, d)}" by auto
    then show ?thesis using q False k join_blocks [of j p a b'] by auto
  qed
qed auto

lemma no_blocks_free: "wf_bud k t \<Longrightarrow> blocks k p t = {} \<Longrightarrow> t = Free"
proof (induction t arbitrary: k p)
  case (Split a b)
  then show ?case by (cases k) (auto, blast+)
qed auto

lemma free_bud_None_avail: "free_bud k p t = None \<Longrightarrow> 0 < avail k t"
  by (induction t arbitrary: k p) (auto simp: less_max_iff_disj split: if_splits)

section \<open>The array walks carry out the abstract operations\<close>

lemma node_arith [simp]:
  "0 < m \<Longrightarrow> node_left (m - 1) = 2 * m - 1" "0 < m \<Longrightarrow> node_right (m - 1) = 2 * m"
  "0 < m \<Longrightarrow> node_parent (2 * m - 1) = m - 1" "0 < m \<Longrightarrow> node_parent (2 * m) = m - 1"
  by (auto simp: node_left_def node_right_def node_parent_def)

declare node_arith [unfolded One_nat_def, simp]

lemma cast16_id: "n \<le> 2 ^ k \<Longrightarrow> k < 16 \<Longrightarrow> cast16 n = n"
proof -
  assume "n \<le> 2 ^ k" "k < 16"
  then have "n < 2 ^ 16" using power_strict_increasing [of k 16 "2 :: nat"] by linarith
  then show ?thesis by (simp add: cast16_def)
qed

lemma below_full_update: "0 < m \<Longrightarrow> below_full (xs[m - 1 := v]) k m = below_full xs k m"
proof (cases k)
  case (Suc j)
  assume "0 < m"
  then have "full (xs[m - 1 := v]) j c = full xs j c" if "c = 2 * m \<or> c = 2 * m + 1" for c
    using that nodes_child_self [of m j] by (intro full_cong) (metis nth_list_update_neq)
  with Suc show ?thesis by simp
qed simp

text \<open>What an update confined to a subtree leaves: the pieces every walk lemma carries.\<close>

definition subtree_upd :: "nat list \<Rightarrow> nat list \<Rightarrow> nat \<Rightarrow> nat \<Rightarrow> bud \<Rightarrow> bool" where
  "subtree_upd xs xs' k m t \<longleftrightarrow>
     rep xs' k m t \<and> length xs' = length xs \<and> (\<forall>j. j \<notin> nodes k m \<longrightarrow> xs' ! j = xs ! j)"

lemma subtree_upd_node:
  assumes m: "0 < m" and c: "c = 2 * m \<or> c = 2 * m + 1"
    and a: "rep xs k (2 * m) a" and b: "rep xs k (2 * m + 1) b"
    and len: "m - 1 < length xs" and upd: "subtree_upd xs ys k c t"
    and v: "v = (if a' = Free \<and> b' = Free then 2 ^ Suc k else max (avail k a') (avail k b'))"
    and a': "a' = (if c = 2 * m then t else a)" and b': "b' = (if c = 2 * m then b else t)"
  shows "subtree_upd xs (ys[m - 1 := v]) (Suc k) m (join a' b')
    \<and> ys ! (2 * m - 1) = avail k a' \<and> ys ! (2 * m) = avail k b'"
proof -
  have dis: "nodes k (2 * m) \<inter> nodes k (2 * m + 1) = {}" using m by (rule nodes_children_disjoint)
  have self: "m - 1 \<notin> nodes k (2 * m)" "m - 1 \<notin> nodes k (2 * m + 1)"
    using nodes_child_self [OF m] by blast+
  have frame: "\<And>j. j \<notin> nodes k c \<Longrightarrow> ys ! j = xs ! j" and leny: "length ys = length xs"
    and t: "rep ys k c t" using upd by (auto simp: subtree_upd_def)
  have ra: "rep ys k (2 * m) a'"
  proof (cases "c = 2 * m")
    case True
    with t a' show ?thesis by simp
  next
    case False
    with c have "\<forall>j \<in> nodes k (2 * m). ys ! j = xs ! j" using frame dis by blast
    then have "rep ys k (2 * m) a = rep xs k (2 * m) a" by (rule rep_cong)
    with a a' False show ?thesis by simp
  qed
  have rb: "rep ys k (2 * m + 1) b'"
  proof (cases "c = 2 * m")
    case True
    then have "\<forall>j \<in> nodes k (2 * m + 1). ys ! j = xs ! j" using frame dis by blast
    then have "rep ys k (2 * m + 1) b = rep xs k (2 * m + 1) b" by (rule rep_cong)
    with b b' True show ?thesis by simp
  next
    case False
    with c t b' show ?thesis by simp
  qed
  have ra': "rep (ys[m - 1 := v]) k (2 * m) a'"
    using ra self(1) by (subst rep_cong [of k "2 * m" _ ys]) (metis nth_list_update_neq)+
  have rb': "rep (ys[m - 1 := v]) k (2 * m + 1) b'"
    using rb self(2) by (subst rep_cong [of k "2 * m + 1" _ ys]) (metis nth_list_update_neq)+
  have "rep (ys[m - 1 := v]) (Suc k) m (join a' b')"
    using ra' rb' v len leny by (auto simp: join_def)
  moreover have "ys[m - 1 := v] ! j = xs ! j" if "j \<notin> nodes (Suc k) m" for j
    using that frame c by auto
  ultimately show ?thesis
    using leny rep_avail [OF ra] rep_avail [OF rb] by (simp add: subtree_upd_def)
qed

lemma rep_halves:
  "rep xs (Suc k) m t \<Longrightarrow> t \<noteq> Used \<Longrightarrow>
   rep xs k (2 * m) (fst (halves t)) \<and> rep xs k (2 * m + 1) (snd (halves t))"
  by (cases t) (simp_all add: halves_def)

lemma join_Split: "a \<noteq> Free \<or> b \<noteq> Free \<Longrightarrow> join a b = Split a b"
  by (auto simp: join_def)

lemma fix_up_step:
  "0 < m \<Longrightarrow> c = 2 * m \<or> c = 2 * m + 1 \<Longrightarrow>
   fix_up xs (c - 1) = fix_up (xs[m - 1 := cast16 (max (xs ! (2 * m - 1)) (xs ! (2 * m)))]) (m - 1)"
  by (subst fix_up.simps) (auto simp: Let_def max_def)

lemma descend_rep:
  assumes "rep xs k m t" and "0 < m" and "2 ^ n \<le> avail k t" and "n \<le> k" and "k < 16"
    and "\<forall>j \<in> nodes k m. j < length xs"
  shows "\<exists>index xs'. descend xs (2 ^ n) (m - 1) (2 ^ k) = Some (index, 2 ^ n)
     \<and> fix_up (xs[index := 0]) index = fix_up xs' (m - 1)
     \<and> subtree_upd xs xs' k m (fst (alloc_bud k n t))
     \<and> (index + 1) * 2 ^ n = m * 2 ^ k + snd (alloc_bud k n t)"
  using assms
proof (induction k arbitrary: m t)
  case 0
  then have "rep xs 0 m Free" using avail_full [OF rep_wf [OF 0(1)]] by simp
  with 0 show ?case
    by (intro exI [of _ "m - 1"] exI [of _ "xs[m - 1 := 0]"])
      (auto simp: descend.simps [of _ _ "m - Suc 0"] subtree_upd_def)
next
  case (Suc k)
  show ?case
  proof (cases "n = Suc k")
    case True
    then have "t = Free" using avail_full [OF rep_wf [OF Suc.prems(1)]] Suc.prems(3) by simp
    with Suc.prems(1) have "below_full xs (Suc k) m" by (simp add: full_iff)
    then have "rep (xs[m - 1 := 0]) (Suc k) m Used"
      using Suc.prems(2,6) by (simp del: below_full.simps add: below_full_update [OF Suc.prems(2), simplified])
    moreover have "xs[m - 1 := 0] ! j = xs ! j" if "j \<notin> nodes (Suc k) m" for j
      using that self_in_nodes [of m "Suc k"] by (metis nth_list_update_neq)
    ultimately show ?thesis
      using True Suc.prems(2)
      by (intro exI [of _ "m - 1"] exI [of _ "xs[m - 1 := 0]"])
        (simp add: descend.simps [of _ _ "m - Suc 0"] subtree_upd_def)
  next
    case False
    with Suc.prems have n: "n \<le> k" and k: "k < 16" by simp_all
    let ?a = "fst (halves t)" and ?b = "snd (halves t)"
    have "t \<noteq> Used" using Suc.prems(3) by auto
    with rep_halves Suc.prems(1) have ra: "rep xs k (2 * m) ?a" and rb: "rep xs k (2 * m + 1) ?b" by blast+
    have len: "m - 1 < length xs" using Suc.prems(6) self_in_nodes [of m "Suc k"] by blast
    define left where "left = (2 ^ n \<le> avail k ?a)"
    define c where "c = (if left then 2 * m else 2 * m + 1)"
    define u where "u = (if left then ?a else ?b)"
    have ru: "rep xs k c u" using ra rb by (simp add: c_def u_def)
    have av: "2 ^ n \<le> avail k u"
      using halves_avail [OF Suc.prems(3) n] by (auto simp: u_def left_def)
    have c0: "0 < c" using Suc.prems(2) by (simp add: c_def)
    have lenc: "\<forall>j \<in> nodes k c. j < length xs" using Suc.prems(6) by (auto simp: c_def)
    from Suc.IH [OF ru c0 av n k lenc] obtain index ys where
      IH: "descend xs (2 ^ n) (c - 1) (2 ^ k) = Some (index, 2 ^ n)"
        "fix_up (xs[index := 0]) index = fix_up ys (c - 1)"
        "subtree_upd xs ys k c (fst (alloc_bud k n u))"
        "(index + 1) * 2 ^ n = c * 2 ^ k + snd (alloc_bud k n u)" by blast
    have neq: "(2 :: nat) ^ Suc k \<noteq> 2 ^ n" using False power_inject_exp [of "2 :: nat" "Suc k" n] by simp
    have "descend xs (2 ^ n) (m - 1) (2 ^ Suc k) = descend xs (2 ^ n) (c - 1) (2 ^ k)"
      using neq rep_avail [OF ra] Suc.prems(2)
      by (subst descend.simps) (simp add: c_def left_def)
    define a' where "a' = (if c = 2 * m then fst (alloc_bud k n u) else ?a)"
    define b' where "b' = (if c = 2 * m then ?b else fst (alloc_bud k n u))"
    have nf: "\<not> (a' = Free \<and> b' = Free)"
      using alloc_bud_blocks [OF rep_wf [OF ru] av n] by (auto simp: a'_def b'_def)
    have cc: "c = 2 * m \<or> c = 2 * m + 1" by (auto simp: c_def)
    note up = subtree_upd_node [OF Suc.prems(2) cc ra rb len IH(3) refl a'_def b'_def]
    have mx: "max (avail k a') (avail k b') \<le> 2 ^ k" using avail_le by simp
    have "fix_up ys (c - 1) = fix_up (ys[m - 1 := max (avail k a') (avail k b')]) (m - 1)"
      unfolding fix_up_step [OF Suc.prems(2) cc] using up cast16_id [OF mx k] by simp
    moreover have "fst (alloc_bud (Suc k) n t) = join a' b'"
      using nf False by (auto simp: join_Split Let_def a'_def b'_def c_def u_def left_def)
    moreover have "m * 2 ^ Suc k + snd (alloc_bud (Suc k) n t) = c * 2 ^ k + snd (alloc_bud k n u)"
      using False by (simp add: Let_def c_def u_def left_def algebra_simps)
    ultimately show ?thesis
      using up nf IH \<open>descend xs (2 ^ n) (m - 1) (2 ^ Suc k) = descend xs (2 ^ n) (c - 1) (2 ^ k)\<close>
      by (intro exI [of _ index] exI [of _ "ys[m - 1 := max (avail k a') (avail k b')]"]) (simp only: if_False simp_thms)
  qed
qed

text \<open>The rest of the walk, once it has left the subtree of \<open>m\<close> without meeting a zero.\<close>

definition walk_on :: "nat list \<Rightarrow> nat \<Rightarrow> nat \<Rightarrow> (nat \<times> nat) option" where
  "walk_on xs k m = (if m = 1 then None else find_zero xs (m div 2 - 1) (2 ^ Suc k))"

lemma find_zero_at:
  "0 < m \<Longrightarrow> find_zero xs (m - 1) (2 ^ k) = (if xs ! (m - 1) = 0 then Some (m - 1, 2 ^ k) else walk_on xs k m)"
proof (subst find_zero.simps)
  assume "0 < m"
  moreover have "node_parent (m - 1) = m div 2 - 1" if "m \<noteq> 1"
    using that \<open>0 < m\<close> by (simp add: node_parent_def)
  ultimately show "(if xs ! (m - 1) = 0 then Some (m - 1, 2 ^ k) else if m - 1 = 0 then None
      else find_zero xs (node_parent (m - 1)) (2 ^ k * 2))
    = (if xs ! (m - 1) = 0 then Some (m - 1, 2 ^ k) else walk_on xs k m)"
    by (simp add: walk_on_def mult.commute)
qed

lemma walk_on_child:
  assumes "0 < m" and "c = 2 * m \<or> c = 2 * m + 1"
  shows "walk_on xs k c = (if xs ! (m - 1) = 0 then Some (m - 1, 2 ^ Suc k) else walk_on xs (Suc k) m)"
  using assms find_zero_at [of m xs "Suc k"] by (auto simp: walk_on_def)

lemma child_of_leaf:
  assumes "q < 2 ^ Suc k"
  obtains c q' where "c = (if q < 2 ^ k then 2 * m else 2 * m + 1)"
    and "q' = (if q < 2 ^ k then q else q - 2 ^ k)" and "q' < (2 :: nat) ^ k"
    and "c * 2 ^ k + q' = m * 2 ^ Suc k + q"
proof -
  have "(if q < 2 ^ k then q else q - 2 ^ k) < (2 :: nat) ^ k" using assms by auto
  moreover have "(if q < 2 ^ k then 2 * m else 2 * m + 1) * 2 ^ k + (if q < 2 ^ k then q else q - 2 ^ k)
     = m * 2 ^ Suc k + q" by (simp add: algebra_simps)
  ultimately show thesis using that by blast
qed

lemma walk_full:
  "full xs k m \<Longrightarrow> 0 < m \<Longrightarrow> q < 2 ^ k \<Longrightarrow> find_zero xs (m * 2 ^ k + q - 1) 1 = walk_on xs k m"
proof (induction k arbitrary: m q)
  case 0
  then show ?case using find_zero_at [of m xs 0] by simp
next
  case (Suc k)
  from Suc.prems(3) obtain c q' where c: "c = (if q < 2 ^ k then 2 * m else 2 * m + 1)"
    and q': "q' < (2 :: nat) ^ k" "c * 2 ^ k + q' = m * 2 ^ Suc k + q" by (rule child_of_leaf)
  have "full xs k c" "0 < c" using Suc.prems c by auto
  then have "find_zero xs (m * 2 ^ Suc k + q - 1) 1 = walk_on xs k c"
    unfolding q'(2) [symmetric] using q'(1) by (rule Suc.IH)
  also have "\<dots> = walk_on xs (Suc k) m"
    using walk_on_child [OF Suc.prems(2), of c xs k] c Suc.prems(1) by (simp split: if_splits)
  finally show ?case .
qed

lemma walk_used:
  assumes "xs ! (m - 1) = 0" and "below_full xs k m" and "0 < m" and "q < 2 ^ k"
  shows "find_zero xs (m * 2 ^ k + q - 1) 1 = Some (m - 1, 2 ^ k)"
proof (cases k)
  case 0
  with assms find_zero_at [of m xs 0] show ?thesis by simp
next
  case (Suc j)
  from assms(4) [unfolded Suc] obtain c q' where c: "c = (if q < 2 ^ j then 2 * m else 2 * m + 1)"
    and q': "q' < (2 :: nat) ^ j" "c * 2 ^ j + q' = m * 2 ^ Suc j + q" by (rule child_of_leaf)
  have "full xs j c" "0 < c" using assms(2,3) Suc c by auto
  then have "find_zero xs (m * 2 ^ k + q - 1) 1 = walk_on xs j c"
    unfolding Suc q'(2) [symmetric] using q'(1) by (rule walk_full)
  then show ?thesis using walk_on_child [OF assms(3), of c xs j] c assms(1) Suc by (simp split: if_splits)
qed

lemma merge_up_step:
  "0 < m \<Longrightarrow> c = 2 * m \<or> c = 2 * m + 1 \<Longrightarrow>
   merge_up xs (c - 1) (2 ^ k) =
     merge_up (xs[m - 1 := cast16 (if xs ! (2 * m - 1) + xs ! (2 * m) = 2 ^ Suc k then 2 ^ Suc k
                                   else max (xs ! (2 * m - 1)) (xs ! (2 * m)))]) (m - 1) (2 ^ Suc k)"
  by (subst merge_up.simps) (auto simp: Let_def max_def mult.commute [of _ 2])

lemma avail_sum:
  assumes "wf_bud k a" and "wf_bud k b"
  shows "avail k a + avail k b = 2 ^ Suc k \<longleftrightarrow> a = Free \<and> b = Free"
proof
  assume "avail k a + avail k b = 2 ^ Suc k"
  with avail_le [of k a] avail_le [of k b] have "2 ^ k \<le> avail k a" "2 ^ k \<le> avail k b" by auto
  with assms show "a = Free \<and> b = Free" by (simp add: avail_full)
qed simp

lemma find_zero_rep:
  assumes "rep xs k m t" and "0 < m" and "q < 2 ^ k" and "k < 16" and "\<forall>j \<in> nodes k m. j < length xs"
  shows "(free_bud k q t = None \<longrightarrow> find_zero xs (m * 2 ^ k + q - 1) 1 = walk_on xs k m)
    \<and> (\<forall>t'. free_bud k q t = Some t' \<longrightarrow>
        (\<exists>index d xs'. find_zero xs (m * 2 ^ k + q - 1) 1 = Some (index, 2 ^ d) \<and> d \<le> k
           \<and> merge_up (xs[index := 2 ^ d]) index (2 ^ d) = merge_up xs' (m - 1) (2 ^ k)
           \<and> subtree_upd xs xs' k m t'))"
  using assms
proof (induction t arbitrary: k m q)
  case Free
  then show ?case using walk_full by auto
next
  case Used
  then have b: "below_full xs k m" and z: "xs ! (m - 1) = 0" by simp_all
  have len: "m - 1 < length xs" using Used.prems(5) self_in_nodes [of m k] by blast
  have "rep (xs[m - 1 := 2 ^ k]) k m Free"
    using b below_full_update [OF Used.prems(2), of xs "2 ^ k" k] len by (simp add: full_iff)
  moreover have "xs[m - 1 := 2 ^ k] ! j = xs ! j" if "j \<notin> nodes k m" for j
    using that self_in_nodes [of m k] by (metis nth_list_update_neq)
  ultimately have "subtree_upd xs (xs[m - 1 := 2 ^ k]) k m Free" by (simp add: subtree_upd_def)
  with walk_used [OF z b Used.prems(2,3)] show ?case by auto
next
  case (Split a b)
  then obtain j where k: "k = Suc j" by (cases k) auto
  have ra: "rep xs j (2 * m) a" and rb: "rep xs j (2 * m + 1) b"
    and top: "xs ! (m - 1) = max (avail j a) (avail j b)"
    using Split.prems(1) k by simp_all
  have len: "m - 1 < length xs" using Split.prems(5) self_in_nodes [of m k] by blast
  from Split.prems(3) [unfolded k] obtain c q' where c: "c = (if q < 2 ^ j then 2 * m else 2 * m + 1)"
    and qq: "q' = (if q < 2 ^ j then q else q - 2 ^ j)"
    and q': "q' < (2 :: nat) ^ j" "c * 2 ^ j + q' = m * 2 ^ Suc j + q" by (rule child_of_leaf)
  define u where "u = (if q < 2 ^ j then a else b)"
  have ru: "rep xs j c u" using ra rb by (simp add: c u_def)
  have cpos: "0 < c" and j: "j < 16" using Split.prems(2,4) c k by simp_all
  have cc: "c = 2 * m \<or> c = 2 * m + 1" by (simp add: c)
  have lenc: "\<forall>i \<in> nodes j c. i < length xs" using Split.prems(5) k cc by auto
  have IH: "(free_bud j q' u = None \<longrightarrow> find_zero xs (m * 2 ^ k + q - 1) 1 = walk_on xs j c)
    \<and> (\<forall>t'. free_bud j q' u = Some t' \<longrightarrow>
        (\<exists>index d xs'. find_zero xs (m * 2 ^ k + q - 1) 1 = Some (index, 2 ^ d) \<and> d \<le> j
           \<and> merge_up (xs[index := 2 ^ d]) index (2 ^ d) = merge_up xs' (c - 1) (2 ^ j)
           \<and> subtree_upd xs xs' j c t'))"
  proof (cases "q < 2 ^ j")
    case True
    then have "u = a" by (simp add: u_def)
    with Split.IH(1) [of j c q'] ru cpos q' j lenc k show ?thesis by simp
  next
    case False
    then have "u = b" by (simp add: u_def)
    with Split.IH(2) [of j c q'] ru cpos q' j lenc k show ?thesis by simp
  qed
  have fb: "free_bud k q (Split a b) =
      map_option (\<lambda>u'. join (if c = 2 * m then u' else a) (if c = 2 * m then b else u')) (free_bud j q' u)"
    using k by (simp add: u_def c qq)
  show ?case
  proof (cases "free_bud j q' u")
    case None
    have "0 < avail j u" using None by (rule free_bud_None_avail)
    then have "0 < xs ! (m - 1)" unfolding top by (auto simp: u_def less_max_iff_disj split: if_splits)
    then have "xs ! (m - 1) \<noteq> 0" by simp
    with None IH fb walk_on_child [OF Split.prems(2) cc, of xs j] k show ?thesis by simp
  next
    case (Some u')
    with IH obtain index d ys where
      w: "find_zero xs (m * 2 ^ k + q - 1) 1 = Some (index, 2 ^ d)" "d \<le> j"
        "merge_up (xs[index := 2 ^ d]) index (2 ^ d) = merge_up ys (c - 1) (2 ^ j)"
        "subtree_upd xs ys j c u'" by blast
    define a' where "a' = (if c = 2 * m then u' else a)"
    define b' where "b' = (if c = 2 * m then b else u')"
    define v where "v = (if a' = Free \<and> b' = Free then 2 ^ Suc j else max (avail j a') (avail j b'))"
    note up = subtree_upd_node [OF Split.prems(2) cc ra rb len w(4) v_def a'_def b'_def]
    have "rep ys j c u'" using w(4) by (simp add: subtree_upd_def)
    then have wf: "wf_bud j a'" "wf_bud j b'"
      using rep_wf [OF ra] rep_wf [OF rb] rep_wf by (auto simp: a'_def b'_def)
    have "v \<le> 2 ^ k" using avail_le [of j a'] avail_le [of j b'] k by (auto simp: v_def)
    then have "cast16 v = v" using Split.prems(4) by (rule cast16_id)
    moreover have "merge_up ys (c - 1) (2 ^ j) = merge_up (ys[m - 1 := cast16 v]) (m - 1) (2 ^ Suc j)"
      unfolding merge_up_step [OF Split.prems(2) cc] using up avail_sum [OF wf] by (simp add: v_def)
    ultimately show ?thesis
      using w up k fb Some by (auto simp: a'_def [symmetric] b'_def [symmetric])
  qed
qed

section \<open>The initial tree\<close>

text \<open>\<open>d\<close> is the depth of the node of index \<open>j\<close>.\<close>

definition depth_is :: "nat \<Rightarrow> nat \<Rightarrow> bool" where
  "depth_is j d \<longleftrightarrow> 2 ^ d \<le> Suc j \<and> Suc j < 2 ^ Suc d"

lemma pow2_lt_imp: "(2 :: nat) ^ d < 2 ^ e \<Longrightarrow> d < e"
  by (rule power_less_imp_less_exp [of "2 :: nat"]) simp_all

lemma pow2_le_imp: "(2 :: nat) ^ d \<le> 2 ^ e \<Longrightarrow> d \<le> e"
  by (rule power_le_imp_le_exp [of "2 :: nat"]) simp_all

lemma depth_unique: "depth_is j d \<Longrightarrow> depth_is j e \<Longrightarrow> d = e"
  unfolding depth_is_def
  by (meson pow2_lt_imp le_less_trans less_Suc_eq_le le_antisym)

lemma depth_Suc:
  assumes "depth_is i d"
  shows "depth_is (Suc i) (if is_pow2 (Suc i + 1) then Suc d else d)"
proof (cases "is_pow2 (Suc i + 1)")
  case True
  then obtain k where k: "Suc (Suc i) = 2 ^ k" by (auto elim: is_pow2_obtain)
  have b: "2 ^ d \<le> Suc i" "Suc i < 2 ^ Suc d" using assms by (simp_all add: depth_is_def)
  with k have "(2 :: nat) ^ d < 2 ^ k" "(2 :: nat) ^ k \<le> 2 ^ Suc d" by linarith+
  then have "d < k" "k \<le> Suc d" using pow2_lt_imp [of d k] pow2_le_imp [of k "Suc d"] by blast+
  then have "k = Suc d" by simp
  with k True show ?thesis by (simp add: depth_is_def)
next
  case False
  then have "Suc (Suc i) \<noteq> 2 ^ Suc d" using is_pow2_exp [of "Suc d"] by (metis Suc_eq_plus1)
  with False assms show ?thesis by (auto simp: depth_is_def)
qed

lemma tree_steps:
  assumes "length xs = 2 * 2 ^ K - 1" and "K < 16" and "0 < i" and "i \<le> 2 * 2 ^ K - 1"
  shows "\<exists>d ys. foldl tree_step (2 ^ Suc K, xs) [0..<i] = (2 ^ (K - d), ys) \<and> depth_is (i - 1) d \<and> d \<le> K
    \<and> length ys = length xs \<and> (\<forall>j < i. \<forall>e. depth_is j e \<longrightarrow> ys ! j = 2 ^ (K - e))"
  using assms(3,4)
proof (induction i rule: nat_induct_non_zero)
  case 1
  have d0: "depth_is 0 0" by (simp add: depth_is_def)
  have p: "is_pow2 (Suc 0)" using is_pow2_exp [of 0] by simp
  have c: "cast16 (2 ^ K) = 2 ^ K" by (rule cast16_id [OF order_refl assms(2)])
  have "0 < length xs" using assms(1) by (cases "(2 :: nat) ^ K") auto
  then have hd: "xs[0 := 2 ^ K] ! 0 = 2 ^ K" by simp
  have st: "foldl tree_step (2 ^ Suc K, xs) [0..<1] = (2 ^ K, xs[0 := 2 ^ K])"
    by (simp add: tree_step_def p c Let_def)
  have "xs[0 := 2 ^ K] ! j = 2 ^ (K - e)" if "j < 1" "depth_is j e" for j e
  proof -
    from that have "j = 0" "e = 0" using depth_unique [OF d0] by auto
    with hd show ?thesis by simp
  qed
  then show ?case unfolding st
    using d0 by (intro exI [of _ 0] exI [of _ "xs[0 := 2 ^ K]"]) simp
next
  case (Suc i)
  then obtain d ys where IH: "foldl tree_step (2 ^ Suc K, xs) [0..<i] = (2 ^ (K - d), ys)"
    "depth_is (i - 1) d" "d \<le> K" "length ys = length xs"
    "\<forall>j < i. \<forall>e. depth_is j e \<longrightarrow> ys ! j = 2 ^ (K - e)" by auto
  define d' where "d' = (if is_pow2 (i + 1) then Suc d else d)"
  have d': "depth_is i d'" using depth_Suc [OF IH(2)] Suc.hyps(1) by (simp add: d'_def)
  have "(2 :: nat) ^ d' \<le> Suc i" using d' by (simp add: depth_is_def)
  also have "Suc i < 2 * 2 ^ K" using Suc.prems by (cases "(2 :: nat) ^ K") auto
  finally have "(2 :: nat) ^ d' < 2 ^ Suc K" by simp
  then have dK: "d' \<le> K" using pow2_lt_imp [of d' "Suc K"] by simp
  have sz: "(if is_pow2 (i + 1) then 2 ^ (K - d) div 2 else 2 ^ (K - d)) = (2 :: nat) ^ (K - d')"
  proof (cases "is_pow2 (i + 1)")
    case True
    then have "K - d = Suc (K - d')" using dK by (simp add: d'_def)
    then show ?thesis using True by simp
  qed (simp add: d'_def)
  have "cast16 (2 ^ (K - d')) = 2 ^ (K - d')"
    by (rule cast16_id [OF order_refl]) (use assms(2) in simp)
  then have step: "foldl tree_step (2 ^ Suc K, xs) [0..<Suc i] = (2 ^ (K - d'), ys[i := 2 ^ (K - d')])"
    using IH(1) sz by (simp add: tree_step_def Let_def)
  have "i < length ys" using Suc.prems IH(4) assms(1) by simp
  have new: "ys[i := 2 ^ (K - d')] ! j = 2 ^ (K - e)" if "j < Suc i" "depth_is j e" for j e
  proof (cases "j = i")
    case True
    with that depth_unique [OF d'] have "e = d'" by blast
    with True \<open>i < length ys\<close> show ?thesis by simp
  next
    case False
    with that IH(5) show ?thesis by simp
  qed
  show ?case unfolding step
    using d' dK IH(4) new by (intro exI [of _ d'] exI [of _ "ys[i := 2 ^ (K - d')]"]) simp
qed

lemma full_by_depth:
  assumes "\<forall>j < 2 * 2 ^ K - 1. \<forall>e. depth_is j e \<longrightarrow> xs ! j = 2 ^ (K - e)"
    and "2 ^ d \<le> m" and "m < 2 ^ Suc d" and "d + k = K"
  shows "full xs k m"
  using assms(2-)
proof (induction k arbitrary: d m)
  case 0
  have "m - 1 < 2 * 2 ^ K - 1" "depth_is (m - 1) d"
    using 0 by (auto simp: depth_is_def intro: less_le_trans [OF diff_less])
  with 0 assms(1) show ?case by simp
next
  case (Suc k)
  have "(0 :: nat) < 2 ^ d" by simp
  with Suc.prems(1) have m: "0 < m" by linarith
  have "(2 :: nat) ^ Suc d \<le> 2 ^ K" using Suc.prems by (intro power_increasing) auto
  with Suc.prems m have "m - 1 < 2 * 2 ^ K - 1" "depth_is (m - 1) d"
    by (auto simp: depth_is_def)
  with Suc.prems assms(1) have "xs ! (m - 1) = 2 ^ Suc k" by auto
  moreover have "full xs k (2 * m)" by (rule Suc.IH [of "Suc d"]) (use Suc.prems in auto)
  moreover have "full xs k (2 * m + 1)" by (rule Suc.IH [of "Suc d"]) (use Suc.prems in auto)
  ultimately show ?case by simp
qed

lemma tree_init_rep:
  assumes "num_leaves pages = 2 ^ K" and "K < 16" and "length xs = node_count pages"
  shows "rep (tree_init pages xs) K 1 Free \<and> length (tree_init pages xs) = node_count pages"
proof -
  have n: "node_count pages = 2 * 2 ^ K - 1" by (simp add: node_count_def assms(1))
  have "0 < node_count pages" unfolding n by (cases "(2 :: nat) ^ K") auto
  with tree_steps [of xs K "node_count pages"] assms n obtain d ys where
    ys: "foldl tree_step (2 ^ Suc K, xs) [0..<node_count pages] = (2 ^ (K - d), ys)"
      "length ys = node_count pages"
      "\<forall>j < 2 * 2 ^ K - 1. \<forall>e. depth_is j e \<longrightarrow> ys ! j = 2 ^ (K - e)" by auto
  then have "tree_init pages xs = ys" by (simp add: tree_init_def assms(1) mult.commute)
  moreover have "full ys K 1" by (rule full_by_depth [OF ys(3), of 0]) simp_all
  ultimately show ?thesis using ys(2) by simp
qed

section \<open>The allocator's invariant\<close>

text \<open>
  The arena size is a power of two of at most \<open>2 ^ 15\<close> leaves (1 MB), so that no node size is cut
  off by the \<open>uint16_t\<close> entries; the array has its static length; once the arena is held the array
  stands for a tree and the base is a multiple of the arena's size.
\<close>

definition arena_ok :: "nat \<Rightarrow> nat \<Rightarrow> bool" where
  "arena_ok pages K \<longleftrightarrow> num_leaves pages = 2 ^ K \<and> K < 16"

definition balloc_inv :: "nat \<Rightarrow> nat \<Rightarrow> balloc \<Rightarrow> bud \<Rightarrow> bool" where
  "balloc_inv pages K b t \<longleftrightarrow> arena_ok pages K \<and> length (g_longest b) = node_count pages
     \<and> (g_ready b \<longrightarrow> rep (g_longest b) K 1 t \<and> arena_bytes pages dvd g_arena_base b
                      \<and> 0 < g_arena_base b)
     \<and> (\<not> g_ready b \<longrightarrow> t = Free)"

lemma nodes_in_array:
  assumes "num_leaves pages = 2 ^ K" and "length xs = node_count pages"
  shows "\<forall>j \<in> nodes K 1. j < length xs"
  using nodes_bound [of _ K 1] assms by (fastforce simp: node_count_def)

lemma tree_alloc_rep:
  assumes "arena_ok pages K" and "length xs = node_count pages" and "rep xs K 1 t"
    and "n \<le> K" and "2 ^ n \<le> xs ! 0"
  obtains xs' where "tree_alloc pages xs (2 ^ n) = Some (snd (alloc_bud K n t), 2 ^ n, xs')"
    and "rep xs' K 1 (fst (alloc_bud K n t))" and "length xs' = length xs"
proof -
  have K: "num_leaves pages = 2 ^ K" "K < 16" using assms(1) by (auto simp: arena_ok_def)
  have av: "2 ^ n \<le> avail K t" using assms(5) rep_avail [OF assms(3)] by simp
  from descend_rep [OF assms(3) _ av assms(4) K(2) nodes_in_array [OF K(1) assms(2)]] obtain index xs' where
    "descend xs (2 ^ n) 0 (2 ^ K) = Some (index, 2 ^ n)" "fix_up (xs[index := 0]) index = xs'"
    "subtree_upd xs xs' K 1 (fst (alloc_bud K n t))"
    "(index + 1) * 2 ^ n = 2 ^ K + snd (alloc_bud K n t)" by (auto simp: fix_up.simps [of _ 0])
  then show thesis by (intro that [of xs']) (auto simp: tree_alloc_def K(1) subtree_upd_def)
qed

lemma tree_free_rep:
  assumes "arena_ok pages K" and "length xs = node_count pages" and "rep xs K 1 t" and "q < 2 ^ K"
  shows "rep (tree_free pages xs q) K 1 (case free_bud K q t of None \<Rightarrow> t | Some t' \<Rightarrow> t')
    \<and> length (tree_free pages xs q) = length xs
    \<and> (free_bud K q t = None \<longrightarrow> tree_free pages xs q = xs)"
proof -
  have K: "num_leaves pages = 2 ^ K" "K < 16" using assms(1) by (auto simp: arena_ok_def)
  have leaf: "q + 2 ^ K - 1 = 1 * 2 ^ K + q - 1" by simp
  note fz = find_zero_rep [OF assms(3) _ assms(4) K(2) nodes_in_array [OF K(1) assms(2)], simplified]
  show ?thesis
  proof (cases "free_bud K q t")
    case None
    with fz have "find_zero xs (q + 2 ^ K - 1) 1 = None" by (simp add: walk_on_def add.commute)
    with None assms(3) show ?thesis by (simp add: tree_free_def K(1))
  next
    case (Some t')
    with fz obtain index d xs' where w: "find_zero xs (q + 2 ^ K - 1) 1 = Some (index, 2 ^ d)" "d \<le> K"
      "merge_up (xs[index := 2 ^ d]) index (2 ^ d) = merge_up xs' 0 (2 ^ K)" "subtree_upd xs xs' K 1 t'"
      by (auto simp: add.commute)
    have "cast16 (2 ^ d) = 2 ^ d" by (rule cast16_id [OF order_refl]) (use w(2) K(2) in simp)
    with w have "tree_free pages xs q = xs'" by (simp add: tree_free_def K(1) merge_up.simps [of _ 0])
    with w(4) Some show ?thesis by (simp add: subtree_upd_def)
  qed
qed

section \<open>The operations on the state\<close>

text \<open>The level of the block that serves a request: the least power of two of leaves that holds it.\<close>

definition level :: "nat \<Rightarrow> nat" where
  "level sz = (LEAST n. sz \<le> 2 ^ n * BALLOC_MIN_BLOCK)"

lemma level_eqI:
  assumes "sz \<le> 2 ^ n * BALLOC_MIN_BLOCK" and "n = 0 \<or> 2 ^ n * BALLOC_MIN_BLOCK < 2 * sz"
  shows "level sz = n"
  unfolding level_def
proof (rule Least_equality)
  show "sz \<le> 2 ^ n * BALLOC_MIN_BLOCK" by (rule assms(1))
next
  fix m assume m: "sz \<le> 2 ^ m * BALLOC_MIN_BLOCK"
  show "n \<le> m"
  proof (cases n)
    case (Suc k)
    with assms(2) have "2 ^ k * BALLOC_MIN_BLOCK < sz" by simp
    from this m have "2 ^ k * BALLOC_MIN_BLOCK < 2 ^ m * BALLOC_MIN_BLOCK" by (rule less_le_trans)
    then have "(2 :: nat) ^ k < 2 ^ m" by simp
    then have "k < m" by (rule pow2_lt_imp)
    then show ?thesis using Suc by simp
  qed simp
qed

lemma arena_bytes_K: "arena_ok pages K \<Longrightarrow> arena_bytes pages = 2 ^ K * BALLOC_MIN_BLOCK"
  by (simp add: arena_ok_def arena_bytes_def)

lemma need_level:
  assumes "arena_ok pages K" and "sz \<noteq> 0" and "unat sz \<le> arena_bytes pages"
  shows "unat (next_pow2 (if sz < 32 then 32 else sz)) div BALLOC_MIN_BLOCK = 2 ^ level (unat sz)"
    and "level (unat sz) \<le> K"
proof -
  let ?z = "if sz < 32 then 32 else sz"
  have ar: "arena_bytes pages = 2 ^ K * BALLOC_MIN_BLOCK" using assms(1) by (rule arena_bytes_K)
  have "(2 :: nat) ^ K \<le> 2 ^ 15" using assms(1) by (intro power_increasing) (auto simp: arena_ok_def)
  then have small: "unat sz \<le> 2 ^ 20" using assms(3) ar by simp
  have z: "unat ?z = max 32 (unat sz)" by (auto simp: word_less_nat_alt)
  then have "?z \<noteq> 0" "unat ?z \<le> 2 ^ 31" using small by (auto simp: unat_eq_zero)
  then obtain k where k: "unat (next_pow2 ?z) = 2 ^ k" "unat ?z \<le> 2 ^ k" "2 ^ k < 2 * unat ?z"
    by (rule next_pow2_spec)
  have "(2 :: nat) ^ 5 \<le> 2 ^ k" using k(2) z by simp
  then have "5 \<le> k" by (rule pow2_le_imp)
  then obtain n where n: "k = n + 5" by (metis le_add_diff_inverse2)
  have "level (unat sz) = n"
  proof (rule level_eqI)
    show "unat sz \<le> 2 ^ n * BALLOC_MIN_BLOCK" using k(2) z by (simp add: n power_add)
    show "n = 0 \<or> 2 ^ n * BALLOC_MIN_BLOCK < 2 * unat sz"
    proof (cases "unat sz \<le> 32")
      case True
      with k(3) z have "(2 :: nat) ^ n < 2 ^ 1" by (simp add: n power_add max_def split: if_splits)
      then show ?thesis using pow2_lt_imp [of n 1] by simp
    next
      case False
      with k(3) z show ?thesis by (simp add: n power_add max_def)
    qed
  qed
  then show "unat (next_pow2 ?z) div BALLOC_MIN_BLOCK = 2 ^ level (unat sz)"
    using k(1) by (simp add: n power_add)
  have "2 ^ k < 2 * (2 ^ K * BALLOC_MIN_BLOCK) \<or> 2 ^ k < (2 :: nat) ^ 6"
    using k(3) z assms(3) ar by (auto simp: max_def split: if_splits)
  then have "(2 :: nat) ^ n < 2 ^ Suc K"
    using one_le_power [of "2 :: nat" K] by (auto simp: n power_add intro: less_le_trans)
  then show "level (unat sz) \<le> K" using pow2_lt_imp [of n "Suc K"] \<open>level (unat sz) = n\<close> by simp
qed

text \<open>An allocation out of an arena already held.\<close>

lemma balloc_alloc_ready:
  assumes inv: "balloc_inv pages K b t" and r: "g_ready b"
    and rq: "sz \<noteq> 0" "unat sz \<le> arena_bytes pages"
  defines "n \<equiv> level (unat sz)"
  shows "2 ^ n \<le> avail K t \<Longrightarrow> \<exists>b'. balloc_alloc alloc upd pages b s sz =
      (Some (g_arena_base b + snd (alloc_bud K n t) * BALLOC_MIN_BLOCK), b',
       upd (\<lambda>m a. if g_arena_base b + snd (alloc_bud K n t) * BALLOC_MIN_BLOCK \<le> a
                    \<and> a < g_arena_base b + snd (alloc_bud K n t) * BALLOC_MIN_BLOCK + 2 ^ n * BALLOC_MIN_BLOCK
                   then 0 else m a) s)
      \<and> balloc_inv pages K b' (fst (alloc_bud K n t))
      \<and> g_ready b' \<and> g_arena_base b' = g_arena_base b"
    and "avail K t < 2 ^ n \<Longrightarrow> balloc_alloc alloc upd pages b s sz = (None, b, s)"
proof -
  have i: "arena_ok pages K" "length (g_longest b) = node_count pages" "rep (g_longest b) K 1 t"
    "arena_bytes pages dvd g_arena_base b" "0 < g_arena_base b"
    using inv r by (auto simp: balloc_inv_def)
  note need = need_level [OF i(1) rq, folded n_def]
  have top: "g_longest b ! 0 = avail K t" using rep_avail [OF i(3)] by simp
  {
    assume "2 ^ n \<le> avail K t"
    with tree_alloc_rep [OF i(1-3) need(2)] top obtain xs' where
      xs': "tree_alloc pages (g_longest b) (2 ^ n) = Some (snd (alloc_bud K n t), 2 ^ n, xs')"
        "rep xs' K 1 (fst (alloc_bud K n t))" "length xs' = length (g_longest b)" by auto
    with \<open>2 ^ n \<le> avail K t\<close> r rq need top i
    show "\<exists>b'. balloc_alloc alloc upd pages b s sz =
      (Some (g_arena_base b + snd (alloc_bud K n t) * BALLOC_MIN_BLOCK), b',
       upd (\<lambda>m a. if g_arena_base b + snd (alloc_bud K n t) * BALLOC_MIN_BLOCK \<le> a
                    \<and> a < g_arena_base b + snd (alloc_bud K n t) * BALLOC_MIN_BLOCK + 2 ^ n * BALLOC_MIN_BLOCK
                   then 0 else m a) s)
      \<and> balloc_inv pages K b' (fst (alloc_bud K n t))
      \<and> g_ready b' \<and> g_arena_base b' = g_arena_base b"
      by (intro exI [of _ "b\<lparr>g_longest := xs'\<rparr>"]) (simp add: balloc_alloc_def Let_def balloc_inv_def)
  next
    assume "avail K t < 2 ^ n"
    with r rq need top show "balloc_alloc alloc upd pages b s sz = (None, b, s)"
      by (simp add: balloc_alloc_def Let_def)
  }
qed

text \<open>Reserving the arena, for any allocator that keeps the contract of pages.\<close>

context page_memory begin

lemma reserve_post:
  assumes "inv s" and "pages < 2 ^ 20" and "balloc_inv pages K b t"
    and "balloc_reserve alloc pages b s = (True, b', s')"
  shows "balloc_inv pages K b' Free \<and> g_ready b' \<and> inv s'
    \<and> run_bytes (g_arena_base b') pages \<inter> live s = {}
    \<and> live s' = live s \<union> run_bytes (g_arena_base b') pages"
proof -
  from assms(4) obtain p where p: "alloc s pages pages = (Some p, s')"
    and b': "b' = b\<lparr>g_arena_base := p, g_longest := tree_init pages (g_longest b), g_ready := True\<rparr>"
    by (auto simp: balloc_reserve_def split: prod.splits option.splits)
  have ok: "num_leaves pages = 2 ^ K" "K < 16" "length (g_longest b) = node_count pages"
    using assms(3) by (auto simp: balloc_inv_def arena_ok_def)
  have "arena_bytes pages = pages * 4096" by (simp add: arena_bytes_def num_leaves_def)
  moreover have "pages * 4096 dvd p" using alloc_aligned [OF assms(1,2) p] .
  ultimately show ?thesis
    using tree_init_rep [OF ok] alloc_fresh [OF assms(1,2) p] alloc_addressable [OF assms(1,2) p]
      alloc_inv [OF assms(1,2) p] ok
    by (simp add: balloc_inv_def b' arena_ok_def del: rep.simps)
qed

lemma reserve_fail: "balloc_reserve alloc pages b s = (False, b', s') \<Longrightarrow> b' = b \<and> s' = s"
  using alloc_fail by (auto simp: balloc_reserve_def split: prod.splits option.splits)

text \<open>The first allocation reserves the arena and then allocates out of it.\<close>

lemma balloc_alloc_reserve:
  assumes "sz \<noteq> 0" and "unat sz \<le> arena_bytes pages" and "\<not> g_ready b"
  shows "balloc_alloc alloc upd pages b s sz =
    (case balloc_reserve alloc pages b s of
       (False, b', s') \<Rightarrow> (None, b', s')
     | (True, b', s') \<Rightarrow> balloc_alloc alloc upd pages b' s' sz)"
proof (cases "balloc_reserve alloc pages b s")
  case (fields ok b' s')
  then have "ok \<Longrightarrow> g_ready b'" by (auto simp: balloc_reserve_def split: prod.splits option.splits)
  with assms fields show ?thesis by (simp add: balloc_alloc_def split: bool.splits)
qed

text \<open>What a successful allocation leaves, whether or not it reserved the arena first.\<close>

lemma balloc_alloc_post:
  assumes "inv s" and "pages < 2 ^ 20" and "balloc_inv pages K b t"
    and "balloc_alloc alloc upd pages b s sz = (Some p, b', s')"
  defines "n \<equiv> level (unat sz)"
  shows "\<exists>q. p = g_arena_base b' + q * BALLOC_MIN_BLOCK \<and> q = snd (alloc_bud K n t)
    \<and> balloc_inv pages K b' (fst (alloc_bud K n t)) \<and> g_ready b' \<and> inv s'
    \<and> 2 ^ n \<le> avail K t \<and> n \<le> K
    \<and> (\<forall>x. p \<le> x \<and> x < p + 2 ^ n * BALLOC_MIN_BLOCK \<longrightarrow> mem s' x = 0)
    \<and> (g_ready b \<longrightarrow> g_arena_base b' = g_arena_base b \<and> live s' = live s)"
proof -
  from assms(4) have sz: "sz \<noteq> 0" "unat sz \<le> arena_bytes pages"
    by (auto simp: balloc_alloc_def split: if_splits)
  have lv: "level (unat sz) \<le> K"
    using assms(3) need_level(2) [OF _ sz] by (simp add: balloc_inv_def)
  obtain b1 s1 where b1: "balloc_alloc alloc upd pages b1 s1 sz = (Some p, b', s')"
    "balloc_inv pages K b1 t" "g_ready b1" "inv s1"
    "g_ready b \<longrightarrow> g_arena_base b1 = g_arena_base b \<and> live s1 = live s"
  proof (cases "g_ready b")
    case True
    with assms that show thesis by blast
  next
    case False
    then obtain b1 s1 where r: "balloc_reserve alloc pages b s = (True, b1, s1)"
      "balloc_alloc alloc upd pages b1 s1 sz = (Some p, b', s')"
      using assms(4) balloc_alloc_reserve [OF sz] by (auto split: prod.splits bool.splits)
    moreover have "t = Free" using assms(3) False by (simp add: balloc_inv_def)
    ultimately show thesis
      using reserve_post [OF assms(1-3) r(1)] False that by blast
  qed
  note al = balloc_alloc_ready [OF b1(2,3) sz, folded n_def, where alloc = alloc and upd = upd and s = s1]
  have av: "2 ^ n \<le> avail K t" using al(2) b1(1) by fastforce
  with al(1) b1 lv show ?thesis
    by (auto simp: n_def upd_mem upd_inv upd_live)
qed

end

end
