(* ===== verification/Buddy_Correct.thy ===== *)
theory Buddy_Correct
  imports Buddy
begin

text \<open>
  The buddy allocator over the page allocator of the kernel: what an allocation gives, what a free
  takes back, and that freed halves always merge.
\<close>

definition block_bytes :: "balloc \<Rightarrow> nat \<times> nat \<Rightarrow> nat set" where
  "block_bytes b x = {g_arena_base b + fst x * BALLOC_MIN_BLOCK ..<
                      g_arena_base b + (fst x + 2 ^ snd x) * BALLOC_MIN_BLOCK}"

text \<open>The allocator over the kernel's pages; \<open>caller\<close> is the return address recorded for the arena.\<close>

definition kernel_balloc_alloc :: "nat \<Rightarrow> nat \<Rightarrow> balloc \<Rightarrow> palloc \<Rightarrow> u32 \<Rightarrow> nat option \<times> balloc \<times> palloc" where
  "kernel_balloc_alloc caller = balloc_alloc (\<lambda>s n a. palloc_pages_aligned s n a caller) pa_mem_update"

lemma level_holds: "sz \<le> 2 ^ level sz * BALLOC_MIN_BLOCK"
  unfolding level_def
proof (rule LeastI)
  have "sz < 2 ^ sz" by (rule less_exp)
  then show "sz \<le> 2 ^ sz * BALLOC_MIN_BLOCK" by linarith
qed

lemma block_bytes_disjoint:
  assumes "wf_bud K t" and "x \<in> blocks K 0 t" and "y \<in> blocks K 0 t" and "x \<noteq> y"
  shows "block_bytes b x \<inter> block_bytes b y = {}"
proof -
  have "fst x + 2 ^ snd x \<le> fst y \<or> fst y + 2 ^ snd y \<le> fst x"
    using blocks_disjoint [OF assms(1), of "fst x" "snd x" 0 "fst y" "snd y"] assms by simp
  then show ?thesis by (auto simp: block_bytes_def)
qed

lemma arena_block_aligned:
  assumes "balloc_inv pages K b t" and "g_ready b" and "(q, d) \<in> blocks K 0 t"
  shows "2 ^ d * BALLOC_MIN_BLOCK dvd g_arena_base b + q * BALLOC_MIN_BLOCK"
    and "q < 2 ^ K" and "num_leaves pages = 2 ^ K"
proof -
  have i: "arena_ok pages K" "rep (g_longest b) K 1 t" "arena_bytes pages dvd g_arena_base b"
    using assms(1,2) by (auto simp: balloc_inv_def)
  note r = blocks_range [OF rep_wf [OF i(2)] assms(3)]
  have "(2 :: nat) ^ d dvd 2 ^ K" using r by (intro le_imp_power_dvd) simp
  then have "2 ^ d * BALLOC_MIN_BLOCK dvd arena_bytes pages" using arena_bytes_K [OF i(1)] by simp
  from this i(3) have "2 ^ d * BALLOC_MIN_BLOCK dvd g_arena_base b" by (rule dvd_trans)
  moreover have "2 ^ d * BALLOC_MIN_BLOCK dvd q * BALLOC_MIN_BLOCK" using r by simp
  ultimately show "2 ^ d * BALLOC_MIN_BLOCK dvd g_arena_base b + q * BALLOC_MIN_BLOCK" by (rule dvd_add)
  have "(0 :: nat) < 2 ^ d" by simp
  with r show "q < 2 ^ K" by linarith
  show "num_leaves pages = 2 ^ K" using i(1) by (simp add: arena_ok_def)
qed

lemma balloc_free_leaf:
  assumes inv: "balloc_inv pages K b t" and r: "g_ready b" and q: "q < 2 ^ K"
  shows "balloc_inv pages K (balloc_free pages b (g_arena_base b + q * BALLOC_MIN_BLOCK))
           (case free_bud K q t of None \<Rightarrow> t | Some t' \<Rightarrow> t')
    \<and> (free_bud K q t = None \<longrightarrow> balloc_free pages b (g_arena_base b + q * BALLOC_MIN_BLOCK) = b)
    \<and> g_ready (balloc_free pages b (g_arena_base b + q * BALLOC_MIN_BLOCK))
    \<and> g_arena_base (balloc_free pages b (g_arena_base b + q * BALLOC_MIN_BLOCK)) = g_arena_base b"
proof -
  have i: "arena_ok pages K" "length (g_longest b) = node_count pages" "rep (g_longest b) K 1 t"
    "arena_bytes pages dvd g_arena_base b" "0 < g_arena_base b" "num_leaves pages = 2 ^ K"
    using inv r by (auto simp: balloc_inv_def arena_ok_def)
  have "balloc_free pages b (g_arena_base b + q * BALLOC_MIN_BLOCK)
      = b\<lparr>g_longest := tree_free pages (g_longest b) q\<rparr>"
    using r q i by (simp add: balloc_free_def)
  with tree_free_rep [OF i(1-3) q] i r show ?thesis by (simp add: balloc_inv_def)
qed

section \<open>Properties of the buddy allocator\<close>

text \<open>
  C31: A pointer from the buddy allocator is the start of a zeroed block that holds the request, is a
  multiple of the block's own (power-of-two) size, and shares no byte with any block still handed
  out; the allocator's tree gains exactly that block.
\<close>

theorem buddy_alloc_sound:
  assumes "palloc_inv s" and "pages < 2 ^ 20" and "balloc_inv pages K b t"
    and "kernel_balloc_alloc caller pages b s sz = (Some p, b', s')"
  shows "\<exists>q t'. let x = (q, level (unat sz)) in
      p = g_arena_base b' + q * BALLOC_MIN_BLOCK
    \<and> balloc_inv pages K b' t' \<and> palloc_inv s'
    \<and> blocks K 0 t' = insert x (blocks K 0 t)
    \<and> unat sz \<le> card (block_bytes b' x) \<and> card (block_bytes b' x) dvd p
    \<and> (\<forall>a \<in> block_bytes b' x. pa_mem s' a = 0)
    \<and> (\<forall>y \<in> blocks K 0 t. block_bytes b' x \<inter> block_bytes b' y = {})"
proof -
  let ?n = "level (unat sz)"
  let ?t' = "fst (alloc_bud K ?n t)" and ?q = "snd (alloc_bud K ?n t)"
  let ?x = "(?q, ?n)"
  from palloc_memory.balloc_alloc_post [OF assms(1-3) assms(4) [unfolded kernel_balloc_alloc_def]]
  have post: "p = g_arena_base b' + ?q * BALLOC_MIN_BLOCK" "balloc_inv pages K b' ?t'" "g_ready b'"
    "palloc_inv s'" "2 ^ ?n \<le> avail K t" "?n \<le> K"
    "\<forall>a. p \<le> a \<and> a < p + 2 ^ ?n * BALLOC_MIN_BLOCK \<longrightarrow> pa_mem s' a = 0" by auto
  have wf: "wf_bud K t"
    using assms(3) rep_wf by (cases "g_ready b") (auto simp: balloc_inv_def)
  from alloc_bud_blocks [OF wf post(5,6), of 0] have
    bl: "wf_bud K ?t'" "blocks K 0 ?t' = insert ?x (blocks K 0 t)" by simp_all
  have "card (block_bytes b' ?x) = 2 ^ ?n * BALLOC_MIN_BLOCK"
    by (simp add: block_bytes_def algebra_simps)
  moreover have "2 ^ ?n * BALLOC_MIN_BLOCK dvd p"
    using arena_block_aligned(1) [OF post(2,3), of ?q ?n] bl(2) post(1) by simp
  moreover have "\<forall>a \<in> block_bytes b' ?x. pa_mem s' a = 0"
    using post(7) post(1) by (auto simp: block_bytes_def algebra_simps)
  moreover have "block_bytes b' ?x \<inter> block_bytes b' y = {}" if y: "y \<in> blocks K 0 t" for y
  proof (rule block_bytes_disjoint [OF bl(1)])
    show "?x \<noteq> y"
    proof
      assume eq: "?x = y"
      \<comment> \<open>the block would be free in the tree it was taken from\<close>
      from free_bud_blocks [OF wf, of 0 ?q ?n] y eq obtain u
        where "free_bud K ?q t = Some u" by auto
      moreover have "free_bud K ?q t = None"
        using alloc_bud_was_free [OF wf post(5,6)] .
      ultimately show False by simp
    qed
  qed (use bl(2) y in auto)
  ultimately show ?thesis
    using post bl(2) level_holds [of "unat sz"] by (intro exI [of _ ?q] exI [of _ ?t']) (simp add: Let_def)
qed

lemma demo_inv:
  assumes "\<not> g_ready b" and "length (g_longest b) = 255"
  shows "balloc_inv 1 7 b Free"
  using assms by (simp add: balloc_inv_def arena_ok_def num_leaves_def node_count_def)

definition demo_balloc :: balloc where
  "demo_balloc = \<lparr>g_longest = replicate 255 0, g_arena_base = 0, g_ready = False\<rparr>"

text \<open>The state after the first allocation, of 100 bytes: a block of four leaves at the arena's start.\<close>

lemma demo_reserve:
  "\<exists>xs s. balloc_reserve (\<lambda>s n a. palloc_pages_aligned s n a 0) 1 demo_balloc demo_boot
      = (True, \<lparr>g_longest = xs, g_arena_base = 0x2000, g_ready = True\<rparr>, s)"
proof -
  have "fst (palloc_pages_aligned demo_boot 1 1 0) = Some 0x2000"
    by (simp add: palloc_pages_aligned_def demo_boot_def palloc_init_def palloc_boot_def demo_cfg_def
        Let_def heap_capped_def blank_zone_def zone_setup_def page_up_def page_down_def alloc_fast_def
        zone_eval)
  then obtain s' where "palloc_pages_aligned demo_boot 1 1 0 = (Some 0x2000, s')"
    by (metis prod.collapse)
  then show ?thesis by (simp add: balloc_reserve_def demo_balloc_def)
qed

lemma level_100: "level 100 = 2"
  by (rule level_eqI) simp_all

lemma alloc_100: "alloc_bud 7 2 Free = (Split (Split (Split (Split (Split Used Free) Free) Free) Free) Free, 0)"
  by code_simp

lemma demo_boot_inv: "palloc_inv demo_boot"
  using owned_invD(1) [OF owned_reach [OF demo_boot_owned]] .

lemma demo_alloc:
  "\<exists>b' s'. kernel_balloc_alloc 0 1 demo_balloc demo_boot 100 = (Some 0x2000, b', s')
     \<and> balloc_inv 1 7 b' (fst (alloc_bud 7 2 Free)) \<and> g_ready b' \<and> g_arena_base b' = 0x2000"
proof -
  have bi: "balloc_inv 1 7 demo_balloc Free" by (rule demo_inv) (simp_all add: demo_balloc_def)
  have sz: "(100 :: u32) \<noteq> 0" "unat (100 :: u32) \<le> arena_bytes 1"
    by (simp_all add: arena_bytes_def num_leaves_def)
  obtain xs s where r: "balloc_reserve (\<lambda>s n a. palloc_pages_aligned s n a 0) 1 demo_balloc demo_boot
      = (True, \<lparr>g_longest = xs, g_arena_base = 0x2000, g_ready = True\<rparr>, s)"
    using demo_reserve by blast
  let ?b = "\<lparr>g_longest = xs, g_arena_base = 0x2000, g_ready = True\<rparr>"
  have i: "balloc_inv 1 7 ?b Free"
    using palloc_memory.reserve_post [OF demo_boot_inv _ bi r] by simp
  have "\<not> g_ready demo_balloc" by (simp add: demo_balloc_def)
  from palloc_memory.balloc_alloc_reserve [OF sz this, of 0 demo_boot] r
  have eq: "kernel_balloc_alloc 0 1 demo_balloc demo_boot 100 = kernel_balloc_alloc 0 1 ?b s 100"
    by (simp add: kernel_balloc_alloc_def)
  have "(2 :: nat) ^ level (unat (100 :: u32)) \<le> avail 7 Free" by (simp add: level_100)
  from balloc_alloc_ready(1) [OF i _ sz this, of "\<lambda>s n a. palloc_pages_aligned s n a 0" pa_mem_update s]
  show ?thesis unfolding eq by (auto simp: kernel_balloc_alloc_def level_100 alloc_100)
qed

theorem buddy_alloc_sound_witness:
  "\<exists>b' s' q. kernel_balloc_alloc 0 1 demo_balloc demo_boot 100 = (Some 0x2000, b', s')
     \<and> g_arena_base b' + q * 32 = 0x2000 \<and> card (block_bytes b' (q, 2)) dvd 0x2000
     \<and> (\<forall>a \<in> block_bytes b' (q, 2). pa_mem s' a = 0)"
proof -
  have bi: "balloc_inv 1 7 demo_balloc Free" by (rule demo_inv) (simp_all add: demo_balloc_def)
  obtain b' s' where al: "kernel_balloc_alloc 0 1 demo_balloc demo_boot 100 = (Some 0x2000, b', s')"
    using demo_alloc by blast
  from buddy_alloc_sound [OF demo_boot_inv _ bi al] al show ?thesis
    by (fastforce simp: level_100 Let_def)
qed

text \<open>
  An allocation fails only for want of room: from an arena already held, a request succeeds
  exactly when the tree has a free block of its level, and a failed request changes nothing.
\<close>

theorem buddy_alloc_complete:
  assumes "balloc_inv pages K b t" and "g_ready b" and "sz \<noteq> 0" and "unat sz \<le> arena_bytes pages"
  shows "(\<exists>p b' s'. kernel_balloc_alloc caller pages b s sz = (Some p, b', s'))
      = (2 ^ level (unat sz) \<le> avail K t)
    \<and> (avail K t < 2 ^ level (unat sz) \<longrightarrow> kernel_balloc_alloc caller pages b s sz = (None, b, s))
    \<and> snd (balloc_stats pages b) = avail K t * BALLOC_MIN_BLOCK"
proof -
  note al = balloc_alloc_ready [OF assms, of "\<lambda>s n a. palloc_pages_aligned s n a caller" pa_mem_update s, folded kernel_balloc_alloc_def]
  have "rep (g_longest b) K 1 t" using assms(1,2) by (simp add: balloc_inv_def)
  then have "g_longest b ! 0 = avail K t" using rep_avail by fastforce
  with al assms(2) show ?thesis
    by (cases "2 ^ level (unat sz) \<le> avail K t") (auto simp: balloc_stats_def)
qed

theorem buddy_alloc_complete_witness:
  "\<exists>b s. balloc_inv 1 7 b (fst (alloc_bud 7 2 Free)) \<and> g_ready b
     \<and> kernel_balloc_alloc 0 1 b s 4096 = (None, b, s) \<and> snd (balloc_stats 1 b) = 2048"
proof -
  obtain b where b: "balloc_inv 1 7 b (fst (alloc_bud 7 2 Free))" "g_ready b" using demo_alloc by blast
  have sz: "(4096 :: u32) \<noteq> 0" "unat (4096 :: u32) \<le> arena_bytes 1"
    by (simp_all add: arena_bytes_def num_leaves_def)
  have "level 4096 = 7" by (rule level_eqI) simp_all
  moreover have "avail 7 (fst (alloc_bud 7 2 Free)) = 64" by (simp add: alloc_100)
  ultimately show ?thesis using buddy_alloc_complete [OF b sz, of 0 demo_boot] b by auto
qed

text \<open>
  Giving back a block that is handed out removes exactly that block, whatever its size, and
  leaves the others; a pointer to a part of the arena that is in no block (a second free of the
  same pointer, say) changes nothing.
\<close>

theorem buddy_free_exact:
  assumes "balloc_inv pages K b t" and "g_ready b"
  shows "((q, d) \<in> blocks K 0 t \<longrightarrow>
      (\<exists>t'. balloc_inv pages K (balloc_free pages b (g_arena_base b + q * BALLOC_MIN_BLOCK)) t'
          \<and> blocks K 0 t' = blocks K 0 t - {(q, d)}))
    \<and> (q < 2 ^ K \<and> (\<forall>(r, e) \<in> blocks K 0 t. q < r \<or> r + 2 ^ e \<le> q) \<longrightarrow>
        balloc_free pages b (g_arena_base b + q * BALLOC_MIN_BLOCK) = b)"
proof (intro conjI impI)
  have wf: "wf_bud K t" using assms rep_wf by (auto simp: balloc_inv_def)
  {
    assume m: "(q, d) \<in> blocks K 0 t"
    from free_bud_blocks [OF wf, of 0 q d] m obtain t' where
      t': "free_bud K q t = Some t'" "blocks K 0 t' = blocks K 0 t - {(q, d)}" by auto
    have "q < 2 ^ K" using arena_block_aligned(2) [OF assms m] .
    from balloc_free_leaf [OF assms this] t'
    show "\<exists>t'. balloc_inv pages K (balloc_free pages b (g_arena_base b + q * BALLOC_MIN_BLOCK)) t'
        \<and> blocks K 0 t' = blocks K 0 t - {(q, d)}" by auto
  next
    assume m: "q < 2 ^ K \<and> (\<forall>(r, e) \<in> blocks K 0 t. q < r \<or> r + 2 ^ e \<le> q)"
    have "free_bud K q t = None"
      using free_bud_outside [OF wf, where p = 0 and q = q] m by auto
    with balloc_free_leaf [OF assms, of q] m
    show "balloc_free pages b (g_arena_base b + q * BALLOC_MIN_BLOCK) = b" by simp
  }
qed

theorem buddy_free_exact_witness:
  "\<exists>b t'. g_ready b \<and> g_arena_base b = 0x2000 \<and> balloc_inv 1 7 (balloc_free 1 b 0x2000) t' \<and> blocks 7 0 t' = {}
     \<and> balloc_free 1 b 0x2100 = b"
proof -
  obtain b where b: "balloc_inv 1 7 b (fst (alloc_bud 7 2 Free))" "g_ready b" "g_arena_base b = 0x2000"
    using demo_alloc by blast
  have bl: "blocks 7 0 (fst (alloc_bud 7 2 Free)) = {(0, 2)}" by (simp add: alloc_100)
  from buddy_free_exact [OF b(1,2), of 0 2] buddy_free_exact [OF b(1,2), of 8 2] b bl
  show ?thesis by (intro exI [of _ b]) auto
qed

text \<open>
  C33: Free halves always merge: allocating a block and giving it back returns the tree to what it
  was, and once every block is back the allocator can serve its whole arena again.
\<close>

theorem buddy_no_fragmentation:
  assumes "balloc_inv pages K b t" and "g_ready b" and "palloc_inv s" and "pages < 2 ^ 20"
  shows "(\<forall>caller sz p b' s'. kernel_balloc_alloc caller pages b s sz = (Some p, b', s') \<longrightarrow>
            balloc_inv pages K (balloc_free pages b' p) t)
    \<and> (blocks K 0 t = {} \<longrightarrow> snd (balloc_stats pages b) = arena_bytes pages)"
proof (intro conjI allI impI)
  have wf: "wf_bud K t" using assms(1,2) rep_wf by (auto simp: balloc_inv_def)
  {
    fix caller sz p b' s'
    assume al: "kernel_balloc_alloc caller pages b s sz = (Some p, b', s')"
    let ?n = "level (unat sz)"
    let ?q = "snd (alloc_bud K ?n t)"
    from palloc_memory.balloc_alloc_post [OF assms(3,4,1) al [unfolded kernel_balloc_alloc_def]]
    have post: "p = g_arena_base b' + ?q * BALLOC_MIN_BLOCK" "balloc_inv pages K b' (fst (alloc_bud K ?n t))"
      "g_ready b'" "2 ^ ?n \<le> avail K t" "?n \<le> K" by auto
    note fa = free_alloc_bud [OF wf post(4,5)]
    have "(0 :: nat) < 2 ^ ?n" by simp
    with fa have "?q < 2 ^ K" by linarith
    from balloc_free_leaf [OF post(2,3) this] fa post(1)
    show "balloc_inv pages K (balloc_free pages b' p) t" by simp
  next
    assume "blocks K 0 t = {}"
    with wf have t: "t = Free" by (rule no_blocks_free)
    have "rep (g_longest b) K 1 t" "arena_ok pages K" using assms(1,2) by (simp_all add: balloc_inv_def)
    with t show "snd (balloc_stats pages b) = arena_bytes pages"
      using rep_avail [of "g_longest b" K 1 t] assms(2) arena_bytes_K by (simp add: balloc_stats_def)
  }
qed

theorem buddy_no_fragmentation_witness:
  "\<exists>b. g_ready b \<and> balloc_inv 1 7 b Free \<and> snd (balloc_stats 1 b) = 4096"
proof -
  have bi: "balloc_inv 1 7 demo_balloc Free" by (rule demo_inv) (simp_all add: demo_balloc_def)
  obtain xs s where r: "balloc_reserve (\<lambda>s n a. palloc_pages_aligned s n a 0) 1 demo_balloc demo_boot
      = (True, \<lparr>g_longest = xs, g_arena_base = 0x2000, g_ready = True\<rparr>, s)"
    using demo_reserve by blast
  let ?b = "\<lparr>g_longest = xs, g_arena_base = 0x2000, g_ready = True\<rparr>"
  have i: "balloc_inv 1 7 ?b Free"
    using palloc_memory.reserve_post [OF demo_boot_inv _ bi r] by simp
  with buddy_no_fragmentation [OF i _ demo_boot_inv] show ?thesis
    by (intro exI [of _ ?b]) (simp add: arena_bytes_def num_leaves_def)
qed

end
