(* ===== verification/Fifo.thy ===== *)
theory Fifo
  imports Prelude
begin

text \<open>
  The contract of a first-come first-served queue of waiters, as the blocking objects use it: add at
  the tail, take from the head, and take a waiter out of the middle when its wait ends early.
  \<open>holds s ws\<close> says that the state stands for the waiters \<open>ws\<close>, oldest first, and \<open>room\<close> says
  when a waiter may be added.  \<open>remove\<close> is a search that may in principle not end.
\<close>

locale fifo =
  fixes holds :: "'s \<Rightarrow> 'w list \<Rightarrow> bool"
    and room :: "'s \<Rightarrow> 'w list \<Rightarrow> 'w \<Rightarrow> bool"
    and push :: "'s \<Rightarrow> 'w \<Rightarrow> 's"
    and pop :: "'s \<Rightarrow> ('w \<times> 's) option"
    and remove :: "'s \<Rightarrow> 'w \<Rightarrow> (bool \<times> 's) option"
  assumes holds_distinct: "holds s ws \<Longrightarrow> distinct ws"
    and push_holds: "holds s ws \<Longrightarrow> w \<notin> set ws \<Longrightarrow> room s ws w \<Longrightarrow> holds (push s w) (ws @ [w])"
    and pop_empty: "holds s [] \<Longrightarrow> pop s = None"
    and pop_first: "holds s (w # ws) \<Longrightarrow> \<exists>s'. pop s = Some (w, s') \<and> holds s' ws"
    and remove_present: "holds s ws \<Longrightarrow> w \<in> set ws \<Longrightarrow> \<exists>s'. remove s w = Some (True, s') \<and> holds s' (remove1 w ws)"
    and remove_absent: "holds s ws \<Longrightarrow> w \<notin> set ws \<Longrightarrow> remove s w = Some (False, s)"
begin

fun pops :: "nat \<Rightarrow> 's \<Rightarrow> 'w list \<times> 's" where
  "pops 0 s = ([], s)"
| "pops (Suc n) s = (case pop s of None \<Rightarrow> ([], s) | Some (w, s') \<Rightarrow> (w # fst (pops n s'), snd (pops n s')))"

lemma pops_in_order: "holds s ws \<Longrightarrow> fst (pops n s) = take n ws \<and> holds (snd (pops n s)) (drop n ws)"
proof (induction n arbitrary: s ws)
  case (Suc n)
  show ?case
  proof (cases ws)
    case Nil
    with Suc.prems pop_empty show ?thesis by auto
  next
    case (Cons w vs)
    with Suc.prems pop_first obtain s' where "pop s = Some (w, s')" "holds s' vs" by blast
    with Suc.IH Cons show ?thesis by auto
  qed
qed simp

text \<open>A waiter that gives up does not change the order of the others.\<close>

lemma order_kept:
  assumes "holds s ws" and "w \<in> set ws"
  shows "\<exists>s'. remove s w = Some (True, s') \<and> fst (pops (length ws) s') = filter (\<lambda>v. v \<noteq> w) ws"
proof -
  from remove_present [OF assms] obtain s' where s': "remove s w = Some (True, s')" "holds s' (remove1 w ws)"
    by blast
  have "remove1 w ws = filter (\<lambda>v. v \<noteq> w) ws"
    using holds_distinct [OF assms(1)] by (rule distinct_remove1_removeAll [unfolded removeAll_filter_not_eq, THEN trans])
      (simp add: eq_commute)
  with s' pops_in_order [OF s'(2), of "length ws"] show ?thesis by simp
qed

lemma push_pop: "holds s [] \<Longrightarrow> room s [] w \<Longrightarrow> \<exists>s'. pop (push s w) = Some (w, s') \<and> holds s' []"
  using push_holds [of s "[]" w] pop_first by fastforce

end

end
