(* ===== verification/Wlist.thy ===== *)
theory Wlist
  imports Fifo
begin

text \<open>
  The waiter lists of \<open>kernel/kobj.c\<close>: singly linked lists through the \<open>next\<close> field of waiter
  structures that live in the callers' memory.  The structures are a store from addresses
  (0 is \<open>NULL\<close>) to records; the list walks of the code follow the pointers of the store.
\<close>

definition KW_IDLE :: nat where "KW_IDLE = 0"
definition KW_WAIT :: nat where "KW_WAIT = 1"
definition KW_GRANT :: nat where "KW_GRANT = 2"
definition KW_FAILED :: nat where "KW_FAILED = 3"

lemmas kw_defs = KW_IDLE_def KW_WAIT_def KW_GRANT_def KW_FAILED_def

record kwaiter =
  kw_next :: nat
  kw_who :: int
  kw_state :: nat
  kw_item :: nat
  kw_want :: u32
  kw_got :: u32
  kw_all :: bool
  kw_clear :: bool

type_synonym wstore = "nat \<Rightarrow> kwaiter"

record wlist =
  wl_head :: nat
  wl_tail :: nat

definition wl_push :: "wstore \<times> wlist \<Rightarrow> nat \<Rightarrow> wstore \<times> wlist" where
  "wl_push = (\<lambda>(st, l) w.
     let st1 = st(w := (st w)\<lparr>kw_next := 0, kw_state := KW_WAIT\<rparr>)
     in if wl_tail l \<noteq> 0
        then (st1(wl_tail l := (st1 (wl_tail l))\<lparr>kw_next := w\<rparr>), l\<lparr>wl_tail := w\<rparr>)
        else (st1, l\<lparr>wl_head := w, wl_tail := w\<rparr>))"

definition wl_pop :: "wstore \<times> wlist \<Rightarrow> (nat \<times> wstore \<times> wlist) option" where
  "wl_pop = (\<lambda>(st, l).
     let w = wl_head l
     in if w = 0 then None
        else let l1 = l\<lparr>wl_head := kw_next (st w)\<rparr>;
                 l2 = (if wl_head l1 = 0 then l1\<lparr>wl_tail := 0\<rparr> else l1)
             in Some (w, st(w := (st w)\<lparr>kw_next := 0\<rparr>), l2))"

text \<open>The unlinking of \<open>c\<close>, found behind \<open>prev\<close>.\<close>

definition wl_unlink :: "wstore \<Rightarrow> wlist \<Rightarrow> nat \<Rightarrow> nat \<Rightarrow> wstore \<times> wlist" where
  "wl_unlink st l prev c =
     (let nx = kw_next (st c);
          st1 = (if prev \<noteq> 0 then st(prev := (st prev)\<lparr>kw_next := nx\<rparr>) else st);
          l1 = (if prev \<noteq> 0 then l else l\<lparr>wl_head := nx\<rparr>);
          l2 = (if wl_tail l1 = c then l1\<lparr>wl_tail := prev\<rparr> else l1)
      in (st1(c := (st1 c)\<lparr>kw_next := 0\<rparr>), l2))"

partial_function (option) wl_remove_loop ::
    "wstore \<Rightarrow> wlist \<Rightarrow> nat \<Rightarrow> nat \<Rightarrow> nat \<Rightarrow> (bool \<times> wstore \<times> wlist) option" where
  "wl_remove_loop st l w prev c =
     (if c = 0 then Some (False, st, l)
      else if c \<noteq> w then wl_remove_loop st l w c (kw_next (st c))
      else Some (True, wl_unlink st l prev c))"

definition wl_remove :: "wstore \<times> wlist \<Rightarrow> nat \<Rightarrow> (bool \<times> wstore \<times> wlist) option" where
  "wl_remove = (\<lambda>(st, l) w. wl_remove_loop st l w 0 (wl_head l))"

text \<open>The list of wake-ups a call returns (\<open>None\<close>: the caller passed \<open>NULL\<close>): at most \<open>KWAKE_MAX\<close>; further ones are dropped.\<close>

definition KWAKE_MAX :: nat where "KWAKE_MAX = 32"

definition kw_add :: "int list option \<Rightarrow> int \<Rightarrow> int list option" where
  "kw_add wk who = map_option (\<lambda>k. if length k < KWAKE_MAX then k @ [who] else k) wk"

partial_function (option) wl_fail_all ::
    "wstore \<Rightarrow> wlist \<Rightarrow> int list option \<Rightarrow> (wstore \<times> wlist \<times> int list option) option" where
  "wl_fail_all st l wk =
     (case wl_pop (st, l) of
        None \<Rightarrow> Some (st, l, wk)
      | Some (w, st1, l1) \<Rightarrow>
          wl_fail_all (st1(w := (st1 w)\<lparr>kw_state := KW_FAILED\<rparr>)) l1 (kw_add wk (kw_who (st1 w))))"

section \<open>What a list stands for\<close>

text \<open>Following \<open>next\<close> from \<open>p\<close> visits \<open>ws\<close> and arrives at \<open>q\<close>.\<close>

fun seg :: "wstore \<Rightarrow> nat \<Rightarrow> nat list \<Rightarrow> nat \<Rightarrow> bool" where
  "seg st p [] q \<longleftrightarrow> p = q"
| "seg st p (w # ws) q \<longleftrightarrow> p = w \<and> w \<noteq> 0 \<and> seg st (kw_next (st w)) ws q"

definition wl_holds :: "wstore \<times> wlist \<Rightarrow> nat list \<Rightarrow> bool" where
  "wl_holds = (\<lambda>(st, l) ws. seg st (wl_head l) ws 0 \<and> wl_tail l = (if ws = [] then 0 else last ws) \<and> distinct ws)"

lemma seg_nonzero: "seg st p ws q \<Longrightarrow> 0 \<notin> set ws"
  by (induction ws arbitrary: p) auto

lemma seg_append: "seg st p (xs @ ys) q \<longleftrightarrow> (\<exists>r. seg st p xs r \<and> seg st r ys q)"
  by (induction xs arbitrary: p) auto

lemma seg_cong: "(\<And>x. x \<in> set ws \<Longrightarrow> kw_next (st x) = kw_next (st' x)) \<Longrightarrow> seg st p ws q = seg st' p ws q"
  by (induction ws arbitrary: p) auto

lemma seg_upd_other [simp]: "w \<notin> set ws \<Longrightarrow> seg (st(w := v)) p ws q = seg st p ws q"
  by (rule seg_cong) auto

lemma wl_holds_cong:
  "(\<And>x. x \<in> set ws \<Longrightarrow> kw_next (st x) = kw_next (st' x)) \<Longrightarrow> wl_holds (st, l) ws = wl_holds (st', l) ws"
  by (auto simp: wl_holds_def seg_cong [of ws st st'])

lemma wl_holds_nonzero: "wl_holds (st, l) ws \<Longrightarrow> 0 \<notin> set ws"
  by (auto simp: wl_holds_def dest: seg_nonzero)

lemma wl_push_holds:
  assumes "wl_holds (st, l) ws" and "w \<notin> set ws" and "w \<noteq> 0"
  shows "wl_holds (wl_push (st, l) w) (ws @ [w])"
proof (cases ws rule: rev_cases)
  case Nil
  with assms show ?thesis by (simp add: wl_holds_def wl_push_def)
next
  case (snoc vs t)
  with assms have "t \<noteq> 0" "t \<noteq> w" "t \<notin> set vs" "w \<notin> set vs" "seg st (wl_head l) vs t"
    by (auto simp: wl_holds_def seg_append)
  with snoc assms show ?thesis by (auto simp: wl_holds_def wl_push_def seg_append Let_def)
qed

lemma wl_pop_empty: "wl_holds (st, l) [] \<Longrightarrow> wl_pop (st, l) = None"
  by (simp add: wl_holds_def wl_pop_def Let_def)

lemma wl_pop_first:
  assumes "wl_holds (st, l) (w # ws)"
  shows "\<exists>l'. wl_pop (st, l) = Some (w, st(w := (st w)\<lparr>kw_next := 0\<rparr>), l')
    \<and> wl_holds (st(w := (st w)\<lparr>kw_next := 0\<rparr>), l') ws"
  using assms by (cases ws) (auto simp: wl_holds_def wl_pop_def Let_def)

lemma wl_unlink_holds:
  assumes "wl_holds (st, l) (xs @ w # ys)"
  shows "wl_holds (wl_unlink st l (if xs = [] then 0 else last xs) w) (xs @ ys)"
proof (cases xs rule: rev_cases)
  case Nil
  with assms show ?thesis by (cases ys rule: rev_cases) (auto simp: wl_holds_def wl_unlink_def Let_def)
next
  case (snoc vs t)
  with assms have "t \<noteq> 0" "t \<noteq> w" "t \<notin> set vs" "t \<notin> set ys" "w \<notin> set vs" "w \<notin> set ys"
    by (auto simp: wl_holds_def seg_append)
  with snoc assms show ?thesis
    by (cases ys rule: rev_cases) (auto simp: wl_holds_def wl_unlink_def seg_append Let_def)
qed

lemma wl_remove_loop_run:
  assumes "seg st c ys 0"
  shows "wl_remove_loop st l w prev c =
    Some (if w \<in> set ys
          then (True, wl_unlink st l (case takeWhile (\<lambda>v. v \<noteq> w) ys of [] \<Rightarrow> prev | vs \<Rightarrow> last vs) w)
          else (False, st, l))"
  using assms
proof (induction ys arbitrary: c prev)
  case Nil
  then show ?case by (simp add: wl_remove_loop.simps)
next
  case (Cons y ys)
  then have "c = y" "y \<noteq> 0" and seg: "seg st (kw_next (st y)) ys 0" by auto
  show ?case
  proof (cases "y = w")
    case True
    with \<open>c = y\<close> \<open>y \<noteq> 0\<close> show ?thesis by (simp add: wl_remove_loop.simps)
  next
    case False
    have "wl_remove_loop st l w prev c = wl_remove_loop st l w y (kw_next (st y))"
      using False \<open>c = y\<close> \<open>y \<noteq> 0\<close> by (subst wl_remove_loop.simps) simp
    with Cons.IH [OF seg] False show ?thesis by (auto split: list.splits)
  qed
qed

lemma wl_remove_run:
  assumes "wl_holds (st, l) ws"
  shows "w \<notin> set ws \<Longrightarrow> wl_remove (st, l) w = Some (False, st, l)"
    and "w \<in> set ws \<Longrightarrow> \<exists>s'. wl_remove (st, l) w = Some (True, s') \<and> wl_holds s' (remove1 w ws)
      \<and> (\<forall>x. (x \<notin> set ws \<longrightarrow> fst s' x = st x) \<and> (fst s' x)\<lparr>kw_next := 0\<rparr> = (st x)\<lparr>kw_next := 0\<rparr>)"
proof -
  have seg: "seg st (wl_head l) ws 0" using assms by (simp add: wl_holds_def)
  note run = wl_remove_loop_run [OF seg, of l w 0]
  show "w \<notin> set ws \<Longrightarrow> wl_remove (st, l) w = Some (False, st, l)"
    using run by (simp add: wl_remove_def)
  assume w: "w \<in> set ws"
  from split_list_first [OF w] obtain xs ys where ws: "ws = xs @ w # ys" "w \<notin> set xs" by blast
  have xs: "takeWhile (\<lambda>v. v \<noteq> w) ws = xs" using ws by (auto intro: takeWhile_append2 [THEN trans])
  have pr: "(case xs of [] \<Rightarrow> 0 | vs \<Rightarrow> last vs) = (if xs = [] then 0 else last xs)" by (cases xs) auto
  have "wl_remove (st, l) w = Some (True, wl_unlink st l (if xs = [] then 0 else last xs) w)"
    using run w by (simp add: wl_remove_def xs pr)
  moreover have "remove1 w ws = xs @ ys" using ws by (simp add: remove1_append)
  moreover have "(\<forall>x. (x \<notin> set ws \<longrightarrow> fst (wl_unlink st l p w) x = st x)
      \<and> (fst (wl_unlink st l p w) x)\<lparr>kw_next := 0\<rparr> = (st x)\<lparr>kw_next := 0\<rparr>)"
    if "p = 0 \<or> p \<in> set ws" for p
    using that w by (auto simp: wl_unlink_def Let_def)
  moreover have "(if xs = [] then 0 else last xs) = 0 \<or> (if xs = [] then 0 else last xs) \<in> set ws"
    using ws by auto
  ultimately show "\<exists>s'. wl_remove (st, l) w = Some (True, s') \<and> wl_holds s' (remove1 w ws)
      \<and> (\<forall>x. (x \<notin> set ws \<longrightarrow> fst s' x = st x) \<and> (fst s' x)\<lparr>kw_next := 0\<rparr> = (st x)\<lparr>kw_next := 0\<rparr>)"
    using wl_unlink_holds [of st l xs w ys] assms ws by fastforce
qed

interpretation wl: fifo wl_holds "\<lambda>s ws w. w \<noteq> 0" wl_push wl_pop wl_remove
proof
  show "wl_holds s ws \<Longrightarrow> distinct ws" for s ws by (cases s) (simp add: wl_holds_def)
  show "wl_holds s ws \<Longrightarrow> w \<notin> set ws \<Longrightarrow> w \<noteq> 0 \<Longrightarrow> wl_holds (wl_push s w) (ws @ [w])" for s ws w
    by (cases s) (simp add: wl_push_holds)
  show "wl_holds s [] \<Longrightarrow> wl_pop s = None" for s by (cases s) (simp add: wl_pop_empty)
  show "wl_holds s (w # ws) \<Longrightarrow> \<exists>s'. wl_pop s = Some (w, s') \<and> wl_holds s' ws" for s w ws
    using wl_pop_first by (cases s) blast
  show "wl_holds s ws \<Longrightarrow> w \<in> set ws \<Longrightarrow> \<exists>s'. wl_remove s w = Some (True, s') \<and> wl_holds s' (remove1 w ws)"
    for s ws w using wl_remove_run(2) by (cases s) blast
  show "wl_holds s ws \<Longrightarrow> w \<notin> set ws \<Longrightarrow> wl_remove s w = Some (False, s)" for s ws w
    using wl_remove_run(1) by (cases s) blast
qed

text \<open>Failing every waiter: all of them are marked, woken in order, and the list is empty.\<close>

lemma wl_fail_all_run:
  assumes "wl_holds (st, l) ws"
  shows "\<exists>st' l'. wl_fail_all st l wk = Some (st', l', fold (\<lambda>w k. kw_add k (kw_who (st w))) ws wk)
    \<and> wl_holds (st', l') [] \<and> (\<forall>x. x \<notin> set ws \<longrightarrow> st' x = st x)
    \<and> (\<forall>x \<in> set ws. st' x = (st x)\<lparr>kw_next := 0, kw_state := KW_FAILED\<rparr>)"
  using assms
proof (induction ws arbitrary: st l wk)
  case Nil
  then show ?case by (subst wl_fail_all.simps) (simp add: wl_pop_empty)
next
  case (Cons w ws)
  let ?st1 = "st(w := (st w)\<lparr>kw_next := 0\<rparr>)"
  let ?st2 = "?st1(w := (?st1 w)\<lparr>kw_state := KW_FAILED\<rparr>)"
  from wl_pop_first [OF Cons.prems] obtain l1 where
    pop: "wl_pop (st, l) = Some (w, ?st1, l1)" and h: "wl_holds (?st1, l1) ws" by blast
  have wn: "w \<notin> set ws" using Cons.prems by (simp add: wl_holds_def)
  then have h2: "wl_holds (?st2, l1) ws" using h by (subst wl_holds_cong [of ws _ ?st1]) auto
  from Cons.IH [OF h2, of "kw_add wk (kw_who (st w))"] obtain st' l' where
    IH: "wl_fail_all ?st2 l1 (kw_add wk (kw_who (st w)))
        = Some (st', l', fold (\<lambda>w k. kw_add k (kw_who (?st2 w))) ws (kw_add wk (kw_who (st w))))"
      "wl_holds (st', l') []" "\<forall>x. x \<notin> set ws \<longrightarrow> st' x = ?st2 x"
      "\<forall>x \<in> set ws. st' x = (?st2 x)\<lparr>kw_next := 0, kw_state := KW_FAILED\<rparr>" by blast
  have f: "fold (\<lambda>w k. kw_add k (kw_who (?st2 w))) ws k = fold (\<lambda>w k. kw_add k (kw_who (st w))) ws k" for k
    by (rule fold_cong) (use wn in auto)
  have "wl_fail_all st l wk = wl_fail_all ?st2 l1 (kw_add wk (kw_who (st w)))"
    by (subst wl_fail_all.simps) (simp add: pop)
  with IH f wn show ?case by auto
qed

end
