(* ===== verification/Kobj.thy ===== *)
theory Kobj
  imports Wlist
begin

text \<open>
  The kernel-owned synchronisation objects of \<open>kernel/kobj.c\<close>: semaphores, mutexes, message queues,
  event groups and timers, named by generation-checked handles.  The tables are lists of records,
  waiter structures and item memory are stores.  A waiter pointer 0 is \<open>NULL\<close> (do not wait).
\<close>

section \<open>Data\<close>

datatype ko_result = KO_OK | KO_BLOCK | KO_AGAIN | KO_FULL | KO_FAIL | KO_TIMEOUT | KO_DELETED

definition KSEM_MAX :: nat where "KSEM_MAX = 32"
definition KMUTEX_MAX :: nat where "KMUTEX_MAX = 32"
definition KQUEUE_MAX :: nat where "KQUEUE_MAX = 16"
definition KEVT_MAX :: nat where "KEVT_MAX = 8"
definition KTIMER_MAX :: nat where "KTIMER_MAX = 64"
definition KQUEUE_MAX_ITEM :: nat where "KQUEUE_MAX_ITEM = 64"
definition KQUEUE_MAX_LEN :: nat where "KQUEUE_MAX_LEN = 256"

lemmas kobj_limits = KSEM_MAX_def KMUTEX_MAX_def KQUEUE_MAX_def KEVT_MAX_def KTIMER_MAX_def
  KQUEUE_MAX_ITEM_def KQUEUE_MAX_LEN_def

definition KOBJ_SEM :: nat where "KOBJ_SEM = 1"
definition KOBJ_MUTEX :: nat where "KOBJ_MUTEX = 2"
definition KOBJ_QUEUE :: nat where "KOBJ_QUEUE = 3"
definition KOBJ_EVENT :: nat where "KOBJ_EVENT = 4"

lemmas kobj_types = KOBJ_SEM_def KOBJ_MUTEX_def KOBJ_QUEUE_def KOBJ_EVENT_def

record ksem =
  sm_used :: bool
  sm_gen :: nat
  sm_owner :: nat
  sm_count :: nat
  sm_max :: nat
  sm_w :: wlist

record kmutex =
  mx_used :: bool
  mx_gen :: nat
  mx_dom :: nat
  mx_rec :: bool
  mx_owner :: int
  mx_depth :: nat
  mx_w :: wlist

record kqueue =
  kq_used :: bool
  kq_gen :: nat
  kq_owner :: nat
  kq_len :: nat
  kq_isz :: nat
  kq_head :: nat
  kq_count :: nat
  kq_buf :: nat
  kq_rx :: wlist
  kq_tx :: wlist

record kevt =
  ev_used :: bool
  ev_gen :: nat
  ev_owner :: nat
  ev_bits :: u32
  ev_w :: wlist

record ktimer =
  tm_used :: bool
  tm_armed :: bool
  tm_periodic :: bool
  tm_owner :: nat
  tm_key :: nat
  tm_fn :: nat
  tm_arg :: nat
  tm_deadline :: u64
  tm_period :: u64
  tm_seq :: u64

record kobj =
  ko_sem :: "ksem list"
  ko_mtx :: "kmutex list"
  ko_q :: "kqueue list"
  ko_ev :: "kevt list"
  ko_tm :: "ktimer list"
  ko_tm_seq :: u64
  ko_w :: wstore
  ko_mem :: "nat \<Rightarrow> u8"

text \<open>All-zero entries, as \<open>memset\<close> leaves them.\<close>

definition wl_zero :: wlist where "wl_zero = \<lparr>wl_head = 0, wl_tail = 0\<rparr>"

definition sem_zero :: ksem where
  "sem_zero = \<lparr>sm_used = False, sm_gen = 0, sm_owner = 0, sm_count = 0, sm_max = 0, sm_w = wl_zero\<rparr>"

definition mtx_zero :: kmutex where
  "mtx_zero = \<lparr>mx_used = False, mx_gen = 0, mx_dom = 0, mx_rec = False, mx_owner = 0, mx_depth = 0, mx_w = wl_zero\<rparr>"

definition q_zero :: kqueue where
  "q_zero = \<lparr>kq_used = False, kq_gen = 0, kq_owner = 0, kq_len = 0, kq_isz = 0, kq_head = 0, kq_count = 0,
     kq_buf = 0, kq_rx = wl_zero, kq_tx = wl_zero\<rparr>"

definition ev_zero :: kevt where
  "ev_zero = \<lparr>ev_used = False, ev_gen = 0, ev_owner = 0, ev_bits = 0, ev_w = wl_zero\<rparr>"

definition tm_zero :: ktimer where
  "tm_zero = \<lparr>tm_used = False, tm_armed = False, tm_periodic = False, tm_owner = 0, tm_key = 0, tm_fn = 0,
     tm_arg = 0, tm_deadline = 0, tm_period = 0, tm_seq = 0\<rparr>"

text \<open>\<open>kobj_reset\<close> returns the queue buffers it passed to \<open>release\<close>, in order.\<close>

definition kobj_reset :: "kobj \<Rightarrow> nat list \<times> kobj" where
  "kobj_reset s =
     (map kq_buf (filter (\<lambda>q. kq_used q \<and> kq_buf q \<noteq> 0) (ko_q s)),
      s\<lparr>ko_sem := replicate KSEM_MAX sem_zero, ko_mtx := replicate KMUTEX_MAX mtx_zero,
        ko_ev := replicate KEVT_MAX ev_zero, ko_tm := replicate KTIMER_MAX tm_zero,
        ko_q := replicate KQUEUE_MAX q_zero, ko_tm_seq := 0\<rparr>)"

definition kobj_live :: "kobj \<Rightarrow> nat \<Rightarrow> nat" where
  "kobj_live s type =
     (if type = KOBJ_SEM then length (filter sm_used (ko_sem s))
      else if type = KOBJ_MUTEX then length (filter mx_used (ko_mtx s))
      else if type = KOBJ_QUEUE then length (filter kq_used (ko_q s))
      else if type = KOBJ_EVENT then length (filter ev_used (ko_ev s))
      else 0)"

section \<open>Handles\<close>

definition h_make :: "nat \<Rightarrow> nat \<Rightarrow> nat \<Rightarrow> u32" where
  "h_make type gen idx =
     push_bit 28 (of_nat type) OR push_bit 16 (of_nat gen AND 0xfff) OR (of_nat idx + 1)"

definition h_type :: "u32 \<Rightarrow> nat" where
  "h_type h = unat (drop_bit 28 h)"

definition h_gen :: "u32 \<Rightarrow> nat" where
  "h_gen h = unat (drop_bit 16 h AND 0xfff)"

definition h_idx :: "u32 \<Rightarrow> int" where
  "h_idx h = int (unat (h AND 0xffff)) - 1"

text \<open>The macro \<open>LOOKUP\<close>: the slot a handle names, if it names one.\<close>

definition h_lookup :: "('e \<Rightarrow> bool) \<Rightarrow> ('e \<Rightarrow> nat) \<Rightarrow> 'e list \<Rightarrow> nat \<Rightarrow> nat \<Rightarrow> u32 \<Rightarrow> nat option" where
  "h_lookup used gen arr n type h =
     (let i = h_idx h
      in if h = 0 \<or> h_type h \<noteq> type \<or> i < 0 \<or> i \<ge> int n \<or> \<not> used (arr ! nat i)
            \<or> gen (arr ! nat i) \<noteq> h_gen h
         then None else Some (nat i))"

definition sem_lookup :: "kobj \<Rightarrow> u32 \<Rightarrow> nat option" where
  "sem_lookup s = h_lookup sm_used sm_gen (ko_sem s) KSEM_MAX KOBJ_SEM"

definition mtx_lookup :: "kobj \<Rightarrow> u32 \<Rightarrow> nat option" where
  "mtx_lookup s = h_lookup mx_used mx_gen (ko_mtx s) KMUTEX_MAX KOBJ_MUTEX"

definition q_lookup :: "kobj \<Rightarrow> u32 \<Rightarrow> nat option" where
  "q_lookup s = h_lookup kq_used kq_gen (ko_q s) KQUEUE_MAX KOBJ_QUEUE"

definition ev_lookup :: "kobj \<Rightarrow> u32 \<Rightarrow> nat option" where
  "ev_lookup s = h_lookup ev_used ev_gen (ko_ev s) KEVT_MAX KOBJ_EVENT"

text \<open>\<open>gen++\<close> on a \<open>uint16_t\<close>.\<close>

definition gen_next :: "nat \<Rightarrow> nat" where
  "gen_next g = (g + 1) mod 2 ^ 16"

text \<open>The first unused slot of a table.\<close>

definition free_slot :: "('e \<Rightarrow> bool) \<Rightarrow> 'e list \<Rightarrow> nat \<Rightarrow> nat option" where
  "free_slot used arr n = List.find (\<lambda>i. \<not> used (arr ! i)) [0..<n]"

section \<open>Writing back\<close>

definition put_sem :: "kobj \<Rightarrow> nat \<Rightarrow> ksem \<Rightarrow> kobj" where
  "put_sem s i e = s\<lparr>ko_sem := (ko_sem s)[i := e]\<rparr>"

definition put_mtx :: "kobj \<Rightarrow> nat \<Rightarrow> kmutex \<Rightarrow> kobj" where
  "put_mtx s i e = s\<lparr>ko_mtx := (ko_mtx s)[i := e]\<rparr>"

definition put_q :: "kobj \<Rightarrow> nat \<Rightarrow> kqueue \<Rightarrow> kobj" where
  "put_q s i e = s\<lparr>ko_q := (ko_q s)[i := e]\<rparr>"

definition put_ev :: "kobj \<Rightarrow> nat \<Rightarrow> kevt \<Rightarrow> kobj" where
  "put_ev s i e = s\<lparr>ko_ev := (ko_ev s)[i := e]\<rparr>"

definition put_waiter :: "kobj \<Rightarrow> nat \<Rightarrow> (kwaiter \<Rightarrow> kwaiter) \<Rightarrow> kobj" where
  "put_waiter s w f = s\<lparr>ko_w := (ko_w s)(w := f (ko_w s w))\<rparr>"

definition cancel_finish :: "wstore \<Rightarrow> wlist option \<Rightarrow> nat \<Rightarrow> (wstore \<times> wlist option \<times> ko_result) option" where
  "cancel_finish st l w =
     (if kw_state (st w) = KW_GRANT then Some (st, l, KO_OK)
      else if kw_state (st w) = KW_FAILED then Some (st, l, KO_DELETED)
      else case l of
        None \<Rightarrow> Some (st(w := (st w)\<lparr>kw_state := KW_FAILED\<rparr>), None, KO_DELETED)
      | Some l \<Rightarrow>
          (case wl_remove (st, l) w of
             None \<Rightarrow> None
           | Some (_, st1, l1) \<Rightarrow> Some (st1(w := (st1 w)\<lparr>kw_state := KW_IDLE\<rparr>), Some l1, KO_TIMEOUT)))"

section \<open>Semaphores\<close>

definition ksem_create :: "kobj \<Rightarrow> nat \<Rightarrow> nat \<Rightarrow> u32 \<times> kobj" where
  "ksem_create s mx init =
     (if mx = 0 \<or> init > mx then (0, s)
      else case free_slot sm_used (ko_sem s) KSEM_MAX of
        None \<Rightarrow> (0, s)
      | Some i \<Rightarrow>
          let gen = sm_gen (ko_sem s ! i)
          in (h_make KOBJ_SEM gen i,
              put_sem s i (sem_zero\<lparr>sm_used := True, sm_gen := gen, sm_max := mx, sm_count := init\<rparr>)))"

definition ksem_take :: "kobj \<Rightarrow> u32 \<Rightarrow> nat \<Rightarrow> int \<Rightarrow> ko_result \<times> kobj" where
  "ksem_take s h w who =
     (case sem_lookup s h of
        None \<Rightarrow> (KO_FAIL, s)
      | Some i \<Rightarrow>
          let e = ko_sem s ! i
          in if sm_count e > 0 then (KO_OK, put_sem s i (e\<lparr>sm_count := sm_count e - 1\<rparr>))
             else if w = 0 then (KO_AGAIN, s)
             else let s1 = put_waiter s w (\<lambda>r. r\<lparr>kw_who := who\<rparr>);
                      r = wl_push (ko_w s1, sm_w e) w
                  in (KO_BLOCK, put_sem (s1\<lparr>ko_w := fst r\<rparr>) i (e\<lparr>sm_w := snd r\<rparr>)))"

definition ksem_give :: "kobj \<Rightarrow> u32 \<Rightarrow> int list option \<Rightarrow> ko_result \<times> int list option \<times> kobj" where
  "ksem_give s h wk =
     (case sem_lookup s h of
        None \<Rightarrow> (KO_FAIL, wk, s)
      | Some i \<Rightarrow>
          let e = ko_sem s ! i
          in case wl_pop (ko_w s, sm_w e) of
               Some (w, st, l) \<Rightarrow>
                 (KO_OK, kw_add wk (kw_who (st w)),
                  put_sem (s\<lparr>ko_w := st(w := (st w)\<lparr>kw_state := KW_GRANT\<rparr>)\<rparr>) i (e\<lparr>sm_w := l\<rparr>))
             | None \<Rightarrow>
                 if sm_count e \<ge> sm_max e then (KO_FULL, wk, s)
                 else (KO_OK, wk, put_sem s i (e\<lparr>sm_count := sm_count e + 1\<rparr>)))"

text \<open>\<open>None\<close>: the search of the list does not end.\<close>

definition ksem_cancel :: "kobj \<Rightarrow> u32 \<Rightarrow> nat \<Rightarrow> (ko_result \<times> kobj) option" where
  "ksem_cancel s h w =
     (case sem_lookup s h of
        None \<Rightarrow> map_option (\<lambda>(st, _, r). (r, s\<lparr>ko_w := st\<rparr>)) (cancel_finish (ko_w s) None w)
      | Some i \<Rightarrow>
          map_option (\<lambda>(st, l, r). (r, put_sem (s\<lparr>ko_w := st\<rparr>) i ((ko_sem s ! i)\<lparr>sm_w := the l\<rparr>)))
            (cancel_finish (ko_w s) (Some (sm_w (ko_sem s ! i))) w))"

definition ksem_delete :: "kobj \<Rightarrow> u32 \<Rightarrow> int list option \<Rightarrow> (ko_result \<times> int list option \<times> kobj) option" where
  "ksem_delete s h wk =
     (case sem_lookup s h of
        None \<Rightarrow> Some (KO_FAIL, wk, s)
      | Some i \<Rightarrow>
          let e = ko_sem s ! i
          in map_option (\<lambda>(st, l, wk').
               (KO_OK, wk', put_sem (s\<lparr>ko_w := st\<rparr>) i (e\<lparr>sm_w := l, sm_used := False, sm_gen := gen_next (sm_gen e)\<rparr>)))
               (wl_fail_all (ko_w s) (sm_w e) wk))"

definition ksem_count :: "kobj \<Rightarrow> u32 \<Rightarrow> nat" where
  "ksem_count s h = (case sem_lookup s h of None \<Rightarrow> 0 | Some i \<Rightarrow> sm_count (ko_sem s ! i))"

section \<open>Mutexes\<close>

definition kmutex_create :: "kobj \<Rightarrow> bool \<Rightarrow> u32 \<times> kobj" where
  "kmutex_create s recursive =
     (case free_slot mx_used (ko_mtx s) KMUTEX_MAX of
        None \<Rightarrow> (0, s)
      | Some i \<Rightarrow>
          let gen = mx_gen (ko_mtx s ! i)
          in (h_make KOBJ_MUTEX gen i,
              put_mtx s i (mtx_zero\<lparr>mx_used := True, mx_gen := gen, mx_rec := recursive, mx_owner := -1\<rparr>)))"

definition kmutex_lock :: "kobj \<Rightarrow> u32 \<Rightarrow> nat \<Rightarrow> int \<Rightarrow> ko_result \<times> kobj" where
  "kmutex_lock s h w who =
     (case mtx_lookup s h of
        None \<Rightarrow> (KO_FAIL, s)
      | Some i \<Rightarrow>
          let e = ko_mtx s ! i
          in if mx_owner e < 0 then (KO_OK, put_mtx s i (e\<lparr>mx_owner := who, mx_depth := 1\<rparr>))
             else if mx_owner e = who then
               (if \<not> mx_rec e then (KO_FAIL, s)
                else (KO_OK, put_mtx s i (e\<lparr>mx_depth := wrap32 (mx_depth e + 1)\<rparr>)))
             else if w = 0 then (KO_AGAIN, s)
             else let s1 = put_waiter s w (\<lambda>r. r\<lparr>kw_who := who\<rparr>);
                      r = wl_push (ko_w s1, mx_w e) w
                  in (KO_BLOCK, put_mtx (s1\<lparr>ko_w := fst r\<rparr>) i (e\<lparr>mx_w := snd r\<rparr>)))"

definition kmutex_unlock :: "kobj \<Rightarrow> u32 \<Rightarrow> int \<Rightarrow> int list option \<Rightarrow> ko_result \<times> int list option \<times> kobj" where
  "kmutex_unlock s h who wk =
     (case mtx_lookup s h of
        None \<Rightarrow> (KO_FAIL, wk, s)
      | Some i \<Rightarrow>
          let e = ko_mtx s ! i
          in if mx_owner e \<noteq> who then (KO_FAIL, wk, s)
             else let e1 = e\<lparr>mx_depth := wrap32 (mx_depth e + (2 ^ 32 - 1))\<rparr>
                  in if mx_depth e1 > 0 then (KO_OK, wk, put_mtx s i e1)
                     else case wl_pop (ko_w s, mx_w e1) of
                       Some (w, st, l) \<Rightarrow>
                         (KO_OK, kw_add wk (kw_who (st w)),
                          put_mtx (s\<lparr>ko_w := st(w := (st w)\<lparr>kw_state := KW_GRANT\<rparr>)\<rparr>) i
                            (e1\<lparr>mx_w := l, mx_owner := kw_who (st w), mx_depth := 1\<rparr>))
                     | None \<Rightarrow> (KO_OK, wk, put_mtx s i (e1\<lparr>mx_owner := -1\<rparr>)))"

definition kmutex_cancel :: "kobj \<Rightarrow> u32 \<Rightarrow> nat \<Rightarrow> (ko_result \<times> kobj) option" where
  "kmutex_cancel s h w =
     (case mtx_lookup s h of
        None \<Rightarrow> map_option (\<lambda>(st, _, r). (r, s\<lparr>ko_w := st\<rparr>)) (cancel_finish (ko_w s) None w)
      | Some i \<Rightarrow>
          map_option (\<lambda>(st, l, r). (r, put_mtx (s\<lparr>ko_w := st\<rparr>) i ((ko_mtx s ! i)\<lparr>mx_w := the l\<rparr>)))
            (cancel_finish (ko_w s) (Some (mx_w (ko_mtx s ! i))) w))"

definition kmutex_delete :: "kobj \<Rightarrow> u32 \<Rightarrow> int list option \<Rightarrow> (ko_result \<times> int list option \<times> kobj) option" where
  "kmutex_delete s h wk =
     (case mtx_lookup s h of
        None \<Rightarrow> Some (KO_FAIL, wk, s)
      | Some i \<Rightarrow>
          let e = ko_mtx s ! i
          in map_option (\<lambda>(st, l, wk').
               (KO_OK, wk', put_mtx (s\<lparr>ko_w := st\<rparr>) i (e\<lparr>mx_w := l, mx_used := False, mx_gen := gen_next (mx_gen e)\<rparr>)))
               (wl_fail_all (ko_w s) (mx_w e) wk))"

definition kmutex_owner :: "kobj \<Rightarrow> u32 \<Rightarrow> int" where
  "kmutex_owner s h = (case mtx_lookup s h of None \<Rightarrow> -1 | Some i \<Rightarrow> mx_owner (ko_mtx s ! i))"

section \<open>Queues\<close>

definition kq_create :: "kobj \<Rightarrow> nat \<Rightarrow> nat \<Rightarrow> nat \<Rightarrow> u32 \<times> kobj" where
  "kq_create s len item_size storage =
     (if len = 0 \<or> len > KQUEUE_MAX_LEN \<or> item_size = 0 \<or> item_size > KQUEUE_MAX_ITEM then (0, s)
      else if storage = 0 then (0, s)
      else case free_slot kq_used (ko_q s) KQUEUE_MAX of
        None \<Rightarrow> (0, s)
      | Some i \<Rightarrow>
          let gen = kq_gen (ko_q s ! i)
          in (h_make KOBJ_QUEUE gen i,
              put_q s i (q_zero\<lparr>kq_used := True, kq_gen := gen, kq_len := len, kq_isz := item_size, kq_buf := storage\<rparr>)))"

definition q_slot :: "kqueue \<Rightarrow> nat \<Rightarrow> nat" where
  "q_slot q logical = kq_buf q + ((kq_head q + logical) mod kq_len q) * kq_isz q"

definition q_push :: "(nat \<Rightarrow> u8) \<Rightarrow> kqueue \<Rightarrow> nat \<Rightarrow> bool \<Rightarrow> (nat \<Rightarrow> u8) \<times> kqueue" where
  "q_push mem q item front =
     (if front then
        let q1 = q\<lparr>kq_head := (kq_head q + kq_len q - 1) mod kq_len q\<rparr>
        in (mem_copy mem (kq_buf q1 + kq_head q1 * kq_isz q1) item (kq_isz q1), q1\<lparr>kq_count := kq_count q1 + 1\<rparr>)
      else (mem_copy mem (q_slot q (kq_count q)) item (kq_isz q), q\<lparr>kq_count := kq_count q + 1\<rparr>))"

definition kq_send :: "kobj \<Rightarrow> u32 \<Rightarrow> nat \<Rightarrow> bool \<Rightarrow> nat \<Rightarrow> int \<Rightarrow> int list option
    \<Rightarrow> ko_result \<times> int list option \<times> kobj" where
  "kq_send s h item front w who wk =
     (case q_lookup s h of
        None \<Rightarrow> (KO_FAIL, wk, s)
      | Some i \<Rightarrow>
          let q = ko_q s ! i
          in case wl_pop (ko_w s, kq_rx q) of
               Some (r, st, l) \<Rightarrow>
                 (KO_OK, kw_add wk (kw_who (st r)),
                  put_q (s\<lparr>ko_mem := mem_copy (ko_mem s) (kw_item (st r)) item (kq_isz q),
                           ko_w := st(r := (st r)\<lparr>kw_state := KW_GRANT\<rparr>)\<rparr>) i (q\<lparr>kq_rx := l\<rparr>))
             | None \<Rightarrow>
                 if kq_count q < kq_len q then
                   (let p = q_push (ko_mem s) q item front
                    in (KO_OK, wk, put_q (s\<lparr>ko_mem := fst p\<rparr>) i (snd p)))
                 else if w = 0 then (KO_FULL, wk, s)
                 else let s1 = put_waiter s w (\<lambda>r. r\<lparr>kw_who := who, kw_item := item, kw_all := front\<rparr>);
                          r = wl_push (ko_w s1, kq_tx q) w
                      in (KO_BLOCK, wk, put_q (s1\<lparr>ko_w := fst r\<rparr>) i (q\<lparr>kq_tx := snd r\<rparr>)))"

definition kq_recv :: "kobj \<Rightarrow> u32 \<Rightarrow> nat \<Rightarrow> nat \<Rightarrow> int \<Rightarrow> int list option
    \<Rightarrow> ko_result \<times> int list option \<times> kobj" where
  "kq_recv s h item w who wk =
     (case q_lookup s h of
        None \<Rightarrow> (KO_FAIL, wk, s)
      | Some i \<Rightarrow>
          let q = ko_q s ! i
          in if kq_count q > 0 then
               (let mem1 = mem_copy (ko_mem s) item (q_slot q 0) (kq_isz q);
                    q1 = q\<lparr>kq_head := (kq_head q + 1) mod kq_len q, kq_count := kq_count q - 1\<rparr>
                in case wl_pop (ko_w s, kq_tx q1) of
                     Some (t, st, l) \<Rightarrow>
                       (let p = q_push mem1 (q1\<lparr>kq_tx := l\<rparr>) (kw_item (st t)) (kw_all (st t))
                        in (KO_OK, kw_add wk (kw_who (st t)),
                            put_q (s\<lparr>ko_mem := fst p, ko_w := st(t := (st t)\<lparr>kw_state := KW_GRANT\<rparr>)\<rparr>) i (snd p)))
                   | None \<Rightarrow> (KO_OK, wk, put_q (s\<lparr>ko_mem := mem1\<rparr>) i q1))
             else if w = 0 then (KO_AGAIN, wk, s)
             else let s1 = put_waiter s w (\<lambda>r. r\<lparr>kw_who := who, kw_item := item\<rparr>);
                      r = wl_push (ko_w s1, kq_rx q) w
                  in (KO_BLOCK, wk, put_q (s1\<lparr>ko_w := fst r\<rparr>) i (q\<lparr>kq_rx := snd r\<rparr>)))"

definition kq_cancel :: "kobj \<Rightarrow> u32 \<Rightarrow> nat \<Rightarrow> (ko_result \<times> kobj) option" where
  "kq_cancel s h w =
     (if kw_state (ko_w s w) = KW_GRANT then Some (KO_OK, s)
      else if kw_state (ko_w s w) = KW_FAILED then Some (KO_DELETED, s)
      else case q_lookup s h of
        None \<Rightarrow> Some (KO_DELETED, put_waiter s w (\<lambda>r. r\<lparr>kw_state := KW_FAILED\<rparr>))
      | Some i \<Rightarrow>
          let q = ko_q s ! i
          in case wl_remove (ko_w s, kq_rx q) w of
               None \<Rightarrow> None
             | Some (True, st, l) \<Rightarrow>
                 Some (KO_TIMEOUT, put_waiter (put_q (s\<lparr>ko_w := st\<rparr>) i (q\<lparr>kq_rx := l\<rparr>)) w (\<lambda>r. r\<lparr>kw_state := KW_IDLE\<rparr>))
             | Some (False, st, l) \<Rightarrow>
                 (case wl_remove (st, kq_tx q) w of
                    None \<Rightarrow> None
                  | Some (_, st2, l2) \<Rightarrow>
                      Some (KO_TIMEOUT, put_waiter (put_q (s\<lparr>ko_w := st2\<rparr>) i (q\<lparr>kq_rx := l, kq_tx := l2\<rparr>)) w
                                          (\<lambda>r. r\<lparr>kw_state := KW_IDLE\<rparr>))))"

definition kq_waiting :: "kobj \<Rightarrow> u32 \<Rightarrow> nat" where
  "kq_waiting s h = (case q_lookup s h of None \<Rightarrow> 0 | Some i \<Rightarrow> kq_count (ko_q s ! i))"

definition kq_item_size :: "kobj \<Rightarrow> u32 \<Rightarrow> nat" where
  "kq_item_size s h = (case q_lookup s h of None \<Rightarrow> 0 | Some i \<Rightarrow> kq_isz (ko_q s ! i))"

text \<open>The result also carries the storage and its size in bytes, which the caller releases.\<close>

definition kq_delete :: "kobj \<Rightarrow> u32 \<Rightarrow> int list option
    \<Rightarrow> (ko_result \<times> int list option \<times> (nat \<times> nat) option \<times> kobj) option" where
  "kq_delete s h wk =
     (case q_lookup s h of
        None \<Rightarrow> Some (KO_FAIL, wk, None, s)
      | Some i \<Rightarrow>
          let q = ko_q s ! i
          in case wl_fail_all (ko_w s) (kq_rx q) wk of
               None \<Rightarrow> None
             | Some (st1, l1, wk1) \<Rightarrow>
                 map_option (\<lambda>(st2, l2, wk2).
                   (KO_OK, wk2, Some (kq_buf q, kq_len q * kq_isz q),
                    put_q (s\<lparr>ko_w := st2\<rparr>) i
                      (q\<lparr>kq_rx := l1, kq_tx := l2, kq_buf := 0, kq_used := False, kq_gen := gen_next (kq_gen q)\<rparr>)))
                   (wl_fail_all st1 (kq_tx q) wk1))"

section \<open>Event groups\<close>

definition kev_create :: "kobj \<Rightarrow> u32 \<times> kobj" where
  "kev_create s =
     (case free_slot ev_used (ko_ev s) KEVT_MAX of
        None \<Rightarrow> (0, s)
      | Some i \<Rightarrow>
          let gen = ev_gen (ko_ev s ! i)
          in (h_make KOBJ_EVENT gen i, put_ev s i (ev_zero\<lparr>ev_used := True, ev_gen := gen\<rparr>)))"

definition ev_satisfied :: "u32 \<Rightarrow> u32 \<Rightarrow> bool \<Rightarrow> bool" where
  "ev_satisfied bits want all = (if all then bits AND want = want else bits AND want \<noteq> 0)"

partial_function (option) ev_scan_loop ::
    "wstore \<Rightarrow> kevt \<Rightarrow> int list option \<Rightarrow> nat \<Rightarrow> nat \<Rightarrow> (wstore \<times> kevt \<times> int list option) option" where
  "ev_scan_loop st e wk prev w =
     (if w = 0 then Some (st, e, wk)
      else if ev_satisfied (ev_bits e) (kw_want (st w)) (kw_all (st w)) then
        (case wl_unlink st (ev_w e) prev w of
           (st1, l1) \<Rightarrow>
             ev_scan_loop (st1(w := (st1 w)\<lparr>kw_got := ev_bits e, kw_state := KW_GRANT\<rparr>))
               (e\<lparr>ev_w := l1,
                  ev_bits := (if kw_clear (st w) then ev_bits e AND NOT (kw_want (st w)) else ev_bits e)\<rparr>)
               (kw_add wk (kw_who (st w))) prev (kw_next (st w)))
      else ev_scan_loop st e wk w (kw_next (st w)))"

definition ev_scan :: "wstore \<Rightarrow> kevt \<Rightarrow> int list option \<Rightarrow> (wstore \<times> kevt \<times> int list option) option" where
  "ev_scan st e wk = ev_scan_loop st e wk 0 (wl_head (ev_w e))"

definition kev_set :: "kobj \<Rightarrow> u32 \<Rightarrow> u32 \<Rightarrow> int list option \<Rightarrow> (u32 \<times> int list option \<times> kobj) option" where
  "kev_set s h bits wk =
     (case ev_lookup s h of
        None \<Rightarrow> Some (0, wk, s)
      | Some i \<Rightarrow>
          map_option (\<lambda>(st, e, wk'). (ev_bits e, wk', put_ev (s\<lparr>ko_w := st\<rparr>) i e))
            (ev_scan (ko_w s) ((ko_ev s ! i)\<lparr>ev_bits := ev_bits (ko_ev s ! i) OR bits\<rparr>) wk))"

definition kev_clear :: "kobj \<Rightarrow> u32 \<Rightarrow> u32 \<Rightarrow> u32 \<times> kobj" where
  "kev_clear s h bits =
     (case ev_lookup s h of
        None \<Rightarrow> (0, s)
      | Some i \<Rightarrow>
          let e = ko_ev s ! i in (ev_bits e, put_ev s i (e\<lparr>ev_bits := ev_bits e AND NOT bits\<rparr>)))"

text \<open>The second component is what is written to \<open>*out\<close>, if anything is.\<close>

definition kev_wait :: "kobj \<Rightarrow> u32 \<Rightarrow> u32 \<Rightarrow> bool \<Rightarrow> bool \<Rightarrow> nat \<Rightarrow> int \<Rightarrow> ko_result \<times> u32 option \<times> kobj" where
  "kev_wait s h want all clear w who =
     (case ev_lookup s h of
        None \<Rightarrow> (KO_FAIL, None, s)
      | Some i \<Rightarrow>
          let e = ko_ev s ! i
          in if want = 0 then (KO_FAIL, None, s)
             else if ev_satisfied (ev_bits e) want all then
               (KO_OK, Some (ev_bits e),
                put_ev s i (if clear then e\<lparr>ev_bits := ev_bits e AND NOT want\<rparr> else e))
             else if w = 0 then (KO_AGAIN, Some (ev_bits e), s)
             else let s1 = put_waiter s w (\<lambda>r. r\<lparr>kw_who := who, kw_want := want, kw_all := all, kw_clear := clear, kw_got := 0\<rparr>);
                      r = wl_push (ko_w s1, ev_w e) w
                  in (KO_BLOCK, None, put_ev (s1\<lparr>ko_w := fst r\<rparr>) i (e\<lparr>ev_w := snd r\<rparr>)))"

definition kev_cancel :: "kobj \<Rightarrow> u32 \<Rightarrow> nat \<Rightarrow> (ko_result \<times> u32 option \<times> kobj) option" where
  "kev_cancel s h w =
     (case ev_lookup s h of
        None \<Rightarrow> map_option (\<lambda>(st, _, r). (r, (if r = KO_OK then Some (kw_got (st w)) else None), s\<lparr>ko_w := st\<rparr>))
                  (cancel_finish (ko_w s) None w)
      | Some i \<Rightarrow>
          let e = ko_ev s ! i
          in map_option (\<lambda>(st, l, r).
               (r, (if r = KO_OK then Some (kw_got (st w)) else if r = KO_TIMEOUT then Some (ev_bits e) else None),
                put_ev (s\<lparr>ko_w := st\<rparr>) i (e\<lparr>ev_w := the l\<rparr>)))
               (cancel_finish (ko_w s) (Some (ev_w e)) w))"

definition kev_delete :: "kobj \<Rightarrow> u32 \<Rightarrow> int list option \<Rightarrow> (ko_result \<times> int list option \<times> kobj) option" where
  "kev_delete s h wk =
     (case ev_lookup s h of
        None \<Rightarrow> Some (KO_FAIL, wk, s)
      | Some i \<Rightarrow>
          let e = ko_ev s ! i
          in map_option (\<lambda>(st, l, wk').
               (KO_OK, wk', put_ev (s\<lparr>ko_w := st\<rparr>) i (e\<lparr>ev_w := l, ev_used := False, ev_gen := gen_next (ev_gen e)\<rparr>)))
               (wl_fail_all (ko_w s) (ev_w e) wk))"

section \<open>Ownership\<close>

text \<open>Whose object a handle names: \<open>None\<close> where \<open>owner_slot\<close> returns \<open>NULL\<close>.\<close>

definition kobj_owner :: "kobj \<Rightarrow> u32 \<Rightarrow> nat option" where
  "kobj_owner s h =
     (let t = h_type h
      in if t = KOBJ_SEM then map_option (\<lambda>i. sm_owner (ko_sem s ! i)) (sem_lookup s h)
         else if t = KOBJ_MUTEX then map_option (\<lambda>i. mx_dom (ko_mtx s ! i)) (mtx_lookup s h)
         else if t = KOBJ_QUEUE then map_option (\<lambda>i. kq_owner (ko_q s ! i)) (q_lookup s h)
         else if t = KOBJ_EVENT then map_option (\<lambda>i. ev_owner (ko_ev s ! i)) (ev_lookup s h)
         else None)"

definition kobj_set_owner :: "kobj \<Rightarrow> u32 \<Rightarrow> nat \<Rightarrow> ko_result \<times> kobj" where
  "kobj_set_owner s h owner =
     (case (sem_lookup s h, mtx_lookup s h, q_lookup s h, ev_lookup s h) of
        (Some i, _, _, _) \<Rightarrow> (KO_OK, put_sem s i ((ko_sem s ! i)\<lparr>sm_owner := owner\<rparr>))
      | (_, Some i, _, _) \<Rightarrow> (KO_OK, put_mtx s i ((ko_mtx s ! i)\<lparr>mx_dom := owner\<rparr>))
      | (_, _, Some i, _) \<Rightarrow> (KO_OK, put_q s i ((ko_q s ! i)\<lparr>kq_owner := owner\<rparr>))
      | (_, _, _, Some i) \<Rightarrow> (KO_OK, put_ev s i ((ko_ev s ! i)\<lparr>ev_owner := owner\<rparr>))
      | _ \<Rightarrow> (KO_FAIL, s))"

definition kobj_valid :: "kobj \<Rightarrow> u32 \<Rightarrow> bool" where
  "kobj_valid s h \<longleftrightarrow> kobj_owner s h \<noteq> None"

definition kobj_owned_by :: "kobj \<Rightarrow> u32 \<Rightarrow> nat \<Rightarrow> bool" where
  "kobj_owned_by s h owner \<longleftrightarrow> kobj_owner s h = Some owner"

definition kobj_owned :: "kobj \<Rightarrow> nat \<Rightarrow> nat \<Rightarrow> u32 list" where
  "kobj_owned s owner cap =
     (if owner = 0 then []
      else take cap
        (map (\<lambda>i. h_make KOBJ_SEM (sm_gen (ko_sem s ! i)) i)
           (filter (\<lambda>i. sm_used (ko_sem s ! i) \<and> sm_owner (ko_sem s ! i) = owner) [0..<KSEM_MAX])
         @ map (\<lambda>i. h_make KOBJ_MUTEX (mx_gen (ko_mtx s ! i)) i)
           (filter (\<lambda>i. mx_used (ko_mtx s ! i) \<and> mx_dom (ko_mtx s ! i) = owner) [0..<KMUTEX_MAX])
         @ map (\<lambda>i. h_make KOBJ_QUEUE (kq_gen (ko_q s ! i)) i)
           (filter (\<lambda>i. kq_used (ko_q s ! i) \<and> kq_owner (ko_q s ! i) = owner) [0..<KQUEUE_MAX])
         @ map (\<lambda>i. h_make KOBJ_EVENT (ev_gen (ko_ev s ! i)) i)
           (filter (\<lambda>i. ev_used (ko_ev s ! i) \<and> ev_owner (ko_ev s ! i) = owner) [0..<KEVT_MAX])))"

section \<open>Timers\<close>

definition tm_find :: "ktimer list \<Rightarrow> nat \<Rightarrow> nat \<Rightarrow> nat option" where
  "tm_find tm owner key =
     List.find (\<lambda>i. tm_used (tm ! i) \<and> tm_key (tm ! i) = key \<and> tm_owner (tm ! i) = owner) [0..<KTIMER_MAX]"

definition tm_get :: "ktimer list \<Rightarrow> nat \<Rightarrow> nat \<Rightarrow> (nat \<times> ktimer list) option" where
  "tm_get tm owner key =
     (case tm_find tm owner key of
        Some i \<Rightarrow> Some (i, tm)
      | None \<Rightarrow>
          (case free_slot tm_used tm KTIMER_MAX of
             None \<Rightarrow> None
           | Some i \<Rightarrow> Some (i, tm[i := tm_zero\<lparr>tm_used := True, tm_key := key, tm_owner := owner\<rparr>])))"

definition ktimer_setfn :: "kobj \<Rightarrow> nat \<Rightarrow> nat \<Rightarrow> nat \<Rightarrow> nat \<Rightarrow> ko_result \<times> kobj" where
  "ktimer_setfn s owner key fn arg =
     (case tm_get (ko_tm s) owner key of
        None \<Rightarrow> (KO_FAIL, s)
      | Some (i, tm) \<Rightarrow> (KO_OK, s\<lparr>ko_tm := tm[i := (tm ! i)\<lparr>tm_fn := fn, tm_arg := arg\<rparr>]\<rparr>))"

definition ktimer_arm :: "kobj \<Rightarrow> nat \<Rightarrow> nat \<Rightarrow> nat \<Rightarrow> nat \<Rightarrow> u64 \<Rightarrow> u64 \<Rightarrow> bool \<Rightarrow> ko_result \<times> kobj" where
  "ktimer_arm s owner key fn arg now delay0 periodic =
     (case tm_get (ko_tm s) owner key of
        None \<Rightarrow> (KO_FAIL, s)
      | Some (i, tm) \<Rightarrow>
          let t = (if fn \<noteq> 0 then (tm ! i)\<lparr>tm_fn := fn, tm_arg := arg\<rparr> else tm ! i);
              delay = (if periodic \<and> delay0 = 0 then 1 else delay0);
              seq = ko_tm_seq s + 1
          in (KO_OK, s\<lparr>ko_tm := tm[i := t\<lparr>tm_armed := True, tm_periodic := periodic, tm_deadline := now + delay,
                                    tm_period := delay, tm_seq := seq\<rparr>],
                        ko_tm_seq := seq\<rparr>))"

definition ktimer_disarm :: "kobj \<Rightarrow> nat \<Rightarrow> nat \<Rightarrow> ko_result \<times> kobj" where
  "ktimer_disarm s owner key =
     (case tm_find (ko_tm s) owner key of
        None \<Rightarrow> (KO_FAIL, s)
      | Some i \<Rightarrow> (KO_OK, s\<lparr>ko_tm := (ko_tm s)[i := (ko_tm s ! i)\<lparr>tm_armed := False\<rparr>]\<rparr>))"

definition ktimer_done :: "kobj \<Rightarrow> nat \<Rightarrow> nat \<Rightarrow> ko_result \<times> kobj" where
  "ktimer_done s owner key =
     (case tm_find (ko_tm s) owner key of
        None \<Rightarrow> (KO_FAIL, s)
      | Some i \<Rightarrow> (KO_OK, s\<lparr>ko_tm := (ko_tm s)[i := tm_zero]\<rparr>))"

definition ktimer_armed :: "kobj \<Rightarrow> nat \<Rightarrow> nat \<Rightarrow> bool" where
  "ktimer_armed s owner key =
     (case tm_find (ko_tm s) owner key of None \<Rightarrow> False | Some i \<Rightarrow> tm_armed (ko_tm s ! i))"

definition tm_due :: "nat \<Rightarrow> u64 \<Rightarrow> ktimer \<Rightarrow> bool" where
  "tm_due owner now t \<longleftrightarrow> tm_used t \<and> tm_armed t \<and> tm_owner t = owner \<and> \<not> tm_deadline t > now"

definition tm_before :: "ktimer \<Rightarrow> ktimer \<Rightarrow> bool" where
  "tm_before t b \<longleftrightarrow> tm_deadline t < tm_deadline b \<or> tm_deadline t = tm_deadline b \<and> tm_seq t < tm_seq b"

definition tm_best :: "ktimer list \<Rightarrow> nat \<Rightarrow> u64 \<Rightarrow> nat option" where
  "tm_best tm owner now =
     foldl (\<lambda>best i.
        if \<not> tm_due owner now (tm ! i) then best
        else case best of
          None \<Rightarrow> Some i
        | Some b \<Rightarrow> if tm_before (tm ! i) (tm ! b) then Some i else best) None [0..<KTIMER_MAX]"

text \<open>The key, function and argument of the timer popped, and the state after.\<close>

definition ktimer_pop_due :: "kobj \<Rightarrow> nat \<Rightarrow> u64 \<Rightarrow> (nat \<times> nat \<times> nat) option \<times> kobj" where
  "ktimer_pop_due s owner now =
     (case tm_best (ko_tm s) owner now of
        None \<Rightarrow> (None, s)
      | Some b \<Rightarrow>
          let t = ko_tm s ! b
          in (Some (tm_key t, tm_fn t, tm_arg t),
              if tm_periodic t then
                (let next0 = tm_deadline t + tm_period t;
                     next = (if next0 \<le> now then now + tm_period t else next0);
                     seq = ko_tm_seq s + 1
                 in s\<lparr>ko_tm := (ko_tm s)[b := t\<lparr>tm_deadline := next, tm_seq := seq\<rparr>], ko_tm_seq := seq\<rparr>)
              else s\<lparr>ko_tm := (ko_tm s)[b := t\<lparr>tm_armed := False\<rparr>]\<rparr>))"

definition ktimer_next :: "kobj \<Rightarrow> nat \<Rightarrow> u64 option" where
  "ktimer_next s owner =
     foldl (\<lambda>d i. let t = ko_tm s ! i
        in if \<not> tm_used t \<or> \<not> tm_armed t \<or> tm_owner t \<noteq> owner then d
           else case d of None \<Rightarrow> Some (tm_deadline t)
                | Some x \<Rightarrow> if tm_deadline t < x then Some (tm_deadline t) else d) None [0..<KTIMER_MAX]"

definition ktimer_count :: "kobj \<Rightarrow> nat" where
  "ktimer_count s = length (filter tm_used (ko_tm s))"

definition ktimer_release_owner :: "kobj \<Rightarrow> nat \<Rightarrow> nat \<times> kobj" where
  "ktimer_release_owner s owner =
     (if owner = 0 then (0, s)
      else (length (filter (\<lambda>t. tm_used t \<and> tm_owner t = owner) (ko_tm s)),
            s\<lparr>ko_tm := map (\<lambda>t. if tm_used t \<and> tm_owner t = owner then tm_zero else t) (ko_tm s)\<rparr>))"

end
