(* ===== verification/Kobj_Correct.thy ===== *)
theory Kobj_Correct
  imports Kobj
begin

text \<open>
  The kernel objects are right: handles name what was created, the waiter lists of all objects stay
  apart and in order, no object keeps a waiter it could serve, and timers fire in deadline order.
\<close>

section \<open>Objects and their lists\<close>

datatype kob = OSem nat | OMtx nat | OQue nat | OEvt nat
datatype kent = ESem ksem | EMtx kmutex | EQue kqueue | EEvt kevt

fun valid :: "kob \<Rightarrow> bool" where
  "valid (OSem i) \<longleftrightarrow> i < KSEM_MAX"
| "valid (OMtx i) \<longleftrightarrow> i < KMUTEX_MAX"
| "valid (OQue i) \<longleftrightarrow> i < KQUEUE_MAX"
| "valid (OEvt i) \<longleftrightarrow> i < KEVT_MAX"

fun entry :: "kobj \<Rightarrow> kob \<Rightarrow> kent" where
  "entry s (OSem i) = ESem (ko_sem s ! i)"
| "entry s (OMtx i) = EMtx (ko_mtx s ! i)"
| "entry s (OQue i) = EQue (ko_q s ! i)"
| "entry s (OEvt i) = EEvt (ko_ev s ! i)"

definition waits :: "wstore \<Rightarrow> nat list \<Rightarrow> bool" where
  "waits st ws \<longleftrightarrow> (\<forall>w \<in> set ws. kw_state (st w) = KW_WAIT)"

text \<open>
  One object and its queue (a message queue has two: receivers and senders).  No object holds both
  a waiter and what the waiter waits for.
\<close>

fun ent_inv :: "wstore \<Rightarrow> kent \<Rightarrow> nat list \<Rightarrow> nat list \<Rightarrow> bool" where
  "ent_inv st (ESem e) r t \<longleftrightarrow> wl_holds (st, sm_w e) r \<and> t = [] \<and> waits st r
     \<and> (if sm_used e then sm_count e \<le> sm_max e \<and> (r \<noteq> [] \<longrightarrow> sm_count e = 0) else r = [])"
| "ent_inv st (EMtx e) r t \<longleftrightarrow> wl_holds (st, mx_w e) r \<and> t = [] \<and> waits st r
     \<and> (if mx_used e then (mx_owner e < 0 \<longrightarrow> r = []) \<and> (\<forall>w \<in> set r. 0 \<le> kw_who (st w)) else r = [])"
| "ent_inv st (EQue e) r t \<longleftrightarrow> wl_holds (st, kq_rx e) r \<and> wl_holds (st, kq_tx e) t \<and> waits st r \<and> waits st t
     \<and> set r \<inter> set t = {}
     \<and> (if kq_used e then 0 < kq_len e \<and> kq_head e < kq_len e \<and> kq_count e \<le> kq_len e
          \<and> (r \<noteq> [] \<longrightarrow> kq_count e = 0) \<and> (t \<noteq> [] \<longrightarrow> kq_count e = kq_len e)
        else r = [] \<and> t = [])"
| "ent_inv st (EEvt e) r t \<longleftrightarrow> wl_holds (st, ev_w e) r \<and> t = [] \<and> waits st r
     \<and> (if ev_used e then \<forall>w \<in> set r. \<not> ev_satisfied (ev_bits e) (kw_want (st w)) (kw_all (st w)) else r = [])"

type_synonym queues = "kob \<Rightarrow> nat list \<times> nat list"

definition queued :: "queues \<Rightarrow> kob \<Rightarrow> nat set" where
  "queued L o' = set (fst (L o')) \<union> set (snd (L o'))"

definition sizes :: "kobj \<Rightarrow> bool" where
  "sizes s \<longleftrightarrow> length (ko_sem s) = KSEM_MAX \<and> length (ko_mtx s) = KMUTEX_MAX
     \<and> length (ko_q s) = KQUEUE_MAX \<and> length (ko_ev s) = KEVT_MAX"

definition kobj_inv :: "kobj \<Rightarrow> queues \<Rightarrow> bool" where
  "kobj_inv s L \<longleftrightarrow> sizes s
     \<and> (\<forall>o'. valid o' \<longrightarrow> ent_inv (ko_w s) (entry s o') (fst (L o')) (snd (L o')))
     \<and> (\<forall>o1 o2. valid o1 \<longrightarrow> valid o2 \<longrightarrow> o1 \<noteq> o2 \<longrightarrow> queued L o1 \<inter> queued L o2 = {})"

lemma kobj_invD:
  assumes "kobj_inv s L"
  shows "sizes s" and "valid o' \<Longrightarrow> ent_inv (ko_w s) (entry s o') (fst (L o')) (snd (L o'))"
    and "valid o1 \<Longrightarrow> valid o2 \<Longrightarrow> o1 \<noteq> o2 \<Longrightarrow> queued L o1 \<inter> queued L o2 = {}"
  using assms unfolding kobj_inv_def by blast+

lemma ent_inv_cong:
  assumes "\<And>x. x \<in> set r \<union> set t \<Longrightarrow> st x = st' x"
  shows "ent_inv st e r t = ent_inv st' e r t"
proof -
  have "waits st r = waits st' r" "waits st t = waits st' t" using assms by (auto simp: waits_def)
  moreover have "wl_holds (st, l) r = wl_holds (st', l) r" "wl_holds (st, l) t = wl_holds (st', l) t" for l
    using assms by (auto intro!: wl_holds_cong)
  ultimately show ?thesis using assms by (cases e) auto
qed

lemma ent_inv_waiting: "ent_inv st e r t \<Longrightarrow> w \<in> set r \<union> set t \<Longrightarrow> kw_state (st w) = KW_WAIT"
  by (cases e) (auto simp: waits_def)

text \<open>A waiter that is not in the waiting state is in no queue.\<close>

lemma not_queued: "kobj_inv s L \<Longrightarrow> kw_state (ko_w s w) \<noteq> KW_WAIT \<Longrightarrow> valid o' \<Longrightarrow> w \<notin> queued L o'"
  using ent_inv_waiting kobj_invD(2) unfolding queued_def by blast

text \<open>
  The change of one object: other entries stay, waiters outside the object's queues and the fresh
  ones \<open>W\<close> keep their records.
\<close>

lemma kobj_inv_upd:
  assumes inv: "kobj_inv s L" and v: "valid x" and sz: "sizes s'"
    and same: "\<And>o'. o' \<noteq> x \<Longrightarrow> entry s' o' = entry s o'"
    and frame: "\<And>a. a \<notin> W \<union> queued L x \<Longrightarrow> ko_w s' a = ko_w s a"
    and fresh: "\<And>o'. valid o' \<Longrightarrow> W \<inter> queued L o' = {}"
    and new: "ent_inv (ko_w s') (entry s' x) r t"
    and sub: "set r \<union> set t \<subseteq> W \<union> queued L x"
  shows "kobj_inv s' (L(x := (r, t)))"
proof -
  have dis: "(W \<union> queued L x) \<inter> queued L o' = {}" if "valid o'" "o' \<noteq> x" for o'
    using fresh [OF that(1)] kobj_invD(3) [OF inv v that(1)] that(2) by blast
  have "ent_inv (ko_w s') (entry s' o') (fst (L o')) (snd (L o'))" if "valid o'" "o' \<noteq> x" for o'
  proof -
    have "ent_inv (ko_w s) (entry s o') (fst (L o')) (snd (L o'))
        = ent_inv (ko_w s') (entry s o') (fst (L o')) (snd (L o'))"
      by (rule ent_inv_cong) (use dis [OF that] frame in \<open>force simp: queued_def\<close>)
    then show ?thesis using same [OF that(2)] kobj_invD(2) [OF inv that(1)] by simp
  qed
  moreover have "queued (L(x := (r, t))) o1 \<inter> queued (L(x := (r, t))) o2 = {}"
    if "valid o1" "valid o2" "o1 \<noteq> o2" for o1 o2
  proof -
    have q: "queued (L(x := (r, t))) x \<subseteq> W \<union> queued L x" using sub by (auto simp: queued_def)
    have e: "queued (L(x := (r, t))) o' = queued L o'" if "o' \<noteq> x" for o' using that by (simp add: queued_def)
    show ?thesis
      using that q e dis [OF that(1)] dis [OF that(2)] kobj_invD(3) [OF inv that]
      by (cases "o1 = x"; cases "o2 = x") (simp_all, blast+)
  qed
  ultimately show ?thesis using sz new unfolding kobj_inv_def by (simp add: fun_upd_apply)
qed

lemma h_lookup_Some: "h_lookup used gen arr n T h = Some i \<Longrightarrow> i < n \<and> used (arr ! i) \<and> gen (arr ! i) = h_gen h"
  by (auto simp: h_lookup_def Let_def split: if_splits)

lemma lookup_valid:
  "sem_lookup s h = Some i \<Longrightarrow> valid (OSem i) \<and> sm_used (ko_sem s ! i)"
  "mtx_lookup s h = Some i \<Longrightarrow> valid (OMtx i) \<and> mx_used (ko_mtx s ! i)"
  "q_lookup s h = Some i \<Longrightarrow> valid (OQue i) \<and> kq_used (ko_q s ! i)"
  "ev_lookup s h = Some i \<Longrightarrow> valid (OEvt i) \<and> ev_used (ko_ev s ! i)"
  by (auto simp: sem_lookup_def mtx_lookup_def q_lookup_def ev_lookup_def dest: h_lookup_Some)

lemma sizes_put [simp]:
  "sizes (put_sem s i e1) = sizes s" "sizes (put_mtx s i e2) = sizes s" "sizes (put_q s i e3) = sizes s"
  "sizes (put_ev s i e4) = sizes s" "sizes (put_waiter s w f) = sizes s" "sizes (s\<lparr>ko_w := st\<rparr>) = sizes s"
  "sizes (s\<lparr>ko_mem := m\<rparr>) = sizes s"
  by (simp_all add: sizes_def put_sem_def put_mtx_def put_q_def put_ev_def put_waiter_def)

lemma store_put [simp]:
  "ko_w (put_sem s i e1) = ko_w s" "ko_w (put_mtx s i e2) = ko_w s" "ko_w (put_q s i e3) = ko_w s"
  "ko_w (put_ev s i e4) = ko_w s" "ko_w (put_waiter s w f) = (ko_w s)(w := f (ko_w s w))"
  by (simp_all add: put_sem_def put_mtx_def put_q_def put_ev_def put_waiter_def)

lemma entry_put_waiter [simp]:
  "entry (put_waiter s w f) x = entry s x" "entry (s\<lparr>ko_w := st\<rparr>) x = entry s x"
  "entry (s\<lparr>ko_mem := m\<rparr>) x = entry s x"
  by (cases x; simp add: put_waiter_def)+

lemma entry_put_sem:
  "entry (put_sem s i e) x = (if x = OSem i \<and> i < length (ko_sem s) then ESem e else entry s x)"
proof (cases x)
  case (OSem j)
  then show ?thesis by (cases "j = i"; cases "i < length (ko_sem s)") (simp_all add: put_sem_def list_update_beyond)
qed (simp_all add: put_sem_def)

lemma entry_put_mtx:
  "entry (put_mtx s i e) x = (if x = OMtx i \<and> i < length (ko_mtx s) then EMtx e else entry s x)"
proof (cases x)
  case (OMtx j)
  then show ?thesis by (cases "j = i"; cases "i < length (ko_mtx s)") (simp_all add: put_mtx_def list_update_beyond)
qed (simp_all add: put_mtx_def)

lemma entry_put_q:
  "entry (put_q s i e) x = (if x = OQue i \<and> i < length (ko_q s) then EQue e else entry s x)"
proof (cases x)
  case (OQue j)
  then show ?thesis by (cases "j = i"; cases "i < length (ko_q s)") (simp_all add: put_q_def list_update_beyond)
qed (simp_all add: put_q_def)

lemma entry_put_ev:
  "entry (put_ev s i e) x = (if x = OEvt i \<and> i < length (ko_ev s) then EEvt e else entry s x)"
proof (cases x)
  case (OEvt j)
  then show ?thesis by (cases "j = i"; cases "i < length (ko_ev s)") (simp_all add: put_ev_def list_update_beyond)
qed (simp_all add: put_ev_def)

lemmas entry_put = entry_put_sem entry_put_mtx entry_put_q entry_put_ev

lemma lengths_put [simp]:
  "ko_sem (put_waiter s w f) = ko_sem s" "ko_mtx (put_waiter s w f) = ko_mtx s"
  "ko_q (put_waiter s w f) = ko_q s" "ko_ev (put_waiter s w f) = ko_ev s"
  by (simp_all add: put_waiter_def)

lemma sizes_valid:
  "sizes s \<Longrightarrow> valid (OSem i) \<longleftrightarrow> i < length (ko_sem s)" "sizes s \<Longrightarrow> valid (OMtx i) \<longleftrightarrow> i < length (ko_mtx s)"
  "sizes s \<Longrightarrow> valid (OQue i) \<longleftrightarrow> i < length (ko_q s)" "sizes s \<Longrightarrow> valid (OEvt i) \<longleftrightarrow> i < length (ko_ev s)"
  by (auto simp: sizes_def)

section \<open>List operations with the waiters' records\<close>

definition same_but_next :: "kwaiter \<Rightarrow> kwaiter \<Rightarrow> bool" where
  "same_but_next a b \<longleftrightarrow> a\<lparr>kw_next := 0\<rparr> = b\<lparr>kw_next := 0\<rparr>"

lemma same_but_nextD:
  assumes "same_but_next a b"
  shows "kw_who a = kw_who b" and "kw_state a = kw_state b" and "kw_item a = kw_item b"
    and "kw_want a = kw_want b" and "kw_got a = kw_got b" and "kw_all a = kw_all b" and "kw_clear a = kw_clear b"
  using assms by (cases a; cases b; simp add: same_but_next_def)+

lemma push_facts:
  fixes f :: "kwaiter \<Rightarrow> kwaiter"
  assumes h: "wl_holds (st, l) ws" and w: "w \<notin> set ws" "w \<noteq> 0" and wt: "waits st ws"
  defines "r \<equiv> wl_push (st(w := f (st w)), l) w"
  shows "wl_holds (fst r, snd r) (ws @ [w])" and "waits (fst r) (ws @ [w])"
    and "\<And>x. x \<notin> insert w (set ws) \<Longrightarrow> fst r x = st x"
    and "\<And>x. x \<in> set ws \<Longrightarrow> same_but_next (fst r x) (st x)"
    and "same_but_next (fst r w) ((f (st w))\<lparr>kw_state := KW_WAIT\<rparr>)"
proof -
  have h': "wl_holds (st(w := f (st w)), l) ws"
    using h w(1) by (subst wl_holds_cong [of ws _ st]) auto
  show "wl_holds (fst r, snd r) (ws @ [w])" unfolding r_def
    using wl_push_holds [OF h' w] by simp
  have tl: "wl_tail l = 0 \<or> wl_tail l \<in> set ws" using h by (auto simp: wl_holds_def)
  show frame: "fst r x = st x" if "x \<notin> insert w (set ws)" for x
    using that tl w(2) by (auto simp: r_def wl_push_def Let_def)
  show old: "same_but_next (fst r x) (st x)" if "x \<in> set ws" for x
    using that w by (auto simp: r_def wl_push_def Let_def same_but_next_def)
  show new: "same_but_next (fst r w) ((f (st w))\<lparr>kw_state := KW_WAIT\<rparr>)"
    using tl w by (auto simp: r_def wl_push_def Let_def same_but_next_def)
  show "waits (fst r) (ws @ [w])"
    using same_but_nextD(2) [OF old] same_but_nextD(2) [OF new] wt by (simp add: waits_def)
qed

lemma pop_facts:
  assumes "wl_holds (st, l) (w # ws)" and "waits st (w # ws)"
  obtains l' where "wl_pop (st, l) = Some (w, st(w := (st w)\<lparr>kw_next := 0\<rparr>), l')"
    and "\<And>r. wl_holds (st(w := r), l') ws" and "\<And>r. waits (st(w := r)) ws" and "w \<notin> set ws"
proof -
  from wl_pop_first [OF assms(1)] obtain l' where l': "wl_pop (st, l) = Some (w, st(w := (st w)\<lparr>kw_next := 0\<rparr>), l')"
    "wl_holds (st(w := (st w)\<lparr>kw_next := 0\<rparr>), l') ws" by blast
  have w: "w \<notin> set ws" using assms(1) by (simp add: wl_holds_def)
  have "wl_holds (st(w := r), l') ws" for r
    using l'(2) w by (subst wl_holds_cong [of ws _ "st(w := (st w)\<lparr>kw_next := 0\<rparr>)"]) auto
  moreover have "waits (st(w := r)) ws" for r using assms(2) w by (auto simp: waits_def)
  ultimately show thesis using l'(1) w by (intro that)
qed

lemma pop_none: "wl_holds (st, l) ws \<Longrightarrow> wl_pop (st, l) = None \<longleftrightarrow> ws = []"
  using wl_pop_empty wl_pop_first by (cases ws) fastforce+

lemma seg_unique: "seg st p xs 0 \<Longrightarrow> seg st p ys 0 \<Longrightarrow> xs = ys"
proof (induction xs arbitrary: p ys)
  case Nil
  then show ?case by (cases ys) auto
next
  case (Cons x xs)
  then show ?case by (cases ys) auto
qed

definition in_list :: "wstore \<Rightarrow> wlist \<Rightarrow> nat \<Rightarrow> bool" where
  "in_list st l w \<longleftrightarrow> (\<exists>ws. wl_holds (st, l) ws \<and> w \<in> set ws)"

lemma in_list_iff: "wl_holds (st, l) r \<Longrightarrow> in_list st l w \<longleftrightarrow> w \<in> set r"
  using seg_unique unfolding in_list_def wl_holds_def by fast

lemma cancel_facts:
  assumes h: "wl_holds (st, l) r" and wt: "waits st r"
  shows "\<exists>st' l' res. cancel_finish st (Some l) w = Some (st', Some l', res)
    \<and> wl_holds (st', l') (remove1 w r) \<and> waits st' (remove1 w r)
    \<and> (\<forall>x. x \<notin> insert w (set r) \<longrightarrow> st' x = st x)
    \<and> (\<forall>x \<in> set (remove1 w r). same_but_next (st' x) (st x))
    \<and> (w \<in> set r \<longrightarrow> res = KO_TIMEOUT) \<and> (kw_state (st w) = KW_GRANT \<longrightarrow> res = KO_OK)
    \<and> (kw_state (st w) = KW_FAILED \<longrightarrow> res = KO_DELETED)"
proof (cases "kw_state (st w) = KW_GRANT \<or> kw_state (st w) = KW_FAILED")
  case True
  then have "w \<notin> set r" using wt by (auto simp: waits_def kw_defs)
  with True h wt show ?thesis by (auto simp: cancel_finish_def remove1_idem same_but_next_def kw_defs)
next
  case False
  have d: "distinct r" using h by (simp add: wl_holds_def)
  obtain st1 l1 b where rm: "wl_remove (st, l) w = Some (b, st1, l1)" "wl_holds (st1, l1) (remove1 w r)"
    "\<And>x. x \<notin> set r \<Longrightarrow> st1 x = st x" "\<And>x. same_but_next (st1 x) (st x)"
  proof (cases "w \<in> set r")
    case True
    with wl_remove_run(2) [OF h] obtain s' where "wl_remove (st, l) w = Some (True, s')"
      "wl_holds s' (remove1 w r)" "\<And>x. x \<notin> set r \<Longrightarrow> fst s' x = st x"
      "\<And>x. same_but_next (fst s' x) (st x)" unfolding same_but_next_def by blast
    then show thesis using that [of True "fst s'" "snd s'"] by simp
  next
    case False
    with wl_remove_run(1) [OF h] h show thesis
      using that [of False st l] by (simp add: remove1_idem same_but_next_def)
  qed
  have w: "w \<notin> set (remove1 w r)" using d by simp
  let ?st2 = "st1(w := (st1 w)\<lparr>kw_state := KW_IDLE\<rparr>)"
  have "wl_holds (?st2, l1) (remove1 w r)"
    using rm(2) w by (subst wl_holds_cong [of "remove1 w r" _ st1]) auto
  moreover have "waits ?st2 (remove1 w r)"
    using wt w same_but_nextD(2) [OF rm(4)] by (auto simp: waits_def dest: notin_set_remove1 set_remove1_subset [THEN subsetD])
  ultimately show ?thesis
    using False rm w by (auto simp: cancel_finish_def)
qed

section \<open>Every operation keeps the invariant\<close>

definition fresh :: "kobj \<Rightarrow> nat \<Rightarrow> bool" where
  "fresh s w \<longleftrightarrow> w \<noteq> 0 \<longrightarrow> kw_state (ko_w s w) \<noteq> KW_WAIT"

lemma freshD: "kobj_inv s L \<Longrightarrow> fresh s w \<Longrightarrow> w \<noteq> 0 \<Longrightarrow> valid o' \<Longrightarrow> {w} \<inter> queued L o' = {}"
  using not_queued unfolding fresh_def by blast

lemma sem_upd_to:
  assumes inv: "kobj_inv s L" and v: "valid (OSem i)" and L: "L (OSem i) = (r, t)"
    and frame: "\<And>a. a \<notin> W \<union> set r \<union> set t \<Longrightarrow> st a = ko_w s a"
    and fresh: "\<And>o'. valid o' \<Longrightarrow> W \<inter> queued L o' = {}"
    and new: "ent_inv st (ESem e) r' t'" and sub: "set r' \<union> set t' \<subseteq> W \<union> set r \<union> set t"
  shows "kobj_inv (put_sem (s\<lparr>ko_w := st\<rparr>) i e) (L(OSem i := (r', t')))"
proof -
  have sz: "sizes s" using inv by (rule kobj_invD(1))
  then have len: "i < length (ko_sem s)" using v sizes_valid by simp
  show ?thesis
    by (rule kobj_inv_upd [OF inv v, where W = W and r = r' and t = t'])
      (use sz len frame fresh new sub L in \<open>simp_all add: entry_put queued_def Un_assoc del: entry.simps ent_inv.simps\<close>)
qed

lemma sem_upd:
  assumes inv: "kobj_inv s L" and v: "valid (OSem i)" and L: "L (OSem i) = (r, t)"
    and frame: "\<And>a. a \<notin> W \<union> set r \<union> set t \<Longrightarrow> st a = ko_w s a"
    and fresh: "\<And>o'. valid o' \<Longrightarrow> W \<inter> queued L o' = {}"
    and new: "ent_inv st (ESem e) r' t'" and sub: "set r' \<union> set t' \<subseteq> W \<union> set r \<union> set t"
  shows "\<exists>L'. kobj_inv (put_sem (s\<lparr>ko_w := st\<rparr>) i e) L'"
  by (rule exI, rule sem_upd_to [OF assms])


lemma mtx_upd_to:
  assumes inv: "kobj_inv s L" and v: "valid (OMtx i)" and L: "L (OMtx i) = (r, t)"
    and frame: "\<And>a. a \<notin> W \<union> set r \<union> set t \<Longrightarrow> st a = ko_w s a"
    and fresh: "\<And>o'. valid o' \<Longrightarrow> W \<inter> queued L o' = {}"
    and new: "ent_inv st (EMtx e) r' t'" and sub: "set r' \<union> set t' \<subseteq> W \<union> set r \<union> set t"
  shows "kobj_inv (put_mtx (s\<lparr>ko_w := st\<rparr>) i e) (L(OMtx i := (r', t')))"
proof -
  have sz: "sizes s" using inv by (rule kobj_invD(1))
  then have len: "i < length (ko_mtx s)" using v sizes_valid by simp
  show ?thesis
    by (rule kobj_inv_upd [OF inv v, where W = W and r = r' and t = t'])
      (use sz len frame fresh new sub L in \<open>simp_all add: entry_put queued_def Un_assoc del: entry.simps ent_inv.simps\<close>)
qed

lemma mtx_upd:
  assumes inv: "kobj_inv s L" and v: "valid (OMtx i)" and L: "L (OMtx i) = (r, t)"
    and frame: "\<And>a. a \<notin> W \<union> set r \<union> set t \<Longrightarrow> st a = ko_w s a"
    and fresh: "\<And>o'. valid o' \<Longrightarrow> W \<inter> queued L o' = {}"
    and new: "ent_inv st (EMtx e) r' t'" and sub: "set r' \<union> set t' \<subseteq> W \<union> set r \<union> set t"
  shows "\<exists>L'. kobj_inv (put_mtx (s\<lparr>ko_w := st\<rparr>) i e) L'"
  by (rule exI, rule mtx_upd_to [OF assms])


lemma que_upd_to:
  assumes inv: "kobj_inv s L" and v: "valid (OQue i)" and L: "L (OQue i) = (r, t)"
    and frame: "\<And>a. a \<notin> W \<union> set r \<union> set t \<Longrightarrow> st a = ko_w s a"
    and fresh: "\<And>o'. valid o' \<Longrightarrow> W \<inter> queued L o' = {}"
    and new: "ent_inv st (EQue e) r' t'" and sub: "set r' \<union> set t' \<subseteq> W \<union> set r \<union> set t"
  shows "kobj_inv (put_q (s\<lparr>ko_mem := m\<rparr>\<lparr>ko_w := st\<rparr>) i e) (L(OQue i := (r', t')))"
proof -
  have sz: "sizes s" using inv by (rule kobj_invD(1))
  then have len: "i < length (ko_q s)" using v sizes_valid by simp
  show ?thesis
    by (rule kobj_inv_upd [OF inv v, where W = W and r = r' and t = t'])
      (use sz len frame fresh new sub L in \<open>simp_all add: entry_put queued_def Un_assoc del: entry.simps ent_inv.simps\<close>)
qed

lemma que_upd:
  assumes inv: "kobj_inv s L" and v: "valid (OQue i)" and L: "L (OQue i) = (r, t)"
    and frame: "\<And>a. a \<notin> W \<union> set r \<union> set t \<Longrightarrow> st a = ko_w s a"
    and fresh: "\<And>o'. valid o' \<Longrightarrow> W \<inter> queued L o' = {}"
    and new: "ent_inv st (EQue e) r' t'" and sub: "set r' \<union> set t' \<subseteq> W \<union> set r \<union> set t"
  shows "\<exists>L'. kobj_inv (put_q (s\<lparr>ko_mem := m\<rparr>\<lparr>ko_w := st\<rparr>) i e) L'"
  by (rule exI, rule que_upd_to [OF assms])


lemma evt_upd_to:
  assumes inv: "kobj_inv s L" and v: "valid (OEvt i)" and L: "L (OEvt i) = (r, t)"
    and frame: "\<And>a. a \<notin> W \<union> set r \<union> set t \<Longrightarrow> st a = ko_w s a"
    and fresh: "\<And>o'. valid o' \<Longrightarrow> W \<inter> queued L o' = {}"
    and new: "ent_inv st (EEvt e) r' t'" and sub: "set r' \<union> set t' \<subseteq> W \<union> set r \<union> set t"
  shows "kobj_inv (put_ev (s\<lparr>ko_w := st\<rparr>) i e) (L(OEvt i := (r', t')))"
proof -
  have sz: "sizes s" using inv by (rule kobj_invD(1))
  then have len: "i < length (ko_ev s)" using v sizes_valid by simp
  show ?thesis
    by (rule kobj_inv_upd [OF inv v, where W = W and r = r' and t = t'])
      (use sz len frame fresh new sub L in \<open>simp_all add: entry_put queued_def Un_assoc del: entry.simps ent_inv.simps\<close>)
qed

lemma evt_upd:
  assumes inv: "kobj_inv s L" and v: "valid (OEvt i)" and L: "L (OEvt i) = (r, t)"
    and frame: "\<And>a. a \<notin> W \<union> set r \<union> set t \<Longrightarrow> st a = ko_w s a"
    and fresh: "\<And>o'. valid o' \<Longrightarrow> W \<inter> queued L o' = {}"
    and new: "ent_inv st (EEvt e) r' t'" and sub: "set r' \<union> set t' \<subseteq> W \<union> set r \<union> set t"
  shows "\<exists>L'. kobj_inv (put_ev (s\<lparr>ko_w := st\<rparr>) i e) L'"
  by (rule exI, rule evt_upd_to [OF assms])


lemma put_same_store:
  "put_sem s i e1 = put_sem (s\<lparr>ko_w := ko_w s\<rparr>) i e1" "put_mtx s i e2 = put_mtx (s\<lparr>ko_w := ko_w s\<rparr>) i e2"
  "put_ev s i e4 = put_ev (s\<lparr>ko_w := ko_w s\<rparr>) i e4"
  by simp_all

lemma store_twice [simp]: "(put_waiter s w f)\<lparr>ko_w := st\<rparr> = s\<lparr>ko_w := st\<rparr>"
  by (simp add: put_waiter_def)

lemma mem_same: "s\<lparr>ko_w := st\<rparr> = s\<lparr>ko_mem := ko_mem s\<rparr>\<lparr>ko_w := st\<rparr>"
  by simp

lemma take_inv:
  assumes inv: "kobj_inv s L" and fr: "fresh s w"
  shows "\<exists>L'. kobj_inv (snd (ksem_take s h w who)) L'"
proof (cases "sem_lookup s h")
  case None
  with inv show ?thesis by (auto simp: ksem_take_def)
next
  case (Some i)
  note v = lookup_valid(1) [OF Some]
  define e where "e = ko_sem s ! i"
  obtain r t where L: "L (OSem i) = (r, t)" by (cases "L (OSem i)")
  have e: "ent_inv (ko_w s) (ESem e) r t" "sm_used e"
    using kobj_invD(2) [OF inv, of "OSem i"] v L by (simp_all add: e_def)
  note upd = sem_upd [OF inv _ L]
  consider "sm_count e > 0" | "sm_count e = 0" "w = 0" | "sm_count e = 0" "w \<noteq> 0" by auto
  then show ?thesis
  proof cases
    case 1
    have "\<exists>L'. kobj_inv (put_sem (s\<lparr>ko_w := ko_w s\<rparr>) i (e\<lparr>sm_count := sm_count e - 1\<rparr>)) L'"
      by (intro upd [where W = "{}" and r' = r and t' = t]) (use v e 1 in auto)
    then show ?thesis using Some 1 by (simp add: ksem_take_def e_def [symmetric] Let_def)
  next
    case 2
    with inv Some show ?thesis by (auto simp: ksem_take_def e_def [symmetric] Let_def)
  next
    case 3
    have w: "w \<notin> set r" using freshD [OF inv fr 3(2), of "OSem i"] v L by (simp add: queued_def)
    from e have h: "wl_holds (ko_w s, sm_w e) r" "waits (ko_w s) r" "t = []" by auto
    let ?f = "\<lambda>r :: kwaiter. r\<lparr>kw_who := who\<rparr>"
    let ?r = "wl_push ((ko_w s)(w := ?f (ko_w s w)), sm_w e) w"
    note p = push_facts [OF h(1) w 3(2) h(2), where f = ?f]
    have "\<exists>L'. kobj_inv (put_sem (s\<lparr>ko_w := fst ?r\<rparr>) i (e\<lparr>sm_w := snd ?r\<rparr>)) L'"
    proof (intro upd [where W = "{w}" and r' = "r @ [w]" and t' = "[]"])
      show "ent_inv (fst ?r) (ESem (e\<lparr>sm_w := snd ?r\<rparr>)) (r @ [w]) []" using p(1,2) e 3 by simp
    qed (use v h p(3) freshD [OF inv fr 3(2)] in simp_all)
    then show ?thesis using Some 3 by (simp add: ksem_take_def e_def [symmetric] Let_def)
  qed
qed

lemma give_inv:
  assumes inv: "kobj_inv s L"
  shows "\<exists>L'. kobj_inv (snd (snd (ksem_give s h wk))) L'"
proof (cases "sem_lookup s h")
  case None
  with inv show ?thesis by (auto simp: ksem_give_def)
next
  case (Some i)
  note v = lookup_valid(1) [OF Some]
  define e where "e = ko_sem s ! i"
  obtain r t where L: "L (OSem i) = (r, t)" by (cases "L (OSem i)")
  have e: "ent_inv (ko_w s) (ESem e) r t" "sm_used e"
    using kobj_invD(2) [OF inv, of "OSem i"] v L by (simp_all add: e_def)
  then have h: "wl_holds (ko_w s, sm_w e) r" "waits (ko_w s) r" "t = []" by auto
  note upd = sem_upd [OF inv _ L]
  show ?thesis
  proof (cases r)
    case Nil
    then have none: "wl_pop (ko_w s, sm_w e) = None" using h(1) by (simp add: wl_pop_empty)
    have "\<exists>L'. kobj_inv (put_sem (s\<lparr>ko_w := ko_w s\<rparr>) i (e\<lparr>sm_count := sm_count e + 1\<rparr>)) L'"
      if "sm_count e < sm_max e"
      by (intro upd [where W = "{}" and r' = r and t' = t]) (use v e that Nil in auto)
    then show ?thesis using Some none inv by (auto simp: ksem_give_def e_def [symmetric] Let_def)
  next
    case (Cons w ws)
    with h obtain l where p: "wl_pop (ko_w s, sm_w e) = Some (w, (ko_w s)(w := (ko_w s w)\<lparr>kw_next := 0\<rparr>), l)"
      "\<And>q. wl_holds ((ko_w s)(w := q), l) ws" "\<And>q. waits ((ko_w s)(w := q)) ws" "w \<notin> set ws"
      by (auto elim: pop_facts)
    have "\<exists>L'. kobj_inv (put_sem (s\<lparr>ko_w := (ko_w s)(w := (ko_w s w)\<lparr>kw_next := 0, kw_state := KW_GRANT\<rparr>)\<rparr>) i
        (e\<lparr>sm_w := l\<rparr>)) L'"
      by (intro upd [where W = "{}" and r' = ws and t' = "[]"]) (use v e p Cons in auto)
    then show ?thesis using Some p(1) by (simp add: ksem_give_def e_def [symmetric] Let_def)
  qed
qed

lemma store_upd:
  assumes inv: "kobj_inv s L" and frame: "\<And>a. a \<noteq> w \<Longrightarrow> st a = ko_w s a"
    and fr: "kw_state (ko_w s w) \<noteq> KW_WAIT"
  shows "kobj_inv (s\<lparr>ko_w := st\<rparr>) L"
proof -
  have "ent_inv st (entry s o') (fst (L o')) (snd (L o'))" if "valid o'" for o'
  proof -
    have "w \<notin> set (fst (L o')) \<union> set (snd (L o'))"
      using not_queued [OF inv fr that] by (simp add: queued_def)
    then have "ent_inv (ko_w s) (entry s o') (fst (L o')) (snd (L o')) = ent_inv st (entry s o') (fst (L o')) (snd (L o'))"
      using frame by (intro ent_inv_cong) metis
    with kobj_invD(2) [OF inv that] show ?thesis by simp
  qed
  with inv show ?thesis unfolding kobj_inv_def by simp
qed

lemma cancel_none:
  assumes inv: "kobj_inv s L" and w: "kw_state (ko_w s w) \<noteq> KW_WAIT"
  shows "\<exists>st res. cancel_finish (ko_w s) None w = Some (st, None, res) \<and> kobj_inv (s\<lparr>ko_w := st\<rparr>) L"
  using store_upd [OF inv _ w, of "(ko_w s)(w := (ko_w s w)\<lparr>kw_state := KW_FAILED\<rparr>)"] inv
  by (auto simp: cancel_finish_def)

text \<open>A waiter outside a queue of its object that is not waiting is in no queue at all.\<close>

lemma outside_fresh:
  "kobj_inv s L \<Longrightarrow> kw_state (ko_w s w) = KW_WAIT \<longrightarrow> w \<in> A \<Longrightarrow> valid o' \<Longrightarrow> ({w} - A) \<inter> queued L o' = {}"
  using not_queued by blast

lemma sem_cancel_inv:
  assumes inv: "kobj_inv s L"
    and w: "kw_state (ko_w s w) = KW_WAIT \<longrightarrow> (\<exists>i. sem_lookup s h = Some i \<and> in_list (ko_w s) (sm_w (ko_sem s ! i)) w)"
  shows "\<exists>res s' L'. ksem_cancel s h w = Some (res, s') \<and> kobj_inv s' L'"
proof (cases "sem_lookup s h")
  case None
  with w have "kw_state (ko_w s w) \<noteq> KW_WAIT" by simp
  from cancel_none [OF inv this] None show ?thesis by (auto simp: ksem_cancel_def)
next
  case (Some i)
  note v = lookup_valid(1) [OF Some]
  define e where "e = ko_sem s ! i"
  obtain r t where L: "L (OSem i) = (r, t)" by (cases "L (OSem i)")
  have e: "ent_inv (ko_w s) (ESem e) r t" "sm_used e"
    using kobj_invD(2) [OF inv, of "OSem i"] v L by (simp_all add: e_def)
  then have h: "wl_holds (ko_w s, sm_w e) r" "waits (ko_w s) r" "t = []" by auto
  from cancel_facts [OF h(1,2), of w] obtain st l res where
    c: "cancel_finish (ko_w s) (Some (sm_w e)) w = Some (st, Some l, res)" "wl_holds (st, l) (remove1 w r)"
      "waits st (remove1 w r)" "\<And>x. x \<notin> insert w (set r) \<Longrightarrow> st x = ko_w s x"
      "\<And>x. x \<in> set (remove1 w r) \<Longrightarrow> same_but_next (st x) (ko_w s x)" by blast
  have sub: "set (remove1 w r) \<subseteq> set r" by (rule set_remove1_subset)
  have wr: "kw_state (ko_w s w) = KW_WAIT \<longrightarrow> w \<in> set r"
    using w Some in_list_iff [OF h(1)] by (auto simp: e_def)
  have "ent_inv st (ESem (e\<lparr>sm_w := l\<rparr>)) (remove1 w r) []"
    using e c(2,3) sub  by (auto simp: subset_iff dest: set_remove1_subset [THEN subsetD])
  then have "\<exists>L'. kobj_inv (put_sem (s\<lparr>ko_w := st\<rparr>) i (e\<lparr>sm_w := l\<rparr>)) L'"
    using v c(4) sub h(3) outside_fresh [OF inv wr]
    by (intro sem_upd [OF inv _ L, where W = "{w} - set r" and r' = "remove1 w r" and t' = "[]"]) auto
  then show ?thesis using Some c(1) by (auto simp: ksem_cancel_def e_def [symmetric] Let_def)
qed

lemma sem_delete_inv:
  assumes inv: "kobj_inv s L"
  shows "\<exists>res wk' s' L'. ksem_delete s h wk = Some (res, wk', s') \<and> kobj_inv s' L'"
proof (cases "sem_lookup s h")
  case None
  with inv show ?thesis by (auto simp: ksem_delete_def)
next
  case (Some i)
  note v = lookup_valid(1) [OF Some]
  define e where "e = ko_sem s ! i"
  obtain r t where L: "L (OSem i) = (r, t)" by (cases "L (OSem i)")
  have e: "ent_inv (ko_w s) (ESem e) r t"
    using kobj_invD(2) [OF inv, of "OSem i"] v L by (simp_all add: e_def)
  then have h: "wl_holds (ko_w s, sm_w e) r" "t = []" by auto
  from wl_fail_all_run [OF h(1), of wk] obtain st l wk' where
    f: "wl_fail_all (ko_w s) (sm_w e) wk = Some (st, l, wk')" "wl_holds (st, l) []"
      "\<And>x. x \<notin> set r \<Longrightarrow> st x = ko_w s x" by blast
  have "\<exists>L'. kobj_inv (put_sem (s\<lparr>ko_w := st\<rparr>) i (e\<lparr>sm_w := l, sm_used := False, sm_gen := gen_next (sm_gen e)\<rparr>)) L'"
    using v f by (intro sem_upd [OF inv _ L, where W = "{}" and r' = "[]" and t' = "[]"]) (auto simp: waits_def)
  then show ?thesis using Some f(1) by (auto simp: ksem_delete_def e_def [symmetric] Let_def)
qed

lemma mtx_cancel_inv:
  assumes inv: "kobj_inv s L"
    and w: "kw_state (ko_w s w) = KW_WAIT \<longrightarrow> (\<exists>i. mtx_lookup s h = Some i \<and> in_list (ko_w s) (mx_w (ko_mtx s ! i)) w)"
  shows "\<exists>res s' L'. kmutex_cancel s h w = Some (res, s') \<and> kobj_inv s' L'"
proof (cases "mtx_lookup s h")
  case None
  with w have "kw_state (ko_w s w) \<noteq> KW_WAIT" by simp
  from cancel_none [OF inv this] None show ?thesis by (auto simp: kmutex_cancel_def)
next
  case (Some i)
  note v = lookup_valid(2) [OF Some]
  define e where "e = ko_mtx s ! i"
  obtain r t where L: "L (OMtx i) = (r, t)" by (cases "L (OMtx i)")
  have e: "ent_inv (ko_w s) (EMtx e) r t" "mx_used e"
    using kobj_invD(2) [OF inv, of "OMtx i"] v L by (simp_all add: e_def)
  then have h: "wl_holds (ko_w s, mx_w e) r" "waits (ko_w s) r" "t = []" by auto
  from cancel_facts [OF h(1,2), of w] obtain st l res where
    c: "cancel_finish (ko_w s) (Some (mx_w e)) w = Some (st, Some l, res)" "wl_holds (st, l) (remove1 w r)"
      "waits st (remove1 w r)" "\<And>x. x \<notin> insert w (set r) \<Longrightarrow> st x = ko_w s x"
      "\<And>x. x \<in> set (remove1 w r) \<Longrightarrow> same_but_next (st x) (ko_w s x)" by blast
  have sub: "set (remove1 w r) \<subseteq> set r" by (rule set_remove1_subset)
  have wr: "kw_state (ko_w s w) = KW_WAIT \<longrightarrow> w \<in> set r"
    using w Some in_list_iff [OF h(1)] by (auto simp: e_def)
  have "ent_inv st (EMtx (e\<lparr>mx_w := l\<rparr>)) (remove1 w r) []"
    using e c(2,3) sub same_but_nextD(1) [OF c(5)] by (auto simp: subset_iff)
  then have "\<exists>L'. kobj_inv (put_mtx (s\<lparr>ko_w := st\<rparr>) i (e\<lparr>mx_w := l\<rparr>)) L'"
    using v c(4) sub h(3) outside_fresh [OF inv wr]
    by (intro mtx_upd [OF inv _ L, where W = "{w} - set r" and r' = "remove1 w r" and t' = "[]"]) auto
  then show ?thesis using Some c(1) by (auto simp: kmutex_cancel_def e_def [symmetric] Let_def)
qed

lemma mtx_delete_inv:
  assumes inv: "kobj_inv s L"
  shows "\<exists>res wk' s' L'. kmutex_delete s h wk = Some (res, wk', s') \<and> kobj_inv s' L'"
proof (cases "mtx_lookup s h")
  case None
  with inv show ?thesis by (auto simp: kmutex_delete_def)
next
  case (Some i)
  note v = lookup_valid(2) [OF Some]
  define e where "e = ko_mtx s ! i"
  obtain r t where L: "L (OMtx i) = (r, t)" by (cases "L (OMtx i)")
  have e: "ent_inv (ko_w s) (EMtx e) r t"
    using kobj_invD(2) [OF inv, of "OMtx i"] v L by (simp_all add: e_def)
  then have h: "wl_holds (ko_w s, mx_w e) r" "t = []" by auto
  from wl_fail_all_run [OF h(1), of wk] obtain st l wk' where
    f: "wl_fail_all (ko_w s) (mx_w e) wk = Some (st, l, wk')" "wl_holds (st, l) []"
      "\<And>x. x \<notin> set r \<Longrightarrow> st x = ko_w s x" by blast
  have "\<exists>L'. kobj_inv (put_mtx (s\<lparr>ko_w := st\<rparr>) i (e\<lparr>mx_w := l, mx_used := False, mx_gen := gen_next (mx_gen e)\<rparr>)) L'"
    using v f by (intro mtx_upd [OF inv _ L, where W = "{}" and r' = "[]" and t' = "[]"]) (auto simp: waits_def)
  then show ?thesis using Some f(1) by (auto simp: kmutex_delete_def e_def [symmetric] Let_def)
qed

lemma ev_cancel_inv:
  assumes inv: "kobj_inv s L"
    and w: "kw_state (ko_w s w) = KW_WAIT \<longrightarrow> (\<exists>i. ev_lookup s h = Some i \<and> in_list (ko_w s) (ev_w (ko_ev s ! i)) w)"
  shows "\<exists>res out s' L'. kev_cancel s h w = Some (res, out, s') \<and> kobj_inv s' L'"
proof (cases "ev_lookup s h")
  case None
  with w have "kw_state (ko_w s w) \<noteq> KW_WAIT" by simp
  from cancel_none [OF inv this] obtain st res where
    c: "cancel_finish (ko_w s) None w = Some (st, None, res)" "kobj_inv (s\<lparr>ko_w := st\<rparr>) L" by blast
  have "kev_cancel s h w = Some (res, (if res = KO_OK then Some (kw_got (st w)) else None), s\<lparr>ko_w := st\<rparr>)"
    by (simp add: kev_cancel_def None c(1))
  with c(2) show ?thesis by blast
next
  case (Some i)
  note v = lookup_valid(4) [OF Some]
  define e where "e = ko_ev s ! i"
  obtain r t where L: "L (OEvt i) = (r, t)" by (cases "L (OEvt i)")
  have e: "ent_inv (ko_w s) (EEvt e) r t" "ev_used e"
    using kobj_invD(2) [OF inv, of "OEvt i"] v L by (simp_all add: e_def)
  then have h: "wl_holds (ko_w s, ev_w e) r" "waits (ko_w s) r" "t = []" by auto
  from cancel_facts [OF h(1,2), of w] obtain st l res where
    c: "cancel_finish (ko_w s) (Some (ev_w e)) w = Some (st, Some l, res)" "wl_holds (st, l) (remove1 w r)"
      "waits st (remove1 w r)" "\<And>x. x \<notin> insert w (set r) \<Longrightarrow> st x = ko_w s x"
      "\<And>x. x \<in> set (remove1 w r) \<Longrightarrow> same_but_next (st x) (ko_w s x)" by blast
  have sub: "set (remove1 w r) \<subseteq> set r" by (rule set_remove1_subset)
  have wr: "kw_state (ko_w s w) = KW_WAIT \<longrightarrow> w \<in> set r"
    using w Some in_list_iff [OF h(1)] by (auto simp: e_def)
  have "ent_inv st (EEvt (e\<lparr>ev_w := l\<rparr>)) (remove1 w r) []"
    using e c(2,3) sub same_but_nextD(4,6) [OF c(5)] by (auto simp: subset_iff)
  then have "\<exists>L'. kobj_inv (put_ev (s\<lparr>ko_w := st\<rparr>) i (e\<lparr>ev_w := l\<rparr>)) L'"
    using v c(4) sub h(3) outside_fresh [OF inv wr]
    by (intro evt_upd [OF inv _ L, where W = "{w} - set r" and r' = "remove1 w r" and t' = "[]"]) auto
  then show ?thesis using Some c(1) by (auto simp: kev_cancel_def e_def [symmetric] Let_def)
qed

lemma ev_delete_inv:
  assumes inv: "kobj_inv s L"
  shows "\<exists>res wk' s' L'. kev_delete s h wk = Some (res, wk', s') \<and> kobj_inv s' L'"
proof (cases "ev_lookup s h")
  case None
  with inv show ?thesis by (auto simp: kev_delete_def)
next
  case (Some i)
  note v = lookup_valid(4) [OF Some]
  define e where "e = ko_ev s ! i"
  obtain r t where L: "L (OEvt i) = (r, t)" by (cases "L (OEvt i)")
  have e: "ent_inv (ko_w s) (EEvt e) r t"
    using kobj_invD(2) [OF inv, of "OEvt i"] v L by (simp_all add: e_def)
  then have h: "wl_holds (ko_w s, ev_w e) r" "t = []" by auto
  from wl_fail_all_run [OF h(1), of wk] obtain st l wk' where
    f: "wl_fail_all (ko_w s) (ev_w e) wk = Some (st, l, wk')" "wl_holds (st, l) []"
      "\<And>x. x \<notin> set r \<Longrightarrow> st x = ko_w s x" by blast
  have "\<exists>L'. kobj_inv (put_ev (s\<lparr>ko_w := st\<rparr>) i (e\<lparr>ev_w := l, ev_used := False, ev_gen := gen_next (ev_gen e)\<rparr>)) L'"
    using v f by (intro evt_upd [OF inv _ L, where W = "{}" and r' = "[]" and t' = "[]"]) (auto simp: waits_def)
  then show ?thesis using Some f(1) by (auto simp: kev_delete_def e_def [symmetric] Let_def)
qed

lemma lock_inv:
  assumes inv: "kobj_inv s L" and fr: "fresh s w" and who: "0 \<le> who"
  shows "\<exists>L'. kobj_inv (snd (kmutex_lock s h w who)) L'"
proof (cases "mtx_lookup s h")
  case None
  with inv show ?thesis by (auto simp: kmutex_lock_def)
next
  case (Some i)
  note v = lookup_valid(2) [OF Some]
  define e where "e = ko_mtx s ! i"
  obtain r t where L: "L (OMtx i) = (r, t)" by (cases "L (OMtx i)")
  have e: "ent_inv (ko_w s) (EMtx e) r t" "mx_used e"
    using kobj_invD(2) [OF inv, of "OMtx i"] v L by (simp_all add: e_def)
  then have h: "wl_holds (ko_w s, mx_w e) r" "waits (ko_w s) r" "t = []" by auto
  note upd = mtx_upd [OF inv _ L]
  have own: "\<exists>L'. kobj_inv (put_mtx (s\<lparr>ko_w := ko_w s\<rparr>) i (e\<lparr>mx_owner := o', mx_depth := d\<rparr>)) L'" if "0 \<le> o'" for o' d
    by (intro upd [where W = "{}" and r' = r and t' = "[]"]) (use v e that in auto)
  have deeper: "\<exists>L'. kobj_inv (put_mtx (s\<lparr>ko_w := ko_w s\<rparr>) i (e\<lparr>mx_depth := d\<rparr>)) L'" for d
    by (intro upd [where W = "{}" and r' = r and t' = "[]"]) (use v e in auto)
  have wait: "\<exists>L'. kobj_inv (put_mtx (s\<lparr>ko_w := fst q\<rparr>) i (e\<lparr>mx_w := snd q\<rparr>)) L'"
    if w0: "w \<noteq> 0" and o: "\<not> mx_owner e < 0"
      and q: "q = wl_push ((ko_w s)(w := (ko_w s w)\<lparr>kw_who := who\<rparr>), mx_w e) w" for q
  proof -
    have w: "w \<notin> set r" using freshD [OF inv fr w0, of "OMtx i"] v L by (simp add: queued_def)
    note p = push_facts [OF h(1) w w0 h(2), where f = "\<lambda>r. r\<lparr>kw_who := who\<rparr>", folded q]
    have "ent_inv (fst q) (EMtx (e\<lparr>mx_w := snd q\<rparr>)) (r @ [w]) []"
      using p(1,2) e o who same_but_nextD(1) [OF p(4)] same_but_nextD(1) [OF p(5)] by simp
    then show ?thesis
      by (intro upd [where W = "{w}" and r' = "r @ [w]" and t' = "[]"])
        (use v h p(3) freshD [OF inv fr w0] in simp_all)
  qed
  show ?thesis
    using Some inv own [OF who] deeper wait [OF _ _ refl]
    by (auto simp: kmutex_lock_def e_def [symmetric] Let_def)
qed

lemma unlock_inv:
  assumes inv: "kobj_inv s L"
  shows "\<exists>L'. kobj_inv (snd (snd (kmutex_unlock s h who wk))) L'"
proof (cases "mtx_lookup s h")
  case None
  with inv show ?thesis by (auto simp: kmutex_unlock_def)
next
  case (Some i)
  note v = lookup_valid(2) [OF Some]
  define e where "e = ko_mtx s ! i"
  obtain r t where L: "L (OMtx i) = (r, t)" by (cases "L (OMtx i)")
  have e: "ent_inv (ko_w s) (EMtx e) r t" "mx_used e"
    using kobj_invD(2) [OF inv, of "OMtx i"] v L by (simp_all add: e_def)
  then have h: "wl_holds (ko_w s, mx_w e) r" "waits (ko_w s) r" "t = []" by auto
  note upd = mtx_upd [OF inv _ L]
  have keep: "\<exists>L'. kobj_inv (put_mtx (s\<lparr>ko_w := ko_w s\<rparr>) i (e\<lparr>mx_depth := d\<rparr>)) L'" for d
    by (intro upd [where W = "{}" and r' = r and t' = "[]"]) (use v e in auto)
  show ?thesis
  proof (cases r)
    case Nil
    then have none: "wl_pop (ko_w s, mx_w e) = None" using h(1) by (simp add: wl_pop_empty)
    have "\<exists>L'. kobj_inv (put_mtx (s\<lparr>ko_w := ko_w s\<rparr>) i (e\<lparr>mx_depth := d, mx_owner := -1\<rparr>)) L'" for d
      by (intro upd [where W = "{}" and r' = r and t' = "[]"]) (use v e Nil in auto)
    then show ?thesis using Some none inv keep by (auto simp: kmutex_unlock_def e_def [symmetric] Let_def)
  next
    case (Cons w ws)
    with h obtain l where p: "wl_pop (ko_w s, mx_w e) = Some (w, (ko_w s)(w := (ko_w s w)\<lparr>kw_next := 0\<rparr>), l)"
      "\<And>q. wl_holds ((ko_w s)(w := q), l) ws" "\<And>q. waits ((ko_w s)(w := q)) ws" "w \<notin> set ws"
      by (auto elim: pop_facts)
    have "\<exists>L'. kobj_inv (put_mtx (s\<lparr>ko_w := (ko_w s)(w := (ko_w s w)\<lparr>kw_next := 0, kw_state := KW_GRANT\<rparr>)\<rparr>) i
        (e\<lparr>mx_w := l, mx_owner := kw_who (ko_w s w), mx_depth := 1\<rparr>)) L'"
      by (intro upd [where W = "{}" and r' = ws and t' = "[]"]) (use v e p Cons in auto)
    then show ?thesis using Some p(1) inv keep by (auto simp: kmutex_unlock_def e_def [symmetric] Let_def)
  qed
qed

text \<open>Queues.  Pushing an item keeps the ring in shape.\<close>

lemma q_push_shape:
  assumes "kq_head q < kq_len q"
  shows "kq_len (snd (q_push m q item f)) = kq_len q" "kq_count (snd (q_push m q item f)) = kq_count q + 1"
    "kq_head (snd (q_push m q item f)) < kq_len q" "kq_rx (snd (q_push m q item f)) = kq_rx q"
    "kq_tx (snd (q_push m q item f)) = kq_tx q" "kq_used (snd (q_push m q item f)) = kq_used q"
    "kq_isz (snd (q_push m q item f)) = kq_isz q" "kq_buf (snd (q_push m q item f)) = kq_buf q"
  using assms by (auto simp: q_push_def Let_def)

lemma send_inv:
  assumes inv: "kobj_inv s L" and fr: "fresh s w"
  shows "\<exists>L'. kobj_inv (snd (snd (kq_send s h item front w who wk))) L'"
proof (cases "q_lookup s h")
  case None
  with inv show ?thesis by (auto simp: kq_send_def)
next
  case (Some i)
  note v = lookup_valid(3) [OF Some]
  define e where "e = ko_q s ! i"
  obtain r t where L: "L (OQue i) = (r, t)" by (cases "L (OQue i)")
  have e: "ent_inv (ko_w s) (EQue e) r t" "kq_used e"
    using kobj_invD(2) [OF inv, of "OQue i"] v L by (simp_all add: e_def)
  then have h: "wl_holds (ko_w s, kq_rx e) r" "waits (ko_w s) r" "wl_holds (ko_w s, kq_tx e) t" "waits (ko_w s) t"
    "kq_head e < kq_len e" by auto
  note upd = que_upd [OF inv _ L]
  show ?thesis
  proof (cases r)
    case Nil
    then have none: "wl_pop (ko_w s, kq_rx e) = None" using h(1) by (simp add: wl_pop_empty)
    have room: "\<exists>L'. kobj_inv (put_q (s\<lparr>ko_mem := m, ko_w := ko_w s\<rparr>) i (snd (q_push (ko_mem s) e item front))) L'"
      if "kq_count e < kq_len e" for m
      by (intro upd [where W = "{}" and r' = r and t' = t]) (use v e that Nil q_push_shape [OF h(5)] in auto)
    have wait: "\<exists>L'. kobj_inv (put_q (s\<lparr>ko_mem := ko_mem s, ko_w := fst q\<rparr>) i (e\<lparr>kq_tx := snd q\<rparr>)) L'"
      if w0: "w \<noteq> 0" and full: "\<not> kq_count e < kq_len e"
        and q: "q = wl_push ((ko_w s)(w := (ko_w s w)\<lparr>kw_who := who, kw_item := item, kw_all := front\<rparr>), kq_tx e) w" for q
    proof -
      have w: "w \<notin> set t" using freshD [OF inv fr w0, of "OQue i"] v L by (simp add: queued_def)
      note p = push_facts [OF h(3) w w0 h(4), where f = "\<lambda>r. r\<lparr>kw_who := who, kw_item := item, kw_all := front\<rparr>",
          folded q]
      have "ent_inv (fst q) (EQue (e\<lparr>kq_tx := snd q\<rparr>)) [] (t @ [w])"
        using p(1,2) e h(1) full Nil by (auto simp: waits_def wl_holds_def)
      then show ?thesis
        by (intro upd [where W = "{w}" and r' = "[]" and t' = "t @ [w]"])
          (use v h p(3) freshD [OF inv fr w0] in auto)
    qed
    show ?thesis
      using Some none inv room wait [OF _ _ refl]
      by (auto simp: kq_send_def e_def [symmetric] Let_def)
  next
    case (Cons w' ws)
    with h obtain l where p: "wl_pop (ko_w s, kq_rx e) = Some (w', (ko_w s)(w' := (ko_w s w')\<lparr>kw_next := 0\<rparr>), l)"
      "\<And>q. wl_holds ((ko_w s)(w' := q), l) ws" "\<And>q. waits ((ko_w s)(w' := q)) ws" "w' \<notin> set ws"
      by (auto elim: pop_facts)
    have w't: "w' \<notin> set t" using e(1) Cons by auto
    have "\<exists>L'. kobj_inv (put_q (s\<lparr>ko_mem := m,
        ko_w := (ko_w s)(w' := (ko_w s w')\<lparr>kw_next := 0, kw_state := KW_GRANT\<rparr>)\<rparr>) i (e\<lparr>kq_rx := l\<rparr>)) L'" for m
    proof (intro upd [where W = "{}" and r' = ws and t' = t])
      have "wl_holds ((ko_w s)(w' := q), kq_tx e) t" for q
        using h(3) w't by (subst wl_holds_cong [of t _ "ko_w s"]) auto
      moreover have "waits ((ko_w s)(w' := q)) t" for q
        using h(4) w't by (auto simp: waits_def)
      ultimately show "ent_inv ((ko_w s)(w' := (ko_w s w')\<lparr>kw_next := 0, kw_state := KW_GRANT\<rparr>)) (EQue (e\<lparr>kq_rx := l\<rparr>)) ws t"
        using e p Cons by auto
    qed (use v Cons in auto)
    then show ?thesis using Some p(1) by (simp add: kq_send_def e_def [symmetric] Let_def)
  qed
qed

lemma recv_inv:
  assumes inv: "kobj_inv s L" and fr: "fresh s w"
  shows "\<exists>L'. kobj_inv (snd (snd (kq_recv s h item w who wk))) L'"
proof (cases "q_lookup s h")
  case None
  with inv show ?thesis by (auto simp: kq_recv_def)
next
  case (Some i)
  note v = lookup_valid(3) [OF Some]
  define e where "e = ko_q s ! i"
  obtain r t where L: "L (OQue i) = (r, t)" by (cases "L (OQue i)")
  have e: "ent_inv (ko_w s) (EQue e) r t" "kq_used e"
    using kobj_invD(2) [OF inv, of "OQue i"] v L by (simp_all add: e_def)
  then have h: "wl_holds (ko_w s, kq_rx e) r" "waits (ko_w s) r" "wl_holds (ko_w s, kq_tx e) t" "waits (ko_w s) t"
    "kq_head e < kq_len e" by auto
  note upd = que_upd [OF inv _ L]
  show ?thesis
  proof (cases "kq_count e > 0")
    case False
    have wait: "\<exists>L'. kobj_inv (put_q (s\<lparr>ko_mem := ko_mem s, ko_w := fst q\<rparr>) i (e\<lparr>kq_rx := snd q\<rparr>)) L'"
      if w0: "w \<noteq> 0"
        and q: "q = wl_push ((ko_w s)(w := (ko_w s w)\<lparr>kw_who := who, kw_item := item\<rparr>), kq_rx e) w" for q
    proof -
      have w: "w \<notin> set r" using freshD [OF inv fr w0, of "OQue i"] v L by (simp add: queued_def)
      have t: "t = []" using e False by auto
      note p = push_facts [OF h(1) w w0 h(2), where f = "\<lambda>r. r\<lparr>kw_who := who, kw_item := item\<rparr>", folded q]
      have "ent_inv (fst q) (EQue (e\<lparr>kq_rx := snd q\<rparr>)) (r @ [w]) []"
        using p(1,2) e h(3) False t by (auto simp: waits_def wl_holds_def)
      then show ?thesis
        by (intro upd [where W = "{w}" and r' = "r @ [w]" and t' = "[]"])
          (use v h p(3) freshD [OF inv fr w0] in auto)
    qed
    show ?thesis
      using Some inv False wait [OF _ refl] by (auto simp: kq_recv_def e_def [symmetric] Let_def)
  next
    case True
    then have r: "r = []" using e by auto
    define e1 where "e1 = e\<lparr>kq_head := (kq_head e + 1) mod kq_len e, kq_count := kq_count e - 1\<rparr>"
    have e1: "kq_head e1 < kq_len e1" "kq_rx e1 = kq_rx e" "kq_tx e1 = kq_tx e" "kq_used e1" "kq_len e1 = kq_len e"
      "kq_count e1 = kq_count e - 1"
      using e h(5) by (auto simp: e1_def)
    show ?thesis
    proof (cases t)
      case Nil
      then have none: "wl_pop (ko_w s, kq_tx e) = None" using h(3) by (simp add: wl_pop_empty)
      have "\<exists>L'. kobj_inv (put_q (s\<lparr>ko_mem := m, ko_w := ko_w s\<rparr>) i e1) L'" for m
        by (intro upd [where W = "{}" and r' = "[]" and t' = "[]"]) (use v e e1 True Nil r in auto)
      then show ?thesis using Some none True by (simp add: kq_recv_def e_def [symmetric] e1_def Let_def)
    next
      case (Cons w' ws)
      with h obtain l where p: "wl_pop (ko_w s, kq_tx e) = Some (w', (ko_w s)(w' := (ko_w s w')\<lparr>kw_next := 0\<rparr>), l)"
        "\<And>q. wl_holds ((ko_w s)(w' := q), l) ws" "\<And>q. waits ((ko_w s)(w' := q)) ws" "w' \<notin> set ws"
        by (auto elim: pop_facts)
      have cnt: "kq_count e = kq_len e" using e Cons by auto
      have hd: "kq_head (e1\<lparr>kq_tx := l\<rparr>) < kq_len (e1\<lparr>kq_tx := l\<rparr>)" using e1(1) by simp
      note sh = q_push_shape [OF hd]
      have "\<exists>L'. kobj_inv (put_q (s\<lparr>ko_mem := m,
          ko_w := (ko_w s)(w' := (ko_w s w')\<lparr>kw_next := 0, kw_state := KW_GRANT\<rparr>)\<rparr>) i
          (snd (q_push m' (e1\<lparr>kq_tx := l\<rparr>) it f))) L'" for m m' it f
      proof (intro upd [where W = "{}" and r' = "[]" and t' = ws])
        show "ent_inv ((ko_w s)(w' := (ko_w s w')\<lparr>kw_next := 0, kw_state := KW_GRANT\<rparr>))
            (EQue (snd (q_push m' (e1\<lparr>kq_tx := l\<rparr>) it f))) [] ws"
          using e e1 p sh h(1) r cnt True by (auto simp: wl_holds_def waits_def)
      qed (use v Cons in auto)
      then show ?thesis using Some True p(1) by (simp add: kq_recv_def e_def [symmetric] e1_def Let_def)
    qed
  qed
qed

lemma q_cancel_inv:
  assumes inv: "kobj_inv s L"
    and w: "kw_state (ko_w s w) = KW_WAIT \<longrightarrow> (\<exists>i. q_lookup s h = Some i \<and>
      (in_list (ko_w s) (kq_rx (ko_q s ! i)) w \<or> in_list (ko_w s) (kq_tx (ko_q s ! i)) w))"
  shows "\<exists>res s' L'. kq_cancel s h w = Some (res, s') \<and> kobj_inv s' L'"
proof (cases "kw_state (ko_w s w) = KW_GRANT \<or> kw_state (ko_w s w) = KW_FAILED")
  case True
  with inv show ?thesis by (auto simp: kq_cancel_def kw_defs)
next
  case ng: False
  show ?thesis
  proof (cases "q_lookup s h")
    case None
    with w have "kw_state (ko_w s w) \<noteq> KW_WAIT" by simp
    from store_upd [OF inv _ this, of "(ko_w s)(w := (ko_w s w)\<lparr>kw_state := KW_FAILED\<rparr>)"] None ng
    show ?thesis by (auto simp: kq_cancel_def put_waiter_def)
  next
    case (Some i)
    note v = lookup_valid(3) [OF Some]
    define e where "e = ko_q s ! i"
    obtain r t where L: "L (OQue i) = (r, t)" by (cases "L (OQue i)")
    have e: "ent_inv (ko_w s) (EQue e) r t" "kq_used e"
      using kobj_invD(2) [OF inv, of "OQue i"] v L by (simp_all add: e_def)
    then have h: "wl_holds (ko_w s, kq_rx e) r" "waits (ko_w s) r" "wl_holds (ko_w s, kq_tx e) t" "waits (ko_w s) t"
      "set r \<inter> set t = {}" by auto
    have wrt: "kw_state (ko_w s w) = KW_WAIT \<longrightarrow> w \<in> set r \<union> set t"
      using w Some in_list_iff [OF h(1)] in_list_iff [OF h(3)] by (auto simp: e_def)
    have rt: "set (remove1 w r) \<subseteq> set r" "set (remove1 w t) \<subseteq> set t" by (rule set_remove1_subset)+
    have d: "distinct r" "distinct t" using h by (auto simp: wl_holds_def)
    have step: "\<exists>st l l2. kq_cancel s h w = Some (KO_TIMEOUT, put_waiter (put_q (s\<lparr>ko_w := st\<rparr>) i (e\<lparr>kq_rx := l, kq_tx := l2\<rparr>)) w
              (\<lambda>r. r\<lparr>kw_state := KW_IDLE\<rparr>))
        \<and> wl_holds (st, l) (remove1 w r) \<and> wl_holds (st, l2) (remove1 w t)
        \<and> (\<forall>x. x \<notin> set r \<union> set t \<longrightarrow> st x = ko_w s x) \<and> (\<forall>x. same_but_next (st x) (ko_w s x))"
    proof (cases "w \<in> set r")
      case True
      then obtain s' where s': "wl_remove (ko_w s, kq_rx e) w = Some (True, s')" "wl_holds s' (remove1 w r)"
        "\<And>x. x \<notin> set r \<Longrightarrow> fst s' x = ko_w s x" "\<And>x. same_but_next (fst s' x) (ko_w s x)"
        using wl_remove_run(2) [OF h(1)] unfolding same_but_next_def by blast
      have "wl_holds (fst s', kq_tx e) t"
        using h(3,5) s'(3) by (subst wl_holds_cong [of t _ "ko_w s"]) (auto, metis disjoint_iff)
      moreover have "remove1 w t = t" using True h(5) by (intro remove1_idem) auto
      ultimately show ?thesis
        using s' Some ng by (intro exI [of _ "fst s'"] exI [of _ "snd s'"] exI [of _ "kq_tx e"])
          (cases s', simp add: kq_cancel_def e_def [symmetric] Let_def)
    next
      case nr: False
      note rm1 = wl_remove_run(1) [OF h(1) nr]
      show ?thesis
      proof (cases "w \<in> set t")
        case True
        then obtain s' where s': "wl_remove (ko_w s, kq_tx e) w = Some (True, s')" "wl_holds s' (remove1 w t)"
          "\<And>x. x \<notin> set t \<Longrightarrow> fst s' x = ko_w s x" "\<And>x. same_but_next (fst s' x) (ko_w s x)"
          using wl_remove_run(2) [OF h(3)] unfolding same_but_next_def by blast
        have "wl_holds (fst s', kq_rx e) r"
          using h(1,5) s'(3) by (subst wl_holds_cong [of r _ "ko_w s"]) (auto, metis disjoint_iff)
        then show ?thesis
          using s' Some ng rm1 nr by (intro exI [of _ "fst s'"] exI [of _ "kq_rx e"] exI [of _ "snd s'"])
            (cases s', simp add: kq_cancel_def e_def [symmetric] Let_def remove1_idem)
      next
        case False
        then show ?thesis
          using Some ng rm1 nr wl_remove_run(1) [OF h(3) False] h(1,3)
          by (intro exI [of _ "ko_w s"] exI [of _ "kq_rx e"] exI [of _ "kq_tx e"])
            (simp add: kq_cancel_def e_def [symmetric] Let_def remove1_idem same_but_next_def)
      qed
    qed
    then obtain st l l2 where st: "kq_cancel s h w = Some (KO_TIMEOUT, put_waiter (put_q (s\<lparr>ko_w := st\<rparr>) i (e\<lparr>kq_rx := l, kq_tx := l2\<rparr>)) w
              (\<lambda>r. r\<lparr>kw_state := KW_IDLE\<rparr>))"
        "wl_holds (st, l) (remove1 w r)" "wl_holds (st, l2) (remove1 w t)"
        "\<And>x. x \<notin> set r \<union> set t \<Longrightarrow> st x = ko_w s x" "\<And>x. same_but_next (st x) (ko_w s x)" by blast
    let ?st = "st(w := (st w)\<lparr>kw_state := KW_IDLE\<rparr>)"
    have n: "w \<notin> set (remove1 w r)" "w \<notin> set (remove1 w t)" using d by simp_all
    have wt: "waits ?st (remove1 w r)" "waits ?st (remove1 w t)"
      using h(2,4) rt n same_but_nextD(2) [OF st(5)] by (auto simp: waits_def subset_iff)
    have hl: "wl_holds (?st, l) (remove1 w r)" "wl_holds (?st, l2) (remove1 w t)"
      using st(2,3) n wl_holds_cong [of "remove1 w r" ?st st] wl_holds_cong [of "remove1 w t" ?st st] by auto
    have "\<exists>L'. kobj_inv (put_q (s\<lparr>ko_mem := ko_mem s, ko_w := ?st\<rparr>) i (e\<lparr>kq_rx := l, kq_tx := l2\<rparr>)) L'"
    proof (intro que_upd [OF inv _ L, where W = "{w} - (set r \<union> set t)" and r' = "remove1 w r" and t' = "remove1 w t"])
      show "ent_inv ?st (EQue (e\<lparr>kq_rx := l, kq_tx := l2\<rparr>)) (remove1 w r) (remove1 w t)"
        using e wt hl h(5) rt by auto
      show "({w} - (set r \<union> set t)) \<inter> queued L o' = {}" if "valid o'" for o'
        using outside_fresh [OF inv wrt that] .
    qed (use v st(4) rt in auto)
    moreover have "put_waiter (put_q (s\<lparr>ko_w := st\<rparr>) i q') w f = put_q (s\<lparr>ko_mem := ko_mem s, ko_w := st(w := f (st w))\<rparr>) i q'" for q' f
      by (simp add: put_waiter_def put_q_def)
    ultimately show ?thesis using st(1) by auto
  qed
qed

lemma q_delete_inv:
  assumes inv: "kobj_inv s L"
  shows "\<exists>r L'. kq_delete s h wk = Some r \<and> kobj_inv (snd (snd (snd r))) L'"
proof (cases "q_lookup s h")
  case None
  with inv show ?thesis by (auto simp: kq_delete_def)
next
  case (Some i)
  note v = lookup_valid(3) [OF Some]
  define e where "e = ko_q s ! i"
  obtain r t where L: "L (OQue i) = (r, t)" by (cases "L (OQue i)")
  have e: "ent_inv (ko_w s) (EQue e) r t"
    using kobj_invD(2) [OF inv, of "OQue i"] v L by (simp_all add: e_def)
  then have h: "wl_holds (ko_w s, kq_rx e) r" "wl_holds (ko_w s, kq_tx e) t" "set r \<inter> set t = {}" by auto
  from wl_fail_all_run [OF h(1), of wk] obtain st l wk' where
    f: "wl_fail_all (ko_w s) (kq_rx e) wk = Some (st, l, wk')" "wl_holds (st, l) []"
      "\<And>x. x \<notin> set r \<Longrightarrow> st x = ko_w s x" by blast
  have "wl_holds (st, kq_tx e) t"
    using h(2,3) f(3) by (subst wl_holds_cong [of t _ "ko_w s"]) (auto, metis disjoint_iff)
  from wl_fail_all_run [OF this, of wk'] obtain st2 l2 wk2 where
    g: "wl_fail_all st (kq_tx e) wk' = Some (st2, l2, wk2)" "wl_holds (st2, l2) []"
      "\<And>x. x \<notin> set t \<Longrightarrow> st2 x = st x" by blast
  have "wl_holds (st2, l) []" using f(2) by (simp add: wl_holds_def)
  then have "\<exists>L'. kobj_inv (put_q (s\<lparr>ko_mem := ko_mem s, ko_w := st2\<rparr>) i
      (e\<lparr>kq_rx := l, kq_tx := l2, kq_buf := 0, kq_used := False, kq_gen := gen_next (kq_gen e)\<rparr>)) L'"
    using v f g by (intro que_upd [OF inv _ L, where W = "{}" and r' = "[]" and t' = "[]"]) (auto simp: waits_def)
  then show ?thesis using Some f(1) g(1) by (auto simp: kq_delete_def e_def [symmetric] Let_def)
qed

section \<open>Event groups\<close>

text \<open>
  What one scan of the waiters does: in arrival order, a waiter the bits satisfy is granted and may
  clear bits before the next one is judged; the others keep their place.
\<close>

fun ev_pass :: "wstore \<Rightarrow> u32 \<Rightarrow> nat list \<Rightarrow> nat list \<times> nat list \<times> u32" where
  "ev_pass st bits [] = ([], [], bits)"
| "ev_pass st bits (w # ws) =
     (if ev_satisfied bits (kw_want (st w)) (kw_all (st w)) then
        (case ev_pass st (if kw_clear (st w) then bits AND NOT (kw_want (st w)) else bits) ws of
           (kept, granted, b) \<Rightarrow> (kept, w # granted, b))
      else (case ev_pass st bits ws of (kept, granted, b) \<Rightarrow> (w # kept, granted, b)))"

lemma ev_pass_cong:
  "(\<And>x. x \<in> set ws \<Longrightarrow> kw_want (st x) = kw_want (st' x) \<and> kw_all (st x) = kw_all (st' x) \<and> kw_clear (st x) = kw_clear (st' x))
   \<Longrightarrow> ev_pass st bits ws = ev_pass st' bits ws"
  by (induction ws arbitrary: bits) auto

lemma ev_pass_sub: "ev_pass st bits ws = (kept, granted, b) \<Longrightarrow> set kept \<subseteq> set ws \<and> set granted \<subseteq> set ws"
proof (induction ws arbitrary: bits kept granted b)
  case (Cons w ws)
  from Cons.prems show ?case by (auto split: if_splits prod.splits dest!: Cons.IH)
qed simp

lemma ev_pass_disjoint:
  "distinct ws \<Longrightarrow> ev_pass st bits ws = (kept, granted, b) \<Longrightarrow> set kept \<inter> set granted = {}"
proof (induction ws arbitrary: bits kept granted b)
  case (Cons w ws)
  have w: "w \<notin> set k \<union> set g" if "ev_pass st c ws = (k, g, b')" for c k g b'
    using ev_pass_sub [OF that] Cons.prems(1) by auto
  from Cons.prems show ?case
    using Cons.IH w by (fastforce split: if_splits prod.splits)
qed simp

lemma ev_satisfied_mono:
  assumes "b AND c = b" and "ev_satisfied b want all"
  shows "ev_satisfied c want all"
proof (cases all)
  case True
  with assms(2) have "b AND want = want" by (simp add: ev_satisfied_def)
  then have "want = (b AND c) AND want" using assms(1) by simp
  also have "\<dots> = c AND (b AND want)" by (simp add: ac_simps)
  also have "\<dots> = c AND want" using \<open>b AND want = want\<close> by simp
  finally show ?thesis using True by (simp add: ev_satisfied_def)
next
  case False
  have "b AND want = b AND (c AND want)" using assms(1) by (metis and.assoc)
  with assms(2) False show ?thesis by (auto simp: ev_satisfied_def)
qed

lemma ev_pass_bits: "ev_pass st bits ws = (kept, granted, b) \<Longrightarrow> b AND bits = b"
proof (induction ws arbitrary: bits kept granted b)
  case (Cons w ws)
  show ?case
  proof (cases "ev_satisfied bits (kw_want (st w)) (kw_all (st w)) \<and> kw_clear (st w)")
    case True
    let ?c = "bits AND NOT (kw_want (st w))"
    obtain k g where "ev_pass st ?c ws = (k, g, b)" using Cons.prems True by (auto split: prod.splits)
    with Cons.IH have "b AND ?c = b" by blast
    then have "b AND bits = (b AND ?c) AND bits" by simp
    also have "\<dots> = b AND ?c" by (simp add: and.assoc) (simp add: and.left_commute and.commute)
    finally show ?thesis using \<open>b AND ?c = b\<close> by simp
  next
    case False
    then obtain k g where "ev_pass st bits ws = (k, g, b)"
      using Cons.prems by (auto split: prod.splits if_splits)
    with Cons.IH show ?thesis by blast
  qed
qed simp

lemma ev_pass_kept:
  "ev_pass st bits ws = (kept, granted, b) \<Longrightarrow> w \<in> set kept \<Longrightarrow> \<not> ev_satisfied b (kw_want (st w)) (kw_all (st w))"
proof (induction ws arbitrary: bits kept granted b)
  case (Cons v ws)
  show ?case
  proof (cases "ev_satisfied bits (kw_want (st v)) (kw_all (st v))")
    case True
    with Cons show ?thesis by (auto split: prod.splits)
  next
    case False
    then obtain k where k: "ev_pass st bits ws = (k, granted, b)" "kept = v # k"
      using Cons.prems by (auto split: prod.splits)
    show ?thesis
    proof (cases "w = v")
      case True
      with False ev_satisfied_mono [OF ev_pass_bits [OF k(1)]] show ?thesis by blast
    next
      case False
      with Cons.IH [OF k(1)] Cons.prems(2) k(2) show ?thesis by simp
    qed
  qed
qed simp

lemma unlink_frame:
  "same_but_next (fst (wl_unlink st l p c) x) (st x)"
  "x \<noteq> p \<Longrightarrow> x \<noteq> c \<Longrightarrow> fst (wl_unlink st l p c) x = st x"
  by (auto simp: wl_unlink_def Let_def same_but_next_def)

abbreviation last_or0 :: "nat list \<Rightarrow> nat" where
  "last_or0 xs \<equiv> (if xs = [] then 0 else last xs)"

lemma ev_scan_run:
  assumes "wl_holds (st, ev_w e) (xs @ ys)" and "seg st c ys 0"
    and "ev_pass st (ev_bits e) ys = (kept, granted, b)"
  shows "\<exists>st' l'. ev_scan_loop st e wk (last_or0 xs) c
      = Some (st', e\<lparr>ev_w := l', ev_bits := b\<rparr>, fold (\<lambda>w k. kw_add k (kw_who (st w))) granted wk)
    \<and> wl_holds (st', l') (xs @ kept)
    \<and> (\<forall>x. x \<notin> set granted \<longrightarrow> same_but_next (st' x) (st x))
    \<and> (\<forall>x. x \<notin> set (xs @ ys) \<longrightarrow> st' x = st x)
    \<and> (\<forall>x \<in> set granted. kw_state (st' x) = KW_GRANT)"
  using assms
proof (induction ys arbitrary: st e xs c kept granted b wk)
  case Nil
  then show ?case
    by (subst ev_scan_loop.simps) (intro exI [of _ st] exI [of _ "ev_w e"], simp add: same_but_next_def)
next
  case (Cons w ys)
  from Cons.prems(2) have c: "c = w" "w \<noteq> 0" "seg st (kw_next (st w)) ys 0" by auto
  have dist: "distinct (xs @ w # ys)" using Cons.prems(1) by (simp add: wl_holds_def)
  show ?case
  proof (cases "ev_satisfied (ev_bits e) (kw_want (st w)) (kw_all (st w))")
    case False
    then obtain k where k: "ev_pass st (ev_bits e) ys = (k, granted, b)" "kept = w # k"
      using Cons.prems(3) by (auto split: prod.splits)
    have "ev_scan_loop st e wk (last_or0 xs) c = ev_scan_loop st e wk (last_or0 (xs @ [w])) (kw_next (st w))"
      using False c by (subst ev_scan_loop.simps) simp
    moreover have "wl_holds (st, ev_w e) ((xs @ [w]) @ ys)" using Cons.prems(1) by simp
    ultimately show ?thesis using Cons.IH [OF _ c(3) k(1), of "xs @ [w]" wk] k(2) by simp
  next
    case True
    define b1 where "b1 = (if kw_clear (st w) then ev_bits e AND NOT (kw_want (st w)) else ev_bits e)"
    obtain g where g: "ev_pass st b1 ys = (kept, g, b)" "granted = w # g"
      using Cons.prems(3) True by (auto simp: b1_def split: prod.splits)
    define u where "u = wl_unlink st (ev_w e) (last_or0 xs) w"
    define st2 where "st2 = (fst u)(w := (fst u w)\<lparr>kw_got := ev_bits e, kw_state := KW_GRANT\<rparr>)"
    define e2 where "e2 = e\<lparr>ev_w := snd u, ev_bits := b1\<rparr>"
    have step: "ev_scan_loop st e wk (last_or0 xs) c
        = ev_scan_loop st2 e2 (kw_add wk (kw_who (st w))) (last_or0 xs) (kw_next (st w))"
      using True c by (subst ev_scan_loop.simps) (simp add: u_def st2_def e2_def b1_def split: prod.splits)
    have "wl_holds u (xs @ ys)" using wl_unlink_holds [OF Cons.prems(1)] by (simp add: u_def)
    then have h2: "wl_holds (st2, ev_w e2) (xs @ ys)"
      using dist wl_holds_cong [of "xs @ ys" st2 "fst u" "snd u"] by (auto simp: st2_def e2_def)
    have old: "same_but_next (st2 x) (st x)" if "x \<noteq> w" for x
      using that unlink_frame(1) by (simp add: st2_def u_def)
    have lx: "last_or0 xs \<noteq> w \<and> (\<forall>y \<in> set ys. y \<noteq> last_or0 xs)"
      using dist wl_holds_nonzero [OF Cons.prems(1)] by (cases xs rule: rev_cases) (auto intro: ccontr)
    have ysame: "st2 y = st y" if "y \<in> set ys" for y
      using that dist lx unlink_frame(2) [of y "last_or0 xs" w st "ev_w e"] by (auto simp: st2_def u_def)
    have s2: "seg st2 (kw_next (st w)) ys 0" using c(3) ysame seg_cong [of ys st2 st] by simp
    have "ev_pass st2 b1 ys = ev_pass st b1 ys" by (rule ev_pass_cong) (simp add: ysame)
    then have p2: "ev_pass st2 (ev_bits e2) ys = (kept, g, b)" using g(1) by (simp add: e2_def)
    from Cons.IH [OF h2 s2 p2, of "kw_add wk (kw_who (st w))"] obtain st' l' where
      IH: "ev_scan_loop st2 e2 (kw_add wk (kw_who (st w))) (last_or0 xs) (kw_next (st w))
          = Some (st', e2\<lparr>ev_w := l', ev_bits := b\<rparr>, fold (\<lambda>w k. kw_add k (kw_who (st2 w))) g (kw_add wk (kw_who (st w))))"
        "wl_holds (st', l') (xs @ kept)"
        "\<And>x. x \<notin> set g \<Longrightarrow> same_but_next (st' x) (st2 x)" "\<And>x. x \<notin> set (xs @ ys) \<Longrightarrow> st' x = st2 x"
        "\<And>x. x \<in> set g \<Longrightarrow> kw_state (st' x) = KW_GRANT" by blast
    have gy: "set g \<subseteq> set ys" using ev_pass_sub [OF g(1)] by simp
    have "fold (\<lambda>w k. kw_add k (kw_who (st2 w))) g k = fold (\<lambda>w k. kw_add k (kw_who (st w))) g k" for k
      by (rule fold_cong) (use gy ysame in auto)
    moreover have "same_but_next (st' x) (st x)" if "x \<notin> set granted" for x
      using IH(3) [of x] old [of x] that g(2) by (simp add: same_but_next_def)
    moreover have "st' x = st x" if x: "x \<notin> set (xs @ w # ys)" for x
    proof -
      have "x \<noteq> last_or0 xs \<or> xs = []" using x by (cases xs rule: rev_cases) auto
      then have "fst u x = st x" using x unfolding u_def
        by (cases "xs = []") (auto simp: wl_unlink_def Let_def)
      then show ?thesis using IH(4) [of x] x by (simp add: st2_def)
    qed
    moreover have "kw_state (st' x) = KW_GRANT" if "x \<in> set granted" for x
    proof (cases "x = w")
      case True
      then have "x \<notin> set (xs @ ys)" using dist by auto
      with IH(4) True show ?thesis by (simp add: st2_def)
    next
      case False
      with that g(2) IH(5) show ?thesis by simp
    qed
    ultimately show ?thesis
      using step IH(1,2) g(2) by (intro exI [of _ st'] exI [of _ l']) (simp add: e2_def)
  qed
qed

lemma set_inv:
  assumes inv: "kobj_inv s L"
  shows "\<exists>r L'. kev_set s h bits wk = Some r \<and> kobj_inv (snd (snd r)) L'"
proof (cases "ev_lookup s h")
  case None
  with inv show ?thesis by (auto simp: kev_set_def)
next
  case (Some i)
  note v = lookup_valid(4) [OF Some]
  define e where "e = ko_ev s ! i"
  define e1 where "e1 = e\<lparr>ev_bits := ev_bits e OR bits\<rparr>"
  obtain r t where L: "L (OEvt i) = (r, t)" by (cases "L (OEvt i)")
  have e: "ent_inv (ko_w s) (EEvt e) r t" "ev_used e"
    using kobj_invD(2) [OF inv, of "OEvt i"] v L by (simp_all add: e_def)
  then have h: "wl_holds (ko_w s, ev_w e1) ([] @ r)" "waits (ko_w s) r" "t = []" by (auto simp: e1_def)
  have sg: "seg (ko_w s) (wl_head (ev_w e1)) r 0" using h(1) by (simp add: wl_holds_def)
  obtain kept granted b where p: "ev_pass (ko_w s) (ev_bits e1) r = (kept, granted, b)"
    by (cases "ev_pass (ko_w s) (ev_bits e1) r")
  from ev_scan_run [OF h(1) sg p, of wk] obtain st' l' wk' where
    run: "ev_scan (ko_w s) e1 wk = Some (st', e1\<lparr>ev_w := l', ev_bits := b\<rparr>, wk')" "wl_holds (st', l') kept"
      "\<And>x. x \<notin> set granted \<Longrightarrow> same_but_next (st' x) (ko_w s x)" "\<And>x. x \<notin> set r \<Longrightarrow> st' x = ko_w s x"
    unfolding ev_scan_def by auto
  note sub = ev_pass_sub [OF p]
  have kg: "x \<notin> set granted" if "x \<in> set kept" for x
    using that p ev_pass_disjoint [OF _ p] h(1) by (auto simp: wl_holds_def)
  have sbn: "same_but_next (st' x) (ko_w s x)" if "x \<in> set kept" for x
    using run(3) kg that by blast
  have "\<exists>L'. kobj_inv (put_ev (s\<lparr>ko_w := st'\<rparr>) i (e1\<lparr>ev_w := l', ev_bits := b\<rparr>)) L'"
  proof (intro evt_upd [OF inv _ L, where W = "{}" and r' = kept and t' = "[]"])
    have "waits st' kept"
      using h(2) sub same_but_nextD(2) [OF sbn] by (auto simp: waits_def)
    moreover have "\<not> ev_satisfied b (kw_want (st' w)) (kw_all (st' w))" if "w \<in> set kept" for w
      using ev_pass_kept [OF p that] same_but_nextD(4,6) [OF sbn [OF that]] by simp
    ultimately show "ent_inv st' (EEvt (e1\<lparr>ev_w := l', ev_bits := b\<rparr>)) kept []"
      using run(2) e(2) by (simp add: e1_def)
  qed (use v run(4) sub h(3) in auto)
  then show ?thesis using Some run(1) by (simp add: kev_set_def e1_def e_def [symmetric])
qed

section \<open>Creating objects and the other operations\<close>

lemma free_slot_Some: "free_slot used arr n = Some i \<Longrightarrow> i < n \<and> \<not> used (arr ! i)"
  by (auto simp: free_slot_def find_Some_iff)

lemma wl_zero_holds [simp]: "wl_holds (st, wl_zero) []"
  by (simp add: wl_holds_def wl_zero_def)

lemma waits_Nil [simp]: "waits st []"
  by (simp add: waits_def)

lemma create_sem_inv:
  assumes inv: "kobj_inv s L"
  shows "\<exists>L'. kobj_inv (snd (ksem_create s mx init)) L'"
proof (cases "mx = 0 \<or> init > mx \<or> free_slot sm_used (ko_sem s) KSEM_MAX = None")
  case True
  with inv show ?thesis by (auto simp: ksem_create_def)
next
  case False
  then obtain i where i: "free_slot sm_used (ko_sem s) KSEM_MAX = Some i" by auto
  obtain r t where L: "L (OSem i) = (r, t)" by (cases "L (OSem i)")
  have "\<exists>L'. kobj_inv (put_sem (s\<lparr>ko_w := ko_w s\<rparr>) i
      (sem_zero\<lparr>sm_used := True, sm_gen := g, sm_max := mx, sm_count := init\<rparr>)) L'" for g
    using free_slot_Some [OF i] False
    by (intro sem_upd [OF inv _ L, where W = "{}" and r' = "[]" and t' = "[]"]) (auto simp: sem_zero_def)
  then show ?thesis using i False by (simp add: ksem_create_def Let_def)
qed

lemma create_mtx_inv:
  assumes inv: "kobj_inv s L"
  shows "\<exists>L'. kobj_inv (snd (kmutex_create s rec)) L'"
proof (cases "free_slot mx_used (ko_mtx s) KMUTEX_MAX")
  case None
  with inv show ?thesis by (auto simp: kmutex_create_def)
next
  case (Some i)
  obtain r t where L: "L (OMtx i) = (r, t)" by (cases "L (OMtx i)")
  have "\<exists>L'. kobj_inv (put_mtx (s\<lparr>ko_w := ko_w s\<rparr>) i
      (mtx_zero\<lparr>mx_used := True, mx_gen := g, mx_rec := rec, mx_owner := -1\<rparr>)) L'" for g
    using free_slot_Some [OF Some]
    by (intro mtx_upd [OF inv _ L, where W = "{}" and r' = "[]" and t' = "[]"]) (auto simp: mtx_zero_def)
  then show ?thesis using Some by (simp add: kmutex_create_def Let_def)
qed

lemma create_q_inv:
  assumes inv: "kobj_inv s L"
  shows "\<exists>L'. kobj_inv (snd (kq_create s len isz storage)) L'"
proof (cases "len = 0 \<or> len > KQUEUE_MAX_LEN \<or> isz = 0 \<or> isz > KQUEUE_MAX_ITEM \<or> storage = 0
    \<or> free_slot kq_used (ko_q s) KQUEUE_MAX = None")
  case True
  with inv show ?thesis by (auto simp: kq_create_def)
next
  case False
  then obtain i where i: "free_slot kq_used (ko_q s) KQUEUE_MAX = Some i" by auto
  obtain r t where L: "L (OQue i) = (r, t)" by (cases "L (OQue i)")
  have "\<exists>L'. kobj_inv (put_q (s\<lparr>ko_mem := ko_mem s, ko_w := ko_w s\<rparr>) i
      (q_zero\<lparr>kq_used := True, kq_gen := g, kq_len := len, kq_isz := isz, kq_buf := storage\<rparr>)) L'" for g
    using free_slot_Some [OF i] False
    by (intro que_upd [OF inv _ L, where W = "{}" and r' = "[]" and t' = "[]"]) (auto simp: q_zero_def)
  then show ?thesis using i False by (simp add: kq_create_def Let_def)
qed

lemma create_ev_inv:
  assumes inv: "kobj_inv s L"
  shows "\<exists>L'. kobj_inv (snd (kev_create s)) L'"
proof (cases "free_slot ev_used (ko_ev s) KEVT_MAX")
  case None
  with inv show ?thesis by (auto simp: kev_create_def)
next
  case (Some i)
  obtain r t where L: "L (OEvt i) = (r, t)" by (cases "L (OEvt i)")
  have "\<exists>L'. kobj_inv (put_ev (s\<lparr>ko_w := ko_w s\<rparr>) i (ev_zero\<lparr>ev_used := True, ev_gen := g\<rparr>)) L'" for g
    using free_slot_Some [OF Some]
    by (intro evt_upd [OF inv _ L, where W = "{}" and r' = "[]" and t' = "[]"]) (auto simp: ev_zero_def)
  then show ?thesis using Some by (simp add: kev_create_def Let_def)
qed

lemma ev_entry:
  assumes "kobj_inv s L" and "ev_lookup s h = Some i" and "L (OEvt i) = (r, t)"
  shows "i < KEVT_MAX" and "ent_inv (ko_w s) (EEvt (ko_ev s ! i)) r t" and "ev_used (ko_ev s ! i)"
  using lookup_valid(4) [OF assms(2)] kobj_invD(2) [OF assms(1), of "OEvt i"] assms(3) by simp_all

lemma clear_bits_sat: "\<not> ev_satisfied b want all \<Longrightarrow> \<not> ev_satisfied (b AND c) want all"
  using ev_satisfied_mono [of "b AND c" b want all] and.assoc and.commute and.idem by metis

lemma fewer_bits_inv:
  assumes inv: "kobj_inv s L" and look: "ev_lookup s h = Some i"
  shows "\<exists>L'. kobj_inv (put_ev s i ((ko_ev s ! i)\<lparr>ev_bits := ev_bits (ko_ev s ! i) AND c\<rparr>)) L'"
proof -
  obtain r t where L: "L (OEvt i) = (r, t)" by (cases "L (OEvt i)")
  note e = ev_entry [OF inv look L]
  have "\<exists>L'. kobj_inv (put_ev (s\<lparr>ko_w := ko_w s\<rparr>) i ((ko_ev s ! i)\<lparr>ev_bits := ev_bits (ko_ev s ! i) AND c\<rparr>)) L'"
    by (intro evt_upd [OF inv _ L, where W = "{}" and r' = r and t' = t]) (use e clear_bits_sat in auto)
  then show ?thesis by simp
qed

lemma wait_inv:
  assumes inv: "kobj_inv s L" and fr: "fresh s w"
  shows "\<exists>L'. kobj_inv (snd (snd (kev_wait s h want all clear w who))) L'"
proof (cases "ev_lookup s h")
  case None
  with inv show ?thesis by (auto simp: kev_wait_def)
next
  case (Some i)
  define e where "e = ko_ev s ! i"
  obtain r t where L: "L (OEvt i) = (r, t)" by (cases "L (OEvt i)")
  note v = ev_entry [OF inv Some L, folded e_def]
  then have h: "wl_holds (ko_w s, ev_w e) r" "waits (ko_w s) r" "t = []" by auto
  have same: "put_ev s i e = s" by (simp add: put_ev_def e_def)
  have wait: "\<exists>L'. kobj_inv (put_ev (s\<lparr>ko_w := fst q\<rparr>) i (e\<lparr>ev_w := snd q\<rparr>)) L'"
    if w0: "w \<noteq> 0" and o: "\<not> ev_satisfied (ev_bits e) want all"
      and q: "q = wl_push ((ko_w s)(w := (ko_w s w)\<lparr>kw_who := who, kw_want := want, kw_all := all,
                kw_clear := clear, kw_got := 0\<rparr>), ev_w e) w" for q
  proof -
    have w: "w \<notin> set r" using freshD [OF inv fr w0, of "OEvt i"] v L by (simp add: queued_def)
    note p = push_facts [OF h(1) w w0 h(2), where f = "\<lambda>r. r\<lparr>kw_who := who, kw_want := want, kw_all := all,
                kw_clear := clear, kw_got := 0\<rparr>", folded q]
    have "ent_inv (fst q) (EEvt (e\<lparr>ev_w := snd q\<rparr>)) (r @ [w]) []"
      using p(1,2) v o same_but_nextD(4,6) [OF p(4)] same_but_nextD(4,6) [OF p(5)] by simp
    then show ?thesis
      by (intro evt_upd [OF inv _ L, where W = "{w}" and r' = "r @ [w]" and t' = "[]"])
        (use v h p(3) freshD [OF inv fr w0] in auto)
  qed
  show ?thesis
    using Some inv same fewer_bits_inv [OF inv Some, folded e_def] wait [OF _ _ refl]
    by (auto simp: kev_wait_def e_def [symmetric] Let_def)
qed

lemma set_owner_inv:
  assumes inv: "kobj_inv s L"
  shows "\<exists>L'. kobj_inv (snd (kobj_set_owner s h owner)) L'"
proof -
  have s1: "\<exists>L'. kobj_inv (put_sem (s\<lparr>ko_w := ko_w s\<rparr>) i ((ko_sem s ! i)\<lparr>sm_owner := owner\<rparr>)) L'"
    if "sem_lookup s h = Some i" for i
  proof -
    obtain r t where L: "L (OSem i) = (r, t)" by (cases "L (OSem i)")
    show ?thesis
      by (intro sem_upd [OF inv _ L, where W = "{}" and r' = r and t' = t])
        (use lookup_valid(1) [OF that] kobj_invD(2) [OF inv, of "OSem i"] L in auto)
  qed
  have s2: "\<exists>L'. kobj_inv (put_mtx (s\<lparr>ko_w := ko_w s\<rparr>) i ((ko_mtx s ! i)\<lparr>mx_dom := owner\<rparr>)) L'"
    if "mtx_lookup s h = Some i" for i
  proof -
    obtain r t where L: "L (OMtx i) = (r, t)" by (cases "L (OMtx i)")
    show ?thesis
      by (intro mtx_upd [OF inv _ L, where W = "{}" and r' = r and t' = t])
        (use lookup_valid(2) [OF that] kobj_invD(2) [OF inv, of "OMtx i"] L in auto)
  qed
  have s3: "\<exists>L'. kobj_inv (put_q (s\<lparr>ko_mem := ko_mem s, ko_w := ko_w s\<rparr>) i ((ko_q s ! i)\<lparr>kq_owner := owner\<rparr>)) L'"
    if "q_lookup s h = Some i" for i
  proof -
    obtain r t where L: "L (OQue i) = (r, t)" by (cases "L (OQue i)")
    show ?thesis
      by (intro que_upd [OF inv _ L, where W = "{}" and r' = r and t' = t])
        (use lookup_valid(3) [OF that] kobj_invD(2) [OF inv, of "OQue i"] L in auto)
  qed
  have s4: "\<exists>L'. kobj_inv (put_ev (s\<lparr>ko_w := ko_w s\<rparr>) i ((ko_ev s ! i)\<lparr>ev_owner := owner\<rparr>)) L'"
    if "ev_lookup s h = Some i" for i
  proof -
    obtain r t where L: "L (OEvt i) = (r, t)" by (cases "L (OEvt i)")
    show ?thesis
      by (intro evt_upd [OF inv _ L, where W = "{}" and r' = r and t' = t])
        (use lookup_valid(4) [OF that] kobj_invD(2) [OF inv, of "OEvt i"] L in auto)
  qed
  show ?thesis
    using inv s1 s2 s3 s4 by (auto simp: kobj_set_owner_def split: option.splits)
qed

text \<open>Timers do not touch the objects.\<close>

lemma timers_inv: "kobj_inv s L \<Longrightarrow> kobj_inv (s\<lparr>ko_tm := tm, ko_tm_seq := q\<rparr>) L"
proof -
  assume inv: "kobj_inv s L"
  have "entry (s\<lparr>ko_tm := tm, ko_tm_seq := q\<rparr>) x = entry s x" for x by (cases x) simp_all
  with inv show ?thesis unfolding kobj_inv_def by (simp add: sizes_def)
qed

lemma reset_inv: "kobj_inv (snd (kobj_reset s)) (\<lambda>_. ([], []))"
proof -
  have "ent_inv (ko_w (snd (kobj_reset s))) (entry (snd (kobj_reset s)) x) [] []" if "valid x" for x
    using that by (cases x) (simp_all add: kobj_reset_def sem_zero_def mtx_zero_def q_zero_def ev_zero_def)
  then show ?thesis by (simp add: kobj_inv_def queued_def sizes_def kobj_reset_def)
qed

text \<open>
  Any history of the module from \<open>kobj_init\<close> on: calls in any order, with the two duties of a
  caller: a waiter structure it passes is not one already waiting, and it cancels a wait through the
  handle it waits on.
\<close>

inductive kreach :: "kobj \<Rightarrow> bool" where
  init: "kreach (snd (kobj_reset s))"
| sem_create: "kreach s \<Longrightarrow> kreach (snd (ksem_create s mx ini))"
| sem_take: "kreach s \<Longrightarrow> fresh s w \<Longrightarrow> kreach (snd (ksem_take s h w who))"
| sem_give: "kreach s \<Longrightarrow> kreach (snd (snd (ksem_give s h wk)))"
| sem_cancel: "kreach s \<Longrightarrow>
    kw_state (ko_w s w) = KW_WAIT \<longrightarrow> (\<exists>i. sem_lookup s h = Some i \<and> in_list (ko_w s) (sm_w (ko_sem s ! i)) w) \<Longrightarrow>
    ksem_cancel s h w = Some (res, s') \<Longrightarrow> kreach s'"
| sem_delete: "kreach s \<Longrightarrow> ksem_delete s h wk = Some (res, wk', s') \<Longrightarrow> kreach s'"
| mtx_create: "kreach s \<Longrightarrow> kreach (snd (kmutex_create s rc))"
| mtx_lock: "kreach s \<Longrightarrow> fresh s w \<Longrightarrow> 0 \<le> who \<Longrightarrow> kreach (snd (kmutex_lock s h w who))"
| mtx_unlock: "kreach s \<Longrightarrow> kreach (snd (snd (kmutex_unlock s h who wk)))"
| mtx_cancel: "kreach s \<Longrightarrow>
    kw_state (ko_w s w) = KW_WAIT \<longrightarrow> (\<exists>i. mtx_lookup s h = Some i \<and> in_list (ko_w s) (mx_w (ko_mtx s ! i)) w) \<Longrightarrow>
    kmutex_cancel s h w = Some (res, s') \<Longrightarrow> kreach s'"
| mtx_delete: "kreach s \<Longrightarrow> kmutex_delete s h wk = Some (res, wk', s') \<Longrightarrow> kreach s'"
| q_create: "kreach s \<Longrightarrow> kreach (snd (kq_create s len isz storage))"
| q_send: "kreach s \<Longrightarrow> fresh s w \<Longrightarrow> kreach (snd (snd (kq_send s h item front w who wk)))"
| q_recv: "kreach s \<Longrightarrow> fresh s w \<Longrightarrow> kreach (snd (snd (kq_recv s h item w who wk)))"
| q_cancel: "kreach s \<Longrightarrow>
    kw_state (ko_w s w) = KW_WAIT \<longrightarrow> (\<exists>i. q_lookup s h = Some i \<and>
      (in_list (ko_w s) (kq_rx (ko_q s ! i)) w \<or> in_list (ko_w s) (kq_tx (ko_q s ! i)) w)) \<Longrightarrow>
    kq_cancel s h w = Some (res, s') \<Longrightarrow> kreach s'"
| q_delete: "kreach s \<Longrightarrow> kq_delete s h wk = Some (res, wk', stg, s') \<Longrightarrow> kreach s'"
| ev_create: "kreach s \<Longrightarrow> kreach (snd (kev_create s))"
| ev_set: "kreach s \<Longrightarrow> kev_set s h bits wk = Some (b, wk', s') \<Longrightarrow> kreach s'"
| ev_clear: "kreach s \<Longrightarrow> kreach (snd (kev_clear s h bits))"
| ev_wait: "kreach s \<Longrightarrow> fresh s w \<Longrightarrow> kreach (snd (snd (kev_wait s h want al cl w who)))"
| ev_cancel: "kreach s \<Longrightarrow>
    kw_state (ko_w s w) = KW_WAIT \<longrightarrow> (\<exists>i. ev_lookup s h = Some i \<and> in_list (ko_w s) (ev_w (ko_ev s ! i)) w) \<Longrightarrow>
    kev_cancel s h w = Some (res, out, s') \<Longrightarrow> kreach s'"
| ev_delete: "kreach s \<Longrightarrow> kev_delete s h wk = Some (res, wk', s') \<Longrightarrow> kreach s'"
| set_owner: "kreach s \<Longrightarrow> kreach (snd (kobj_set_owner s h owner))"

lemma kreach_inv: "kreach s \<Longrightarrow> \<exists>L. kobj_inv s L"
proof (induction rule: kreach.induct)
  case (init s)
  show ?case using reset_inv by blast
next
  case (ev_clear s h bits)
  then show ?case using fewer_bits_inv by (fastforce simp: kev_clear_def Let_def split: option.splits)
next
  case (sem_cancel s w h res s')
  then obtain L where L: "kobj_inv s L" by blast
  from sem_cancel_inv [OF L, of w h] sem_cancel show ?case by fastforce
next
  case (sem_delete s h wk res wk' s')
  then obtain L where L: "kobj_inv s L" by blast
  from sem_delete_inv [OF L, of h wk] sem_delete show ?case by fastforce
next
  case (mtx_cancel s w h res s')
  then obtain L where L: "kobj_inv s L" by blast
  from mtx_cancel_inv [OF L, of w h] mtx_cancel show ?case by fastforce
next
  case (mtx_delete s h wk res wk' s')
  then obtain L where L: "kobj_inv s L" by blast
  from mtx_delete_inv [OF L, of h wk] mtx_delete show ?case by fastforce
next
  case (q_cancel s w h res s')
  then obtain L where L: "kobj_inv s L" by blast
  from q_cancel_inv [OF L, of w h] q_cancel show ?case by fastforce
next
  case (q_delete s h wk res wk' stg s')
  then obtain L where L: "kobj_inv s L" by blast
  from q_delete_inv [OF L, of h wk] q_delete show ?case by fastforce
next
  case (ev_set s h bits wk b wk' s')
  then obtain L where L: "kobj_inv s L" by blast
  from set_inv [OF L, of h bits wk] ev_set show ?case by fastforce
next
  case (ev_cancel s w h res out s')
  then obtain L where L: "kobj_inv s L" by blast
  from ev_cancel_inv [OF L, of w h] ev_cancel show ?case by fastforce
next
  case (ev_delete s h wk res wk' s')
  then obtain L where L: "kobj_inv s L" by blast
  from ev_delete_inv [OF L, of h wk] ev_delete show ?case by fastforce
qed (blast intro: create_sem_inv take_inv give_inv create_mtx_inv lock_inv unlock_inv create_q_inv send_inv
    recv_inv create_ev_inv wait_inv set_owner_inv)+

section \<open>Properties of the synchronisation objects\<close>

text \<open>
  C2: In every state the kernel can reach, each object's waiters form one well-linked list in
  arrival order, no waiter is in two lists, and no object keeps somebody waiting for what it has: a
  semaphore with waiters has count 0, a free mutex has none, a queue with blocked receivers is empty
  and one with blocked senders full, and no event waiter is satisfied by the current bits.
\<close>

theorem no_waiter_left_behind:
  assumes "kreach s"
  shows "\<exists>L. (\<forall>x. valid x \<longrightarrow> ent_inv (ko_w s) (entry s x) (fst (L x)) (snd (L x)))
    \<and> (\<forall>x y. valid x \<and> valid y \<and> x \<noteq> y \<longrightarrow> queued L x \<inter> queued L y = {})"
  using kreach_inv [OF assms] unfolding kobj_inv_def by metis

definition blank_waiter :: kwaiter where
  "blank_waiter = \<lparr>kw_next = 0, kw_who = 0, kw_state = 0, kw_item = 0, kw_want = 0, kw_got = 0,
     kw_all = False, kw_clear = False\<rparr>"

definition blank_kobj :: kobj where
  "blank_kobj = \<lparr>ko_sem = [], ko_mtx = [], ko_q = [], ko_ev = [], ko_tm = [], ko_tm_seq = 0,
     ko_w = (\<lambda>_. blank_waiter), ko_mem = (\<lambda>_. 0)\<rparr>"

definition demo_sem :: "u32 \<times> kobj" where
  "demo_sem = ksem_create (snd (kobj_reset blank_kobj)) 1 0"

definition demo_wait :: kobj where
  "demo_wait = snd (ksem_take (snd demo_sem) (fst demo_sem) 100 7)"

lemma demo_sem_eval: "fst demo_sem = 0x10000001" "ko_w (snd demo_sem) = (\<lambda>_. blank_waiter)"
  "ko_sem (snd demo_sem) ! 0 = sem_zero\<lparr>sm_used := True, sm_max := 1\<rparr>"
  "sem_lookup (snd demo_sem) 0x10000001 = Some 0"
proof -
  have fs: "free_slot sm_used (replicate KSEM_MAX sem_zero) KSEM_MAX = Some 0"
    by (simp add: free_slot_def kobj_limits upt_rec sem_zero_def)
  have h: "h_make KOBJ_SEM 0 0 = 0x10000001" by (simp add: h_make_def kobj_types)
  have k: "ko_sem (snd (kobj_reset blank_kobj)) = replicate KSEM_MAX sem_zero" by (simp add: kobj_reset_def)
  have z: "replicate KSEM_MAX sem_zero ! 0 = sem_zero" "sm_gen sem_zero = 0"
    by (simp_all add: kobj_limits sem_zero_def)
  have d: "demo_sem = (0x10000001, put_sem (snd (kobj_reset blank_kobj)) 0
      (sem_zero\<lparr>sm_used := True, sm_gen := 0, sm_max := 1, sm_count := 0\<rparr>))"
    by (simp add: demo_sem_def ksem_create_def k fs Let_def h z)
  show "fst demo_sem = 0x10000001" by (simp add: d)
  show "ko_w (snd demo_sem) = (\<lambda>_. blank_waiter)" by (simp add: d kobj_reset_def blank_kobj_def)
  show e: "ko_sem (snd demo_sem) ! 0 = sem_zero\<lparr>sm_used := True, sm_max := 1\<rparr>"
    by (simp add: d put_sem_def k) (simp add: kobj_limits sem_zero_def)
  show "sem_lookup (snd demo_sem) 0x10000001 = Some 0"
    by (simp add: sem_lookup_def h_lookup_def e h_idx_def h_type_def h_gen_def kobj_types kobj_limits sem_zero_def)
qed

lemma demo_wait_reach: "kreach demo_wait"
  unfolding demo_wait_def
proof (rule kreach.sem_take)
  show "kreach (snd demo_sem)" unfolding demo_sem_def by (intro kreach.sem_create kreach.init)
  show "fresh (snd demo_sem) 100" by (simp add: fresh_def demo_sem_eval(2) blank_waiter_def kw_defs)
qed

lemma demo_wait_eval: "sm_count (ko_sem demo_wait ! 0) = 0" "wl_head (sm_w (ko_sem demo_wait ! 0)) = 100"
  "kw_state (ko_w demo_wait 100) = KW_WAIT" "sm_used (ko_sem demo_wait ! 0)"
proof -
  have "length (ko_sem (snd demo_sem)) = 32"
    using kreach_inv [OF kreach.sem_create [OF kreach.init [of blank_kobj]], of 1 0]
    by (auto simp: demo_sem_def kobj_inv_def sizes_def kobj_limits)
  then show "sm_count (ko_sem demo_wait ! 0) = 0" "wl_head (sm_w (ko_sem demo_wait ! 0)) = 100"
  "kw_state (ko_w demo_wait 100) = KW_WAIT" "sm_used (ko_sem demo_wait ! 0)"
    by (simp_all add: demo_wait_def ksem_take_def demo_sem_eval Let_def wl_push_def put_sem_def put_waiter_def
        sem_zero_def wl_zero_def)
qed

theorem no_waiter_left_behind_witness:
  "\<exists>L :: queues. fst (L (OSem 0)) = [100] \<and> sm_count (ko_sem demo_wait ! 0) = 0
     \<and> ent_inv (ko_w demo_wait) (entry demo_wait (OSem 0)) [100] []"
proof -
  from no_waiter_left_behind [OF demo_wait_reach] obtain L where
    L: "\<forall>x. valid x \<longrightarrow> ent_inv (ko_w demo_wait) (entry demo_wait x) (fst (L x)) (snd (L x))" by blast
  have "valid (OSem 0)" by (simp add: kobj_limits)
  with L have e: "ent_inv (ko_w demo_wait) (entry demo_wait (OSem 0)) (fst (L (OSem 0))) (snd (L (OSem 0)))" by blast
  then have sg: "seg (ko_w demo_wait) 100 (fst (L (OSem 0))) 0" using demo_wait_eval(2) by (simp add: wl_holds_def)
  have "kw_next (ko_w demo_wait 100) = 0"
    by (simp add: demo_wait_def ksem_take_def demo_sem_eval Let_def wl_push_def put_sem_def put_waiter_def
        sem_zero_def wl_zero_def)
  then have "seg (ko_w demo_wait) 100 [100] 0" by simp
  with sg have "fst (L (OSem 0)) = [100]" by (rule seg_unique)
  moreover have "snd (L (OSem 0)) = []" using e by simp
  ultimately show ?thesis using e demo_wait_eval(1) by (intro exI [of _ L]) simp
qed

text \<open>
  Giving a semaphore that has waiters wakes the one that has waited longest, and nobody else:
  it is granted and named in the wake list, the count stays 0 (the unit goes straight to it), and the
  others keep their order.
\<close>

theorem give_wakes_oldest:
  assumes "kobj_inv s L" and "sem_lookup s h = Some i" and "L (OSem i) = (w # ws, t)"
  shows "\<exists>s'. ksem_give s h wk = (KO_OK, kw_add wk (kw_who (ko_w s w)), s')
    \<and> kobj_inv s' (L(OSem i := (ws, [])))
    \<and> kw_state (ko_w s' w) = KW_GRANT \<and> sm_count (ko_sem s' ! i) = 0
    \<and> (\<forall>x. x \<noteq> w \<longrightarrow> ko_w s' x = ko_w s x)"
proof -
  note v = lookup_valid(1) [OF assms(2)]
  define e where "e = ko_sem s ! i"
  have e: "ent_inv (ko_w s) (ESem e) (w # ws) t" "sm_used e"
    using kobj_invD(2) [OF assms(1), of "OSem i"] v assms(3) by (simp_all add: e_def)
  then have h: "wl_holds (ko_w s, sm_w e) (w # ws)" "waits (ko_w s) (w # ws)" "sm_count e = 0" by auto
  from pop_facts [OF h(1,2)] obtain l where p: "wl_pop (ko_w s, sm_w e) = Some (w, (ko_w s)(w := (ko_w s w)\<lparr>kw_next := 0\<rparr>), l)"
    "\<And>q. wl_holds ((ko_w s)(w := q), l) ws" "\<And>q. waits ((ko_w s)(w := q)) ws" "w \<notin> set ws" by blast
  let ?st = "(ko_w s)(w := (ko_w s w)\<lparr>kw_next := 0, kw_state := KW_GRANT\<rparr>)"
  have "kobj_inv (put_sem (s\<lparr>ko_w := ?st\<rparr>) i (e\<lparr>sm_w := l\<rparr>)) (L(OSem i := (ws, [])))"
    by (rule sem_upd_to [OF assms(1) _ assms(3), where W = "{}"]) (use v e p in auto)
  moreover have "ksem_give s h wk = (KO_OK, kw_add wk (kw_who (ko_w s w)), put_sem (s\<lparr>ko_w := ?st\<rparr>) i (e\<lparr>sm_w := l\<rparr>))"
    using assms(2) p(1) by (simp add: ksem_give_def e_def [symmetric] Let_def)
  moreover have "i < length (ko_sem s)" using v kobj_invD(1) [OF assms(1)] by (simp add: sizes_def)
  ultimately show ?thesis using h(3) by (simp add: put_sem_def)
qed

theorem give_wakes_oldest_witness:
  "\<exists>s'. ksem_give demo_wait 0x10000001 (Some []) = (KO_OK, Some [7], s') \<and> kw_state (ko_w s' 100) = KW_GRANT"
proof -
  from kreach_inv [OF demo_wait_reach] obtain L where inv: "kobj_inv demo_wait L" by blast
  have "valid (OSem 0)" by (simp add: kobj_limits)
  then have e: "ent_inv (ko_w demo_wait) (entry demo_wait (OSem 0)) (fst (L (OSem 0))) (snd (L (OSem 0)))"
    by (rule kobj_invD(2) [OF inv])
  then have sg: "seg (ko_w demo_wait) 100 (fst (L (OSem 0))) 0" using demo_wait_eval(2) by (simp add: wl_holds_def)
  then obtain ws where L: "fst (L (OSem 0)) = 100 # ws" by (cases "fst (L (OSem 0))") auto
  have "sm_gen (ko_sem demo_wait ! 0) = 0"
    using kobj_invD(1) [OF inv]
    by (simp add: demo_wait_def ksem_take_def demo_sem_eval Let_def wl_push_def put_sem_def put_waiter_def
        sem_zero_def wl_zero_def sizes_def kobj_limits)
  then have look: "sem_lookup demo_wait 0x10000001 = Some 0"
    by (simp add: sem_lookup_def h_lookup_def h_idx_def h_type_def h_gen_def kobj_types kobj_limits demo_wait_eval)
  have "kw_who (ko_w demo_wait 100) = 7"
    by (simp add: demo_wait_def ksem_take_def demo_sem_eval Let_def wl_push_def put_sem_def put_waiter_def
        sem_zero_def wl_zero_def)
  with give_wakes_oldest [OF inv look, of 100 ws "snd (L (OSem 0))" "Some []"] L
  show ?thesis by (auto simp: kw_add_def KWAKE_MAX_def prod_eq_iff)
qed

text \<open>
  C36: A mutex passes from its owner straight to the waiter that has waited longest: an unlock by
  the owner at depth 1 makes that waiter the owner and wakes it, so that no third task can take the
  mutex in between; an unlock by anybody else changes nothing.
\<close>

theorem unlock_hands_over:
  assumes "kobj_inv s L" and "mtx_lookup s h = Some i" and "L (OMtx i) = (w # ws, t)"
    and "mx_depth (ko_mtx s ! i) = 1" and "mx_owner (ko_mtx s ! i) = who"
  shows "\<exists>s'. kmutex_unlock s h who wk = (KO_OK, kw_add wk (kw_who (ko_w s w)), s')
      \<and> kobj_inv s' (L(OMtx i := (ws, []))) \<and> kmutex_owner s' h = kw_who (ko_w s w)
      \<and> (\<forall>thief v. thief \<noteq> kw_who (ko_w s w) \<longrightarrow> fst (kmutex_lock s' h v thief) \<in> {KO_AGAIN, KO_BLOCK})
      \<and> (\<forall>other. other \<noteq> who \<longrightarrow> kmutex_unlock s h other wk = (KO_FAIL, wk, s))"
proof -
  note v = lookup_valid(2) [OF assms(2)]
  define e where "e = ko_mtx s ! i"
  have e: "ent_inv (ko_w s) (EMtx e) (w # ws) t" "mx_used e"
    using kobj_invD(2) [OF assms(1), of "OMtx i"] v assms(3) by (simp_all add: e_def)
  then have h: "wl_holds (ko_w s, mx_w e) (w # ws)" "waits (ko_w s) (w # ws)" "0 \<le> kw_who (ko_w s w)" by auto
  from pop_facts [OF h(1,2)] obtain l where p: "wl_pop (ko_w s, mx_w e) = Some (w, (ko_w s)(w := (ko_w s w)\<lparr>kw_next := 0\<rparr>), l)"
    "\<And>q. wl_holds ((ko_w s)(w := q), l) ws" "\<And>q. waits ((ko_w s)(w := q)) ws" "w \<notin> set ws" by blast
  let ?st = "(ko_w s)(w := (ko_w s w)\<lparr>kw_next := 0, kw_state := KW_GRANT\<rparr>)"
  let ?e = "e\<lparr>mx_w := l, mx_owner := kw_who (ko_w s w), mx_depth := 1\<rparr>"
  let ?s = "put_mtx (s\<lparr>ko_w := ?st\<rparr>) i ?e"
  have inv': "kobj_inv ?s (L(OMtx i := (ws, [])))"
    by (rule mtx_upd_to [OF assms(1) _ assms(3), where W = "{}"]) (use v e p in auto)
  have run: "kmutex_unlock s h who wk = (KO_OK, kw_add wk (kw_who (ko_w s w)), ?s)"
    using assms(2,4,5) p(1)
    by (simp add: kmutex_unlock_def e_def [symmetric] Let_def wrap32_def)
  have len: "i < length (ko_mtx s)" using v kobj_invD(1) [OF assms(1)] by (simp add: sizes_def)
  have ent: "ko_mtx ?s ! i = ?e" using len by (simp add: put_mtx_def)
  have "mtx_lookup ?s h = Some i"
  proof -
    have "mx_used (ko_mtx ?s ! j) = mx_used (ko_mtx s ! j) \<and> mx_gen (ko_mtx ?s ! j) = mx_gen (ko_mtx s ! j)" for j
      using len by (cases "j = i") (simp_all add: put_mtx_def e_def)
    then show ?thesis using assms(2) by (simp add: mtx_lookup_def h_lookup_def)
  qed
  moreover from this have "fst (kmutex_lock ?s h v thief) \<in> {KO_AGAIN, KO_BLOCK}" if "thief \<noteq> kw_who (ko_w s w)" for v thief
    using that h(3) ent by (auto simp: kmutex_lock_def Let_def)
  moreover have "kmutex_unlock s h other wk = (KO_FAIL, wk, s)" if "other \<noteq> who" for other
    using that assms(2,5) by (simp add: kmutex_unlock_def Let_def)
  ultimately show ?thesis
    using run inv' ent by (intro exI [of _ ?s]) (simp add: kmutex_owner_def)
qed

text \<open>A message queue's contents, oldest item first.\<close>

definition q_items :: "(nat \<Rightarrow> u8) \<Rightarrow> kqueue \<Rightarrow> bytes list" where
  "q_items mem q = map (\<lambda>j. mem_bytes mem (q_slot q j) (kq_isz q)) [0..<kq_count q]"

lemma slots_apart:
  assumes "(k :: nat) \<noteq> k'"
  shows "b + k * z + z \<le> b + k' * z \<or> b + k' * z + z \<le> b + k * z"
proof (cases "k < k'")
  case True
  then have "Suc k * z \<le> k' * z" by (intro mult_le_mono1) simp
  then show ?thesis by simp
next
  case False
  with assms have "Suc k' * z \<le> k * z" by (intro mult_le_mono1) simp
  then show ?thesis by simp
qed

lemma ring_neq:
  assumes "(j :: nat) < k" and "k < n"
  shows "(h + j) mod n \<noteq> (h + k) mod n"
proof
  assume "(h + j) mod n = (h + k) mod n"
  then have "n dvd (h + k) - (h + j)" using assms(1) by (metis mod_eq_dvd_iff_nat add_le_mono le_refl less_imp_le)
  then have "n dvd k - j" by simp
  with assms show False by (auto dest: dvd_imp_le)
qed

lemma q_push_items:
  assumes "kq_head q < kq_len q" and "kq_count q < kq_len q"
  shows "q_items (fst (q_push mem q item front)) (snd (q_push mem q item front))
    = (if front then mem_bytes mem item (kq_isz q) # q_items mem q
       else q_items mem q @ [mem_bytes mem item (kq_isz q)])"
proof (cases front)
  case False
  have "mem_bytes (mem_copy mem (q_slot q (kq_count q)) item (kq_isz q)) (q_slot q j) (kq_isz q)
      = mem_bytes mem (q_slot q j) (kq_isz q)" if "j < kq_count q" for j
  proof (rule mem_bytes_copy_other)
    show "q_slot q j + kq_isz q \<le> q_slot q (kq_count q) \<or> q_slot q (kq_count q) + kq_isz q \<le> q_slot q j"
      unfolding q_slot_def using slots_apart [OF ring_neq [OF that assms(2)]] by simp
  qed
  then show ?thesis using False by (simp add: q_push_def q_items_def q_slot_def)
next
  case True
  let ?h = "(kq_head q + kq_len q - 1) mod kq_len q"
  define q1 where "q1 = q\<lparr>kq_head := ?h, kq_count := kq_count q + 1\<rparr>"
  define m1 where "m1 = mem_copy mem (kq_buf q + ?h * kq_isz q) item (kq_isz q)"
  have r: "q_push mem q item front = (m1, q1)" using True by (simp add: q_push_def Let_def q1_def m1_def)
  have h: "?h < kq_len q" using assms by simp
  have s0: "q_slot q1 0 = kq_buf q + ?h * kq_isz q" using h by (simp add: q_slot_def q1_def)
  have slot: "(?h + Suc j) mod kq_len q = (kq_head q + j) mod kq_len q" for j
  proof -
    have "(?h + Suc j) mod kq_len q = (kq_head q + kq_len q - 1 + Suc j) mod kq_len q" by (rule mod_add_left_eq)
    also have "kq_head q + kq_len q - 1 + Suc j = kq_head q + j + kq_len q" using assms by simp
    finally show ?thesis by simp
  qed
  then have sS: "q_slot q1 (Suc j) = q_slot q j" for j by (simp add: q_slot_def q1_def)
  have "mem_bytes m1 (q_slot q j) (kq_isz q) = mem_bytes mem (q_slot q j) (kq_isz q)" if "j < kq_count q" for j
    unfolding m1_def
  proof (rule mem_bytes_copy_other)
    have "(?h + 0) mod kq_len q \<noteq> (?h + Suc j) mod kq_len q" by (rule ring_neq) (use that assms in auto)
    then have "(kq_head q + j) mod kq_len q \<noteq> ?h" unfolding slot using h by simp
    then show "q_slot q j + kq_isz q \<le> kq_buf q + ?h * kq_isz q \<or> kq_buf q + ?h * kq_isz q + kq_isz q \<le> q_slot q j"
      unfolding q_slot_def by (rule slots_apart)
  qed
  moreover have "mem_bytes m1 (q_slot q1 0) (kq_isz q) = mem_bytes mem item (kq_isz q)"
    unfolding s0 m1_def by simp
  moreover have "q_items m1 q1 = mem_bytes m1 (q_slot q1 0) (kq_isz q)
      # map (\<lambda>j. mem_bytes m1 (q_slot q1 (Suc j)) (kq_isz q)) [0..<kq_count q]"
  proof -
    have "[0..<kq_count q1] = 0 # map Suc [0..<kq_count q]" by (simp add: q1_def map_Suc_upt upt_conv_Cons)
    moreover have "kq_isz q1 = kq_isz q" by (simp add: q1_def)
    ultimately show ?thesis by (simp add: q_items_def)
  qed
  ultimately show ?thesis using True unfolding r sS by (simp add: q_items_def)
qed

definition q_region :: "kqueue \<Rightarrow> nat set" where
  "q_region q = {kq_buf q ..< kq_buf q + kq_len q * kq_isz q}"

definition apart :: "kqueue \<Rightarrow> nat \<Rightarrow> bool" where
  "apart q a \<longleftrightarrow> a + kq_isz q \<le> kq_buf q \<or> kq_buf q + kq_len q * kq_isz q \<le> a"

lemma q_slot_region:
  assumes "0 < kq_len q"
  shows "kq_buf q \<le> q_slot q j \<and> q_slot q j + kq_isz q \<le> kq_buf q + kq_len q * kq_isz q"
proof -
  have "(kq_head q + j) mod kq_len q < kq_len q" using assms by simp
  then have "Suc ((kq_head q + j) mod kq_len q) * kq_isz q \<le> kq_len q * kq_isz q" by (intro mult_le_mono1) simp
  then show ?thesis by (simp add: q_slot_def)
qed

lemma q_items_copy_outside:
  assumes "0 < kq_len q" and "apart q dst"
  shows "q_items (mem_copy mem dst src (kq_isz q)) q = q_items mem q"
  unfolding q_items_def
  by (intro map_cong refl mem_bytes_copy_other) (use q_slot_region [OF assms(1)] assms(2) in \<open>auto simp: apart_def intro: order_trans\<close>)

lemma q_items_advance:
  assumes "0 < kq_len q" and "0 < kq_count q"
  shows "q_items mem (q\<lparr>kq_head := (kq_head q + 1) mod kq_len q, kq_count := kq_count q - 1\<rparr>) = tl (q_items mem q)"
    and "q_items mem q = mem_bytes mem (q_slot q 0) (kq_isz q) # tl (q_items mem q)"
proof -
  obtain c where c: "kq_count q = Suc c" using assms(2) by (cases "kq_count q") auto
  have slot: "q_slot (q\<lparr>kq_head := (kq_head q + 1) mod kq_len q, kq_count := c\<rparr>) j = q_slot q (Suc j)" for j
    by (simp add: q_slot_def mod_simps)
  have u: "[0..<Suc c] = 0 # map Suc [0..<c]" by (simp add: map_Suc_upt upt_conv_Cons)
  show "q_items mem (q\<lparr>kq_head := (kq_head q + 1) mod kq_len q, kq_count := kq_count q - 1\<rparr>) = tl (q_items mem q)"
    using slot unfolding q_items_def c u by simp
  show "q_items mem q = mem_bytes mem (q_slot q 0) (kq_isz q) # tl (q_items mem q)"
    unfolding q_items_def c u by simp
qed

lemma q_push_writes:
  assumes "0 < kq_len q"
  shows "\<exists>k. fst (q_push mem q item f) = mem_copy mem (q_slot q k) item (kq_isz q)"
proof (cases f)
  case True
  have "kq_head q + kq_len q - 1 = kq_head q + (kq_len q - 1)" using assms by simp
  then show ?thesis
    using True by (intro exI [of _ "kq_len q - 1"]) (simp add: q_push_def q_slot_def)
next
  case False
  then show ?thesis by (intro exI [of _ "kq_count q"]) (simp add: q_push_def)
qed

lemma put_q_read: "i < length (ko_q s) \<Longrightarrow> ko_q (put_q s i q) ! i = q" "ko_mem (put_q s i q) = ko_mem s"
  by (simp_all add: put_q_def)

lemma q_entry:
  assumes "kobj_inv s L" and "q_lookup s h = Some i" and "L (OQue i) = (r, t)"
  shows "i < length (ko_q s)" and "ent_inv (ko_w s) (EQue (ko_q s ! i)) r t" and "kq_used (ko_q s ! i)"
  using lookup_valid(3) [OF assms(2)] kobj_invD(2) [OF assms(1), of "OQue i"] assms(3)
    kobj_invD(1) [OF assms(1)] by (simp_all add: sizes_def)

text \<open>
  C35: A send to a queue nobody waits on appends the item (or puts it first, when sent to the
  front) if there is room and otherwise blocks the sender; if a receiver waits, the queue is empty
  and the item goes straight into the buffer of the receiver that has waited longest.
\<close>

theorem queue_send:
  fixes s :: kobj and item w :: nat and front :: bool and who :: int and wk :: "int list option"
  assumes "kobj_inv s L" and "q_lookup s h = Some i" and "L (OQue i) = (r, t)"
  defines "q \<equiv> ko_q s ! i"
  defines "res \<equiv> kq_send s h item front w who wk"
  defines "s' \<equiv> snd (snd res)"
  shows "(r = [] \<and> length (q_items (ko_mem s) q) < kq_len q \<longrightarrow>
        fst res = KO_OK \<and> q_items (ko_mem s') (ko_q s' ! i)
          = (if front then mem_bytes (ko_mem s) item (kq_isz q) # q_items (ko_mem s) q
             else q_items (ko_mem s) q @ [mem_bytes (ko_mem s) item (kq_isz q)]))
    \<and> (r = [] \<and> length (q_items (ko_mem s) q) = kq_len q \<longrightarrow> fst res = (if w = 0 then KO_FULL else KO_BLOCK))
    \<and> (\<forall>v vs. r = v # vs \<longrightarrow>
        q_items (ko_mem s) q = [] \<and> fst res = KO_OK \<and> fst (snd res) = kw_add wk (kw_who (ko_w s v))
        \<and> mem_bytes (ko_mem s') (kw_item (ko_w s v)) (kq_isz q) = mem_bytes (ko_mem s) item (kq_isz q)
        \<and> q_items (ko_mem s') (ko_q s' ! i) = [])"
proof -
  note v = q_entry [OF assms(1-3), folded q_def]
  from v have h: "wl_holds (ko_w s, kq_rx q) r" "waits (ko_w s) r" "kq_head q < kq_len q" "kq_count q \<le> kq_len q"
    "r \<noteq> [] \<longrightarrow> kq_count q = 0" by auto
  have len: "length (q_items (ko_mem s) q) = kq_count q" by (simp add: q_items_def)
  show ?thesis
  proof (cases r)
    case Nil
    then have none: "wl_pop (ko_w s, kq_rx q) = None" using h(1) by (simp add: wl_pop_empty)
    show ?thesis
    proof (cases "kq_count q < kq_len q")
      case True
      then have "res = (KO_OK, wk, put_q (s\<lparr>ko_mem := fst (q_push (ko_mem s) q item front)\<rparr>) i
          (snd (q_push (ko_mem s) q item front)))"
        using assms(2) none by (simp add: res_def kq_send_def q_def [symmetric] Let_def)
      then show ?thesis
        using v(1) q_push_items [OF h(3) True] Nil True len by (simp add: s'_def put_q_read)
    next
      case False
      then have "fst res = (if w = 0 then KO_FULL else KO_BLOCK)"
        using assms(2) none by (simp add: res_def kq_send_def q_def [symmetric] Let_def)
      then show ?thesis using False len Nil by simp
    qed
  next
    case (Cons u us)
    with h obtain l where p: "wl_pop (ko_w s, kq_rx q) = Some (u, (ko_w s)(u := (ko_w s u)\<lparr>kw_next := 0\<rparr>), l)"
      by (auto elim: pop_facts)
    have "res = (KO_OK, kw_add wk (kw_who (ko_w s u)), put_q (s\<lparr>ko_mem := mem_copy (ko_mem s) (kw_item (ko_w s u)) item (kq_isz q),
        ko_w := (ko_w s)(u := (ko_w s u)\<lparr>kw_next := 0, kw_state := KW_GRANT\<rparr>)\<rparr>) i (q\<lparr>kq_rx := l\<rparr>))"
      using assms(2) p by (simp add: res_def kq_send_def q_def [symmetric] Let_def)
    then show ?thesis
      using v(1) Cons h(5) by (simp add: s'_def put_q_read) (simp add: q_items_def)
  qed
qed

lemma queue_recv_facts:
  fixes s :: kobj and dst w :: nat and who :: int and wk :: "int list option"
  assumes "kobj_inv s L" and "q_lookup s h = Some i" and "L (OQue i) = (r, t)"
    and "apart (ko_q s ! i) dst" and "kq_count (ko_q s ! i) > 0"
  defines "q \<equiv> ko_q s ! i"
  defines "res \<equiv> kq_recv s h dst w who wk"
  defines "s' \<equiv> snd (snd res)"
  shows "fst res = KO_OK"
    and "t = [] \<Longrightarrow> q_items (ko_mem s) q = mem_bytes (ko_mem s') dst (kq_isz q) # q_items (ko_mem s') (ko_q s' ! i)"
    and "t = v # vs \<Longrightarrow> apart q (kw_item (ko_w s v)) \<Longrightarrow>
        dst + kq_isz q \<le> kw_item (ko_w s v) \<or> kw_item (ko_w s v) + kq_isz q \<le> dst \<Longrightarrow>
        mem_bytes (ko_mem s') dst (kq_isz q) = hd (q_items (ko_mem s) q)
        \<and> fst (snd res) = kw_add wk (kw_who (ko_w s v))
        \<and> q_items (ko_mem s') (ko_q s' ! i)
          = (let x = mem_bytes (ko_mem s) (kw_item (ko_w s v)) (kq_isz q); rest = tl (q_items (ko_mem s) q)
             in if kw_all (ko_w s v) then x # rest else rest @ [x])"
proof -
  note v = q_entry [OF assms(1-3), folded q_def]
  from v have h: "wl_holds (ko_w s, kq_tx q) t" "waits (ko_w s) t" "kq_head q < kq_len q" "0 < kq_len q"
    "kq_count q \<le> kq_len q" by auto
  have c: "kq_count q > 0" and ap: "apart q dst" using assms(4,5) by (simp_all add: q_def)
  let ?m = "mem_copy (ko_mem s) dst (q_slot q 0) (kq_isz q)"
  let ?q1 = "q\<lparr>kq_head := (kq_head q + 1) mod kq_len q, kq_count := kq_count q - 1\<rparr>"
  have items: "q_items ?m q = q_items (ko_mem s) q" using q_items_copy_outside [OF h(4) ap] .
  have rest: "q_items ?m ?q1 = tl (q_items (ko_mem s) q)" unfolding items [symmetric]
    by (rule q_items_advance(1) [OF h(4) c])
  have first: "mem_bytes ?m dst (kq_isz q) = hd (q_items (ko_mem s) q)"
    using q_items_advance(2) [OF h(4) c, of "ko_mem s"] by (metis list.sel(1) mem_bytes_copy_dst)
  show "fst res = KO_OK"
    using assms(2) c by (simp add: res_def kq_recv_def q_def [symmetric] Let_def split: option.splits)
  {
    assume t: "t = []"
    then have "wl_pop (ko_w s, kq_tx q) = None" using h(1) by (simp add: wl_pop_empty)
    then have "res = (KO_OK, wk, put_q (s\<lparr>ko_mem := ?m\<rparr>) i ?q1)"
      using assms(2) c by (simp add: res_def kq_recv_def q_def [symmetric] Let_def)
    then have s': "ko_mem s' = ?m" "ko_q s' ! i = ?q1" using v(1) by (simp_all add: s'_def put_q_read)
    show "q_items (ko_mem s) q = mem_bytes (ko_mem s') dst (kq_isz q) # q_items (ko_mem s') (ko_q s' ! i)"
      unfolding s' rest first using q_items_advance(2) [OF h(4) c, of "ko_mem s"] by (metis list.sel(1))
  next
    assume t: "t = v # vs" and av: "apart q (kw_item (ko_w s v))"
      and dv: "dst + kq_isz q \<le> kw_item (ko_w s v) \<or> kw_item (ko_w s v) + kq_isz q \<le> dst"
    from h t obtain l where p: "wl_pop (ko_w s, kq_tx q) = Some (v, (ko_w s)(v := (ko_w s v)\<lparr>kw_next := 0\<rparr>), l)"
      by (auto elim: pop_facts)
    let ?q2 = "?q1\<lparr>kq_tx := l\<rparr>"
    let ?p = "q_push ?m ?q2 (kw_item (ko_w s v)) (kw_all (ko_w s v))"
    have res: "res = (KO_OK, kw_add wk (kw_who (ko_w s v)), put_q (s\<lparr>ko_mem := fst ?p,
        ko_w := (ko_w s)(v := (ko_w s v)\<lparr>kw_next := 0, kw_state := KW_GRANT\<rparr>)\<rparr>) i (snd ?p))"
      using assms(2) c p by (simp add: res_def kq_recv_def q_def [symmetric] Let_def)
    then have s': "ko_mem s' = fst ?p" "ko_q s' ! i = snd ?p" using v(1) by (simp_all add: s'_def put_q_read)
    have q2: "kq_head ?q2 < kq_len ?q2" "kq_count ?q2 < kq_len ?q2" using h c by auto
    have src: "mem_bytes ?m (kw_item (ko_w s v)) (kq_isz q) = mem_bytes (ko_mem s) (kw_item (ko_w s v)) (kq_isz q)"
      by (rule mem_bytes_copy_other) (use dv in auto)
    have "q_items ?m ?q2 = tl (q_items (ko_mem s) q)" using rest by (simp add: q_items_def q_slot_def)
    then have it: "q_items (fst ?p) (snd ?p) = (let x = mem_bytes (ko_mem s) (kw_item (ko_w s v)) (kq_isz q);
        rest = tl (q_items (ko_mem s) q) in if kw_all (ko_w s v) then x # rest else rest @ [x])"
      unfolding q_push_items [OF q2] using src by simp
    have adv: "q_slot ?q2 j = q_slot q (Suc j)" for j by (simp add: q_slot_def mod_simps)
    have "0 < kq_len ?q2" using h(4) by simp
    from q_push_writes [OF this] obtain j where
      "fst ?p = mem_copy ?m (q_slot ?q2 j) (kw_item (ko_w s v)) (kq_isz ?q2)" by blast
    then obtain k where k: "fst ?p = mem_copy ?m (q_slot q k) (kw_item (ko_w s v)) (kq_isz q)"
      unfolding adv by (metis kqueue.select_convs(5) kqueue.update_convs(6,7,10) kqueue.surjective)
    have "mem_bytes (fst ?p) dst (kq_isz q) = mem_bytes ?m dst (kq_isz q)"
      unfolding k by (rule mem_bytes_copy_other) (use ap q_slot_region [OF h(4), of k] in \<open>auto simp: apart_def intro: order_trans\<close>)
    with first it res s' show "mem_bytes (ko_mem s') dst (kq_isz q) = hd (q_items (ko_mem s) q)
        \<and> fst (snd res) = kw_add wk (kw_who (ko_w s v))
        \<and> q_items (ko_mem s') (ko_q s' ! i)
          = (let x = mem_bytes (ko_mem s) (kw_item (ko_w s v)) (kq_isz q); rest = tl (q_items (ko_mem s) q)
             in if kw_all (ko_w s v) then x # rest else rest @ [x])" by simp
  }
qed

text \<open>
  A receive takes the oldest item: it is copied to the caller, the rest keep their order, and
  the sender that has waited longest, if any, gets its item into the freed slot at the end it chose.
  The caller's buffer and the blocked sender's item lie outside the queue's storage and apart.
\<close>

theorem queue_recv:
  assumes "kobj_inv s L" and "q_lookup s h = Some i" and "L (OQue i) = (r, t)"
    and "apart (ko_q s ! i) dst" and "kq_count (ko_q s ! i) > 0"
    and "q = ko_q s ! i" and "kq_recv s h dst w who wk = (res, wk', s')"
  shows "res = KO_OK
    \<and> (t = [] \<longrightarrow> q_items (ko_mem s) q = mem_bytes (ko_mem s') dst (kq_isz q) # q_items (ko_mem s') (ko_q s' ! i))
    \<and> (\<forall>v vs. t = v # vs \<and> apart q (kw_item (ko_w s v)) \<and>
        (dst + kq_isz q \<le> kw_item (ko_w s v) \<or> kw_item (ko_w s v) + kq_isz q \<le> dst) \<longrightarrow>
        mem_bytes (ko_mem s') dst (kq_isz q) = hd (q_items (ko_mem s) q)
        \<and> wk' = kw_add wk (kw_who (ko_w s v))
        \<and> q_items (ko_mem s') (ko_q s' ! i)
          = (let x = mem_bytes (ko_mem s) (kw_item (ko_w s v)) (kq_isz q); rest = tl (q_items (ko_mem s) q)
             in if kw_all (ko_w s v) then x # rest else rest @ [x]))"
  using queue_recv_facts [OF assms(1-5), where w = w and who = who and wk = wk] assms(6,7) by auto

section \<open>Handles\<close>

lemma word_hi_bits: "unat (w :: u32) < 2 ^ n \<Longrightarrow> bit w i \<Longrightarrow> i < n"
proof (rule ccontr)
  assume a: "unat w < 2 ^ n" "bit w i" "\<not> i < n"
  have "unat w = take_bit n (unat w)" using a(1) by (simp add: take_bit_nat_eq_self)
  then have "unat w = unat (take_bit n w)" by (simp add: unsigned_take_bit_eq)
  then have "w = take_bit n w" by (simp add: word_unat_eq_iff)
  then have "bit (take_bit n w) i" using a(2) by simp
  with a(3) show False by (simp add: bit_take_bit_iff)
qed

lemma pack_fields:
  fixes a b c :: u32
  assumes "unat a < 16" and "unat b < 4096" and "unat c < 65536"
  defines "h \<equiv> push_bit 28 a OR push_bit 16 b OR c"
  shows "drop_bit 28 h = a" and "drop_bit 16 h AND 0xfff = b" and "h AND 0xffff = c"
proof -
  have a: "bit a i \<Longrightarrow> i < 4" for i using word_hi_bits [of a 4] assms(1) by simp
  have b: "bit b i \<Longrightarrow> i < 12" for i using word_hi_bits [of b 12] assms(2) by simp
  have c: "bit c i \<Longrightarrow> i < 16" for i using word_hi_bits [of c 16] assms(3) by simp
  have m12: "(0xfff :: u32) = mask 12" and m16: "(0xffff :: u32) = mask 16" by (simp_all add: mask_eq_exp_minus_1)
  show "drop_bit 28 h = a"
    by (rule bit_eqI) (use a in \<open>auto simp: h_def bit_simps dest: a b c\<close>)
  show "drop_bit 16 h AND 0xfff = b" unfolding m12
    by (rule bit_eqI) (auto simp: h_def bit_simps dest: a b c)
  show "h AND 0xffff = c" unfolding m16
    by (rule bit_eqI) (auto simp: h_def bit_simps dest: a b c)
qed

lemma h_make_fields:
  assumes "type < 16" and "idx < 65535"
  shows "h_type (h_make type gen idx) = type" and "h_gen (h_make type gen idx) = gen mod 4096"
    and "h_idx (h_make type gen idx) = int idx" and "h_make type gen idx \<noteq> 0"
proof -
  have "(of_nat gen AND 0xfff :: u32) = take_bit 12 (of_nat gen)"
    by (simp add: take_bit_eq_mask mask_eq_exp_minus_1)
  then have b: "unat (of_nat gen AND 0xfff :: u32) = gen mod 4096"
    by (simp add: unsigned_take_bit_eq unsigned_of_nat take_bit_take_bit) (simp add: take_bit_eq_mod)
  have a: "unat (of_nat type :: u32) = type" using assms(1) by (simp add: unsigned_of_nat take_bit_nat_eq_self)
  have "(of_nat idx + 1 :: u32) = of_nat (Suc idx)" by simp
  then have c: "unat (of_nat idx + 1 :: u32) = Suc idx"
    using assms(2) by (simp only: unsigned_of_nat) (simp add: take_bit_nat_eq_self)
  have "gen mod 4096 < 4096" by simp
  then have pf: "unat (of_nat type :: u32) < 16" "unat (of_nat gen AND 0xfff :: u32) < 4096" "unat (of_nat idx + 1 :: u32) < 65536"
    using a b c assms by simp_all
  note p = pack_fields [OF pf]
  show "h_type (h_make type gen idx) = type" unfolding h_type_def h_make_def p(1) a ..
  show "h_gen (h_make type gen idx) = gen mod 4096" unfolding h_gen_def h_make_def p(2) b ..
  show i: "h_idx (h_make type gen idx) = int idx" unfolding h_idx_def h_make_def p(3) c by simp
  show "h_make type gen idx \<noteq> 0" using i by (auto simp: h_idx_def)
qed

text \<open>
  C38: A handle made for a slot finds the slot exactly while the slot's 16-bit generation is below
  4096: the handle keeps only 12 bits of it, and the lookup compares them with all 16.  So after
  4096 deletions of a slot its handles name nothing from the moment they are made.  A handle of an
  earlier generation never finds the slot.
\<close>

theorem handle_finds_slot:
  assumes "type < 16" and "i < n" and "n < 65535" and "used (arr ! i)"
  shows "h_lookup used gen arr n type (h_make type (gen (arr ! i)) i) = (if gen (arr ! i) < 4096 then Some i else None)
    \<and> (\<forall>old. old < gen (arr ! i) \<and> old < 4096 \<longrightarrow> h_lookup used gen arr n type (h_make type old i) = None)"
proof -
  have i: "i < 65535" using assms by simp
  note f = h_make_fields [OF assms(1) i]
  have "gen (arr ! i) = gen (arr ! i) mod 4096 \<longleftrightarrow> gen (arr ! i) < 4096" by (auto simp: mod_less)
  then have "h_lookup used gen arr n type (h_make type (gen (arr ! i)) i) = (if gen (arr ! i) < 4096 then Some i else None)"
    using f assms by (simp add: h_lookup_def Let_def)
  moreover have "h_lookup used gen arr n type (h_make type old i) = None" if "old < gen (arr ! i)" "old < 4096" for old
    using f(2) [of old] that by (simp add: h_lookup_def Let_def f)
  ultimately show ?thesis by blast
qed

theorem handle_finds_slot_witness:
  "sem_lookup (put_sem (snd (kobj_reset blank_kobj)) 3 (sem_zero\<lparr>sm_used := True, sm_gen := 4096\<rparr>)) (h_make KOBJ_SEM 4096 3) = None
   \<and> sem_lookup (put_sem (snd (kobj_reset blank_kobj)) 3 (sem_zero\<lparr>sm_used := True, sm_gen := 4095\<rparr>)) (h_make KOBJ_SEM 4095 3) = Some 3"
proof -
  have l: "ko_sem (put_sem (snd (kobj_reset blank_kobj)) 3 e) ! 3 = e" for e
    by (simp add: put_sem_def kobj_reset_def kobj_limits)
  let ?s = "\<lambda>g. put_sem (snd (kobj_reset blank_kobj)) 3 (sem_zero\<lparr>sm_used := True, sm_gen := g\<rparr>)"
  from handle_finds_slot [of KOBJ_SEM 3 KSEM_MAX sm_used "ko_sem (?s 4096)" sm_gen]
    handle_finds_slot [of KOBJ_SEM 3 KSEM_MAX sm_used "ko_sem (?s 4095)" sm_gen]
  show ?thesis by (simp add: l sem_lookup_def kobj_types kobj_limits)
qed

section \<open>Timers\<close>

definition tm_key_le :: "ktimer \<Rightarrow> ktimer \<Rightarrow> bool" where
  "tm_key_le a b \<longleftrightarrow> tm_deadline a < tm_deadline b \<or> tm_deadline a = tm_deadline b \<and> tm_seq a \<le> tm_seq b"

lemma tm_best_step:
  "case foldl (\<lambda>best i. if \<not> tm_due owner now (tm ! i) then best
        else case best of None \<Rightarrow> Some i | Some b \<Rightarrow> if tm_before (tm ! i) (tm ! b) then Some i else best) None [0..<k]
   of None \<Rightarrow> \<forall>i < k. \<not> tm_due owner now (tm ! i)
    | Some b \<Rightarrow> b < k \<and> tm_due owner now (tm ! b) \<and> (\<forall>i < k. tm_due owner now (tm ! i) \<longrightarrow> tm_key_le (tm ! b) (tm ! i))"
proof (induction k)
  case (Suc k)
  then show ?case
    by (auto simp: less_Suc_eq tm_before_def tm_key_le_def split: option.splits)
qed simp

text \<open>
  Popping takes a timer that is due exactly when one is, and of those due the one with the
  earliest deadline (armed first, on a tie); a one-shot timer is then no longer armed, and a periodic
  one is due again only after now.
\<close>

theorem timer_pop_earliest:
  "(fst (ktimer_pop_due s owner now) = None) = (\<forall>i < KTIMER_MAX. \<not> tm_due owner now (ko_tm s ! i))
   \<and> (fst (ktimer_pop_due s owner now) \<noteq> None \<longrightarrow>
      (\<exists>b < KTIMER_MAX. let t = ko_tm s ! b; t' = ko_tm (snd (ktimer_pop_due s owner now)) ! b in
         fst (ktimer_pop_due s owner now) = Some (tm_key t, tm_fn t, tm_arg t) \<and> tm_due owner now t
         \<and> (\<forall>i < KTIMER_MAX. tm_due owner now (ko_tm s ! i) \<longrightarrow> tm_key_le t (ko_tm s ! i))
         \<and> (b < length (ko_tm s) \<and> \<not> tm_periodic t \<longrightarrow> \<not> tm_armed t')
         \<and> (b < length (ko_tm s) \<and> tm_periodic t \<and> 0 < tm_period t
              \<and> unat now + unat (tm_period t) < 2 ^ 64 \<longrightarrow> now < tm_deadline t')))"
proof (cases "tm_best (ko_tm s) owner now")
  case None
  with tm_best_step [where owner = owner and now = now and tm = "ko_tm s" and k = KTIMER_MAX] show ?thesis
    by (simp add: tm_best_def ktimer_pop_due_def)
next
  case (Some b)
  with tm_best_step [where owner = owner and now = now and tm = "ko_tm s" and k = KTIMER_MAX] have
    b: "b < KTIMER_MAX" "tm_due owner now (ko_tm s ! b)"
      "\<forall>i < KTIMER_MAX. tm_due owner now (ko_tm s ! i) \<longrightarrow> tm_key_le (ko_tm s ! b) (ko_tm s ! i)"
    by (simp_all add: tm_best_def)
  let ?t = "ko_tm s ! b"
  have later: "now < now + p" if "0 < p" "unat now + unat p < 2 ^ 64" for p :: u64
    using that by (simp add: word_less_nat_alt unat_word_ariths)
  show ?thesis
  proof (intro conjI impI)
    show "(fst (ktimer_pop_due s owner now) = None) = (\<forall>i < KTIMER_MAX. \<not> tm_due owner now (ko_tm s ! i))"
      using Some b(1,2) by (auto simp: ktimer_pop_due_def Let_def)
    show "\<exists>b < KTIMER_MAX. let t = ko_tm s ! b; t' = ko_tm (snd (ktimer_pop_due s owner now)) ! b in
         fst (ktimer_pop_due s owner now) = Some (tm_key t, tm_fn t, tm_arg t) \<and> tm_due owner now t
         \<and> (\<forall>i < KTIMER_MAX. tm_due owner now (ko_tm s ! i) \<longrightarrow> tm_key_le t (ko_tm s ! i))
         \<and> (b < length (ko_tm s) \<and> \<not> tm_periodic t \<longrightarrow> \<not> tm_armed t')
         \<and> (b < length (ko_tm s) \<and> tm_periodic t \<and> 0 < tm_period t
              \<and> unat now + unat (tm_period t) < 2 ^ 64 \<longrightarrow> now < tm_deadline t')"
      using Some b later [of "tm_period ?t"]
      by (intro exI [of _ b]) (simp add: ktimer_pop_due_def Let_def not_le)
  qed
qed

definition demo_timer :: ktimer where
  "demo_timer = tm_zero\<lparr>tm_used := True, tm_armed := True, tm_periodic := True, tm_deadline := 5, tm_period := 10\<rparr>"

theorem timer_pop_earliest_witness:
  "\<exists>b < 64. 7 < tm_deadline (ko_tm (snd (ktimer_pop_due (blank_kobj\<lparr>ko_tm := replicate 64 demo_timer\<rparr>) 0 7)) ! b)"
proof -
  let ?s = "blank_kobj\<lparr>ko_tm := replicate 64 demo_timer\<rparr>"
  have due: "tm_due 0 7 demo_timer" by (simp add: tm_due_def demo_timer_def tm_zero_def)
  have t: "ko_tm ?s ! b = demo_timer" if "b < 64" for b using that by simp
  have "0 < KTIMER_MAX" "tm_due 0 7 (ko_tm ?s ! 0)" using due t [of 0] by (simp_all add: kobj_limits)
  with timer_pop_earliest [of ?s 0 7] have "fst (ktimer_pop_due ?s 0 7) \<noteq> None" by blast
  with timer_pop_earliest [of ?s 0 7] obtain b where b: "b < KTIMER_MAX"
    "b < length (ko_tm ?s) \<and> tm_periodic (ko_tm ?s ! b) \<and> 0 < tm_period (ko_tm ?s ! b)
       \<and> unat (7 :: u64) + unat (tm_period (ko_tm ?s ! b)) < 2 ^ 64
     \<longrightarrow> 7 < tm_deadline (ko_tm (snd (ktimer_pop_due ?s 0 7)) ! b)"
    unfolding Let_def by blast
  have "b < 64" using b(1) by (simp add: kobj_limits)
  moreover have "tm_periodic demo_timer" "0 < tm_period demo_timer" "unat (7 :: u64) + unat (tm_period demo_timer) < 2 ^ 64"
    by (simp_all add: demo_timer_def)
  ultimately show ?thesis using b(2) t [of b] by auto
qed

section \<open>Worked states\<close>

abbreviation empty_kobj :: kobj where
  "empty_kobj \<equiv> snd (kobj_reset blank_kobj)"

lemma empty_tables: "ko_mtx empty_kobj = replicate 32 mtx_zero" "ko_q empty_kobj = replicate 16 q_zero"
  "ko_w empty_kobj = (\<lambda>_. blank_waiter)" "ko_mem empty_kobj = (\<lambda>_. 0)"
  by (simp_all add: kobj_reset_def blank_kobj_def kobj_limits)

lemma seg_zero: "seg st 0 ws 0 \<longleftrightarrow> ws = []"
  by (cases ws) auto

lemma queue_head:
  assumes "kobj_inv s L" and "valid (OMtx i)" and "wl_head (mx_w (ko_mtx s ! i)) = w" and "w \<noteq> 0"
  shows "\<exists>ws. L (OMtx i) = (w # ws, [])"
proof -
  have e: "ent_inv (ko_w s) (entry s (OMtx i)) (fst (L (OMtx i))) (snd (L (OMtx i)))"
    using kobj_invD(2) [OF assms(1,2)] .
  then have "seg (ko_w s) w (fst (L (OMtx i))) 0" "snd (L (OMtx i)) = []" using assms(3) by (auto simp: wl_holds_def)
  with assms(4) show ?thesis by (cases "L (OMtx i)"; cases "fst (L (OMtx i))") auto
qed

definition demo_mtx :: kobj where
  "demo_mtx = (let s1 = snd (kmutex_create empty_kobj False); s2 = snd (kmutex_lock s1 0x20000001 0 5)
     in snd (kmutex_lock s2 0x20000001 100 6))"

lemma mtx_lookup_demo:
  "mx_used (ko_mtx s ! 0) \<Longrightarrow> mx_gen (ko_mtx s ! 0) = 0 \<Longrightarrow> mtx_lookup s 0x20000001 = Some 0"
  by (simp add: mtx_lookup_def h_lookup_def h_idx_def h_type_def h_gen_def kobj_types kobj_limits)

lemma demo_mtx_eval:
  "kreach demo_mtx" "wl_head (mx_w (ko_mtx demo_mtx ! 0)) = 100" "mx_depth (ko_mtx demo_mtx ! 0) = 1"
  "mx_owner (ko_mtx demo_mtx ! 0) = 5" "mtx_lookup demo_mtx 0x20000001 = Some 0" "kw_who (ko_w demo_mtx 100) = 6"
proof -
  let ?e0 = "mtx_zero\<lparr>mx_used := True, mx_gen := 0, mx_rec := False, mx_owner := -1\<rparr>"
  let ?e1 = "?e0\<lparr>mx_owner := 5, mx_depth := 1\<rparr>"
  let ?s1 = "snd (kmutex_create empty_kobj False)"
  let ?s2 = "snd (kmutex_lock ?s1 0x20000001 0 5)"
  have fs: "free_slot mx_used (replicate 32 mtx_zero) KMUTEX_MAX = Some 0"
    by (simp add: free_slot_def kobj_limits upt_rec mtx_zero_def)
  have g: "mx_gen mtx_zero = 0" by (simp add: mtx_zero_def)
  have s1: "?s1 = put_mtx empty_kobj 0 ?e0" by (simp add: kmutex_create_def empty_tables fs Let_def g)
  have e1: "ko_mtx ?s1 ! 0 = ?e0" unfolding s1 by (simp add: put_mtx_def empty_tables)
  have l1: "mtx_lookup ?s1 0x20000001 = Some 0" by (rule mtx_lookup_demo) (simp_all add: e1)
  have s2: "?s2 = put_mtx ?s1 0 ?e1" by (simp add: kmutex_lock_def l1 e1)
  have len: "length (ko_mtx ?s1) = 32" unfolding s1 by (simp add: put_mtx_def empty_tables)
  have e2: "ko_mtx ?s2 ! 0 = ?e1" unfolding s2 using len by (simp add: put_mtx_def)
  have l2: "mtx_lookup ?s2 0x20000001 = Some 0" by (rule mtx_lookup_demo) (simp_all add: e2)
  have w2: "ko_w ?s2 = (\<lambda>_. blank_waiter)" by (simp only: s2 store_put) (simp only: s1 store_put empty_tables)
  have len2: "length (ko_mtx ?s2) = 32" unfolding s2 using len by (simp add: put_mtx_def)
  have "kreach ?s2" by (intro kreach.mtx_lock kreach.mtx_create kreach.init) (simp_all add: fresh_def)
  moreover have "fresh ?s2 100" by (simp add: fresh_def w2 blank_waiter_def kw_defs)
  ultimately have "kreach (snd (kmutex_lock ?s2 0x20000001 100 6))" by (rule kreach.mtx_lock) simp
  then show "kreach demo_mtx" by (simp add: demo_mtx_def Let_def)
  have d: "demo_mtx = put_mtx (?s2\<lparr>ko_w := fst (wl_push ((ko_w ?s2)(100 := (ko_w ?s2 100)\<lparr>kw_who := 6\<rparr>), mx_w ?e1) 100)\<rparr>) 0
      (?e1\<lparr>mx_w := snd (wl_push ((ko_w ?s2)(100 := (ko_w ?s2 100)\<lparr>kw_who := 6\<rparr>), mx_w ?e1) 100)\<rparr>)"
    unfolding demo_mtx_def Let_def by (subst kmutex_lock_def) (simp add: l2 e2 Let_def)
  have m: "ko_mtx demo_mtx ! 0 = ?e1\<lparr>mx_w := \<lparr>wl_head = 100, wl_tail = 100\<rparr>\<rparr>"
    unfolding d using len2 by (simp add: put_mtx_def wl_push_def mtx_zero_def wl_zero_def Let_def)
  show "wl_head (mx_w (ko_mtx demo_mtx ! 0)) = 100" "mx_depth (ko_mtx demo_mtx ! 0) = 1" "mx_owner (ko_mtx demo_mtx ! 0) = 5"
    by (simp_all add: m)
  show "mtx_lookup demo_mtx 0x20000001 = Some 0" by (rule mtx_lookup_demo) (simp_all add: m)
  show "kw_who (ko_w demo_mtx 100) = 6" unfolding d
    by (simp add: wl_push_def mtx_zero_def wl_zero_def Let_def)
qed

theorem unlock_hands_over_witness:
  "\<exists>s'. kmutex_unlock demo_mtx 0x20000001 5 None = (KO_OK, None, s') \<and> kmutex_owner s' 0x20000001 = 6
     \<and> fst (kmutex_lock s' 0x20000001 0 9) \<in> {KO_AGAIN, KO_BLOCK}"
proof -
  from kreach_inv [OF demo_mtx_eval(1)] obtain L where inv: "kobj_inv demo_mtx L" by blast
  from queue_head [OF inv _ demo_mtx_eval(2)] obtain ws where L: "L (OMtx 0) = (100 # ws, [])" by (auto simp: kobj_limits)
  from unlock_hands_over [OF inv demo_mtx_eval(5) L demo_mtx_eval(3,4), where wk = None]
  show ?thesis by (auto simp: demo_mtx_eval(6) kw_add_def)
qed

text \<open>A queue of two one-byte items at 0x1000; the item 0x2000 holds 9.\<close>

definition demo_q :: kobj where
  "demo_q = (snd (kq_create empty_kobj 2 1 0x1000))\<lparr>ko_mem := (\<lambda>_. 0)(0x2000 := 9)\<rparr>"

lemma q_lookup_demo:
  "kq_used (ko_q s ! 0) \<Longrightarrow> kq_gen (ko_q s ! 0) = 0 \<Longrightarrow> q_lookup s 0x30000001 = Some 0"
  by (simp add: q_lookup_def h_lookup_def h_idx_def h_type_def h_gen_def kobj_types kobj_limits)

lemma mem_inv: "kobj_inv s L \<Longrightarrow> kobj_inv (s\<lparr>ko_mem := m\<rparr>) L"
  unfolding kobj_inv_def by simp

lemma demo_q_eval: "\<exists>L. kobj_inv demo_q L \<and> L (OQue 0) = ([], [])"
  "ko_q demo_q ! 0 = q_zero\<lparr>kq_used := True, kq_gen := 0, kq_len := 2, kq_isz := 1, kq_buf := 0x1000\<rparr>"
  "q_lookup demo_q 0x30000001 = Some 0" "ko_mem demo_q = (\<lambda>_. 0)(0x2000 := 9)"
proof -
  have fs: "free_slot kq_used (replicate 16 q_zero) KQUEUE_MAX = Some 0"
    by (simp add: free_slot_def kobj_limits upt_rec q_zero_def)
  have g: "kq_gen q_zero = 0" by (simp add: q_zero_def)
  have c: "snd (kq_create empty_kobj 2 1 0x1000) = put_q empty_kobj 0
      (q_zero\<lparr>kq_used := True, kq_gen := 0, kq_len := 2, kq_isz := 1, kq_buf := 0x1000\<rparr>)"
    by (simp add: kq_create_def empty_tables fs Let_def g) (simp add: kobj_limits)
  have k: "ko_q demo_q ! 0 = ko_q (snd (kq_create empty_kobj 2 1 0x1000)) ! 0" by (simp add: demo_q_def)
  show e: "ko_q demo_q ! 0 = q_zero\<lparr>kq_used := True, kq_gen := 0, kq_len := 2, kq_isz := 1, kq_buf := 0x1000\<rparr>"
    unfolding k c by (simp add: put_q_def empty_tables)
  show "q_lookup demo_q 0x30000001 = Some 0" by (rule q_lookup_demo) (simp_all add: e)
  show "ko_mem demo_q = (\<lambda>_. 0)(0x2000 := 9)" by (simp add: demo_q_def)
  obtain L where L: "kobj_inv demo_q L"
    using mem_inv create_q_inv [OF reset_inv] unfolding demo_q_def by blast
  have "valid (OQue 0)" by (simp add: kobj_limits)
  then have "ent_inv (ko_w demo_q) (entry demo_q (OQue 0)) (fst (L (OQue 0))) (snd (L (OQue 0)))"
    by (rule kobj_invD(2) [OF L])
  then have "seg (ko_w demo_q) 0 (fst (L (OQue 0))) 0" "seg (ko_w demo_q) 0 (snd (L (OQue 0))) 0"
    using e by (simp_all add: wl_holds_def q_zero_def wl_zero_def)
  then have "fst (L (OQue 0)) = []" "snd (L (OQue 0)) = []" by (simp_all add: seg_zero)
  with L show "\<exists>L. kobj_inv demo_q L \<and> L (OQue 0) = ([], [])" by (metis prod.collapse)
qed

theorem queue_send_witness:
  "fst (kq_send demo_q 0x30000001 0x2000 False 0 1 None) = KO_OK
   \<and> q_items (ko_mem (snd (snd (kq_send demo_q 0x30000001 0x2000 False 0 1 None))))
       (ko_q (snd (snd (kq_send demo_q 0x30000001 0x2000 False 0 1 None))) ! 0) = [[9]]"
proof -
  obtain L where L: "kobj_inv demo_q L" "L (OQue 0) = ([], [])" using demo_q_eval(1) by blast
  have "q_items (ko_mem demo_q) (ko_q demo_q ! 0) = []" by (simp add: demo_q_eval q_items_def q_zero_def)
  moreover have "mem_bytes (ko_mem demo_q) 0x2000 1 = [9]" by (simp add: demo_q_eval mem_bytes_def)
  ultimately show ?thesis
    using queue_send [OF L(1) demo_q_eval(3) L(2), where item = "0x2000" and front = False and w = 0 and who = 1 and wk = None] by (simp add: demo_q_eval(2))
qed

definition demo_q1 :: kobj where
  "demo_q1 = put_q demo_q 0 ((ko_q demo_q ! 0)\<lparr>kq_count := 1\<rparr>)"

theorem queue_recv_witness:
  "fst (kq_recv demo_q1 0x30000001 0x3000 0 1 None) = KO_OK
   \<and> q_items (ko_mem demo_q1) (ko_q demo_q1 ! 0) = [[0]]"
proof -
  obtain L where L: "kobj_inv demo_q L" "L (OQue 0) = ([], [])" using demo_q_eval(1) by blast
  have len: "0 < length (ko_q demo_q)" using kobj_invD(1) [OF L(1)] by (simp add: sizes_def kobj_limits)
  have e: "ko_q demo_q1 ! 0 = (ko_q demo_q ! 0)\<lparr>kq_count := 1\<rparr>" using len by (simp add: demo_q1_def put_q_def)
  have ent: "ent_inv (ko_w demo_q) (EQue ((ko_q demo_q ! 0)\<lparr>kq_count := 1\<rparr>)) [] []"
    by (simp add: demo_q_eval(2) q_zero_def)
  have "kobj_inv (put_q (demo_q\<lparr>ko_mem := ko_mem demo_q, ko_w := ko_w demo_q\<rparr>) 0 ((ko_q demo_q ! 0)\<lparr>kq_count := 1\<rparr>)) (L(OQue 0 := ([], [])))"
    by (rule que_upd_to [OF L(1) _ L(2), where W = "{}"]) (use ent in \<open>simp_all add: kobj_limits del: ent_inv.simps\<close>)
  then have inv: "kobj_inv demo_q1 (L(OQue 0 := ([], [])))" by (simp add: demo_q1_def)
  have look: "q_lookup demo_q1 0x30000001 = Some 0"
    by (rule q_lookup_demo) (simp_all add: e demo_q_eval(2))
  have "apart (ko_q demo_q1 ! 0) 0x3000" "0 < kq_count (ko_q demo_q1 ! 0)"
    by (simp_all add: e demo_q_eval(2) apart_def)
  from queue_recv [OF inv look _ this refl, where w = 0 and who = 1 and wk = None]
  have r: "fst (kq_recv demo_q1 0x30000001 0x3000 0 1 None) = KO_OK"
    by (cases "kq_recv demo_q1 0x30000001 0x3000 0 1 None") auto
  have "q_items (ko_mem demo_q1) (ko_q demo_q1 ! 0) = [[0]]"
    by (simp add: e demo_q_eval(2) q_items_def mem_bytes_def q_slot_def q_zero_def)
      (simp add: demo_q1_def put_q_def demo_q_eval(4))
  with r show ?thesis by simp
qed

text \<open>
  C37: Setting event bits grants, in arrival order, exactly the waiters the bits satisfy when their
  turn comes (an earlier one may have cleared bits), returns the bits that remain, wakes the granted
  ones and keeps the others waiting in order; none of those is satisfied by the remaining bits.
\<close>

theorem event_set_grants:
  assumes "kobj_inv s L" and "ev_lookup s h = Some i" and "L (OEvt i) = (r, t)"
    and "ev_pass (ko_w s) (ev_bits (ko_ev s ! i) OR bits) r = (kept, granted, b)"
  shows "\<exists>s'. kev_set s h bits wk = Some (b, fold (\<lambda>w k. kw_add k (kw_who (ko_w s w))) granted wk, s')
    \<and> kobj_inv s' (L(OEvt i := (kept, []))) \<and> (\<forall>w \<in> set granted. kw_state (ko_w s' w) = KW_GRANT)
    \<and> (\<forall>w \<in> set kept. kw_state (ko_w s' w) = KW_WAIT \<and> \<not> ev_satisfied b (kw_want (ko_w s' w)) (kw_all (ko_w s' w)))"
proof -
  define e where "e = ko_ev s ! i"
  define e1 where "e1 = e\<lparr>ev_bits := ev_bits e OR bits\<rparr>"
  note v = ev_entry [OF assms(1-3), folded e_def]
  from v have h: "wl_holds (ko_w s, ev_w e1) ([] @ r)" "waits (ko_w s) r" "t = []" by (auto simp: e1_def)
  have sg: "seg (ko_w s) (wl_head (ev_w e1)) r 0" using h(1) by (simp add: wl_holds_def)
  have p: "ev_pass (ko_w s) (ev_bits e1) r = (kept, granted, b)" using assms(4) by (simp add: e1_def e_def)
  from ev_scan_run [OF h(1) sg p, of wk] obtain st' l' where
    run: "ev_scan (ko_w s) e1 wk = Some (st', e1\<lparr>ev_w := l', ev_bits := b\<rparr>, fold (\<lambda>w k. kw_add k (kw_who (ko_w s w))) granted wk)"
      "wl_holds (st', l') kept" "\<And>x. x \<notin> set granted \<Longrightarrow> same_but_next (st' x) (ko_w s x)"
      "\<And>x. x \<notin> set r \<Longrightarrow> st' x = ko_w s x" "\<And>x. x \<in> set granted \<Longrightarrow> kw_state (st' x) = KW_GRANT"
    unfolding ev_scan_def by auto
  note sub = ev_pass_sub [OF p]
  have sbn: "same_but_next (st' x) (ko_w s x)" if "x \<in> set kept" for x
    using that run(3) ev_pass_disjoint [OF _ p] h(1) by (auto simp: wl_holds_def)
  have wt: "waits st' kept" using h(2) sub same_but_nextD(2) [OF sbn] by (auto simp: waits_def)
  have ns: "\<not> ev_satisfied b (kw_want (st' w)) (kw_all (st' w))" if "w \<in> set kept" for w
    using ev_pass_kept [OF p that] same_but_nextD(4,6) [OF sbn [OF that]] by simp
  have "kobj_inv (put_ev (s\<lparr>ko_w := st'\<rparr>) i (e1\<lparr>ev_w := l', ev_bits := b\<rparr>)) (L(OEvt i := (kept, [])))"
    by (rule evt_upd_to [OF assms(1) _ assms(3), where W = "{}"])
      (use v run(2,4) sub h(3) wt ns in \<open>auto simp: e1_def\<close>)
  moreover have "kev_set s h bits wk = Some (b, fold (\<lambda>w k. kw_add k (kw_who (ko_w s w))) granted wk,
      put_ev (s\<lparr>ko_w := st'\<rparr>) i (e1\<lparr>ev_w := l', ev_bits := b\<rparr>))"
    using assms(2) run(1) by (simp add: kev_set_def e1_def e_def [symmetric])
  ultimately show ?thesis using run(5) wt ns by (auto simp: waits_def)
qed

definition demo_ev :: kobj where
  "demo_ev = snd (snd (kev_wait (snd (kev_create empty_kobj)) 0x40000001 1 False True 100 8))"

lemma ev_lookup_demo:
  "ev_used (ko_ev s ! 0) \<Longrightarrow> ev_gen (ko_ev s ! 0) = 0 \<Longrightarrow> ev_lookup s 0x40000001 = Some 0"
  by (simp add: ev_lookup_def h_lookup_def h_idx_def h_type_def h_gen_def kobj_types kobj_limits)

lemma demo_ev_eval:
  "kreach demo_ev" "ev_lookup demo_ev 0x40000001 = Some 0" "ev_bits (ko_ev demo_ev ! 0) = 0"
  "wl_head (ev_w (ko_ev demo_ev ! 0)) = 100"
  "ko_w demo_ev 100 = blank_waiter\<lparr>kw_who := 8, kw_want := 1, kw_clear := True, kw_state := KW_WAIT\<rparr>"
proof -
  let ?e0 = "ev_zero\<lparr>ev_used := True, ev_gen := 0\<rparr>"
  let ?s1 = "snd (kev_create empty_kobj)"
  have t: "ko_ev empty_kobj = replicate 8 ev_zero" by (simp add: kobj_reset_def kobj_limits)
  have fs: "free_slot ev_used (replicate 8 ev_zero) KEVT_MAX = Some 0"
    by (simp add: free_slot_def kobj_limits upt_rec ev_zero_def)
  have g: "ev_gen ev_zero = 0" by (simp add: ev_zero_def)
  have s1: "?s1 = put_ev empty_kobj 0 ?e0" by (simp add: kev_create_def t fs Let_def g)
  have e1: "ko_ev ?s1 ! 0 = ?e0" unfolding s1 by (simp add: put_ev_def t)
  have l1: "ev_lookup ?s1 0x40000001 = Some 0" by (rule ev_lookup_demo) (simp_all add: e1)
  have w1: "ko_w ?s1 = (\<lambda>_. blank_waiter)" by (simp only: s1 store_put empty_tables)
  have len: "length (ko_ev ?s1) = 8" unfolding s1 by (simp add: put_ev_def t)
  have "kreach ?s1" by (intro kreach.ev_create kreach.init)
  moreover have "fresh ?s1 100" by (simp add: fresh_def w1 blank_waiter_def kw_defs)
  ultimately have "kreach (snd (snd (kev_wait ?s1 0x40000001 1 False True 100 8)))" by (rule kreach.ev_wait)
  then show "kreach demo_ev" by (simp add: demo_ev_def)
  let ?f = "\<lambda>r :: kwaiter. r\<lparr>kw_who := 8, kw_want := 1, kw_all := False, kw_clear := True, kw_got := 0\<rparr>"
  let ?p = "wl_push ((ko_w ?s1)(100 := ?f (ko_w ?s1 100)), ev_w ?e0) 100"
  have d: "demo_ev = put_ev (?s1\<lparr>ko_w := fst ?p\<rparr>) 0 (?e0\<lparr>ev_w := snd ?p\<rparr>)"
    unfolding demo_ev_def
    by (subst kev_wait_def) (simp add: l1 e1 Let_def ev_satisfied_def ev_zero_def)
  have m: "ko_ev demo_ev ! 0 = ?e0\<lparr>ev_w := \<lparr>wl_head = 100, wl_tail = 100\<rparr>\<rparr>"
    unfolding d using len by (simp add: put_ev_def wl_push_def ev_zero_def wl_zero_def Let_def)
  show "ev_lookup demo_ev 0x40000001 = Some 0" by (rule ev_lookup_demo) (simp_all add: m)
  show "ev_bits (ko_ev demo_ev ! 0) = 0" "wl_head (ev_w (ko_ev demo_ev ! 0)) = 100"
    by (simp_all add: m ev_zero_def)
  show "ko_w demo_ev 100 = blank_waiter\<lparr>kw_who := 8, kw_want := 1, kw_clear := True, kw_state := KW_WAIT\<rparr>"
    unfolding d by (simp add: w1 wl_push_def ev_zero_def wl_zero_def Let_def blank_waiter_def)
qed

theorem event_set_grants_witness:
  "\<exists>s'. kev_set demo_ev 0x40000001 3 (Some []) = Some (2, Some [8], s') \<and> kw_state (ko_w s' 100) = KW_GRANT"
proof -
  from kreach_inv [OF demo_ev_eval(1)] obtain L where inv: "kobj_inv demo_ev L" by blast
  have "valid (OEvt 0)" by (simp add: kobj_limits)
  then have e: "ent_inv (ko_w demo_ev) (entry demo_ev (OEvt 0)) (fst (L (OEvt 0))) (snd (L (OEvt 0)))"
    by (rule kobj_invD(2) [OF inv])
  then have sg: "seg (ko_w demo_ev) 100 (fst (L (OEvt 0))) 0" "snd (L (OEvt 0)) = []"
    using demo_ev_eval(4) by (simp_all add: wl_holds_def)
  have "seg (ko_w demo_ev) 100 [100] 0" by (simp add: demo_ev_eval(5) blank_waiter_def)
  with sg(1) have "fst (L (OEvt 0)) = [100]" by (rule seg_unique)
  with sg(2) have L: "L (OEvt 0) = ([100], [])" by (metis prod.collapse)
  have "ev_pass (ko_w demo_ev) (ev_bits (ko_ev demo_ev ! 0) OR 3) [100] = ([], [100], 2)"
    by (simp add: demo_ev_eval blank_waiter_def ev_satisfied_def)
  from event_set_grants [OF inv demo_ev_eval(2) L this, of "Some []"] show ?thesis
    by (auto simp: demo_ev_eval(5) kw_add_def KWAKE_MAX_def)
qed

end
