(* ===== verification/Sched.thy ===== *)
theory Sched
  imports Page_Alloc_Correct
begin

text \<open>
  The scheduler of \<open>kernel/sched.c\<close>: the task table, the task each hart runs, the reap slots, the
  choice of the next task, the switch, blocking with the wake token, creation and exit.

  One function is one critical section of \<open>g_sched_lock\<close> (or one access the code makes without it).
  The hart that runs the code, the clock and the address at which \<open>ctx_switch\<close> parks the frame
  of the outgoing task are arguments.  A task that is switched away from resumes later at the point
  where its call of \<open>sched_switch\<close> returns, so the state after the switch is the state the
  \<^emph>\<open>incoming\<close> task starts from.  Task names, the trace messages and the guards that only halt with
  a dump (\<open>sched_check_incoming\<close>, \<open>sched_check_free_range\<close>) are left out.
\<close>

section \<open>Data\<close>

datatype task_state = TASK_UNUSED | TASK_READY | TASK_RUNNING | TASK_BLOCKED | TASK_DEAD

definition MAX_TASKS :: nat where "MAX_TASKS = 32"
definition MAX_HARTS :: nat where "MAX_HARTS = 2"

definition TASK_PRIO_IDLE :: int where "TASK_PRIO_IDLE = 0"
definition TASK_PRIO_NORMAL :: int where "TASK_PRIO_NORMAL = 2"
definition TASK_PRIO_INTERRUPT :: int where "TASK_PRIO_INTERRUPT = 3"

definition STACK_POISON_WORD :: u32 where "STACK_POISON_WORD = 0xA5A5A5A5"

lemmas task_prios = TASK_PRIO_IDLE_def TASK_PRIO_NORMAL_def TASK_PRIO_INTERRUPT_def

text \<open>A \<open>NULL\<close> stack or domain is 0; a task's \<open>pid\<close> is its index.\<close>

record task =
  t_state :: task_state
  t_sp :: nat
  t_stack_base :: nat
  t_stack_pages :: nat
  t_domain :: nat
  t_exit_status :: int
  t_exit_clean :: bool
  t_priority :: int
  t_wake_at :: nat
  t_affinity :: int
  t_held :: bool
  t_held_affinity :: int
  t_vterm :: int
  t_parent :: int
  t_armed :: bool
  t_pending :: bool

text \<open>\<open>sc_current\<close> holds, for each hart, the index of its task or -1 (\<open>TASK_NO_PID\<close>).\<close>

record sched =
  sc_tasks :: "task list"
  sc_current :: "int list"
  sc_active :: bool
  sc_reap :: "(nat \<times> nat) list"
  sc_pages :: palloc

definition zero_task :: task where
  "zero_task = \<lparr>t_state = TASK_UNUSED, t_sp = 0, t_stack_base = 0, t_stack_pages = 0, t_domain = 0,
     t_exit_status = 0, t_exit_clean = False, t_priority = 0, t_wake_at = 0, t_affinity = 0,
     t_held = False, t_held_affinity = 0, t_vterm = 0, t_parent = 0, t_armed = False,
     t_pending = False\<rparr>"

definition tget :: "sched \<Rightarrow> nat \<Rightarrow> task" where
  "tget s i = sc_tasks s ! i"

definition tset :: "nat \<Rightarrow> (task \<Rightarrow> task) \<Rightarrow> sched \<Rightarrow> sched" where
  "tset i f s = s\<lparr>sc_tasks := (sc_tasks s)[i := f (sc_tasks s ! i)]\<rparr>"

definition cur :: "nat \<Rightarrow> sched \<Rightarrow> int" where
  "cur h s = sc_current s ! h"

definition set_cur :: "nat \<Rightarrow> nat \<Rightarrow> sched \<Rightarrow> sched" where
  "set_cur h i s = s\<lparr>sc_current := (sc_current s)[h := int i]\<rparr>"

definition pid_ok :: "int \<Rightarrow> bool" where
  "pid_ok pid \<longleftrightarrow> 0 \<le> pid \<and> pid < int MAX_TASKS"

section \<open>Boot\<close>

definition sched_init :: "palloc \<Rightarrow> sched" where
  "sched_init pages =
     \<lparr>sc_tasks = (zero_task\<lparr>t_parent := -1, t_state := TASK_RUNNING, t_affinity := 0,
                          t_priority := TASK_PRIO_NORMAL\<rparr>) #
                replicate (MAX_TASKS - 1) (zero_task\<lparr>t_parent := -1, t_affinity := -1\<rparr>),
      sc_current = 0 # replicate (MAX_HARTS - 1) (-1),
      sc_active = True,
      sc_reap = replicate MAX_HARTS (0, 0),
      sc_pages = pages\<rparr>"

definition sched_secondary_init :: "nat \<Rightarrow> sched \<Rightarrow> int \<times> sched" where
  "sched_secondary_init h s =
     (case find (\<lambda>i. t_state (tget s i) = TASK_UNUSED) [1..<MAX_TASKS] of
        None \<Rightarrow> (-1, s)
      | Some slot \<Rightarrow>
          (int slot, set_cur h slot (tset slot (\<lambda>t. t\<lparr>t_state := TASK_RUNNING, t_parent := -1,
             t_stack_base := 0, t_stack_pages := 0, t_priority := TASK_PRIO_IDLE,
             t_affinity := int h, t_held := False, t_domain := 0\<rparr>) s)))"

section \<open>Choosing the next task\<close>

text \<open>One turn of the scan: a sleeper whose time has come is made ready, then the task is compared.\<close>

definition wake_sleeper :: "nat \<Rightarrow> task \<Rightarrow> task" where
  "wake_sleeper now t =
     (if t_state t = TASK_BLOCKED \<and> t_wake_at t \<noteq> 0 \<and> t_wake_at t \<le> now
      then t\<lparr>t_wake_at := 0, t_state := TASK_READY\<rparr> else t)"

definition runnable_here :: "nat \<Rightarrow> task \<Rightarrow> bool" where
  "runnable_here h t \<longleftrightarrow> t_state t = TASK_READY \<and> \<not> (0 \<le> t_affinity t \<and> t_affinity t \<noteq> int h)"

definition next_step :: "nat \<Rightarrow> nat \<Rightarrow> nat \<Rightarrow> (int \<times> int \<times> task list) \<Rightarrow> nat \<Rightarrow> int \<times> int \<times> task list" where
  "next_step h now from st step =
     (let chosen = fst st; chosen_prio = fst (snd st); ts = snd (snd st);
          i = (from + step) mod MAX_TASKS;
          t = wake_sleeper now (ts ! i)
      in if runnable_here h t \<and> chosen_prio < t_priority t
         then (int i, t_priority t, ts[i := t]) else (chosen, chosen_prio, ts[i := t]))"

definition next_runnable :: "nat \<Rightarrow> nat \<Rightarrow> nat \<Rightarrow> sched \<Rightarrow> int \<times> sched" where
  "next_runnable h now from s =
     (let st = foldl (next_step h now from) (-1, -1, sc_tasks s) [1..<MAX_TASKS + 1]
      in (fst st, s\<lparr>sc_tasks := snd (snd st)\<rparr>))"

definition sched_peek_runnable :: "nat \<Rightarrow> sched \<Rightarrow> bool" where
  "sched_peek_runnable h s \<longleftrightarrow> sc_active s \<and> (\<exists>i \<in> set [0..<MAX_TASKS]. runnable_here h (tget s i))"

section \<open>Switching\<close>

definition sched_has_task :: "nat \<Rightarrow> sched \<Rightarrow> bool" where
  "sched_has_task h s \<longleftrightarrow> sc_active s \<and> 0 \<le> cur h s"

text \<open>The stack a dead task left on this hart is taken out of the slot and freed.\<close>

definition sched_reap :: "nat \<Rightarrow> sched \<Rightarrow> sched option" where
  "sched_reap h s =
     (let (stack, pages) = sc_reap s ! h; s1 = s\<lparr>sc_reap := (sc_reap s)[h := (0, 0)]\<rparr>
      in if stack = 0 then Some s1
         else (case palloc_free (sc_pages s1) stack pages of
                 None \<Rightarrow> None
               | Some pa \<Rightarrow> Some (s1\<lparr>sc_pages := pa\<rparr>)))"

datatype switch_result = SWITCH_RAN | SWITCH_WOKEN | SWITCH_IDLE

text \<open>
  The section of \<open>sched_switch\<close> under the lock, from the read of \<open>cur()\<close> to \<open>ctx_switch\<close>, which parks
  the frame of \<open>prev\<close> at \<open>here\<close>.
\<close>

definition switch_commit :: "nat \<Rightarrow> nat \<Rightarrow> nat \<Rightarrow> nat \<Rightarrow> nat \<Rightarrow> sched \<Rightarrow> switch_result \<times> sched" where
  "switch_commit h here prev nxt now s =
     (if nxt = prev then (SWITCH_RAN, tset prev (\<lambda>t. t\<lparr>t_state := TASK_RUNNING\<rparr>) s)
      else
        (let s1 = (if t_state (tget s prev) = TASK_RUNNING then tset prev (\<lambda>t. t\<lparr>t_state := TASK_READY\<rparr>) s else s);
             s2 = set_cur h nxt (tset nxt (\<lambda>t. t\<lparr>t_state := TASK_RUNNING\<rparr>) s1)
         in (SWITCH_RAN, tset prev (\<lambda>t. t\<lparr>t_sp := here\<rparr>) s2)))"

definition switch_locked :: "nat \<Rightarrow> nat \<Rightarrow> nat \<Rightarrow> bool \<Rightarrow> sched \<Rightarrow> switch_result \<times> sched" where
  "switch_locked h now here blocking s =
     (let prev = nat (cur h s);
          woken = t_pending (tget s prev);
          prepared = t_armed (tget s prev);
          s1 = (if blocking then tset prev (\<lambda>t. t\<lparr>t_armed := False, t_pending := False\<rparr>) s else s)
      in if blocking \<and> woken then (SWITCH_WOKEN, s1)
         else
           (let s2 = (if blocking then tset prev (\<lambda>t. t\<lparr>t_state := TASK_BLOCKED\<rparr>) s1 else s1);
                (nxt, s3) = next_runnable h now prev s2
            in if nxt < 0 then
                 (SWITCH_IDLE,
                  if blocking \<and> t_state (tget s3 prev) \<noteq> TASK_RUNNING
                  then tset prev (\<lambda>t. t\<lparr>t_state := TASK_RUNNING, t_armed := prepared\<rparr>) s3 else s3)
               else switch_commit h here prev (nat nxt) now s3))"

definition sched_switch :: "nat \<Rightarrow> nat \<Rightarrow> nat \<Rightarrow> bool \<Rightarrow> sched \<Rightarrow> (switch_result \<times> sched) option" where
  "sched_switch h now here blocking s =
     (if \<not> sc_active s then Some (SWITCH_IDLE, s)
      else if \<not> sched_has_task h s then Some (SWITCH_IDLE, s)
      else (case sched_reap h s of
              None \<Rightarrow> None
            | Some s1 \<Rightarrow> Some (switch_locked h now here blocking s1)))"

definition sched_yield :: "nat \<Rightarrow> nat \<Rightarrow> nat \<Rightarrow> sched \<Rightarrow> sched option" where
  "sched_yield h now here s = map_option snd (sched_switch h now here False s)"

section \<open>Blocking, and the wake token\<close>

text \<open>
  \<open>task_block\<close> up to the end of its switch.  When nothing else could run, the code goes on to wait
  on this hart until the token is set or something is runnable: \<open>idle_wait\<close> is the test of that
  loop, which changes nothing.
\<close>

definition task_block :: "nat \<Rightarrow> nat \<Rightarrow> nat \<Rightarrow> sched \<Rightarrow> (switch_result \<times> sched) option" where
  "task_block h now here s =
     (if \<not> sc_active s then Some (SWITCH_IDLE, s)
      else if \<not> sched_has_task h s then Some (SWITCH_IDLE, s)
      else sched_switch h now here True s)"

definition idle_wait :: "nat \<Rightarrow> sched \<Rightarrow> bool" where
  "idle_wait h s \<longleftrightarrow> t_armed (tget s (nat (cur h s))) \<and> \<not> t_pending (tget s (nat (cur h s)))
     \<and> \<not> sched_peek_runnable h s"

definition task_prepare_block :: "nat \<Rightarrow> sched \<Rightarrow> sched" where
  "task_prepare_block h s =
     (if \<not> sc_active s \<or> \<not> sched_has_task h s then s
      else tset (nat (cur h s)) (\<lambda>t. t\<lparr>t_armed := True, t_pending := False\<rparr>) s)"

definition task_wait_done :: "nat \<Rightarrow> sched \<Rightarrow> sched" where
  "task_wait_done h s =
     (if \<not> sc_active s \<or> \<not> sched_has_task h s then s
      else tset (nat (cur h s)) (\<lambda>t. t\<lparr>t_armed := False, t_pending := False\<rparr>) s)"

definition task_unblock :: "int \<Rightarrow> sched \<Rightarrow> int \<times> sched" where
  "task_unblock pid s =
     (if \<not> sc_active s \<or> \<not> pid_ok pid then (-1, s)
      else if t_state (tget s (nat pid)) \<noteq> TASK_BLOCKED then
        (-1, if t_armed (tget s (nat pid)) then tset (nat pid) (\<lambda>t. t\<lparr>t_pending := True\<rparr>) s else s)
      else (0, tset (nat pid) (\<lambda>t. t\<lparr>t_armed := False, t_wake_at := 0, t_state := TASK_READY\<rparr>) s))"

text \<open>
  The three sections of \<open>task_block_until_ms\<close>: record the deadline, block, forget the deadline.
  \<open>task_sleep_ms\<close> repeats the first two until the clock has reached the deadline.
\<close>

definition set_deadline :: "nat \<Rightarrow> nat \<Rightarrow> sched \<Rightarrow> sched" where
  "set_deadline h deadline s = tset (nat (cur h s)) (\<lambda>t. t\<lparr>t_wake_at := deadline\<rparr>) s"

definition task_block_until_ms :: "nat \<Rightarrow> nat \<Rightarrow> nat \<Rightarrow> nat \<Rightarrow> sched \<Rightarrow> (switch_result \<times> sched) option" where
  "task_block_until_ms h now here deadline s =
     (if deadline = 0 \<or> \<not> sc_active s \<or> \<not> sched_has_task h s then task_block h now here s
      else task_block h now here (set_deadline h deadline s))"

section \<open>Task attributes\<close>

definition task_set_priority :: "int \<Rightarrow> int \<Rightarrow> sched \<Rightarrow> int \<times> sched" where
  "task_set_priority pid priority s =
     (if \<not> pid_ok pid then (-1, s)
      else if t_state (tget s (nat pid)) = TASK_UNUSED then (-1, s)
      else if priority < TASK_PRIO_IDLE \<or> TASK_PRIO_INTERRUPT < priority then (-1, s)
      else (0, tset (nat pid) (\<lambda>t. t\<lparr>t_priority := priority\<rparr>) s))"

definition task_affinity :: "int \<Rightarrow> sched \<Rightarrow> int" where
  "task_affinity pid s =
     (if \<not> pid_ok pid then -1
      else if t_state (tget s (nat pid)) = TASK_UNUSED then -1
      else t_affinity (tget s (nat pid)))"

definition task_set_affinity :: "int \<Rightarrow> int \<Rightarrow> sched \<Rightarrow> int \<times> sched" where
  "task_set_affinity pid hart s =
     (if \<not> pid_ok pid then (-1, s)
      else if t_state (tget s (nat pid)) = TASK_UNUSED then (-1, s)
      else if int MAX_HARTS \<le> hart then (-1, s)
      else (0, tset (nat pid) (\<lambda>t. t\<lparr>t_affinity := hart\<rparr>) s))"

definition sched_hold_current_on_hart :: "nat \<Rightarrow> sched \<Rightarrow> sched" where
  "sched_hold_current_on_hart h s =
     (if \<not> sc_active s \<or> \<not> pid_ok (cur h s) then s
      else if t_held (tget s (nat (cur h s))) then s
      else tset (nat (cur h s)) (\<lambda>t. t\<lparr>t_held_affinity := t_affinity t, t_held := True,
             t_affinity := int h\<rparr>) s)"

definition sched_release_hart_holds :: "nat \<Rightarrow> sched \<Rightarrow> sched" where
  "sched_release_hart_holds hart s =
     (if \<not> sc_active s then s
      else s\<lparr>sc_tasks := map (\<lambda>t. if t_held t \<and> t_affinity t = int hart
                                  then t\<lparr>t_held := False, t_affinity := t_held_affinity t\<rparr> else t)
                          (sc_tasks s)\<rparr>)"

definition task_set_exit_status :: "nat \<Rightarrow> int \<Rightarrow> sched \<Rightarrow> sched" where
  "task_set_exit_status h status s =
     (if \<not> sc_active s \<or> \<not> sched_has_task h s then s
      else tset (nat (cur h s)) (\<lambda>t. t\<lparr>t_exit_status := status, t_exit_clean := True\<rparr>) s)"

definition sched_task_state :: "int \<Rightarrow> sched \<Rightarrow> task_state" where
  "sched_task_state pid s =
     (if \<not> sc_active s \<or> \<not> pid_ok pid then TASK_UNUSED else t_state (tget s (nat pid)))"

definition sched_task_exited_cleanly :: "int \<Rightarrow> sched \<Rightarrow> int option" where
  "sched_task_exited_cleanly pid s =
     (if \<not> sc_active s \<or> \<not> pid_ok pid then None
      else if t_state (tget s (nat pid)) \<noteq> TASK_DEAD then None
      else if \<not> t_exit_clean (tget s (nat pid)) then None
      else Some (t_exit_status (tget s (nat pid))))"

definition sched_domain_in_use :: "nat \<Rightarrow> sched \<Rightarrow> bool" where
  "sched_domain_in_use domain s \<longleftrightarrow> domain \<noteq> 0 \<and>
     (\<exists>i \<in> set [0..<MAX_TASKS]. t_state (tget s i) \<notin> {TASK_UNUSED, TASK_DEAD} \<and> t_domain (tget s i) = domain)"

definition sched_current_pid :: "nat \<Rightarrow> sched \<Rightarrow> int" where
  "sched_current_pid h s = (if \<not> sc_active s then -1 else if 0 \<le> cur h s then cur h s else -1)"

definition sched_context_id :: "nat \<Rightarrow> sched \<Rightarrow> int" where
  "sched_context_id h s =
     (if 0 \<le> sched_current_pid h s then sched_current_pid h s else int MAX_TASKS + int h)"

section \<open>Creation\<close>

text \<open>
  \<open>task_create_full\<close> in its three parts: a slot is claimed under the lock, the stack is allocated
  and the slot filled in outside it, and the task is published under the lock again.  \<open>tramp\<close> is
  the address of \<open>task_trampoline\<close> and \<open>caller\<close> the return address the allocator records.
\<close>

definition task_reserve :: "sched \<Rightarrow> nat option \<times> sched" where
  "task_reserve s =
     (case find (\<lambda>i. t_state (tget s i) = TASK_UNUSED \<or> t_state (tget s i) = TASK_DEAD) [1..<MAX_TASKS] of
        None \<Rightarrow> (None, s)
      | Some slot \<Rightarrow> (Some slot, tset slot (\<lambda>t. t\<lparr>t_state := TASK_BLOCKED\<rparr>) s))"

definition paint_stack :: "nat \<Rightarrow> nat \<Rightarrow> (nat \<Rightarrow> u8) \<Rightarrow> nat \<Rightarrow> u8" where
  "paint_stack stack pages mem =
     fold (\<lambda>i. store32 (stack + 4 * i) STACK_POISON_WORD) [0..<wrap32 (pages * PAGE_SIZE) div 4] mem"

definition frame_addr :: "nat \<Rightarrow> nat \<Rightarrow> nat" where
  "frame_addr stack pages = (stack + wrap32 (pages * PAGE_SIZE)) div 16 * 16 - 64"

definition prime_frame :: "nat \<Rightarrow> u32 \<Rightarrow> u32 \<Rightarrow> u32 \<Rightarrow> (nat \<Rightarrow> u8) \<Rightarrow> nat \<Rightarrow> u8" where
  "prime_frame frame tramp entry arg mem =
     store32 (frame + 8) arg (store32 (frame + 4) entry (store32 frame tramp
       (fold (\<lambda>i. store32 (frame + 4 * i) 0) [0..<16] mem)))"

definition task_fill ::
    "nat \<Rightarrow> nat \<Rightarrow> u32 \<Rightarrow> u32 \<Rightarrow> u32 \<Rightarrow> nat \<Rightarrow> nat \<Rightarrow> int \<Rightarrow> sched \<Rightarrow> sched" where
  "task_fill h slot tramp entry arg stack pages hart s =
     (let cpid = cur h s;
          s1 = tset slot (\<lambda>t. t\<lparr>t_stack_base := stack, t_stack_pages := pages, t_domain := 0,
                 t_exit_status := 0, t_affinity := hart, t_held := False, t_exit_clean := False,
                 t_priority := TASK_PRIO_NORMAL, t_wake_at := 0, t_armed := False, t_pending := False,
                 t_parent := (if pid_ok cpid then cpid else -1),
                 t_vterm := (if pid_ok cpid then t_vterm (tget s (nat cpid)) else 0),
                 t_sp := frame_addr stack pages\<rparr>) s
      in s1\<lparr>sc_pages := pa_mem_update
              (\<lambda>mem. prime_frame (frame_addr stack pages) tramp entry arg (paint_stack stack pages mem))
              (sc_pages s1)\<rparr>)"

definition task_publish :: "nat \<Rightarrow> sched \<Rightarrow> sched" where
  "task_publish slot s = tset slot (\<lambda>t. t\<lparr>t_state := TASK_READY\<rparr>) s"

definition task_finish ::
    "nat \<Rightarrow> nat \<Rightarrow> u32 \<Rightarrow> u32 \<Rightarrow> u32 \<Rightarrow> nat \<Rightarrow> int \<Rightarrow> nat \<Rightarrow> sched \<Rightarrow> int \<times> sched" where
  "task_finish h slot tramp entry arg pages hart caller s =
     (case palloc_pages (sc_pages s) pages caller of
        (None, pa) \<Rightarrow> (-1, tset slot (\<lambda>t. t\<lparr>t_state := TASK_UNUSED\<rparr>) (s\<lparr>sc_pages := pa\<rparr>))
      | (Some stack, pa) \<Rightarrow>
          (int slot, task_publish slot (task_fill h slot tramp entry arg stack pages hart (s\<lparr>sc_pages := pa\<rparr>))))"

definition task_create_full ::
    "nat \<Rightarrow> u32 \<Rightarrow> u32 \<Rightarrow> u32 \<Rightarrow> nat \<Rightarrow> int \<Rightarrow> nat \<Rightarrow> sched \<Rightarrow> int \<times> sched" where
  "task_create_full h tramp entry arg pages hart caller s =
     (if entry = 0 \<or> pages = 0 then (-1, s)
      else if int MAX_HARTS \<le> hart then (-1, s)
      else (case task_reserve s of
              (None, s1) \<Rightarrow> (-1, s1)
            | (Some slot, s1) \<Rightarrow> task_finish h slot tramp entry arg pages hart caller s1))"

section \<open>Stacks\<close>

fun poison_scan :: "(nat \<Rightarrow> u8) \<Rightarrow> nat \<Rightarrow> nat \<Rightarrow> nat" where
  "poison_scan mem p 0 = 0"
| "poison_scan mem p (Suc words) =
     (if load32 p mem = STACK_POISON_WORD then poison_scan mem (p + 4) words else 4 * Suc words)"

definition sched_stack_used :: "int \<Rightarrow> sched \<Rightarrow> nat" where
  "sched_stack_used pid s =
     (if \<not> pid_ok pid then 0
      else let t = tget s (nat pid) in
        if t_state t = TASK_UNUSED \<or> t_stack_base t = 0 then 0
        else poison_scan (pa_mem (sc_pages s)) (t_stack_base t) (wrap32 (t_stack_pages t * PAGE_SIZE) div 4))"

definition sched_stack_full :: "int \<Rightarrow> sched \<Rightarrow> bool" where
  "sched_stack_full pid s \<longleftrightarrow> pid_ok pid \<and> t_state (tget s (nat pid)) \<noteq> TASK_UNUSED
     \<and> t_stack_base (tget s (nat pid)) \<noteq> 0
     \<and> load32 (t_stack_base (tget s (nat pid))) (pa_mem (sc_pages s)) \<noteq> STACK_POISON_WORD"

definition sched_stack_size :: "int \<Rightarrow> sched \<Rightarrow> nat" where
  "sched_stack_size pid s =
     (if \<not> pid_ok pid then 0
      else let t = tget s (nat pid) in
        if t_state t = TASK_UNUSED \<or> t_stack_base t = 0 then 0 else wrap32 (t_stack_pages t * PAGE_SIZE))"

section \<open>Exit\<close>

text \<open>
  What \<open>task_start\<close> does when the body returns, and \<open>task_exit\<close> from the acquisition of the lock on:
  it spins on a hart without a task, parks when nothing else can run, and halts when the reap slot
  is occupied.
\<close>

definition task_return :: "nat \<Rightarrow> sched \<Rightarrow> sched" where
  "task_return h s =
     (if t_exit_clean (tget s (nat (cur h s))) then s else task_set_exit_status h 0 s)"

datatype exit_outcome = EXIT_SPIN | EXIT_PARKED | EXIT_HALTED | EXIT_SWITCHED

definition task_exit :: "nat \<Rightarrow> nat \<Rightarrow> nat \<Rightarrow> sched \<Rightarrow> exit_outcome \<times> sched" where
  "task_exit h now here s =
     (if \<not> sc_active s \<or> \<not> sched_has_task h s then (EXIT_SPIN, s)
      else
        (let c = nat (cur h s); (nxt, s1) = next_runnable h now c s
         in if nxt < 0 then (EXIT_PARKED, s1)
            else if fst (sc_reap s1 ! h) \<noteq> 0 then (EXIT_HALTED, s1)
            else
              (let t = tget s1 c;
                   s2 = s1\<lparr>sc_reap := (sc_reap s1)[h := (t_stack_base t, t_stack_pages t)]\<rparr>;
                   s3 = tset c (\<lambda>t. t\<lparr>t_state := TASK_DEAD, t_stack_base := 0, t_stack_pages := 0\<rparr>) s2;
                   s4 = set_cur h (nat nxt) (tset (nat nxt) (\<lambda>t. t\<lparr>t_state := TASK_RUNNING\<rparr>) s3)
               in (EXIT_SWITCHED, tset c (\<lambda>t. t\<lparr>t_sp := here\<rparr>) s4))))"

end
