(* ===== verification/Sched_Correct.thy ===== *)
theory Sched_Correct
  imports Sched
begin

text \<open>
  What the scheduler guarantees: each running task is on exactly one hart; the stacks of live tasks
  are page blocks nobody else holds, and a stack is freed only when no task stands on it; the scan
  picks the highest priority, round robin within it; a wake between prepare and block is not lost.
\<close>

lemmas sched_limits = MAX_TASKS_def MAX_HARTS_def

section \<open>Access to the task table\<close>

lemma tset_simps [simp]:
  "sc_current (tset i f s) = sc_current s" "sc_reap (tset i f s) = sc_reap s"
  "sc_pages (tset i f s) = sc_pages s" "sc_active (tset i f s) = sc_active s"
  "length (sc_tasks (tset i f s)) = length (sc_tasks s)" "cur h (tset i f s) = cur h s"
  by (simp_all add: tset_def cur_def)

lemma set_cur_simps [simp]:
  "sc_tasks (set_cur h i s) = sc_tasks s" "sc_reap (set_cur h i s) = sc_reap s"
  "sc_pages (set_cur h i s) = sc_pages s" "sc_active (set_cur h i s) = sc_active s"
  "length (sc_current (set_cur h i s)) = length (sc_current s)" "tget (set_cur h i s) j = tget s j"
  by (simp_all add: set_cur_def tget_def)

lemma tget_tset: "i < length (sc_tasks s) \<Longrightarrow> tget (tset i f s) j = (if i = j then f (tget s i) else tget s j)"
  by (simp add: tget_def tset_def)

lemma cur_set_cur: "h < length (sc_current s) \<Longrightarrow> cur g (set_cur h i s) = (if g = h then int i else cur g s)"
  by (simp add: cur_def set_cur_def)

lemma tget_update [simp]: "tget (s\<lparr>sc_pages := pa\<rparr>) i = tget s i" "tget (s\<lparr>sc_reap := r\<rparr>) i = tget s i"
  "cur h (s\<lparr>sc_pages := pa\<rparr>) = cur h s" "cur h (s\<lparr>sc_reap := r\<rparr>) = cur h s"
  "cur h (s\<lparr>sc_tasks := ts\<rparr>) = cur h s" "tget (s\<lparr>sc_tasks := ts\<rparr>) i = ts ! i"
  by (simp_all add: tget_def cur_def)

lemma wake_sleeper_fields [simp]:
  "t_stack_base (wake_sleeper now t) = t_stack_base t" "t_stack_pages (wake_sleeper now t) = t_stack_pages t"
  "t_priority (wake_sleeper now t) = t_priority t" "t_affinity (wake_sleeper now t) = t_affinity t"
  "t_armed (wake_sleeper now t) = t_armed t" "t_pending (wake_sleeper now t) = t_pending t"
  "t_sp (wake_sleeper now t) = t_sp t"
  by (simp_all add: wake_sleeper_def)

lemma wake_sleeper_idem [simp]: "wake_sleeper now (wake_sleeper now t) = wake_sleeper now t"
  by (simp add: wake_sleeper_def)

section \<open>The scan\<close>

definition rot :: "nat \<Rightarrow> nat \<Rightarrow> nat" where
  "rot from step = (from + step) mod 32"

lemma rot_less [simp]: "rot from k < 32"
  by (simp add: rot_def)

lemma rot_eq_le: "rot from a = rot from b \<Longrightarrow> 1 \<le> a \<Longrightarrow> a \<le> b \<Longrightarrow> b \<le> 32 \<Longrightarrow> a = b"
proof -
  assume r: "rot from a = rot from b" and ab: "1 \<le> a" "a \<le> b" "b \<le> 32"
  have "32 dvd (from + b) - (from + a)"
    using r ab(2) by (subst mod_eq_dvd_iff_nat [symmetric]) (auto simp: rot_def)
  then have "32 dvd b - a" by simp
  then show "a = b" using ab by (auto dest!: dvd_imp_le)
qed

lemma rot_inj: "1 \<le> a \<Longrightarrow> a \<le> 32 \<Longrightarrow> 1 \<le> b \<Longrightarrow> b \<le> 32 \<Longrightarrow> rot from a = rot from b \<Longrightarrow> a = b"
  using rot_eq_le [of "from" a b] rot_eq_le [of "from" b a] by (cases "a \<le> b") auto

lemma rot_surj:
  assumes "i < 32" and "from < 32"
  shows "\<exists>k. 1 \<le> k \<and> k \<le> 32 \<and> rot from k = i"
proof (cases "i \<le> from")
  case True
  have "from + (i + 32 - from) = i + 32" using assms by simp
  then have "rot from (i + 32 - from) = i" using assms by (simp add: rot_def)
  moreover have "1 \<le> i + 32 - from \<and> i + 32 - from \<le> 32" using assms True by linarith
  ultimately show ?thesis by blast
next
  case False
  then have "from + (i - from) = i" by simp
  then have "rot from (i - from) = i" using assms by (simp add: rot_def)
  moreover have "1 \<le> i - from \<and> i - from \<le> 32" using assms False by linarith
  ultimately show ?thesis by blast
qed

definition best :: "nat \<Rightarrow> nat \<Rightarrow> nat \<Rightarrow> task list \<Rightarrow> nat \<Rightarrow> int \<Rightarrow> int \<Rightarrow> bool" where
  "best h now from ts k c p \<longleftrightarrow>
     (c = -1 \<and> p = -1 \<and> (\<forall>j. 1 \<le> j \<and> j \<le> k \<longrightarrow> \<not> runnable_here h (wake_sleeper now (ts ! rot from j))))
     \<or> (\<exists>j. 1 \<le> j \<and> j \<le> k \<and> c = int (rot from j) \<and> p = t_priority (ts ! rot from j)
          \<and> runnable_here h (wake_sleeper now (ts ! rot from j))
          \<and> (\<forall>i. 1 \<le> i \<and> i \<le> k \<and> runnable_here h (wake_sleeper now (ts ! rot from i)) \<longrightarrow>
               t_priority (ts ! rot from i) \<le> p \<and> (i < j \<longrightarrow> t_priority (ts ! rot from i) < p)))"

lemma scan_prefix:
  assumes len: "length ts = 32" and prio: "\<And>i. i < 32 \<Longrightarrow> 0 \<le> t_priority (ts ! i)" and k: "k \<le> 32"
  shows "\<exists>c p ts'. foldl (next_step h now from) (-1, -1, ts) [1..<k + 1] = (c, p, ts') \<and> length ts' = 32
    \<and> (\<forall>i < 32. ts' ! i = (if \<exists>j. 1 \<le> j \<and> j \<le> k \<and> rot from j = i then wake_sleeper now (ts ! i) else ts ! i))
    \<and> best h now from ts k c p"
  using k
proof (induction k)
  case 0
  then show ?case using len by (auto simp: best_def)
next
  case (Suc k)
  then obtain c p ts' where IH: "foldl (next_step h now from) (-1, -1, ts) [1..<k + 1] = (c, p, ts')"
    and len': "length ts' = 32" and b: "best h now from ts k c p"
    and ts': "\<And>i. i < 32 \<Longrightarrow> ts' ! i = (if \<exists>j. 1 \<le> j \<and> j \<le> k \<and> rot from j = i then wake_sleeper now (ts ! i) else ts ! i)"
    by auto
  let ?i = "rot from (Suc k)"
  have "\<not> (\<exists>j. 1 \<le> j \<and> j \<le> k \<and> rot from j = ?i)"
    using rot_inj [of _ "Suc k" "from"] Suc.prems by fastforce
  then have old: "ts' ! ?i = ts ! ?i" using ts' [of ?i] by (simp only: rot_less if_False)
  let ?t = "wake_sleeper now (ts ! ?i)"
  define take_it where "take_it \<longleftrightarrow> runnable_here h ?t \<and> p < t_priority (ts ! ?i)"
  have idx: "(from + Suc k) mod MAX_TASKS = ?i" by (simp add: rot_def MAX_TASKS_def)
  have fold: "foldl (next_step h now from) (-1, -1, ts) [1..<Suc k + 1] =
      ((if take_it then int ?i else c), (if take_it then t_priority (ts ! ?i) else p), ts'[?i := ?t])"
  proof -
    have "[1..<Suc k + 1] = [1..<k + 1] @ [Suc k]" by simp
    then have "foldl (next_step h now from) (-1, -1, ts) [1..<Suc k + 1] = next_step h now from (c, p, ts') (Suc k)"
      using IH by simp
    then show ?thesis unfolding next_step_def idx by (simp add: Let_def old take_it_def)
  qed
  have table: "ts'[?i := ?t] ! i = (if \<exists>j. 1 \<le> j \<and> j \<le> Suc k \<and> rot from j = i then wake_sleeper now (ts ! i) else ts ! i)"
    if i: "i < 32" for i
  proof (cases "i = ?i")
    case True
    moreover have "\<exists>j. 1 \<le> j \<and> j \<le> Suc k \<and> rot from j = ?i" by (rule exI [of _ "Suc k"]) simp
    ultimately show ?thesis using len' by simp
  next
    case False
    then have "(\<exists>j. 1 \<le> j \<and> j \<le> Suc k \<and> rot from j = i) \<longleftrightarrow> (\<exists>j. 1 \<le> j \<and> j \<le> k \<and> rot from j = i)"
      by (metis le_Suc_eq)
    then show ?thesis using ts' [OF i] False by simp
  qed
  have "best h now from ts (Suc k) (if take_it then int ?i else c) (if take_it then t_priority (ts ! ?i) else p)"
    using b [unfolded best_def]
  proof (elim disjE exE conjE)
    assume none: "c = -1" "p = -1" "\<forall>j. 1 \<le> j \<and> j \<le> k \<longrightarrow> \<not> runnable_here h (wake_sleeper now (ts ! rot from j))"
    show ?thesis
    proof (cases take_it)
      case True
      then show ?thesis unfolding best_def
        using none by (intro disjI2 exI [of _ "Suc k"]) (auto simp: take_it_def le_Suc_eq)
    next
      case False
      then have "\<not> runnable_here h ?t" using none prio [of ?i] by (auto simp: take_it_def)
      then show ?thesis unfolding best_def using none False by (intro disjI1) (auto simp: le_Suc_eq)
    qed
  next
    fix j
    assume j: "1 \<le> j" "j \<le> k" "c = int (rot from j)" "p = t_priority (ts ! rot from j)"
      "runnable_here h (wake_sleeper now (ts ! rot from j))"
      "\<forall>i. 1 \<le> i \<and> i \<le> k \<and> runnable_here h (wake_sleeper now (ts ! rot from i)) \<longrightarrow>
         t_priority (ts ! rot from i) \<le> p \<and> (i < j \<longrightarrow> t_priority (ts ! rot from i) < p)"
    show ?thesis
    proof (cases take_it)
      case True
      have "t_priority (ts ! rot from i) < t_priority (ts ! ?i)"
        if "1 \<le> i" "i \<le> k" "runnable_here h (wake_sleeper now (ts ! rot from i))" for i
        using j(6) that True by (fastforce simp: take_it_def)
      with True show ?thesis unfolding best_def
        by (intro disjI2 exI [of _ "Suc k"]) (auto simp: take_it_def le_Suc_eq intro: less_imp_le)
    next
      case False
      then show ?thesis unfolding best_def
        using j by (intro disjI2 exI [of _ j]) (auto simp: take_it_def le_Suc_eq not_less)
    qed
  qed
  with fold table len' show ?case by auto
qed

text \<open>The whole scan: every task past its deadline is awake afterwards, and the choice is the best one.\<close>

definition prios_ok :: "sched \<Rightarrow> bool" where
  "prios_ok s \<longleftrightarrow> length (sc_tasks s) = 32 \<and> (\<forall>i < 32. 0 \<le> t_priority (tget s i))"

lemma next_runnable_scan:
  assumes "prios_ok s" and "from < 32" and "next_runnable h now from s = (c, s')"
  shows "s' = s\<lparr>sc_tasks := map (wake_sleeper now) (sc_tasks s)\<rparr>"
    and "\<exists>p. best h now from (sc_tasks s) 32 c p"
proof -
  have len: "length (sc_tasks s) = 32" and prio: "\<And>i. i < 32 \<Longrightarrow> 0 \<le> t_priority (sc_tasks s ! i)"
    using assms(1) by (auto simp: prios_ok_def tget_def)
  obtain p ts' where fold: "foldl (next_step h now from) (-1, -1, sc_tasks s) [1..<MAX_TASKS + 1] = (c, p, ts')"
    and s': "s' = s\<lparr>sc_tasks := ts'\<rparr>"
    using assms(3) by (auto simp: next_runnable_def Let_def prod_eq_iff)
  from scan_prefix [OF len prio, of 32 h now "from"] fold
  have ts': "length ts' = 32" "\<forall>i < 32. ts' ! i = (if \<exists>j. 1 \<le> j \<and> j \<le> 32 \<and> rot from j = i then wake_sleeper now (sc_tasks s ! i) else sc_tasks s ! i)"
    and b: "best h now from (sc_tasks s) 32 c p"
    by (auto simp: MAX_TASKS_def)
  have "ts' = map (wake_sleeper now) (sc_tasks s)"
    by (rule nth_equalityI) (use ts' len rot_surj [OF _ assms(2)] in \<open>simp_all\<close>)
  with s' show "s' = s\<lparr>sc_tasks := map (wake_sleeper now) (sc_tasks s)\<rparr>" by simp
  from b show "\<exists>p. best h now from (sc_tasks s) 32 c p" by blast
qed

section \<open>The system: the scheduler together with what the kernel around it does\<close>

text \<open>
  \<open>sy_reserved\<close> are the slots a creator has claimed and not yet published, \<open>sy_landed\<close> the harts
  that have just arrived on another task's stack and go on to \<open>sched_reap\<close> (every arrival does so
  first, and so does the tick that interrupts it), \<open>sy_boot\<close> the tasks that stand on a boot stack,
  and \<open>sy_others\<close> the page blocks other parts of the kernel hold.
\<close>

record sys =
  sy :: sched
  sy_reserved :: "nat set"
  sy_landed :: "nat set"
  sy_boot :: "nat set"
  sy_others :: "(nat \<times> nat) set"

definition moved :: "nat \<Rightarrow> sched \<Rightarrow> sys \<Rightarrow> sys" where
  "moved h s' x = x\<lparr>sy := s', sy_landed := (if cur h s' = cur h (sy x) then sy_landed x - {h}
                                            else insert h (sy_landed x))\<rparr>"

text \<open>
  The steps.  A hart that has landed first reaps (a tick may come before that); a wake names any
  task but one that is only being created; \<open>task_exit\<close> is not called from inside a timed wait.
\<close>

datatype actor = Tick nat | Own nat | Env

inductive sys_step :: "actor \<Rightarrow> sys \<Rightarrow> sys \<Rightarrow> bool" where
  yield: "h < MAX_HARTS \<Longrightarrow> sched_has_task h (sy x) \<Longrightarrow> sched_yield h now here (sy x) = Some s' \<Longrightarrow>
    sys_step (Tick h) x (moved h s' x)"
| blocks: "h < MAX_HARTS \<Longrightarrow> sched_has_task h (sy x) \<Longrightarrow> h \<notin> sy_landed x \<Longrightarrow>
    task_block h now here (sy x) = Some (r, s') \<Longrightarrow> sys_step (Own h) x (moved h s' x)"
| block_until: "h < MAX_HARTS \<Longrightarrow> sched_has_task h (sy x) \<Longrightarrow> h \<notin> sy_landed x \<Longrightarrow>
    task_block_until_ms h now here deadline (sy x) = Some (r, s') \<Longrightarrow> sys_step (Own h) x (moved h s' x)"
| deadline: "h < MAX_HARTS \<Longrightarrow> sched_has_task h (sy x) \<Longrightarrow> h \<notin> sy_landed x \<Longrightarrow>
    sys_step (Own h) x (x\<lparr>sy := set_deadline h d (sy x)\<rparr>)"
| reap: "h < MAX_HARTS \<Longrightarrow> sched_reap h (sy x) = Some s' \<Longrightarrow>
    sys_step (Tick h) x (x\<lparr>sy := s', sy_landed := sy_landed x - {h}\<rparr>)"
| prepare: "h < MAX_HARTS \<Longrightarrow> sys_step (Own h) x (x\<lparr>sy := task_prepare_block h (sy x)\<rparr>)"
| wait_done: "h < MAX_HARTS \<Longrightarrow> sys_step (Own h) x (x\<lparr>sy := task_wait_done h (sy x)\<rparr>)"
| unblock: "nat pid \<notin> sy_reserved x \<Longrightarrow> sys_step Env x (x\<lparr>sy := snd (task_unblock pid (sy x))\<rparr>)"
| priority: "sys_step Env x (x\<lparr>sy := snd (task_set_priority pid prio (sy x))\<rparr>)"
| affinity: "sys_step Env x (x\<lparr>sy := snd (task_set_affinity pid hart (sy x))\<rparr>)"
| hold: "h < MAX_HARTS \<Longrightarrow> sys_step (Own h) x (x\<lparr>sy := sched_hold_current_on_hart h (sy x)\<rparr>)"
| release: "sys_step Env x (x\<lparr>sy := sched_release_hart_holds hart (sy x)\<rparr>)"
| status: "h < MAX_HARTS \<Longrightarrow> sys_step (Own h) x (x\<lparr>sy := task_set_exit_status h v (sy x)\<rparr>)"
| returned: "h < MAX_HARTS \<Longrightarrow> sched_has_task h (sy x) \<Longrightarrow> sys_step (Own h) x (x\<lparr>sy := task_return h (sy x)\<rparr>)"
| secondary: "h < MAX_HARTS \<Longrightarrow> cur h (sy x) = -1 \<Longrightarrow> sched_secondary_init h (sy x) = (int slot, s') \<Longrightarrow>
    sys_step Env x (x\<lparr>sy := s', sy_boot := insert slot (sy_boot x)\<rparr>)"
| reserve: "task_reserve (sy x) = (Some slot, s') \<Longrightarrow>
    sys_step Env x (x\<lparr>sy := s', sy_reserved := insert slot (sy_reserved x), sy_boot := sy_boot x - {slot}\<rparr>)"
| finish: "h < MAX_HARTS \<Longrightarrow> slot \<in> sy_reserved x \<Longrightarrow> hart < int MAX_HARTS \<Longrightarrow> 0 < pages \<Longrightarrow>
    task_finish h slot tramp entry arg pages hart caller (sy x) = (r, s') \<Longrightarrow>
    sys_step Env x (x\<lparr>sy := s', sy_reserved := sy_reserved x - {slot}\<rparr>)"
| exits: "h < MAX_HARTS \<Longrightarrow> sched_has_task h (sy x) \<Longrightarrow> h \<notin> sy_landed x \<Longrightarrow>
    t_wake_at (tget (sy x) (nat (cur h (sy x)))) = 0 \<Longrightarrow> task_exit h now here (sy x) = (r, s') \<Longrightarrow>
    sys_step (Own h) x (moved h s' x)"
| take_pages: "palloc_pages (sc_pages (sy x)) n caller = (Some p, pa) \<Longrightarrow>
    sys_step Env x (x\<lparr>sy := (sy x)\<lparr>sc_pages := pa\<rparr>, sy_others := insert (p, n) (sy_others x)\<rparr>)"
| give_pages: "(p, n) \<in> sy_others x \<Longrightarrow> palloc_free (sc_pages (sy x)) p n = Some pa \<Longrightarrow>
    sys_step Env x (x\<lparr>sy := (sy x)\<lparr>sc_pages := pa\<rparr>, sy_others := sy_others x - {(p, n)}\<rparr>)"
| mem_write: "sys_step Env x (x\<lparr>sy := (sy x)\<lparr>sc_pages := pa_mem_update f (sc_pages (sy x))\<rparr>\<rparr>)"

definition sys_boot :: "palloc \<Rightarrow> (nat \<times> nat) set \<Rightarrow> sys" where
  "sys_boot pa B = \<lparr>sy = sched_init pa, sy_reserved = {}, sy_landed = {}, sy_boot = {0}, sy_others = B\<rparr>"

inductive sys_reach :: "palloc_config \<Rightarrow> sys \<Rightarrow> bool" for cfg :: palloc_config where
  boot: "owned cfg pa B \<Longrightarrow> sys_reach cfg (sys_boot pa B)"
| step: "sys_reach cfg x \<Longrightarrow> sys_step a x y \<Longrightarrow> sys_reach cfg y"

section \<open>Each running task is on one hart\<close>

definition current_ok :: "sched \<Rightarrow> bool" where
  "current_ok s \<longleftrightarrow> prios_ok s \<and> length (sc_current s) = 2 \<and> length (sc_reap s) = 2 \<and> sc_active s
     \<and> (\<forall>h < 2. cur h s = -1 \<or> (\<exists>i < 32. cur h s = int i \<and> t_state (tget s i) = TASK_RUNNING))
     \<and> (\<forall>g < 2. \<forall>h < 2. g \<noteq> h \<longrightarrow> cur g s = cur h s \<longrightarrow> cur g s = -1)
     \<and> (\<forall>i < 32. t_state (tget s i) = TASK_RUNNING \<longrightarrow> (\<exists>h < 2. cur h s = int i))"

text \<open>The same while hart \<open>h\<close> is about to leave its task \<open>p\<close>, whatever state that task is in.\<close>

definition leaving :: "nat \<Rightarrow> nat \<Rightarrow> sched \<Rightarrow> bool" where
  "leaving h p s \<longleftrightarrow> prios_ok s \<and> length (sc_current s) = 2 \<and> length (sc_reap s) = 2 \<and> sc_active s
     \<and> h < 2 \<and> p < 32 \<and> cur h s = int p
     \<and> (\<forall>g < 2. g \<noteq> h \<longrightarrow> cur g s = -1 \<or> (\<exists>i < 32. i \<noteq> p \<and> cur g s = int i \<and> t_state (tget s i) = TASK_RUNNING))
     \<and> (\<forall>i < 32. i \<noteq> p \<longrightarrow> t_state (tget s i) = TASK_RUNNING \<longrightarrow> (\<exists>g < 2. g \<noteq> h \<and> cur g s = int i))"

lemma current_okD:
  assumes "current_ok s"
  shows "prios_ok s" "length (sc_current s) = 2" "length (sc_reap s) = 2" "sc_active s"
    "length (sc_tasks s) = 32"
  using assms by (auto simp: current_ok_def prios_ok_def)

lemma current_ok_leaving:
  assumes "current_ok s" and "h < 2" and "0 \<le> cur h s"
  shows "leaving h (nat (cur h s)) s" and "t_state (tget s (nat (cur h s))) = TASK_RUNNING"
proof -
  have "cur h s = -1 \<or> (\<exists>i < 32. cur h s = int i \<and> t_state (tget s i) = TASK_RUNNING)"
    using assms(1,2) unfolding current_ok_def by blast
  then obtain p where p: "p < 32" "cur h s = int p" "t_state (tget s p) = TASK_RUNNING"
    using assms(3) by auto
  then show "t_state (tget s (nat (cur h s))) = TASK_RUNNING" by simp
  have other: "cur g s = -1 \<or> (\<exists>i < 32. i \<noteq> p \<and> cur g s = int i \<and> t_state (tget s i) = TASK_RUNNING)"
    if "g < 2" "g \<noteq> h" for g
    using assms(1,2) that p unfolding current_ok_def by (metis of_nat_0_le_iff assms(3))
  have "\<exists>g < 2. g \<noteq> h \<and> cur g s = int i" if "i < 32" "i \<noteq> p" "t_state (tget s i) = TASK_RUNNING" for i
    using assms(1) that p unfolding current_ok_def by (metis of_nat_eq_iff)
  with other p assms(1,2) show "leaving h (nat (cur h s)) s"
    by (auto simp: leaving_def current_ok_def)
qed

lemma leaving_stays:
  assumes "leaving h p s"
  shows "current_ok (tset p (\<lambda>t. t\<lparr>t_state := TASK_RUNNING\<rparr>) s)"
proof -
  have len: "length (sc_tasks s) = 32" and p: "p < 32" "cur h s = int p" "h < 2"
    using assms by (auto simp: leaving_def prios_ok_def)
  note get = tget_tset [of p s, unfolded len, OF p(1)]
  have "prios_ok (tset p (\<lambda>t. t\<lparr>t_state := TASK_RUNNING\<rparr>) s)"
    using assms by (auto simp: leaving_def prios_ok_def get)
  moreover have "cur g s = -1 \<or> (\<exists>i < 32. cur g s = int i \<and> (p = i \<or> t_state (tget s i) = TASK_RUNNING))" if "g < 2" for g
    using assms that p unfolding leaving_def by metis
  moreover have "cur g s = -1" if "g < 2" "k < 2" "g \<noteq> k" "cur g s = cur k s" for g k
  proof -
    have "g = h \<or> k = h" using that p(3) by linarith
    then show ?thesis using assms that p unfolding leaving_def by (metis of_nat_eq_iff)
  qed
  moreover have "\<exists>g < 2. cur g s = int i" if "i < 32" "i \<noteq> p \<longrightarrow> t_state (tget s i) = TASK_RUNNING" for i
    using assms that p unfolding leaving_def by metis
  ultimately show ?thesis using assms unfolding current_ok_def leaving_def
    by (auto simp: get split: if_splits)
qed

lemma leaving_goes:
  assumes "leaving h p s" and n: "n < 32" "n \<noteq> p" "t_state (tget s n) = TASK_READY"
    and st: "st \<noteq> TASK_RUNNING"
    and s': "sc_current s' = (sc_current s)[h := int n]" "length (sc_reap s') = 2" "sc_active s'" "prios_ok s'"
      "\<And>i. i < 32 \<Longrightarrow> t_state (tget s' i) = (if i = n then TASK_RUNNING else if i = p then st else t_state (tget s i))"
  shows "current_ok s'"
proof -
  have len: "length (sc_current s) = 2" and p: "p < 32" "cur h s = int p" "h < 2"
    using assms(1) by (auto simp: leaving_def)
  have cur': "cur g s' = (if g = h then int n else cur g s)" if "g < 2" for g
    using len p(3) that by (simp add: cur_def s'(1) nth_list_update)
  have free: "cur g s \<noteq> int n" if "g < 2" "g \<noteq> h" for g
  proof -
    from assms(1) that have "cur g s = -1 \<or> (\<exists>i < 32. i \<noteq> p \<and> cur g s = int i \<and> t_state (tget s i) = TASK_RUNNING)"
      unfolding leaving_def by blast
    then show ?thesis using n(3) by auto
  qed
  have a: "cur g s' = -1 \<or> (\<exists>i < 32. cur g s' = int i \<and> t_state (tget s' i) = TASK_RUNNING)" if "g < 2" for g
  proof (cases "g = h")
    case True
    then show ?thesis using n s'(5) [OF n(1)] cur' [OF that] by auto
  next
    case False
    with assms(1) that have "cur g s = -1 \<or> (\<exists>i < 32. i \<noteq> p \<and> cur g s = int i \<and> t_state (tget s i) = TASK_RUNNING)"
      unfolding leaving_def by blast
    then show ?thesis using cur' [OF that] False s'(5) by auto
  qed
  have b: "cur g s' = -1" if "g < 2" "k < 2" "g \<noteq> k" "cur g s' = cur k s'" for g k
  proof -
    have "g = h \<or> k = h" using that p(3) by linarith
    then show ?thesis
    proof
      assume "g = h"
      with that have "cur k s = int n" "k \<noteq> h" by (auto simp: cur')
      with free that show ?thesis by blast
    next
      assume "k = h"
      with that have "cur g s = int n" "g \<noteq> h" by (auto simp: cur')
      with free that show ?thesis by blast
    qed
  qed
  have c: "\<exists>g < 2. cur g s' = int i" if "i < 32" "t_state (tget s' i) = TASK_RUNNING" for i
  proof (cases "i = n")
    case True
    then show ?thesis using cur' p(3) by auto
  next
    case False
    with that s'(5) [OF that(1)] st have "i \<noteq> p" "t_state (tget s i) = TASK_RUNNING" by (auto split: if_splits)
    with assms(1) that(1) obtain g where "g < 2" "g \<noteq> h" "cur g s = int i" unfolding leaving_def by blast
    then show ?thesis using cur' by auto
  qed
  have "length (sc_current s') = 2" using s'(1) len by simp
  with a b c s'(2-4) show ?thesis unfolding current_ok_def by blast
qed

text \<open>
  A step that at most wakes tasks outside \<open>R\<close> and touches neither stacks nor the harts.
\<close>

definition quiet :: "nat set \<Rightarrow> sched \<Rightarrow> sched \<Rightarrow> bool" where
  "quiet R s s' \<longleftrightarrow> sc_current s' = sc_current s \<and> sc_reap s' = sc_reap s \<and> sc_pages s' = sc_pages s
     \<and> sc_active s' = sc_active s \<and> length (sc_tasks s') = length (sc_tasks s)
     \<and> (\<forall>i < 32. t_stack_base (tget s' i) = t_stack_base (tget s i)
          \<and> t_stack_pages (tget s' i) = t_stack_pages (tget s i)
          \<and> (0 \<le> t_priority (tget s i) \<longrightarrow> 0 \<le> t_priority (tget s' i))
          \<and> (t_state (tget s' i) = t_state (tget s i) \<or>
              i \<notin> R \<and> t_state (tget s i) = TASK_BLOCKED \<and> t_state (tget s' i) = TASK_READY)
          \<and> (t_wake_at (tget s' i) = t_wake_at (tget s i) \<or> t_wake_at (tget s' i) = 0
              \<or> t_state (tget s i) = TASK_RUNNING))"

lemma quiet_refl [simp]: "quiet R s s"
  by (simp add: quiet_def)

lemma quiet_tset:
  assumes "length (sc_tasks s) = 32" and "\<And>t. t_stack_base (f t) = t_stack_base t"
    and "\<And>t. t_stack_pages (f t) = t_stack_pages t" and "0 \<le> t_priority (tget s p) \<Longrightarrow> 0 \<le> t_priority (f (tget s p))"
    and "t_state (f (tget s p)) = t_state (tget s p) \<or>
      p \<notin> R \<and> t_state (tget s p) = TASK_BLOCKED \<and> t_state (f (tget s p)) = TASK_READY"
    and "t_wake_at (f (tget s p)) = t_wake_at (tget s p) \<or> t_wake_at (f (tget s p)) = 0
      \<or> t_state (tget s p) = TASK_RUNNING"
  shows "quiet R s (tset p f s)"
proof (cases "p < 32")
  case True
  with assms show ?thesis by (auto simp: quiet_def tget_tset)
next
  case False
  then have "tset p f s = s" using assms(1) by (cases s) (simp add: tset_def list_update_beyond)
  then show ?thesis by simp
qed

lemma current_ok_same:
  assumes "current_ok s" and "sc_current s' = sc_current s" and "length (sc_reap s') = length (sc_reap s)"
    and "sc_active s' = sc_active s" and "prios_ok s'"
    and run: "\<And>i. i < 32 \<Longrightarrow> t_state (tget s' i) = TASK_RUNNING \<longleftrightarrow> t_state (tget s i) = TASK_RUNNING"
  shows "current_ok s'"
proof -
  have cur': "cur h s' = cur h s" for h using assms(2) by (simp add: cur_def)
  have "length (sc_current s') = 2" "length (sc_reap s') = 2" "sc_active s'"
    using assms(1-4) by (simp_all add: current_ok_def)
  with assms(1,5) show ?thesis unfolding current_ok_def cur' using run by blast
qed

lemma quiet_current_ok:
  assumes "quiet R s s'" and "current_ok s"
  shows "current_ok s'"
proof (rule current_ok_same [OF assms(2)])
  show "t_state (tget s' i) = TASK_RUNNING \<longleftrightarrow> t_state (tget s i) = TASK_RUNNING" if "i < 32" for i
    using assms(1) that unfolding quiet_def by (metis task_state.distinct)
  show "prios_ok s'" using assms unfolding quiet_def prios_ok_def current_ok_def by auto
qed (use assms(1) in \<open>simp_all add: quiet_def\<close>)

lemma quiet_unblock:
  assumes "length (sc_tasks s) = 32" and "nat pid \<notin> R"
  shows "quiet R s (snd (task_unblock pid s))"
  using assms unfolding task_unblock_def by (auto intro!: quiet_tset)

lemma quiet_prepare: "length (sc_tasks s) = 32 \<Longrightarrow> quiet R s (task_prepare_block h s)"
  and quiet_wait_done: "length (sc_tasks s) = 32 \<Longrightarrow> quiet R s (task_wait_done h s)"
  and quiet_status: "length (sc_tasks s) = 32 \<Longrightarrow> quiet R s (task_set_exit_status h v s)"
  and quiet_hold: "length (sc_tasks s) = 32 \<Longrightarrow> quiet R s (sched_hold_current_on_hart h s)"
  and quiet_priority: "length (sc_tasks s) = 32 \<Longrightarrow> quiet R s (snd (task_set_priority pid prio s))"
  and quiet_affinity: "length (sc_tasks s) = 32 \<Longrightarrow> quiet R s (snd (task_set_affinity pid hart s))"
  unfolding task_prepare_block_def task_wait_done_def task_set_exit_status_def
    sched_hold_current_on_hart_def task_set_priority_def task_set_affinity_def
  by (auto intro!: quiet_tset simp: TASK_PRIO_IDLE_def)

lemma quiet_return: "length (sc_tasks s) = 32 \<Longrightarrow> quiet R s (task_return h s)"
  by (simp add: task_return_def quiet_status)

lemma quiet_release: "length (sc_tasks s) = 32 \<Longrightarrow> quiet R s (sched_release_hart_holds hart s)"
  by (auto simp: sched_release_hart_holds_def quiet_def tget_def)

lemma quiet_deadline:
  assumes "current_ok s" and "h < 2" and "sched_has_task h s"
  shows "quiet R s (set_deadline h d s)"
  unfolding set_deadline_def
  by (rule quiet_tset)
     (use assms current_ok_leaving(2) [OF assms(1,2)] in \<open>simp_all add: current_okD sched_has_task_def\<close>)

lemma quiet_scan:
  assumes "prios_ok s" and "from < 32" and "next_runnable h now from s = (c, s')"
    and "\<And>i. i \<in> R \<Longrightarrow> i < 32 \<Longrightarrow> t_wake_at (tget s i) = 0"
  shows "quiet R s s'"
  unfolding next_runnable_scan(1) [OF assms(1-3)]
  using assms(1,4) by (auto simp: quiet_def prios_ok_def tget_def wake_sleeper_def)

lemma scan_choice:
  assumes "prios_ok s" and "from < 32" and "next_runnable h now from s = (c, s')" and "0 \<le> c"
  shows "nat c < 32" and "runnable_here h (tget s' (nat c))"
proof -
  obtain p where "best h now from (sc_tasks s) 32 c p" using next_runnable_scan(2) [OF assms(1-3)] by blast
  with assms(4) obtain j where c: "c = int (rot from j)" and r: "runnable_here h (wake_sleeper now (sc_tasks s ! rot from j))"
    unfolding best_def by auto
  show "nat c < 32" by (simp add: c)
  show "runnable_here h (tget s' (nat c))"
    using r assms(1) by (simp add: c next_runnable_scan(1) [OF assms(1-3)] prios_ok_def)
qed

section \<open>Stacks\<close>

text \<open>Where a stack may be recorded: a task's slot, or a hart's reap slot.\<close>

definition stack_at :: "sched \<Rightarrow> nat \<Rightarrow> nat \<times> nat" where
  "stack_at s k = (if k < 32 then (t_stack_base (tget s k), t_stack_pages (tget s k)) else sc_reap s ! (k - 32))"

definition stacked :: "sched \<Rightarrow> nat set" where
  "stacked s = {k. k < 34 \<and> fst (stack_at s k) \<noteq> 0}"

definition stacks_ok :: "sched \<Rightarrow> (nat \<times> nat) set \<Rightarrow> bool" where
  "stacks_ok s B \<longleftrightarrow> inj_on (stack_at s) (stacked s) \<and> stack_at s ` stacked s \<inter> B = {}
     \<and> owned_inv (sc_pages s) (stack_at s ` stacked s \<union> B)"

lemma stacks_ok_table: "stacks_ok s B \<longleftrightarrow> kernel_pages.table_ok (sc_pages s) (stack_at s) (stacked s) B"
  by (simp add: stacks_ok_def kernel_pages.table_ok_def)

definition live_state :: "task_state \<Rightarrow> bool" where
  "live_state st \<longleftrightarrow> st \<noteq> TASK_UNUSED \<and> st \<noteq> TASK_DEAD"

definition life_ok :: "sys \<Rightarrow> bool" where
  "life_ok x \<longleftrightarrow>
     (\<forall>i < 32. (i \<in> sy_reserved x \<longrightarrow> t_state (tget (sy x) i) = TASK_BLOCKED \<and> t_wake_at (tget (sy x) i) = 0
                  \<and> t_stack_base (tget (sy x) i) = 0 \<and> i \<notin> sy_boot x)
        \<and> (\<not> live_state (t_state (tget (sy x) i)) \<longrightarrow> t_stack_base (tget (sy x) i) = 0 \<and> t_wake_at (tget (sy x) i) = 0)
        \<and> (live_state (t_state (tget (sy x) i)) \<longrightarrow> i \<notin> sy_reserved x \<longrightarrow> i \<notin> sy_boot x \<longrightarrow> t_stack_base (tget (sy x) i) \<noteq> 0)
        \<and> (i \<in> sy_boot x \<longrightarrow> t_stack_base (tget (sy x) i) = 0))
     \<and> (\<forall>h < 2. h \<notin> sy_landed x \<longrightarrow> fst (sc_reap (sy x) ! h) = 0)
     \<and> (\<forall>i \<in> sy_reserved x. i < 32)"

definition sys_ok :: "sys \<Rightarrow> bool" where
  "sys_ok x \<longleftrightarrow> current_ok (sy x) \<and> stacks_ok (sy x) (sy_others x) \<and> life_ok x"

text \<open>A step that leaves every stack where it is and moves live tasks only among the live states.\<close>

definition keeps :: "nat set \<Rightarrow> sched \<Rightarrow> sched \<Rightarrow> bool" where
  "keeps R s s' \<longleftrightarrow> sc_reap s' = sc_reap s \<and> sc_pages s' = sc_pages s
     \<and> (\<forall>i < 32. t_stack_base (tget s' i) = t_stack_base (tget s i)
          \<and> t_stack_pages (tget s' i) = t_stack_pages (tget s i)
          \<and> (t_state (tget s' i) = t_state (tget s i) \<or>
              i \<notin> R \<and> live_state (t_state (tget s i)) \<and> live_state (t_state (tget s' i)))
          \<and> (t_wake_at (tget s' i) = t_wake_at (tget s i) \<or> t_wake_at (tget s' i) = 0
              \<or> i \<notin> R \<and> live_state (t_state (tget s i)) \<and> live_state (t_state (tget s' i))))"

lemma keeps_trans: "keeps R s t \<Longrightarrow> keeps R t u \<Longrightarrow> keeps R s u"
  unfolding keeps_def by (elim conjE, intro conjI) (simp_all, metis)

lemma keeps_stacks: "keeps R s s' \<Longrightarrow> stack_at s' k = stack_at s k"
  by (auto simp: keeps_def stack_at_def)

lemma keeps_stacks_ok: "keeps R s s' \<Longrightarrow> stacks_ok s B \<Longrightarrow> stacks_ok s' B"
proof -
  assume k: "keeps R s s'" and ok: "stacks_ok s B"
  have "stack_at s' = stack_at s" using keeps_stacks [OF k] by blast
  then show ?thesis using k ok by (simp add: stacks_ok_def stacked_def keeps_def)
qed

lemma keeps_life_ok:
  assumes k: "keeps (sy_reserved x) (sy x) s'" and "life_ok x"
    and same: "\<And>h. h < 2 \<Longrightarrow> h \<notin> L \<Longrightarrow> fst (sc_reap (sy x) ! h) = 0"
  shows "life_ok (x\<lparr>sy := s', sy_landed := L\<rparr>)"
proof -
  have "\<forall>i < 32. (i \<in> sy_reserved x \<longrightarrow> t_state (tget s' i) = TASK_BLOCKED \<and> t_wake_at (tget s' i) = 0
                  \<and> t_stack_base (tget s' i) = 0 \<and> i \<notin> sy_boot x)
        \<and> (\<not> live_state (t_state (tget s' i)) \<longrightarrow> t_stack_base (tget s' i) = 0 \<and> t_wake_at (tget s' i) = 0)
        \<and> (live_state (t_state (tget s' i)) \<longrightarrow> i \<notin> sy_reserved x \<longrightarrow> i \<notin> sy_boot x \<longrightarrow> t_stack_base (tget s' i) \<noteq> 0)
        \<and> (i \<in> sy_boot x \<longrightarrow> t_stack_base (tget s' i) = 0)"
    using k assms(2) unfolding keeps_def life_ok_def by (metis (no_types, lifting))
  moreover have "sc_reap s' = sc_reap (sy x)" using k by (simp add: keeps_def)
  ultimately show ?thesis using assms(2) same by (simp add: life_ok_def)
qed

lemma quiet_keeps:
  assumes "quiet R s s'" and "\<And>i. i \<in> R \<Longrightarrow> i < 32 \<Longrightarrow> t_state (tget s i) \<noteq> TASK_RUNNING"
  shows "keeps R s s'"
  using assms unfolding quiet_def keeps_def live_state_def
  by (elim conjE, intro conjI) (simp_all, metis task_state.distinct)

lemma sys_okD:
  assumes "sys_ok x"
  shows "current_ok (sy x)" "stacks_ok (sy x) (sy_others x)" "life_ok x" "length (sc_tasks (sy x)) = 32"
    "i < 32 \<Longrightarrow> i \<in> sy_reserved x \<Longrightarrow> t_state (tget (sy x) i) = TASK_BLOCKED \<and> t_wake_at (tget (sy x) i) = 0
      \<and> t_stack_base (tget (sy x) i) = 0"
    "h < 2 \<Longrightarrow> h \<notin> sy_landed x \<Longrightarrow> fst (sc_reap (sy x) ! h) = 0"
  using assms by (auto simp: sys_ok_def current_okD life_ok_def)

lemma sys_ok_quiet:
  assumes "sys_ok x" and "quiet (sy_reserved x) (sy x) s'"
  shows "sys_ok (x\<lparr>sy := s'\<rparr>)"
proof -
  have k: "keeps (sy_reserved x) (sy x) s'"
    by (rule quiet_keeps [OF assms(2)]) (use sys_okD(5) [OF assms(1)] in auto)
  have "life_ok (x\<lparr>sy := s', sy_landed := sy_landed x\<rparr>)"
    using sys_okD(3,6) [OF assms(1)] by (intro keeps_life_ok [OF k]) auto
  then have "life_ok (x\<lparr>sy := s'\<rparr>)" by simp
  then show ?thesis
    using keeps_stacks_ok [OF k] quiet_current_ok [OF assms(2)] assms(1) by (simp add: sys_ok_def)
qed

section \<open>Reaping and switching\<close>

lemma reap_facts:
  assumes "sched_reap h s = Some s'"
  shows "sc_tasks s' = sc_tasks s" "sc_current s' = sc_current s" "sc_active s' = sc_active s"
    "sc_reap s' = (sc_reap s)[h := (0, 0)]" "tget s' i = tget s i" "cur g s' = cur g s"
  using assms by (auto simp: sched_reap_def Let_def tget_def cur_def split: prod.splits if_splits option.splits)

lemma stack_at_reap: "h < 2 \<Longrightarrow> stack_at s (32 + h) = sc_reap s ! h"
  by (simp add: stack_at_def)

lemma reap_stacks:
  assumes ok: "stacks_ok s B" and len: "length (sc_reap s) = 2" and h: "h < 2"
  shows "\<exists>s'. sched_reap h s = Some s' \<and> stacks_ok s' B"
proof -
  let ?k = "32 + h"
  define s1 where "s1 = s\<lparr>sc_reap := (sc_reap s)[h := (0, 0)]\<rparr>"
  have other: "stack_at s1 k = stack_at s k" if "k \<noteq> ?k" for k
    using that by (auto simp: s1_def stack_at_def nth_list_update)
  have used: "stacked s1 = stacked s - {?k}"
  proof -
    have "stack_at s1 ?k = (0, 0)" using len h by (simp add: s1_def stack_at_def)
    then have "k \<in> stacked s1 \<longleftrightarrow> k \<in> stacked s - {?k}" for k
      using other [of k] by (cases "k = ?k") (simp_all add: stacked_def)
    then show ?thesis by blast
  qed
  have t: "kernel_pages.table_ok (sc_pages s) (stack_at s) (stacked s) B" using ok by (simp add: stacks_ok_table)
  show ?thesis
  proof (cases "fst (sc_reap s ! h) = 0")
    case True
    then have "?k \<notin> stacked s" by (simp add: stacked_def stack_at_def)
    then have "stacked s1 = stacked s" using used by blast
    moreover have "kernel_pages.table_ok (sc_pages s) (stack_at s1) (stacked s) B"
      by (rule kernel_pages.table_same [OF t]) (use other \<open>?k \<notin> stacked s\<close> in metis)
    ultimately have "stacks_ok s1 B" by (simp add: stacks_ok_table) (simp add: s1_def)
    moreover have "sched_reap h s = Some s1" using True by (cases "sc_reap s ! h") (simp add: sched_reap_def s1_def Let_def)
    ultimately show ?thesis by blast
  next
    case False
    then have k: "?k \<in> stacked s" using h by (simp add: stacked_def stack_at_def)
    from kernel_pages.table_remove [OF t k] h obtain pa where
      pa: "palloc_free (sc_pages s) (fst (sc_reap s ! h)) (snd (sc_reap s ! h)) = Some pa"
      and t': "kernel_pages.table_ok pa (stack_at s) (stacked s - {?k}) B"
      by (auto simp: stack_at_reap)
    define s2 where "s2 = s1\<lparr>sc_pages := pa\<rparr>"
    have s2: "stack_at s2 = stack_at s1" by (auto simp: s2_def stack_at_def)
    then have "stacked s2 = stacked s - {?k}" using used by (simp add: stacked_def)
    moreover have "kernel_pages.table_ok pa (stack_at s2) (stacked s - {?k}) B"
      by (rule kernel_pages.table_same [OF t']) (use s2 other in auto)
    ultimately have "stacks_ok s2 B" by (simp add: stacks_ok_table) (simp add: s2_def)
    moreover have "sched_reap h s = Some s2"
      using False pa by (cases "sc_reap s ! h") (simp add: sched_reap_def s1_def s2_def Let_def)
    ultimately show ?thesis by blast
  qed
qed

lemma sys_ok_reap:
  assumes ok: "sys_ok x" and h: "h < 2" and res: "sched_reap h (sy x) = Some s'"
  shows "sys_ok (x\<lparr>sy := s', sy_landed := sy_landed x - {h}\<rparr>)" and "fst (sc_reap s' ! h) = 0"
proof -
  have len: "length (sc_reap (sy x)) = 2" using ok by (simp add: sys_ok_def current_okD)
  note f = reap_facts [OF res]
  show r: "fst (sc_reap s' ! h) = 0" using len h by (simp add: f)
  have "stacks_ok s' (sy_others x)" using reap_stacks [OF sys_okD(2) [OF ok] len h] res by auto
  moreover have "current_ok s'"
    using sys_okD(1) [OF ok] unfolding current_ok_def prios_ok_def f by (simp add: f)
  moreover have "fst (sc_reap s' ! g) = 0" if "g < 2" "g \<notin> sy_landed x - {h}" for g
    using that sys_okD(6) [OF ok, of g] r by (cases "g = h") (auto simp: f)
  then have "life_ok (x\<lparr>sy := s', sy_landed := sy_landed x - {h}\<rparr>)"
    using sys_okD(3) [OF ok] unfolding life_ok_def by (simp add: f(5))
  ultimately show "sys_ok (x\<lparr>sy := s', sy_landed := sy_landed x - {h}\<rparr>)" by (simp add: sys_ok_def)
qed

lemma quiet_leaving: "quiet R s s' \<Longrightarrow> leaving h p s \<Longrightarrow> leaving h p s'"
proof -
  assume q: "quiet R s s'" and l: "leaving h p s"
  have cur': "cur g s' = cur g s" for g using q by (simp add: quiet_def cur_def)
  have run: "t_state (tget s' i) = TASK_RUNNING \<longleftrightarrow> t_state (tget s i) = TASK_RUNNING" if "i < 32" for i
    using q that unfolding quiet_def by (metis task_state.distinct)
  have "prios_ok s'" "length (sc_current s') = 2" "length (sc_reap s') = 2" "sc_active s'"
    using q l unfolding quiet_def prios_ok_def leaving_def by auto
  then show ?thesis using l run unfolding leaving_def cur' by blast
qed

lemma keeps_tset:
  assumes "length (sc_tasks s) = 32" and "p < 32" and "p \<notin> R" and "live_state (t_state (tget s p))"
    and "live_state (t_state (f (tget s p)))"
    and "\<And>t. t_stack_base (f t) = t_stack_base t" "\<And>t. t_stack_pages (f t) = t_stack_pages t"
  shows "keeps R s (tset p f s)"
  using assms by (auto simp: keeps_def tget_tset)

lemma commit_stays [simp]: "switch_commit h here p p now s = (SWITCH_RAN, tset p (\<lambda>t. t\<lparr>t_state := TASK_RUNNING\<rparr>) s)"
  by (simp add: switch_commit_def)

lemma commit_goes:
  assumes "n \<noteq> p" and len: "length (sc_tasks s) = 32" "p < 32" "n < 32" "length (sc_current s) = 2" "h < 2"
    and res: "switch_commit h here p n now s = (r, s')"
  shows "r = SWITCH_RAN" "sc_current s' = (sc_current s)[h := int n]" "sc_reap s' = sc_reap s"
    "sc_pages s' = sc_pages s" "sc_active s' = sc_active s" "length (sc_tasks s') = 32"
    "tget s' i = (if i = n then (tget s n)\<lparr>t_state := TASK_RUNNING\<rparr>
       else if i = p then (tget s p)\<lparr>t_state := (if t_state (tget s p) = TASK_RUNNING then TASK_READY
              else t_state (tget s p)), t_sp := here\<rparr> else tget s i)"
  using res assms(1) len by (auto simp: switch_commit_def Let_def tget_tset set_cur_def tset_def split: if_splits)
    (auto simp: tget_def nth_list_update)

lemma commit_ok:
  assumes l: "leaving h p s" and n: "n < 32" "t_state (tget s n) = TASK_READY"
    and live: "live_state (t_state (tget s p))" and R: "p \<notin> R" "n \<notin> R"
    and res: "switch_commit h here p n now s = (r, s')"
  shows "current_ok s'" and "keeps R s s'"
proof -
  have len: "length (sc_tasks s) = 32" "p < 32" "length (sc_current s) = 2" "h < 2" "length (sc_reap s) = 2"
    "sc_active s" "prios_ok s" using l by (auto simp: leaving_def prios_ok_def)
  have "current_ok s' \<and> keeps R s s'"
  proof (cases "n = p")
    case True
    with res have s': "s' = tset p (\<lambda>t. t\<lparr>t_state := TASK_RUNNING\<rparr>) s" by simp
    have "keeps R s s'" unfolding s'
      by (rule keeps_tset [OF len(1,2) R(1) live]) (simp_all add: live_state_def)
    with leaving_stays [OF l] s' show ?thesis by simp
  next
    case False
    note f = commit_goes [OF False len(1,2) n(1) len(3,4) res]
    have "current_ok s'"
    proof (rule leaving_goes [OF l n(1) False n(2), of "if t_state (tget s p) = TASK_RUNNING then TASK_READY else t_state (tget s p)"])
      show "prios_ok s'" using len(7) by (auto simp: prios_ok_def f(6,7))
    qed (use len in \<open>auto simp: f\<close>)
    moreover have "keeps R s s'"
      using live n R by (auto simp: keeps_def f live_state_def)
    ultimately show ?thesis by blast
  qed
  then show "current_ok s'" and "keeps R s s'" by blast+
qed

lemma keeps_refl [simp]: "keeps R s s"
  by (simp add: keeps_def)

definition calm :: "nat set \<Rightarrow> sched \<Rightarrow> bool" where
  "calm R s \<longleftrightarrow> (\<forall>i \<in> R. i < 32 \<longrightarrow> t_state (tget s i) = TASK_BLOCKED \<and> t_wake_at (tget s i) = 0)"

lemma keeps_calm: "keeps R s s' \<Longrightarrow> calm R s \<Longrightarrow> calm R s'"
  unfolding keeps_def calm_def by metis

lemma switch_ok:
  assumes ok: "current_ok s" and h: "h < 2" and t: "0 \<le> cur h s" and calm: "calm R s"
    and res: "switch_locked h now here blocking s = (r, s')"
  shows "current_ok s'" and "keeps R s s'"
proof -
  define p where "p = nat (cur h s)"
  note lv = current_ok_leaving [OF ok h t, folded p_def]
  have len: "length (sc_tasks s) = 32" using ok by (simp add: current_okD)
  have p: "p < 32" using lv(1) by (simp add: leaving_def)
  have pR: "p \<notin> R" using calm lv(2) p unfolding calm_def by (metis task_state.distinct(15))
  define s1 where "s1 = (if blocking then tset p (\<lambda>t. t\<lparr>t_armed := False, t_pending := False\<rparr>) s else s)"
  have q1: "quiet R s s1" unfolding s1_def using len by (auto intro: quiet_tset)
  have len1: "length (sc_tasks s1) = 32" using len by (simp add: s1_def)
  have st1: "t_state (tget s1 p) = TASK_RUNNING" using len p lv(2) by (simp add: s1_def tget_tset)
  have k1: "keeps R s s1" by (rule quiet_keeps [OF q1]) (use calm in \<open>auto simp: calm_def\<close>)
  note unf = switch_locked_def [of h now here blocking s, folded p_def, unfolded Let_def, folded s1_def]
  have "current_ok s' \<and> keeps R s s'"
  proof (cases "blocking \<and> t_pending (tget s p)")
    case True
    have "switch_locked h now here blocking s = (SWITCH_WOKEN, s1)"
      unfolding unf by (rule if_P [OF True])
    with res have "s' = s1" by simp
    with k1 quiet_current_ok [OF q1 ok] show ?thesis by simp
  next
    case False
    define s2 where "s2 = (if blocking then tset p (\<lambda>t. t\<lparr>t_state := TASK_BLOCKED\<rparr>) s1 else s1)"
    obtain n s3 where scan: "next_runnable h now p s2 = (n, s3)" by fastforce
    have res': "(if n < 0 then (SWITCH_IDLE,
          if blocking \<and> t_state (tget s3 p) \<noteq> TASK_RUNNING
          then tset p (\<lambda>t. t\<lparr>t_state := TASK_RUNNING, t_armed := t_armed (tget s p)\<rparr>) s3 else s3)
        else switch_commit h here p (nat n) now s3) = (r, s')"
      using res False scan unfolding unf s2_def [symmetric] by (simp only: if_False prod.case)
    have k2: "keeps R s1 s2" unfolding s2_def using len1 p pR st1
      by (auto intro!: keeps_tset simp: live_state_def)
    have l1: "leaving h p s1" by (rule quiet_leaving [OF q1 lv(1)])
    then have l2: "leaving h p s2" using len1 p
      by (auto simp: s2_def leaving_def prios_ok_def tget_tset)
    have st2: "live_state (t_state (tget s2 p))" "blocking \<Longrightarrow> t_state (tget s2 p) = TASK_BLOCKED"
      using len1 p st1 by (auto simp: s2_def tget_tset live_state_def)
    have pr2: "prios_ok s2" using l2 by (simp add: leaving_def)
    have calm2: "calm R s2" using keeps_calm [OF k2 keeps_calm [OF k1 calm]] .
    have q3: "quiet R s2 s3" by (rule quiet_scan [OF pr2 p scan]) (use calm2 in \<open>auto simp: calm_def\<close>)
    have k3: "keeps R s2 s3" by (rule quiet_keeps [OF q3]) (use calm2 in \<open>auto simp: calm_def\<close>)
    have l3: "leaving h p s3" by (rule quiet_leaving [OF q3 l2])
    have len3: "length (sc_tasks s3) = 32" using l3 by (simp add: leaving_def prios_ok_def)
    have st3: "live_state (t_state (tget s3 p))" using k3 st2(1) p unfolding keeps_def by metis
    have k: "keeps R s s3" using keeps_trans [OF k1 keeps_trans [OF k2 k3]] .
    show ?thesis
    proof (cases "n < 0")
      case True
      show ?thesis
      proof (cases blocking)
        case blocking: True
        have ne: "t_state (tget s3 p) \<noteq> TASK_RUNNING"
          using q3 st2(2) [OF blocking] p unfolding quiet_def by (metis task_state.distinct)
        have s': "s' = tset p (\<lambda>t. t\<lparr>t_state := TASK_RUNNING, t_armed := t_armed (tget s p)\<rparr>) s3"
          using res' True ne blocking by simp
        have eq: "s' = tset p (\<lambda>t. t\<lparr>t_armed := t_armed (tget s p)\<rparr>) (tset p (\<lambda>t. t\<lparr>t_state := TASK_RUNNING\<rparr>) s3)"
          using len3 p by (simp add: s' tset_def)
        have "current_ok s'" unfolding eq
          by (rule quiet_current_ok [OF quiet_tset leaving_stays [OF l3]]) (simp_all add: len3)
        moreover have "keeps R s3 s'" unfolding s'
          by (rule keeps_tset [OF len3 p pR st3]) (simp_all add: live_state_def)
        ultimately show ?thesis using keeps_trans [OF k] by blast
      next
        case nblk: False
        have "s2 = s1" using nblk by (simp add: s2_def)
        have "s' = s3" using res' True nblk by simp
        moreover have "current_ok s3"
          using quiet_current_ok [OF q3] quiet_current_ok [OF q1 ok] \<open>s2 = s1\<close> by simp
        ultimately show ?thesis using k by simp
      qed
    next
      case False2: False
      then have n0: "0 \<le> n" by simp
      have com: "switch_commit h here p (nat n) now s3 = (r, s')"
        using res' False2 by simp
      note ch = scan_choice [OF pr2 p scan n0]
      have rd: "t_state (tget s3 (nat n)) = TASK_READY" using ch(2) by (simp add: runnable_here_def)
      have nR: "nat n \<notin> R" using keeps_calm [OF k3 calm2] rd ch(1) unfolding calm_def by force
      from commit_ok [OF l3 ch(1) rd st3 pR nR com] keeps_trans [OF k] show ?thesis by blast
    qed
  qed
  then show "current_ok s'" and "keeps R s s'" by blast+
qed

lemma life_calm: "life_ok x \<Longrightarrow> calm (sy_reserved x) (sy x)"
  by (auto simp: life_ok_def calm_def)

lemma sys_ok_switch:
  assumes ok: "sys_ok x" and h: "h < 2" and t: "sched_has_task h (sy x)"
    and res: "sched_switch h now here blocking (sy x) = Some (r, s')"
  shows "sys_ok (moved h s' x)"
proof -
  obtain s1 where s1: "sched_reap h (sy x) = Some s1" and sw: "switch_locked h now here blocking s1 = (r, s')"
    using res t by (auto simp: sched_switch_def sched_has_task_def split: option.splits)
  define x1 where "x1 = x\<lparr>sy := s1, sy_landed := sy_landed x - {h}\<rparr>"
  note r1 = sys_ok_reap [OF ok h s1, folded x1_def]
  have x1: "sy x1 = s1" "sy_reserved x1 = sy_reserved x" "sy_others x1 = sy_others x" by (simp_all add: x1_def)
  have cur1: "0 \<le> cur h s1" using t by (simp add: sched_has_task_def reap_facts(6) [OF s1])
  note sw' = switch_ok [OF sys_okD(1) [OF r1(1), unfolded x1] h cur1 life_calm [OF sys_okD(3) [OF r1(1)], unfolded x1] sw]
  define L where "L = (if cur h s' = cur h (sy x) then sy_landed x - {h} else insert h (sy_landed x))"
  have "life_ok (x1\<lparr>sy := s', sy_landed := L\<rparr>)"
  proof (rule keeps_life_ok [OF _ sys_okD(3) [OF r1(1)]])
    show "keeps (sy_reserved x1) (sy x1) s'" using sw'(2) by (simp add: x1)
    show "fst (sc_reap (sy x1) ! g) = 0" if "g < 2" "g \<notin> L" for g
    proof (cases "g = h")
      case True
      then show ?thesis using r1(2) by (simp add: x1)
    next
      case False
      then have "g \<notin> sy_landed x1" using that(2) by (auto simp: L_def x1_def split: if_splits)
      with sys_okD(6) [OF r1(1) that(1)] show ?thesis by simp
    qed
  qed
  moreover have "x1\<lparr>sy := s', sy_landed := L\<rparr> = moved h s' x" by (simp add: x1_def moved_def L_def)
  moreover have "stacks_ok s' (sy_others x)"
    using keeps_stacks_ok [OF sw'(2)] sys_okD(2) [OF r1(1)] by (simp add: x1)
  ultimately show ?thesis using sw'(1) by (simp add: sys_ok_def) (simp add: moved_def)
qed

section \<open>Exit, creation and boot\<close>

lemma stacked_iff: "k \<in> stacked s \<longleftrightarrow> k < 34 \<and> fst (stack_at s k) \<noteq> 0"
  by (simp add: stacked_def)

lemma life_entry:
  assumes "life_ok x" and "i < 32"
  shows "i \<in> sy_reserved x \<Longrightarrow> t_state (tget (sy x) i) = TASK_BLOCKED \<and> t_wake_at (tget (sy x) i) = 0
      \<and> t_stack_base (tget (sy x) i) = 0 \<and> i \<notin> sy_boot x"
    and "\<not> live_state (t_state (tget (sy x) i)) \<Longrightarrow> t_stack_base (tget (sy x) i) = 0 \<and> t_wake_at (tget (sy x) i) = 0"
    and "live_state (t_state (tget (sy x) i)) \<Longrightarrow> i \<notin> sy_reserved x \<Longrightarrow> i \<notin> sy_boot x \<Longrightarrow> t_stack_base (tget (sy x) i) \<noteq> 0"
    and "i \<in> sy_boot x \<Longrightarrow> t_stack_base (tget (sy x) i) = 0"
  using assms by (simp_all add: life_ok_def)

text \<open>What an exit that switches away leaves behind.\<close>

lemma exit_switched:
  assumes ok: "current_ok s" and h: "h < 2" and t: "sched_has_task h s" and p: "p = nat (cur h s)"
    and res: "task_exit h now here s = (EXIT_SWITCHED, s')"
  obtains n s1 where "n < 32" "n \<noteq> p" "t_state (tget s1 n) = TASK_READY"
    "s1 = s\<lparr>sc_tasks := map (wake_sleeper now) (sc_tasks s)\<rparr>"
    "fst (sc_reap s ! h) = 0" "sc_reap s' = (sc_reap s)[h := (t_stack_base (tget s p), t_stack_pages (tget s p))]"
    "sc_pages s' = sc_pages s" "sc_active s' = sc_active s" "sc_current s' = (sc_current s)[h := int n]"
    "length (sc_tasks s') = 32"
    "\<And>i. i < 32 \<Longrightarrow> tget s' i = (if i = n then (tget s1 n)\<lparr>t_state := TASK_RUNNING\<rparr>
       else if i = p then (tget s p)\<lparr>t_state := TASK_DEAD, t_stack_base := 0, t_stack_pages := 0, t_sp := here\<rparr>
       else tget s1 i)"
proof -
  have c: "0 \<le> cur h s" using t by (simp add: sched_has_task_def)
  note lv = current_ok_leaving [OF ok h c, folded p]
  have len: "length (sc_tasks s) = 32" "length (sc_current s) = 2" "prios_ok s" "sc_active s"
    using ok by (simp_all add: current_okD)
  have p32: "p < 32" using lv(1) by (simp add: leaving_def)
  obtain c s1 where scan: "next_runnable h now p s = (c, s1)" by fastforce
  note s1 = next_runnable_scan(1) [OF len(3) p32 scan]
  have cn: "0 \<le> c" and r0: "fst (sc_reap s1 ! h) = 0"
    using res t scan by (auto simp: task_exit_def Let_def p [symmetric] split: if_splits)
  note ch = scan_choice [OF len(3) p32 scan cn]
  have rd: "t_state (tget s1 (nat c)) = TASK_READY" using ch(2) by (simp add: runnable_here_def)
  have sp: "tget s1 p = tget s p" using lv(2) p32 len(1)
    by (simp add: s1 wake_sleeper_def) (simp add: tget_def)
  have ne: "nat c \<noteq> p" using rd sp lv(2) by auto
  have s': "s' = tset p (\<lambda>t. t\<lparr>t_sp := here\<rparr>) (set_cur h (nat c) (tset (nat c) (\<lambda>t. t\<lparr>t_state := TASK_RUNNING\<rparr>)
      (tset p (\<lambda>t. t\<lparr>t_state := TASK_DEAD, t_stack_base := 0, t_stack_pages := 0\<rparr>)
        (s1\<lparr>sc_reap := (sc_reap s1)[h := (t_stack_base (tget s1 p), t_stack_pages (tget s1 p))]\<rparr>))))"
    using res t scan cn r0 len(4) by (auto simp: task_exit_def Let_def p [symmetric] split: if_splits)
  have len1: "length (sc_tasks s1) = 32" using len(1) by (simp add: s1)
  show thesis
  proof (rule that [OF ch(1) ne rd s1])
    show "fst (sc_reap s ! h) = 0" using r0 by (simp add: s1)
    show "tget s' i = (if i = nat c then (tget s1 (nat c))\<lparr>t_state := TASK_RUNNING\<rparr>
       else if i = p then (tget s p)\<lparr>t_state := TASK_DEAD, t_stack_base := 0, t_stack_pages := 0, t_sp := here\<rparr>
       else tget s1 i)" if "i < 32" for i
      using ne len1 ch(1) p32 by (auto simp: s' tget_tset sp)
    show "sc_reap s' = (sc_reap s)[h := (t_stack_base (tget s p), t_stack_pages (tget s p))]"
      by (simp add: s' sp) (simp add: s1)
  qed (use len1 in \<open>simp_all add: s' s1 set_cur_def\<close>)
qed

lemma exit_parked_quiet:
  assumes ok: "current_ok s" and h: "h < 2" and t: "sched_has_task h s" and calm: "calm R s"
    and res: "task_exit h now here s = (r, s')" and r: "r \<noteq> EXIT_SWITCHED"
  shows "quiet R s s'"
proof -
  define p where "p = nat (cur h s)"
  have c: "0 \<le> cur h s" using t by (simp add: sched_has_task_def)
  have p32: "p < 32" using current_ok_leaving(1) [OF ok h c] by (simp add: leaving_def p_def)
  obtain c s1 where scan: "next_runnable h now p s = (c, s1)" by fastforce
  have "s' = s1"
    using res t scan r current_okD(4) [OF ok] by (auto simp: task_exit_def Let_def p_def [symmetric] split: if_splits)
  with quiet_scan [OF current_okD(1) [OF ok] p32 scan, of R] calm show ?thesis by (auto simp: calm_def)
qed

lemma sys_ok_exit:
  assumes ok: "sys_ok x" and h: "h < 2" and t: "sched_has_task h (sy x)" and nl: "h \<notin> sy_landed x"
    and w: "t_wake_at (tget (sy x) (nat (cur h (sy x)))) = 0"
    and res: "task_exit h now here (sy x) = (r, s')"
  shows "sys_ok (moved h s' x)" and "r \<noteq> EXIT_HALTED"
proof -
  define p where "p = nat (cur h (sy x))"
  note cok = sys_okD(1) [OF ok]
  have c: "0 \<le> cur h (sy x)" using t by (simp add: sched_has_task_def)
  note lv = current_ok_leaving [OF cok h c, folded p_def]
  have p32: "p < 32" and curp: "cur h (sy x) = int p" using lv(1) by (simp_all add: leaving_def)
  have empty: "fst (sc_reap (sy x) ! h) = 0" using sys_okD(6) [OF ok h nl] .
  obtain c s0 where scan: "next_runnable h now p (sy x) = (c, s0)" by fastforce
  note s0 = next_runnable_scan(1) [OF current_okD(1) [OF cok] p32 scan]
  have "sc_reap s0 = sc_reap (sy x)"
    by (simp add: s0)
  then show nh: "r \<noteq> EXIT_HALTED"
    using res t empty scan current_okD(4) [OF cok]
    by (auto simp: task_exit_def Let_def p_def [symmetric] split: if_splits)
  show "sys_ok (moved h s' x)"
  proof (cases "r = EXIT_SWITCHED")
    case False
    have q: "quiet (sy_reserved x) (sy x) s'"
      by (rule exit_parked_quiet [OF cok h t life_calm [OF sys_okD(3) [OF ok]] res False])
    then have "cur h s' = cur h (sy x)" by (simp add: quiet_def cur_def)
    then have "moved h s' x = x\<lparr>sy := s'\<rparr>" using nl by (simp add: moved_def)
    with sys_ok_quiet [OF ok q] show ?thesis by simp
  next
    case True
    obtain n s1 where
      n: "n < 32" "n \<noteq> p" "t_state (tget s1 n) = TASK_READY"
      and s1: "s1 = (sy x)\<lparr>sc_tasks := map (wake_sleeper now) (sc_tasks (sy x))\<rparr>"
      and f: "sc_reap s' = (sc_reap (sy x))[h := (t_stack_base (tget (sy x) p), t_stack_pages (tget (sy x) p))]"
        "sc_pages s' = sc_pages (sy x)" "sc_active s' = sc_active (sy x)"
        "sc_current s' = (sc_current (sy x))[h := int n]" "length (sc_tasks s') = 32"
      and g: "\<And>i. i < 32 \<Longrightarrow> tget s' i = (if i = n then (tget s1 n)\<lparr>t_state := TASK_RUNNING\<rparr>
         else if i = p then (tget (sy x) p)\<lparr>t_state := TASK_DEAD, t_stack_base := 0, t_stack_pages := 0, t_sp := here\<rparr>
         else tget s1 i)"
      by (rule exit_switched [OF cok h t p_def res [unfolded True]]) (rule that)
    have len: "length (sc_tasks (sy x)) = 32" "length (sc_reap (sy x)) = 2" "length (sc_current (sy x)) = 2"
      using cok by (simp_all add: current_okD)
    have t1: "tget s1 i = wake_sleeper now (tget (sy x) i)" if "i < 32" for i
      using that len by (simp add: s1) (simp add: tget_def)
    have q: "quiet (sy_reserved x) (sy x) s1"
      unfolding s1 s0 [symmetric]
      by (rule quiet_scan [OF current_okD(1) [OF cok] p32 scan]) (use sys_okD(5) [OF ok] in blast)
    have wk: "t_wake_at (tget s1 i) = t_wake_at (tget (sy x) i) \<or> t_wake_at (tget s1 i) = 0" if "i < 32" for i
      by (simp add: t1 [OF that] wake_sleeper_def)
    have cur': "current_ok s'"
    proof (rule leaving_goes [OF quiet_leaving [OF q lv(1)] n(1,2,3), of TASK_DEAD])
      show "prios_ok s'" using current_okD(1) [OF cok] n(1) p32
        by (auto simp: prios_ok_def f g t1)
    qed (use current_okD(4) [OF cok] len in \<open>auto simp: f g s1\<close>)
    note le = life_entry [OF sys_okD(3) [OF ok]]
    have pR: "p \<notin> sy_reserved x" using le(1) [OF p32] lv(2) by auto
    have nR: "n \<notin> sy_reserved x"
      using le(1) [OF n(1)] n(3) by (auto simp: t1 [OF n(1)] wake_sleeper_def)
    have wp: "t_wake_at (tget (sy x) p) = 0" using w by (simp add: p_def)
    let ?k = "32 + h"
    have kfree: "?k \<notin> stacked (sy x)" using empty by (simp add: stacked_iff stack_at_reap [OF h])
    have at: "stack_at s' k = stack_at (sy x) k" if "k \<noteq> p" "k \<noteq> ?k" "k < 34" for k
      using that n(1) by (auto simp: stack_at_def g t1 f(1) nth_list_update)
    have atk: "stack_at s' ?k = stack_at (sy x) p"
      using len(2) h p32 by (simp add: stack_at_reap [OF h] f(1) stack_at_def)
    have atp: "stack_at s' p = (0, 0)" using p32 n(2) by (simp add: stack_at_def g)
    have tab: "kernel_pages.table_ok (sc_pages (sy x)) (stack_at (sy x)) (stacked (sy x)) (sy_others x)"
      using sys_okD(2) [OF ok] by (simp add: stacks_ok_table)
    have k34: "?k < 34" "?k \<noteq> p" using h p32 by simp_all
    have st: "stacks_ok s' (sy_others x)"
    proof (cases "p \<in> stacked (sy x)")
      case True
      have "k \<in> stacked s' \<longleftrightarrow> k \<in> insert ?k (stacked (sy x) - {p})" for k
        using at [of k] atk atp k34 True by (cases "k < 34"; cases "k = p"; cases "k = ?k") (simp_all add: stacked_iff)
      then have "stacked s' = insert ?k (stacked (sy x) - {p})" by blast
      moreover have "kernel_pages.table_ok (sc_pages (sy x)) (stack_at s') (insert ?k (stacked (sy x) - {p})) (sy_others x)"
        by (rule kernel_pages.table_move [where g = "stack_at s'", OF tab True kfree atk]) (use at kfree stacked_iff in metis)
      ultimately show ?thesis by (simp add: stacks_ok_table f(2))
    next
      case False
      then have z: "fst (stack_at (sy x) p) = 0" using p32 by (simp add: stacked_iff)
      have "k \<in> stacked s' \<longleftrightarrow> k \<in> stacked (sy x)" for k
        using at [of k] atk atp k34 z kfree by (cases "k < 34"; cases "k = p"; cases "k = ?k") (simp_all add: stacked_iff)
      then have "stacked s' = stacked (sy x)" by blast
      moreover have "kernel_pages.table_ok (sc_pages (sy x)) (stack_at s') (stacked (sy x)) (sy_others x)"
        by (rule kernel_pages.table_same [OF tab]) (use at kfree False stacked_iff in metis)
      ultimately show ?thesis by (simp add: stacks_ok_table f(2))
    qed
    have moved: "moved h s' x = x\<lparr>sy := s', sy_landed := insert h (sy_landed x)\<rparr>"
    proof -
      have "cur h s' = int n" using len(3) h by (simp add: cur_def f(4))
      then show ?thesis using n(2) curp by (simp add: moved_def)
    qed
    have entry: "(i \<in> sy_reserved x \<longrightarrow> t_state (tget s' i) = TASK_BLOCKED \<and> t_wake_at (tget s' i) = 0
                    \<and> t_stack_base (tget s' i) = 0 \<and> i \<notin> sy_boot x)
        \<and> (\<not> live_state (t_state (tget s' i)) \<longrightarrow> t_stack_base (tget s' i) = 0 \<and> t_wake_at (tget s' i) = 0)
        \<and> (live_state (t_state (tget s' i)) \<longrightarrow> i \<notin> sy_reserved x \<longrightarrow> i \<notin> sy_boot x \<longrightarrow> t_stack_base (tget s' i) \<noteq> 0)
        \<and> (i \<in> sy_boot x \<longrightarrow> t_stack_base (tget s' i) = 0)" if i: "i < 32" for i
    proof -
      have live1: "live_state (t_state (tget s1 i)) \<longleftrightarrow> live_state (t_state (tget (sy x) i))"
        by (simp add: t1 [OF i] wake_sleeper_def live_state_def)
      consider "i = n" | "i = p" | "i \<noteq> n" "i \<noteq> p" by blast
      then show ?thesis
      proof cases
        case 1
        have "live_state (t_state (tget (sy x) n))" using live1 n(3) 1 by (simp add: live_state_def)
        with le(3,4) [OF n(1)] nR show ?thesis unfolding g [OF i] using 1 t1 [OF n(1)]
          by (auto simp: live_state_def)
      next
        case 2
        with n(2) pR wp show ?thesis unfolding g [OF i] by (simp add: live_state_def)
      next
        case 3
        then have eq: "tget s' i = tget s1 i" using g [OF i] by simp
        have "i \<in> sy_reserved x \<Longrightarrow> t_state (tget s1 i) = TASK_BLOCKED"
          using le(1) [OF i] by (simp add: t1 [OF i] wake_sleeper_def)
        then show ?thesis unfolding eq using le [OF i] live1 wk [OF i] by (auto simp: t1 [OF i])
      qed
    qed
    have "\<forall>i \<in> sy_reserved x. i < 32" using sys_okD(3) [OF ok] by (simp add: life_ok_def)
    moreover have "fst (sc_reap s' ! g) = 0" if "g < 2" "g \<notin> insert h (sy_landed x)" for g
      using that sys_okD(6) [OF ok, of g] by (simp add: f(1) nth_list_update)
    ultimately have "life_ok (x\<lparr>sy := s', sy_landed := insert h (sy_landed x)\<rparr>)"
      using entry by (simp add: life_ok_def)
    with cur' st show ?thesis by (simp add: moved sys_ok_def)
  qed
qed

text \<open>A step that changes one task and leaves every other entry of the table alone.\<close>

lemma life_one:
  assumes ok: "life_ok x" and i: "i < 32" "length (sc_tasks (sy x)) = 32" and s': "\<And>j. tget s' j = (if i = j then f (tget (sy x) i) else tget (sy x) j)"
    and reap: "sc_reap s' = sc_reap (sy x)"
    and R: "\<And>j. j \<noteq> i \<Longrightarrow> j \<in> R \<longleftrightarrow> j \<in> sy_reserved x" "\<And>j. j \<noteq> i \<Longrightarrow> j \<in> B \<longleftrightarrow> j \<in> sy_boot x"
    and one: "i \<in> R \<Longrightarrow> t_state (f (tget (sy x) i)) = TASK_BLOCKED \<and> t_wake_at (f (tget (sy x) i)) = 0
                \<and> t_stack_base (f (tget (sy x) i)) = 0 \<and> i \<notin> B"
      "\<not> live_state (t_state (f (tget (sy x) i))) \<Longrightarrow> t_stack_base (f (tget (sy x) i)) = 0 \<and> t_wake_at (f (tget (sy x) i)) = 0"
      "live_state (t_state (f (tget (sy x) i))) \<Longrightarrow> i \<notin> R \<Longrightarrow> i \<notin> B \<Longrightarrow> t_stack_base (f (tget (sy x) i)) \<noteq> 0"
      "i \<in> B \<Longrightarrow> t_stack_base (f (tget (sy x) i)) = 0"
  shows "life_ok (x\<lparr>sy := s', sy_reserved := R, sy_boot := B\<rparr>)"
proof -
  have "(j \<in> R \<longrightarrow> t_state (tget s' j) = TASK_BLOCKED \<and> t_wake_at (tget s' j) = 0
                    \<and> t_stack_base (tget s' j) = 0 \<and> j \<notin> B)
        \<and> (\<not> live_state (t_state (tget s' j)) \<longrightarrow> t_stack_base (tget s' j) = 0 \<and> t_wake_at (tget s' j) = 0)
        \<and> (live_state (t_state (tget s' j)) \<longrightarrow> j \<notin> R \<longrightarrow> j \<notin> B \<longrightarrow> t_stack_base (tget s' j) \<noteq> 0)
        \<and> (j \<in> B \<longrightarrow> t_stack_base (tget s' j) = 0)" if j: "j < 32" for j
  proof (cases "i = j")
    case True
    then show ?thesis using one by (auto simp: s')
  next
    case False
    then show ?thesis using life_entry [OF ok j] R [of j] by (auto simp: s')
  qed
  moreover have "\<forall>j \<in> R. j < 32"
  proof
    fix j assume "j \<in> R"
    then show "j < 32" using R(1) [of j] i(1) ok by (cases "j = i") (auto simp: life_ok_def)
  qed
  ultimately show ?thesis using ok by (simp add: life_ok_def reap)
qed

lemma prios_tset:
  "prios_ok s \<Longrightarrow> i < 32 \<Longrightarrow> 0 \<le> t_priority (f (tget s i)) \<Longrightarrow> prios_ok (tset i f s)"
  by (auto simp: prios_ok_def tget_tset)

lemma find_slot:
  assumes "find P [1..<MAX_TASKS] = Some i"
  shows "1 \<le> i" "i < 32" "P i"
  using assms by (auto simp: find_Some_iff MAX_TASKS_def)

lemma sys_ok_reserve:
  assumes ok: "sys_ok x" and res: "task_reserve (sy x) = (Some slot, s')"
  shows "sys_ok (x\<lparr>sy := s', sy_reserved := insert slot (sy_reserved x), sy_boot := sy_boot x - {slot}\<rparr>)"
proof -
  obtain f: "find (\<lambda>i. t_state (tget (sy x) i) = TASK_UNUSED \<or> t_state (tget (sy x) i) = TASK_DEAD) [1..<MAX_TASKS] = Some slot"
    and s': "s' = tset slot (\<lambda>t. t\<lparr>t_state := TASK_BLOCKED\<rparr>) (sy x)"
    using res by (auto simp: task_reserve_def split: option.splits)
  note slot = find_slot [OF f]
  note len = current_okD [OF sys_okD(1) [OF ok]]
  have nl: "\<not> live_state (t_state (tget (sy x) slot))" using slot(3) by (auto simp: live_state_def)
  note dead = life_entry(2) [OF sys_okD(3) [OF ok] slot(2) nl]
  note get = tget_tset [of slot "sy x", unfolded len(5), OF slot(2)]
  have "current_ok s'" unfolding s'
  proof (rule current_ok_same [OF sys_okD(1) [OF ok]])
    show "prios_ok (tset slot (\<lambda>t. t\<lparr>t_state := TASK_BLOCKED\<rparr>) (sy x))"
      by (rule prios_tset [OF len(1) slot(2)]) (use len(1) slot(2) in \<open>simp add: prios_ok_def\<close>)
  qed (use slot in \<open>auto simp: get\<close>)
  moreover have "stack_at s' = stack_at (sy x)" by (auto simp: s' stack_at_def get)
  then have "stacks_ok s' (sy_others x)"
    using sys_okD(2) [OF ok] by (simp add: stacks_ok_def stacked_def) (simp add: s')
  moreover have "life_ok (x\<lparr>sy := s', sy_reserved := insert slot (sy_reserved x), sy_boot := sy_boot x - {slot}\<rparr>)"
    by (rule life_one [OF sys_okD(3) [OF ok] slot(2) len(5), of s' "\<lambda>t. t\<lparr>t_state := TASK_BLOCKED\<rparr>"])
      (use dead in \<open>auto simp: s' get\<close>)
  ultimately show ?thesis by (simp add: sys_ok_def)
qed

lemma owned_inv_mem: "owned_inv (pa_mem_update f pa) B = owned_inv pa B"
proof -
  have "palloc_inv (pa_mem_update f pa) = palloc_inv pa" "live (pa_mem_update f pa) = live pa"
    "in_one_zone (pa_mem_update f pa) p n = in_one_zone pa p n" for p n
    by (simp_all add: palloc_inv_def live_def in_one_zone_def)
  then show ?thesis by (simp add: owned_inv_def)
qed

lemma sys_ok_finish:
  assumes ok: "sys_ok x" and slot: "slot \<in> sy_reserved x"
    and res: "task_finish h slot tramp entry arg pages hart caller (sy x) = (r, s')"
  shows "sys_ok (x\<lparr>sy := s', sy_reserved := sy_reserved x - {slot}\<rparr>)"
proof -
  have s32: "slot < 32" using sys_okD(3) [OF ok] slot by (simp add: life_ok_def)
  note len = current_okD [OF sys_okD(1) [OF ok]]
  note old = life_entry [OF sys_okD(3) [OF ok] s32]
  note rsv = old(1) [OF slot]
  note get = tget_tset [of slot "sy x", unfolded len(5), OF s32]
  have tab: "kernel_pages.table_ok (sc_pages (sy x)) (stack_at (sy x)) (stacked (sy x)) (sy_others x)"
    using sys_okD(2) [OF ok] by (simp add: stacks_ok_table)
  have nst: "slot \<notin> stacked (sy x)" using rsv s32 by (simp add: stacked_iff stack_at_def)
  obtain q pa where al: "palloc_pages (sc_pages (sy x)) pages caller = (q, pa)" by fastforce
  show ?thesis
  proof (cases q)
    case None
    with al have pa: "pa = sc_pages (sy x)" using kernel_pages.take_fail by simp
    define f where "f = (\<lambda>t :: task. t\<lparr>t_state := TASK_UNUSED\<rparr>)"
    have s': "s' = tset slot f (sy x)" using res al None pa by (simp add: task_finish_def f_def)
    have "current_ok s'" unfolding s'
    proof (rule current_ok_same [OF sys_okD(1) [OF ok]])
      show "prios_ok (tset slot f (sy x))"
        by (rule prios_tset [OF len(1) s32]) (use len(1) s32 in \<open>simp add: prios_ok_def f_def\<close>)
    qed (use rsv in \<open>auto simp: get f_def\<close>)
    moreover have "stack_at s' = stack_at (sy x)" by (auto simp: s' stack_at_def get f_def)
    then have "stacks_ok s' (sy_others x)"
      using sys_okD(2) [OF ok] by (simp add: stacks_ok_def stacked_def) (simp add: s')
    moreover have "life_ok (x\<lparr>sy := s', sy_reserved := sy_reserved x - {slot}, sy_boot := sy_boot x\<rparr>)"
      by (rule life_one [OF sys_okD(3) [OF ok] s32 len(5), of s' f])
        (use rsv in \<open>auto simp: s' get f_def live_state_def\<close>)
    ultimately show ?thesis by (simp add: sys_ok_def)
  next
    case (Some stack)
    with al have al': "palloc_pages (sc_pages (sy x)) pages caller = (Some stack, pa)" by simp
    from tab have "owned_inv (sc_pages (sy x)) (stack_at (sy x) ` stacked (sy x) \<union> sy_others x)"
      by (simp add: kernel_pages.table_ok_def)
    from kernel_pages.take_new [OF this al'] have nz: "stack \<noteq> 0" by blast
    define f where "f = (\<lambda>t :: task. t\<lparr>t_state := TASK_READY, t_stack_base := stack, t_stack_pages := pages, t_domain := 0,
                 t_exit_status := 0, t_affinity := hart, t_held := False, t_exit_clean := False,
                 t_priority := TASK_PRIO_NORMAL, t_wake_at := 0, t_armed := False, t_pending := False,
                 t_parent := (if pid_ok (cur h (sy x)) then cur h (sy x) else -1),
                 t_vterm := (if pid_ok (cur h (sy x)) then t_vterm (tget (sy x) (nat (cur h (sy x)))) else 0),
                 t_sp := frame_addr stack pages\<rparr>)"
    define g where "g = (\<lambda>mem. prime_frame (frame_addr stack pages) tramp entry arg (paint_stack stack pages mem))"
    have s': "s' = (tset slot f (sy x))\<lparr>sc_pages := pa_mem_update g pa\<rparr>"
    proof -
      have "s' = snd (task_finish h slot tramp entry arg pages hart caller (sy x))" using res by simp
      also have "\<dots> = (tset slot f (sy x))\<lparr>sc_pages := pa_mem_update g pa\<rparr>"
        using s32 len(5) unfolding task_finish_def al'
        by (cases "sy x"; cases "sc_tasks (sy x) ! slot")
          (simp add: task_fill_def task_publish_def Let_def f_def g_def tset_def tget_def cur_def)
      finally show ?thesis .
    qed
    have "current_ok s'"
    proof (rule current_ok_same [OF sys_okD(1) [OF ok]])
      have "prios_ok (tset slot f (sy x))"
        by (rule prios_tset [OF len(1) s32]) (simp add: f_def TASK_PRIO_NORMAL_def)
      then show "prios_ok s'" by (simp add: s' prios_ok_def)
    qed (use rsv in \<open>auto simp: s' get f_def\<close>)
    moreover have "stacks_ok s' (sy_others x)"
    proof -
      have at: "stack_at s' k = (if k = slot then (stack, pages) else stack_at (sy x) k)" for k
        using s32 by (auto simp: s' stack_at_def get f_def)
      have "stacked s' = insert slot (stacked (sy x))" using s32 nz by (auto simp: stacked_def at)
      moreover have "kernel_pages.table_ok pa (stack_at s') (insert slot (stacked (sy x))) (sy_others x)"
        by (rule kernel_pages.table_add [OF tab al' nst]) (use nst in \<open>auto simp: at\<close>)
      ultimately show ?thesis by (simp add: stacks_ok_table) (simp add: s' kernel_pages.table_ok_def owned_inv_mem)
    qed
    moreover have "life_ok (x\<lparr>sy := s', sy_reserved := sy_reserved x - {slot}, sy_boot := sy_boot x\<rparr>)"
      by (rule life_one [OF sys_okD(3) [OF ok] s32 len(5), of s' f])
        (use rsv nz in \<open>auto simp: s' get f_def live_state_def\<close>)
    ultimately show ?thesis by (simp add: sys_ok_def)
  qed
qed

lemma sys_ok_secondary:
  assumes ok: "sys_ok x" and h: "h < 2" "cur h (sy x) = -1"
    and res: "sched_secondary_init h (sy x) = (int slot, s')"
  shows "sys_ok (x\<lparr>sy := s', sy_boot := insert slot (sy_boot x)\<rparr>)"
proof -
  define f where "f = (\<lambda>t :: task. t\<lparr>t_state := TASK_RUNNING, t_parent := -1,
             t_stack_base := 0, t_stack_pages := 0, t_priority := TASK_PRIO_IDLE,
             t_affinity := int h, t_held := False, t_domain := 0\<rparr>)"
  obtain fs: "find (\<lambda>i. t_state (tget (sy x) i) = TASK_UNUSED) [1..<MAX_TASKS] = Some slot"
    and s': "s' = set_cur h slot (tset slot f (sy x))"
    using res by (auto simp: sched_secondary_init_def f_def split: option.splits)
  note slot = find_slot [OF fs]
  note cok = sys_okD(1) [OF ok]
  note len = current_okD [OF cok]
  have nl: "\<not> live_state (t_state (tget (sy x) slot))" using slot(3) by (auto simp: live_state_def)
  note dead = life_entry(2) [OF sys_okD(3) [OF ok] slot(2) nl]
  note get = tget_tset [of slot "sy x", unfolded len(5), OF slot(2)]
  have nR: "slot \<notin> sy_reserved x" using life_entry(1) [OF sys_okD(3) [OF ok] slot(2)] slot(3) by auto
  have cur': "cur g s' = (if g = h then int slot else cur g (sy x))" if "g < 2" for g
    using len(2) h that by (simp add: s' cur_set_cur)
  have free: "cur g (sy x) \<noteq> int slot" if "g < 2" for g
    using cok slot(3) that unfolding current_ok_def by (metis of_nat_eq_iff of_nat_0_le_iff task_state.distinct(3) neg_0_le_iff_le not_one_le_zero)
  have a: "cur g s' = -1 \<or> (\<exists>i < 32. cur g s' = int i \<and> t_state (tget s' i) = TASK_RUNNING)" if g: "g < 2" for g
  proof (cases "g = h")
    case True
    then show ?thesis using cur' [OF g] slot(2) by (auto simp: s' get f_def)
  next
    case False
    from cok g have "cur g (sy x) = -1 \<or> (\<exists>i < 32. cur g (sy x) = int i \<and> t_state (tget (sy x) i) = TASK_RUNNING)"
      unfolding current_ok_def by blast
    then show ?thesis using cur' [OF g] False by (auto simp: s' get f_def)
  qed
  have b: "cur g s' = -1" if "g < 2" "k < 2" "g \<noteq> k" "cur g s' = cur k s'" for g k
    using that free cur' cok unfolding current_ok_def by (metis (no_types))
  have c: "\<exists>g < 2. cur g s' = int i" if "i < 32" "t_state (tget s' i) = TASK_RUNNING" for i
  proof (cases "i = slot")
    case True
    then show ?thesis using cur' [OF h(1)] h by auto
  next
    case False
    with that have "t_state (tget (sy x) i) = TASK_RUNNING" by (simp add: s' get)
    with cok that(1) obtain g where g: "g < 2" "cur g (sy x) = int i" unfolding current_ok_def by blast
    with h(2) have "g \<noteq> h" by auto
    with g cur' [OF g(1)] show ?thesis by auto
  qed
  have "prios_ok (tset slot f (sy x))"
    by (rule prios_tset [OF len(1) slot(2)]) (simp add: f_def TASK_PRIO_IDLE_def)
  then have "prios_ok s'" by (simp add: s' prios_ok_def)
  then have "current_ok s'" unfolding current_ok_def using a b c len by (simp add: s')
  moreover have at: "fst (stack_at s' k) = fst (stack_at (sy x) k) \<and> (fst (stack_at (sy x) k) \<noteq> 0 \<longrightarrow> stack_at s' k = stack_at (sy x) k)" for k
    using dead by (auto simp: s' stack_at_def get f_def)
  then have "stacked s' = stacked (sy x)" by (simp add: stacked_def)
  then have "stacks_ok s' (sy_others x)"
    using kernel_pages.table_same [OF sys_okD(2) [OF ok, unfolded stacks_ok_table], of "stack_at s'"] at
    by (simp add: stacks_ok_table stacked_def) (simp add: s')
  moreover have "life_ok (x\<lparr>sy := s', sy_reserved := sy_reserved x, sy_boot := insert slot (sy_boot x)\<rparr>)"
    by (rule life_one [OF sys_okD(3) [OF ok] slot(2) len(5), of s' f])
      (use dead nR in \<open>auto simp: s' get f_def live_state_def\<close>)
  ultimately show ?thesis by (simp add: sys_ok_def)
qed

lemma sys_ok_boot:
  assumes "owned_inv pa B"
  shows "sys_ok (sys_boot pa B)"
proof -
  have get: "tget (sched_init pa) i = (if i = 0 then zero_task\<lparr>t_parent := -1, t_state := TASK_RUNNING, t_affinity := 0,
                          t_priority := TASK_PRIO_NORMAL\<rparr> else zero_task\<lparr>t_parent := -1, t_affinity := -1\<rparr>)" if "i < 32" for i
    using that by (cases i) (simp_all add: sched_init_def tget_def MAX_TASKS_def)
  have cur: "cur g (sched_init pa) = (if g = 0 then 0 else -1)" if "g < 2" for g
    using that by (cases g) (simp_all add: sched_init_def cur_def MAX_HARTS_def)
  have reap: "sc_reap (sched_init pa) = [(0, 0), (0, 0)]"
    by (simp add: sched_init_def MAX_HARTS_def numeral_2_eq_2)
  have len: "length (sc_tasks (sched_init pa)) = 32" "length (sc_current (sched_init pa)) = 2" "sc_active (sched_init pa)"
    "sc_pages (sched_init pa) = pa" by (simp_all add: sched_init_def MAX_TASKS_def MAX_HARTS_def)
  have rz: "fst (sc_reap (sched_init pa) ! h) = 0" if "h < 2" for h
    using that by (cases h) (auto simp: reap less_Suc_eq)
  have "current_ok (sched_init pa)" unfolding current_ok_def prios_ok_def
    using len by (auto simp: get cur reap zero_task_def task_prios intro: exI [of _ "0 :: nat"])
  moreover have "fst (stack_at (sched_init pa) k) = 0" if "k < 34" for k
    using that rz [of "k - 32"] by (auto simp: stack_at_def get zero_task_def)
  then have "stacked (sched_init pa) = {}" by (auto simp: stacked_def)
  then have "stacks_ok (sched_init pa) B" using assms by (simp add: stacks_ok_def len)
  moreover have "life_ok (sys_boot pa B)"
    by (auto simp: life_ok_def sys_boot_def get rz zero_task_def live_state_def)
  ultimately show ?thesis by (simp add: sys_ok_def) (simp add: sys_boot_def)
qed

lemma sys_ok_pages:
  assumes ok: "sys_ok x" and t: "kernel_pages.table_ok pa (stack_at (sy x)) (stacked (sy x)) B"
  shows "sys_ok (x\<lparr>sy := (sy x)\<lparr>sc_pages := pa\<rparr>, sy_others := B\<rparr>)"
proof -
  let ?s = "(sy x)\<lparr>sc_pages := pa\<rparr>"
  have "stack_at ?s = stack_at (sy x)" by (auto simp: stack_at_def)
  then have "stacks_ok ?s B" using t by (simp add: stacks_ok_table stacked_def)
  moreover have "current_ok ?s"
    by (rule current_ok_same [OF sys_okD(1) [OF ok]]) (use current_okD [OF sys_okD(1) [OF ok]] in \<open>simp_all add: prios_ok_def\<close>)
  moreover have "life_ok (x\<lparr>sy := ?s, sy_others := B\<rparr>)" using sys_okD(3) [OF ok] by (simp add: life_ok_def)
  ultimately show ?thesis by (simp add: sys_ok_def)
qed

lemma sys_step_ok: "sys_step a x y \<Longrightarrow> sys_ok x \<Longrightarrow> sys_ok y"
proof (induction rule: sys_step.induct)
  case (yield h x now here s')
  then obtain r where "sched_switch h now here False (sy x) = Some (r, s')" by (auto simp: sched_yield_def)
  with yield show ?case by (auto intro: sys_ok_switch simp: MAX_HARTS_def)
next
  case (blocks h x now here r s')
  then have "sched_switch h now here True (sy x) = Some (r, s')"
    by (auto simp: task_block_def sched_has_task_def)
  with blocks show ?case by (auto intro: sys_ok_switch simp: MAX_HARTS_def)
next
  case (block_until h x now here deadline r s')
  have h: "h < 2" using block_until.hyps(1) by (simp add: MAX_HARTS_def)
  show ?case
  proof (cases "deadline = 0")
    case True
    with block_until have "sched_switch h now here True (sy x) = Some (r, s')"
      by (auto simp: task_block_until_ms_def task_block_def sched_has_task_def)
    with block_until h show ?thesis by (auto intro: sys_ok_switch)
  next
    case False
    define x1 where "x1 = x\<lparr>sy := set_deadline h deadline (sy x)\<rparr>"
    have ok1: "sys_ok x1" unfolding x1_def
      by (rule sys_ok_quiet [OF block_until.prems quiet_deadline [OF sys_okD(1) [OF block_until.prems] h block_until.hyps(2)]])
    have t1: "sched_has_task h (sy x1)" using block_until.hyps(2) by (simp add: x1_def sched_has_task_def set_deadline_def)
    have "sched_switch h now here True (sy x1) = Some (r, s')"
      using block_until.hyps False t1 by (auto simp: task_block_until_ms_def task_block_def x1_def sched_has_task_def)
    from sys_ok_switch [OF ok1 h t1 this] have "sys_ok (moved h s' x1)" .
    moreover have "moved h s' x1 = moved h s' x" by (cases x) (simp add: moved_def x1_def set_deadline_def)
    ultimately show ?thesis by simp
  qed
next
  case (deadline h x d)
  then show ?case using sys_ok_quiet quiet_deadline sys_okD(1) by (simp add: MAX_HARTS_def)
next
  case (reap h x s')
  then show ?case by (simp add: sys_ok_reap(1) MAX_HARTS_def)
next
  case (finish h slot x hart pages tramp entry arg caller r s')
  then show ?case using sys_ok_finish by blast
next
  case (secondary h x slot s')
  then show ?case by (simp add: sys_ok_secondary MAX_HARTS_def)
next
  case (exits h x now here r s')
  then show ?case using sys_ok_exit(1) by (simp add: MAX_HARTS_def)
next
  case (take_pages x n caller p pa)
  then show ?case
    using sys_ok_pages kernel_pages.table_others_take sys_okD(2) stacks_ok_table by blast
next
  case (give_pages p n x pa)
  then show ?case
    using sys_ok_pages kernel_pages.table_others_give sys_okD(2) stacks_ok_table by blast
next
  case (mem_write x f)
  have "kernel_pages.table_ok (pa_mem_update f (sc_pages (sy x))) (stack_at (sy x)) (stacked (sy x)) (sy_others x)"
    using sys_okD(2) [OF mem_write] by (simp add: stacks_ok_def kernel_pages.table_ok_def owned_inv_mem)
  from sys_ok_pages [OF mem_write this] show ?case by simp
qed (simp_all add: sys_ok_quiet sys_okD(4) quiet_prepare quiet_wait_done quiet_unblock quiet_priority
      quiet_affinity quiet_hold quiet_release quiet_status quiet_return sys_ok_reserve)

lemma sys_reach_ok: "sys_reach cfg x \<Longrightarrow> sys_ok x"
  by (induction rule: sys_reach.induct) (auto intro: sys_ok_boot owned_reach sys_step_ok)

end
