(* ===== verification/Sched_Safe.thy ===== *)
theory Sched_Safe
  imports Sched_Correct
begin

text \<open>
  The properties of the scheduler: exclusive harts and stacks in every reachable state, the choice of
  the next task and its fairness, the wake token, the frame of a new task, and the window in which a
  slot under creation can be woken.
\<close>

section \<open>Safety of every reachable state\<close>


lemma demo_reach: "sys_reach demo_cfg (sys_boot demo_boot {})"
  by (rule sys_reach.boot [OF demo_boot_owned])




section \<open>The choice of the next task\<close>

text \<open>
  The scan chooses, among the tasks this hart may run (the sleepers whose deadline has passed
  included), one of the highest priority, and of those the first after the outgoing task in table
  order; it finds none exactly when there is none.
\<close>

definition runnable_after :: "nat \<Rightarrow> nat \<Rightarrow> sched \<Rightarrow> nat \<Rightarrow> bool" where
  "runnable_after h now s i \<longleftrightarrow> runnable_here h (wake_sleeper now (tget s i))"

theorem next_runnable_choice:
  assumes "prios_ok s" and "from < MAX_TASKS" and "next_runnable h now from s = (c, s')"
  shows "(if \<forall>i < MAX_TASKS. \<not> runnable_after h now s i then c = -1
          else (\<exists>k. 1 \<le> k \<and> k \<le> MAX_TASKS \<and> c = int ((from + k) mod MAX_TASKS)
                 \<and> runnable_after h now s ((from + k) mod MAX_TASKS)
                 \<and> (\<forall>i < MAX_TASKS. runnable_after h now s i \<longrightarrow>
                       t_priority (tget s i) \<le> t_priority (tget s ((from + k) mod MAX_TASKS)))
                 \<and> (\<forall>j. 1 \<le> j \<and> j < k \<and> runnable_after h now s ((from + j) mod MAX_TASKS) \<longrightarrow>
                       t_priority (tget s ((from + j) mod MAX_TASKS)) < t_priority (tget s ((from + k) mod MAX_TASKS)))))
    \<and> sc_tasks s' = map (wake_sleeper now) (sc_tasks s)"
proof -
  have f: "from < 32" using assms(2) by (simp add: MAX_TASKS_def)
  have s': "sc_tasks s' = map (wake_sleeper now) (sc_tasks s)"
    by (simp add: next_runnable_scan(1) [OF assms(1) f assms(3)])
  obtain p where b: "best h now from (sc_tasks s) 32 c p"
    using next_runnable_scan(2) [OF assms(1) f assms(3)] by blast
  have every: "\<exists>k. 1 \<le> k \<and> k \<le> 32 \<and> rot from k = i" if "i < 32" for i using rot_surj [OF that f] .
  have eq: "runnable_after h now s (rot from k) \<longleftrightarrow> runnable_here h (wake_sleeper now (sc_tasks s ! rot from k))" for k
    by (simp add: runnable_after_def tget_def)
  from b [unfolded best_def] show ?thesis
  proof (elim disjE exE conjE)
    assume n: "c = -1" "\<forall>j. 1 \<le> j \<and> j \<le> 32 \<longrightarrow> \<not> runnable_here h (wake_sleeper now (sc_tasks s ! rot from j))"
    have "\<forall>i < 32. \<not> runnable_after h now s i" using every n(2) eq by metis
    with n s' show ?thesis by (simp add: MAX_TASKS_def)
  next
    fix k
    assume k: "1 \<le> k" "k \<le> 32" "c = int (rot from k)" "p = t_priority (sc_tasks s ! rot from k)"
      "runnable_here h (wake_sleeper now (sc_tasks s ! rot from k))"
      "\<forall>i. 1 \<le> i \<and> i \<le> 32 \<and> runnable_here h (wake_sleeper now (sc_tasks s ! rot from i)) \<longrightarrow>
         t_priority (sc_tasks s ! rot from i) \<le> p \<and> (i < k \<longrightarrow> t_priority (sc_tasks s ! rot from i) < p)"
    have top: "t_priority (tget s i) \<le> t_priority (tget s (rot from k))"
      if i: "i < 32" "runnable_after h now s i" for i
    proof -
      obtain j where j: "1 \<le> j" "j \<le> 32" "rot from j = i" using every [OF i(1)] by blast
      with k(6) i(2) eq [of j] k(4) show ?thesis by (auto simp: tget_def)
    qed
    have first: "t_priority (tget s (rot from j)) < t_priority (tget s (rot from k))"
      if "1 \<le> j" "j < k" "runnable_after h now s (rot from j)" for j
      using k(2,4,6) that eq [of j] by (simp add: tget_def)
    have ex: "\<not> (\<forall>i < 32. \<not> runnable_after h now s i)" using k(5) eq [of k] rot_less by blast
    have kth: "runnable_after h now s (rot from k)" using k(5) eq [of k] by blast
    have "\<exists>k. 1 \<le> k \<and> k \<le> 32 \<and> c = int (rot from k) \<and> runnable_after h now s (rot from k)
        \<and> (\<forall>i < 32. runnable_after h now s i \<longrightarrow> t_priority (tget s i) \<le> t_priority (tget s (rot from k)))
        \<and> (\<forall>j. 1 \<le> j \<and> j < k \<and> runnable_after h now s (rot from j) \<longrightarrow>
              t_priority (tget s (rot from j)) < t_priority (tget s (rot from k)))"
      using k(1,2,3) kth top first by blast
    with ex s' show ?thesis by (simp only: MAX_TASKS_def rot_def [symmetric] if_False simp_thms)
  qed
qed

theorem next_runnable_choice_witness:
  "fst (next_runnable 0 7 0 (sched_init demo_boot)) = -1"
proof -
  let ?s = "sched_init demo_boot"
  have pr: "prios_ok ?s"
    using sys_okD(1) [OF sys_reach_ok [OF demo_reach]] by (simp add: current_okD sys_boot_def)
  have "\<not> runnable_after 0 7 ?s i" if "i < MAX_TASKS" for i
    using that by (cases i) (simp_all add: runnable_after_def runnable_here_def wake_sleeper_def sched_init_def tget_def
        zero_task_def MAX_TASKS_def)
  then show ?thesis
    using next_runnable_choice [OF pr, of 0 0 7] by (cases "next_runnable 0 7 0 ?s") (simp add: MAX_TASKS_def)
qed


lemma only_runnable:
  assumes "prios_ok s" and "from < 32" and i: "i < 32" "\<And>j. j < 32 \<Longrightarrow> runnable_after h now s j \<longleftrightarrow> j = i"
  shows "\<exists>s'. next_runnable h now from s = (int i, s')"
proof -
  obtain c s' where scan: "next_runnable h now from s = (c, s')" by fastforce
  obtain p where b: "best h now from (sc_tasks s) 32 c p"
    using next_runnable_scan(2) [OF assms(1,2) scan] by blast
  obtain k where k: "1 \<le> k" "k \<le> 32" "rot from k = i" using rot_surj [OF i(1) assms(2)] by blast
  have "runnable_here h (wake_sleeper now (sc_tasks s ! rot from k))"
    using i k by (simp add: runnable_after_def tget_def)
  with b k have "\<exists>j. c = int (rot from j) \<and> runnable_here h (wake_sleeper now (sc_tasks s ! rot from j))"
    unfolding best_def by blast
  then obtain j where "c = int (rot from j)" "runnable_after h now s (rot from j)"
    by (auto simp: runnable_after_def tget_def)
  with i(2) [of "rot from j"] scan show ?thesis by auto
qed






section \<open>The wake token\<close>

definition awake :: "nat \<Rightarrow> sched \<Rightarrow> bool" where
  "awake p s \<longleftrightarrow> t_state (tget s p) = TASK_READY \<or> t_state (tget s p) = TASK_RUNNING"

definition keeps_token :: "nat \<Rightarrow> sched \<Rightarrow> sched \<Rightarrow> bool" where
  "keeps_token p s s' \<longleftrightarrow> (awake p s \<longrightarrow> awake p s' \<and> t_armed (tget s' p) = t_armed (tget s p)
     \<and> (t_pending (tget s p) \<longrightarrow> t_pending (tget s' p)))"

lemma keeps_token_refl [simp]: "keeps_token p s s"
  by (simp add: keeps_token_def)

lemma keeps_token_trans: "keeps_token p s t \<Longrightarrow> keeps_token p t u \<Longrightarrow> keeps_token p s u"
  by (auto simp: keeps_token_def)

lemma keeps_token_same: "tget s' p = tget s p \<Longrightarrow> keeps_token p s s'"
  by (simp add: keeps_token_def awake_def)

lemma keeps_token_other: "i \<noteq> p \<Longrightarrow> keeps_token p s (tset i f s)"
  by (rule keeps_token_same) (simp add: tget_def tset_def)

lemma tset_beyond: "\<not> i < length (sc_tasks s) \<Longrightarrow> tset i f s = s"
  by (cases s) (simp add: tset_def list_update_beyond)

lemma keeps_token_tset:
  assumes "\<And>t. t_state (f t) = t_state t" "\<And>t. t_armed (f t) = t_armed t" "\<And>t. t_pending (f t) = t_pending t"
  shows "keeps_token p s (tset i f s)"
proof (cases "i < length (sc_tasks s)")
  case True
  with assms show ?thesis by (auto simp: keeps_token_def awake_def tget_tset)
qed (simp add: tset_beyond)

lemma keeps_token_unblock: "keeps_token p s (snd (task_unblock pid s))"
proof (cases "nat pid < length (sc_tasks s)")
  case True
  then show ?thesis by (auto simp: task_unblock_def keeps_token_def awake_def tget_tset)
next
  case False
  then show ?thesis by (auto simp: task_unblock_def tset_beyond)
qed

lemma keeps_token_scan:
  assumes "prios_ok s" and "from < 32" and "p < 32" and "next_runnable h now from s = (c, s')"
  shows "keeps_token p s s'"
  using assms(1,3) by (simp add: next_runnable_scan(1) [OF assms(1,2,4)] keeps_token_def awake_def prios_ok_def)
    (simp add: wake_sleeper_def tget_def)

lemma keeps_token_switch:
  assumes ok: "current_ok s" and h: "h < 2" and t: "sched_has_task h s" and p: "p < 32"
    and foreign: "blocking \<Longrightarrow> cur h s \<noteq> int p"
    and res: "sched_switch h now here blocking s = Some (r, s')"
  shows "keeps_token p s s'"
proof -
  obtain s0 where s0: "sched_reap h s = Some s0" and sw: "switch_locked h now here blocking s0 = (r, s')"
    using res t by (auto simp: sched_switch_def sched_has_task_def split: option.splits)
  note f = reap_facts [OF s0]
  define q where "q = nat (cur h s0)"
  have q: "q < 32" "blocking \<Longrightarrow> q \<noteq> p"
    using current_ok_leaving(1) [OF ok h] t foreign by (auto simp: q_def f leaving_def sched_has_task_def)
  have pr: "prios_ok s0" using current_okD(1) [OF ok] by (simp add: prios_ok_def f)
  define s1 where "s1 = (if blocking then tset q (\<lambda>t. t\<lparr>t_armed := False, t_pending := False\<rparr>) s0 else s0)"
  define s2 where "s2 = (if blocking then tset q (\<lambda>t. t\<lparr>t_state := TASK_BLOCKED\<rparr>) s1 else s1)"
  have k0: "keeps_token p s s0" by (rule keeps_token_same) (simp add: f)
  have k1: "keeps_token p s0 s1" "keeps_token p s1 s2"
    using q(2) by (auto simp: s1_def s2_def intro: keeps_token_other)
  have pr2: "prios_ok s2" using pr q(1) by (auto simp: s1_def s2_def prios_ok_def tget_tset)
  obtain n s3 where scan: "next_runnable h now q s2 = (n, s3)" by fastforce
  have k3: "keeps_token p s2 s3" by (rule keeps_token_scan [OF pr2 q(1) p scan])
  have len3: "length (sc_tasks s3) = 32" using pr2 by (simp add: next_runnable_scan(1) [OF pr2 q(1) scan] prios_ok_def)
  note unf = switch_locked_def [of h now here blocking s0, folded q_def, unfolded Let_def, folded s1_def]
  have s': "s' = s1 \<or> s' = s3 \<or> blocking \<and> s' = tset q (\<lambda>t. t\<lparr>t_state := TASK_RUNNING, t_armed := t_armed (tget s0 q)\<rparr>) s3
      \<or> 0 \<le> n \<and> switch_commit h here q (nat n) now s3 = (r, s')"
    using sw scan unfolding unf s2_def [symmetric] by (auto split: if_splits)
  have "keeps_token p s3 s'" if "0 \<le> n" "switch_commit h here q (nat n) now s3 = (r, s')"
  proof -
    have n32: "nat n < 32" using scan_choice(1) [OF pr2 q(1) scan that(1)] .
    have len: "length (sc_current s3) = 2" using current_okD(2) [OF ok]
      by (simp add: next_runnable_scan(1) [OF pr2 q(1) scan] s1_def s2_def f(2))
    show ?thesis
    proof (cases "nat n = q")
      case True
      then have "s' = tset q (\<lambda>t. t\<lparr>t_state := TASK_RUNNING\<rparr>) s3" using that(2) by simp
      then show ?thesis using q(1) len3 by (auto simp: keeps_token_def awake_def tget_tset)
    next
      case False
      from commit_goes(7) [OF False len3 q(1) n32 len h that(2), of p]
      show ?thesis by (auto simp: keeps_token_def awake_def)
    qed
  qed
  moreover have "keeps_token p s3 (tset q (\<lambda>t. t\<lparr>t_state := TASK_RUNNING, t_armed := t_armed (tget s0 q)\<rparr>) s3)" if blocking
    by (rule keeps_token_other) (rule q(2) [OF that])
  ultimately show ?thesis using s' keeps_token_trans k0 k1 k3 by metis
qed

definition foreign :: "nat \<Rightarrow> actor \<Rightarrow> sys \<Rightarrow> bool" where
  "foreign p a x \<longleftrightarrow> (case a of Own h \<Rightarrow> cur h (sy x) \<noteq> int p | _ \<Rightarrow> True)"

lemma keeps_token_step:
  assumes "sys_step a x y" and "sys_ok x" and "foreign p a x" and p: "p < 32"
  shows "keeps_token p (sy x) (sy y)"
  using assms(1-3)
proof (induction rule: sys_step.induct)
  case (yield h x now here s')
  then obtain r where "sched_switch h now here False (sy x) = Some (r, s')" by (auto simp: sched_yield_def)
  from keeps_token_switch [OF sys_okD(1) [OF yield.prems(1)] _ yield.hyps(2) p _ this] yield.hyps(1)
  show ?case by (simp add: moved_def MAX_HARTS_def)
next
  case (blocks h x now here r s')
  then have "sched_switch h now here True (sy x) = Some (r, s')" by (auto simp: task_block_def sched_has_task_def)
  from keeps_token_switch [OF sys_okD(1) [OF blocks.prems(1)] _ blocks.hyps(2) p _ this] blocks.hyps(1) blocks.prems(2)
  show ?case by (simp add: moved_def MAX_HARTS_def foreign_def)
next
  case (block_until h x now here deadline r s')
  have h: "h < 2" and ne: "cur h (sy x) \<noteq> int p"
    using block_until by (simp_all add: MAX_HARTS_def foreign_def)
  define s1 where "s1 = (if deadline = 0 then sy x else set_deadline h deadline (sy x))"
  have q: "quiet {} (sy x) s1" using quiet_deadline [OF sys_okD(1) [OF block_until.prems(1)] h block_until.hyps(2)]
    by (simp add: s1_def)
  have t1: "sched_has_task h s1" using block_until.hyps(2) by (simp add: s1_def sched_has_task_def set_deadline_def)
  have "sched_switch h now here True s1 = Some (r, s')"
    using block_until.hyps t1 by (auto simp: task_block_until_ms_def task_block_def s1_def sched_has_task_def split: if_splits)
  from keeps_token_switch [OF quiet_current_ok [OF q sys_okD(1) [OF block_until.prems(1)]] h t1 p _ this] ne
  have "keeps_token p s1 s'" by (simp add: s1_def set_deadline_def)
  moreover have "keeps_token p (sy x) s1" by (simp add: s1_def set_deadline_def keeps_token_tset)
  ultimately show ?case using keeps_token_trans by (simp add: moved_def)
next
  case (reap h x s')
  then show ?case by (simp add: keeps_token_same reap_facts(5))
next
  case (prepare h x)
  then have "nat (cur h (sy x)) \<noteq> p \<or> cur h (sy x) < 0" by (auto simp: foreign_def split: if_splits)
  then show ?case by (auto simp: task_prepare_block_def sched_has_task_def keeps_token_other)
next
  case (wait_done h x)
  then have "nat (cur h (sy x)) \<noteq> p \<or> cur h (sy x) < 0" by (auto simp: foreign_def split: if_splits)
  then show ?case by (auto simp: task_wait_done_def sched_has_task_def keeps_token_other)
next
  case (secondary h x slot s')
  obtain fs: "find (\<lambda>i. t_state (tget (sy x) i) = TASK_UNUSED) [1..<MAX_TASKS] = Some slot"
    using secondary.hyps(3) by (auto simp: sched_secondary_init_def split: option.splits)
  have "p \<noteq> slot \<or> \<not> awake p (sy x)" using find_slot(3) [OF fs] by (auto simp: awake_def)
  moreover obtain f where "s' = set_cur h slot (tset slot f (sy x))"
    using secondary.hyps(3) fs by (auto simp: sched_secondary_init_def)
  then have "p \<noteq> slot \<Longrightarrow> tget s' p = tget (sy x) p" by (simp add: tget_def tset_def)
  then have "p \<noteq> slot \<Longrightarrow> keeps_token p (sy x) s'" by (rule keeps_token_same)
  ultimately show ?case by (auto simp: keeps_token_def)
next
  case (reserve x slot s')
  obtain fs: "find (\<lambda>i. t_state (tget (sy x) i) = TASK_UNUSED \<or> t_state (tget (sy x) i) = TASK_DEAD) [1..<MAX_TASKS] = Some slot"
    and s': "s' = tset slot (\<lambda>t. t\<lparr>t_state := TASK_BLOCKED\<rparr>) (sy x)"
    using reserve.hyps by (auto simp: task_reserve_def split: option.splits)
  have "p \<noteq> slot \<or> \<not> awake p (sy x)" using find_slot(3) [OF fs] by (auto simp: awake_def)
  then show ?case by (cases "p = slot") (simp_all add: s' keeps_token_other, simp add: keeps_token_def)
next
  case (finish h slot x hart pages tramp entry arg caller r s')
  have "slot < 32" using finish sys_okD(3) by (auto simp: life_ok_def)
  with sys_okD(5) [OF finish.prems(1) _ finish.hyps(2)] have b: "t_state (tget (sy x) slot) = TASK_BLOCKED" by blast
  have "p = slot \<or> tget s' p = tget (sy x) p"
    using finish.hyps(5) by (cases "p = slot") (auto simp: task_finish_def task_publish_def task_fill_def Let_def
        tset_def tget_def split: prod.splits option.splits)
  then show ?case
  proof
    assume "p = slot"
    then show ?thesis using b by (simp add: keeps_token_def awake_def)
  qed (simp add: keeps_token_same)
next
  case (exits h x now here r s')
  have h: "h < 2" using exits.hyps(1) by (simp add: MAX_HARTS_def)
  note cok = sys_okD(1) [OF exits.prems(1)]
  define q where "q = nat (cur h (sy x))"
  have q: "q < 32" "q \<noteq> p"
    using current_ok_leaving(1) [OF cok h] exits.hyps(2) exits.prems(2)
    by (auto simp: q_def leaving_def sched_has_task_def foreign_def)
  obtain c s1 where scan: "next_runnable h now q (sy x) = (c, s1)" by fastforce
  have k1: "keeps_token p (sy x) s1" by (rule keeps_token_scan [OF current_okD(1) [OF cok] q(1) p scan])
  have "s' = s1 \<or> (0 \<le> c \<and> (\<exists>u v z. s' = tset q u (set_cur h (nat c) (tset (nat c) (\<lambda>t. t\<lparr>t_state := TASK_RUNNING\<rparr>)
        (tset q v (s1\<lparr>sc_reap := z\<rparr>))))))"
    using exits.hyps(5) exits.hyps(2) scan current_okD(4) [OF cok]
    by (auto simp: task_exit_def Let_def q_def [symmetric] split: if_splits)
  then have "keeps_token p s1 s'"
  proof (elim disjE conjE exE)
    fix u v z
    assume s': "s' = tset q u (set_cur h (nat c) (tset (nat c) (\<lambda>t. t\<lparr>t_state := TASK_RUNNING\<rparr>) (tset q v (s1\<lparr>sc_reap := z\<rparr>))))"
    have "tget s' p = (if nat c = p \<and> p < length (sc_tasks s1) then (tget s1 p)\<lparr>t_state := TASK_RUNNING\<rparr> else tget s1 p)"
      using q(2) by (cases "nat c = p"; cases "p < length (sc_tasks s1)")
        (simp_all add: s' tset_def tget_def set_cur_def list_update_beyond)
    then show ?thesis by (auto simp: keeps_token_def awake_def)
  qed simp
  with k1 show ?case using keeps_token_trans by (simp add: moved_def)
next
  case (release x hart)
  then show ?case using p sys_okD(4) [OF release.prems(1)]
    by (auto simp: sched_release_hart_holds_def keeps_token_def awake_def tget_def)
qed (auto simp: task_set_priority_def task_set_affinity_def sched_hold_current_on_hart_def task_set_exit_status_def
      task_return_def set_deadline_def keeps_token_unblock intro: keeps_token_tset keeps_token_same)

text \<open>Runs in which task \<open>p\<close> takes no step of its own, though it may be preempted and resumed.\<close>

inductive foreign_run :: "nat \<Rightarrow> sys \<Rightarrow> sys \<Rightarrow> bool" for p :: nat where
  stay: "foreign_run p x x"
| go: "foreign_run p x y \<Longrightarrow> foreign p a y \<Longrightarrow> sys_step a y z \<Longrightarrow> foreign_run p x z"

lemma foreign_run_token:
  "foreign_run p x y \<Longrightarrow> sys_ok x \<Longrightarrow> p < 32 \<Longrightarrow> sys_ok y \<and> keeps_token p (sy x) (sy y)"
proof (induction rule: foreign_run.induct)
  case (go x y a z)
  then have "sys_ok y" "keeps_token p (sy x) (sy y)" by auto
  with sys_step_ok [OF go.hyps(3)] keeps_token_step [OF go.hyps(3) _ go.hyps(2) go.prems(2)] keeps_token_trans
  show ?case by blast
qed simp

text \<open>
  C5: No lost wake.  A task prepares to block; whatever other tasks, ticks and harts do then, a
  wake that arrives before its block, and anything that follows, leaves its block no wait: the block
  consumes the token and returns at once, with the task still running.
\<close>

theorem wake_is_not_lost:
  assumes "sys_reach cfg x" and "h < MAX_HARTS" and "cur h (sy x) = int p"
    and "foreign_run p (x\<lparr>sy := task_prepare_block h (sy x)\<rparr>) y"
    and "foreign_run p (y\<lparr>sy := snd (task_unblock (int p) (sy y))\<rparr>) z"
    and "g < MAX_HARTS" and "cur g (sy z) = int p"
    and "task_block g now here (sy z) = Some (r, s')"
  shows "r = SWITCH_WOKEN \<and> cur g s' = int p \<and> t_state (tget s' p) = TASK_RUNNING
    \<and> \<not> t_pending (tget s' p)"
proof -
  have ok: "sys_ok x" using sys_reach_ok [OF assms(1)] .
  have h: "h < 2" "g < 2" using assms(2,6) by (simp_all add: MAX_HARTS_def)
  note c = current_ok_leaving [OF sys_okD(1) [OF ok] h(1)]
  have p: "p < 32" and run: "t_state (tget (sy x) p) = TASK_RUNNING"
    using c assms(3) by (simp_all add: leaving_def)
  have act: "sc_active (sy x)" using current_okD(4) [OF sys_okD(1) [OF ok]] .
  let ?x1 = "x\<lparr>sy := task_prepare_block h (sy x)\<rparr>"
  have "sys_step (Own h) x ?x1" by (rule sys_step.prepare [OF assms(2)])
  then have ok1: "sys_ok ?x1" using ok by (rule sys_step_ok)
  have armed: "awake p (sy ?x1) \<and> t_armed (tget (sy ?x1) p)"
    using p run assms(3) act sys_okD(4) [OF ok] by (simp add: task_prepare_block_def sched_has_task_def tget_tset awake_def)
  have y: "sys_ok y" "awake p (sy y)" "t_armed (tget (sy y) p)"
    using foreign_run_token [OF assms(4) ok1 p] armed by (auto simp: keeps_token_def)
  have pR: "p \<notin> sy_reserved y" using sys_okD(5) [OF y(1) p] y(2) by (auto simp: awake_def)
  let ?y1 = "y\<lparr>sy := snd (task_unblock (int p) (sy y))\<rparr>"
  have oky: "sys_ok ?y1" by (rule sys_step_ok [OF sys_step.unblock y(1)]) (simp add: pR)
  have tok: "awake p (sy ?y1) \<and> t_pending (tget (sy ?y1) p)"
    using y p sys_okD(4) [OF y(1)] current_okD(4) [OF sys_okD(1) [OF y(1)]]
    by (auto simp: task_unblock_def pid_ok_def MAX_TASKS_def tget_tset awake_def)
  have z: "sys_ok z" "t_pending (tget (sy z) p)"
    using foreign_run_token [OF assms(5) oky p] tok by (auto simp: keeps_token_def)
  have tz: "sched_has_task g (sy z)" using assms(7) current_okD(4) [OF sys_okD(1) [OF z(1)]]
    by (simp add: sched_has_task_def)
  have rz: "t_state (tget (sy z) p) = TASK_RUNNING"
    using current_ok_leaving(2) [OF sys_okD(1) [OF z(1)] h(2)] assms(7) by simp
  obtain s0 where s0: "sched_reap g (sy z) = Some s0" and sw: "switch_locked g now here True s0 = (r, s')"
    using assms(8) tz by (auto simp: task_block_def sched_switch_def sched_has_task_def split: option.splits)
  note f = reap_facts [OF s0]
  have "switch_locked g now here True s0 = (SWITCH_WOKEN, tset p (\<lambda>t. t\<lparr>t_armed := False, t_pending := False\<rparr>) s0)"
    using z(2) assms(7) by (simp add: switch_locked_def Let_def f)
  with sw assms(7) rz p sys_okD(4) [OF z(1)] show ?thesis by (auto simp: f tget_tset)
qed

text \<open>On one hart, with the wake coming from an interrupt between the two calls.\<close>

theorem wake_is_not_lost_witness:
  "\<exists>s'. task_block 0 9 0x8000 (snd (task_unblock 0 (task_prepare_block 0 (sched_init demo_boot)))) = Some (SWITCH_WOKEN, s')
     \<and> cur 0 s' = 0"
proof -
  let ?x = "sys_boot demo_boot {}"
  let ?s = "snd (task_unblock 0 (task_prepare_block 0 (sched_init demo_boot)))"
  let ?y = "?x\<lparr>sy := task_prepare_block 0 (sy ?x)\<rparr>"
  have curs: "cur 0 (sy ?x) = 0" by (simp add: sys_boot_def sched_init_def cur_def)
  have cur0: "cur 0 ?s = 0" "sc_active ?s" "sc_reap ?s ! 0 = (0, 0)"
    by (simp_all add: task_unblock_def task_prepare_block_def sched_init_def cur_def MAX_HARTS_def tset_def)
  obtain r s' where b: "task_block 0 9 0x8000 ?s = Some (r, s')"
    using cur0 by (cases "task_block 0 9 0x8000 ?s")
      (auto simp: task_block_def sched_switch_def sched_has_task_def sched_reap_def Let_def)
  have c1: "cur 0 (sy ?x) = int 0" and c2: "cur 0 (sy (?x\<lparr>sy := ?s\<rparr>)) = int 0" using curs cur0 by simp_all
  have b': "task_block 0 9 0x8000 (sy (?x\<lparr>sy := ?s\<rparr>)) = Some (r, s')" using b by simp
  have f: "foreign_run 0 (?y\<lparr>sy := snd (task_unblock (int 0) (sy ?y))\<rparr>) (?x\<lparr>sy := ?s\<rparr>)"
    using foreign_run.stay [of 0 "?x\<lparr>sy := ?s\<rparr>"] by (simp add: sys_boot_def)
  from wake_is_not_lost [OF demo_reach _ c1 foreign_run.stay f _ c2 b']
  have "r = SWITCH_WOKEN \<and> cur 0 s' = int 0" by (simp add: MAX_HARTS_def)
  with b show ?thesis by auto
qed

section \<open>A new task's stack\<close>

lemma fold_store32:
  "i < n \<Longrightarrow> load32 (b + 4 * i) (fold (\<lambda>i. store32 (b + 4 * i) v) [0..<n] mem) = v"
  by (induction n) (auto simp: less_Suc_eq load32_store32_apart)

lemma fold_store32_below:
  "a + 4 \<le> b \<Longrightarrow> load32 a (fold (\<lambda>i. store32 (b + 4 * i) v) [0..<n] mem) = load32 a mem"
  by (induction n) (auto simp: load32_store32_apart)

lemma poison_scan_skip:
  "\<forall>i < k. load32 (p + 4 * i) mem = STACK_POISON_WORD \<Longrightarrow> poison_scan mem p (k + w) = poison_scan mem (p + 4 * k) w"
proof (induction k arbitrary: p)
  case (Suc k)
  have "load32 p mem = STACK_POISON_WORD" using Suc.prems by force
  moreover have "\<forall>i < k. load32 (p + 4 + 4 * i) mem = STACK_POISON_WORD"
    using Suc.prems by (metis Suc_less_eq add.assoc mult_Suc_right)
  ultimately show ?case using Suc.IH [of "p + 4"] by (simp add: algebra_simps)
qed simp

lemma prime_frame_words:
  "load32 fr (prime_frame fr tramp entry arg mem) = tramp"
  "load32 (fr + 4) (prime_frame fr tramp entry arg mem) = entry"
  "load32 (fr + 8) (prime_frame fr tramp entry arg mem) = arg"
  "a + 4 \<le> fr \<Longrightarrow> load32 a (prime_frame fr tramp entry arg mem) = load32 a mem"
  by (simp_all add: prime_frame_def load32_store32_apart fold_store32_below)

text \<open>
  A task that is created starts well: it is ready, its frame is 16-byte aligned at the top of a
  stack block that was free, the three words \<open>ctx_switch\<close> reads first are the trampoline, the entry
  point and the argument, and the stack's high-water mark is exactly the 64 bytes of the frame.
\<close>

theorem new_task_frame:
  assumes "owned_inv (sc_pages s) B" and "length (sc_tasks s) = MAX_TASKS"
    and "task_create_full h tramp entry arg pages hart caller s = (int slot, s')"
    and "tramp \<noteq> STACK_POISON_WORD"
  shows "t_state (tget s' slot) = TASK_READY \<and> (t_stack_base (tget s' slot), pages) \<notin> B
    \<and> 16 dvd t_sp (tget s' slot) \<and> t_sp (tget s' slot) + 64 = t_stack_base (tget s' slot) + pages * PAGE_SIZE
    \<and> load32 (t_sp (tget s' slot)) (pa_mem (sc_pages s')) = tramp
    \<and> load32 (t_sp (tget s' slot) + 4) (pa_mem (sc_pages s')) = entry
    \<and> load32 (t_sp (tget s' slot) + 8) (pa_mem (sc_pages s')) = arg
    \<and> sched_stack_used (int slot) s' = 64"
proof -
  obtain s1 where rs: "task_reserve s = (Some slot, s1)"
    and fin: "task_finish h slot tramp entry arg pages hart caller s1 = (int slot, s')" and pg: "0 < pages"
    using assms(3) by (auto simp: task_create_full_def task_finish_def split: if_splits option.splits prod.splits)
  obtain fs: "find (\<lambda>i. t_state (tget s i) = TASK_UNUSED \<or> t_state (tget s i) = TASK_DEAD) [1..<MAX_TASKS] = Some slot"
    and s1: "s1 = tset slot (\<lambda>t. t\<lparr>t_state := TASK_BLOCKED\<rparr>) s"
    using rs by (auto simp: task_reserve_def split: option.splits)
  have slot: "slot < 32" using find_slot(2) [OF fs] .
  obtain stack pa where al: "palloc_pages (sc_pages s1) pages caller = (Some stack, pa)"
    and s': "s' = task_publish slot (task_fill h slot tramp entry arg stack pages hart (s1\<lparr>sc_pages := pa\<rparr>))"
    using fin by (auto simp: task_finish_def split: prod.splits option.splits)
  have inv: "owned_inv (sc_pages s1) B" using assms(1) by (simp add: s1)
  from kernel_pages.take_new [OF inv al] have new: "(stack, pages) \<notin> B" "stack \<noteq> 0" by blast+
  have al': "palloc_pages_aligned (sc_pages s1) pages 1 caller = (Some stack, pa)"
    using al by (simp add: palloc_pages_def palloc_pages_aligned_def)
  from palloc_source.alloc_addressable [OF owned_invD(1) [OF inv] _ al']
  have small: "stack + pages * 4096 < 2 ^ 32" by simp
  from palloc_source.alloc_aligned [OF owned_invD(1) [OF inv] _ al'] obtain m where m: "stack = 4096 * m" by auto
  define fr where "fr = stack + pages * 4096 - 64"
  have w: "wrap32 (pages * 4096) = pages * 4096" using small by (intro wrap32_id) simp
  have top: "frame_addr stack pages = fr"
  proof -
    have "(stack + pages * 4096) div 16 * 16 = stack + pages * 4096" using m by (intro dvd_div_mult_self dvd_add) auto
    then show ?thesis by (simp add: frame_addr_def fr_def w)
  qed
  have fr: "fr + 64 = stack + pages * 4096" using pg by (simp add: fr_def)
  have "fr = 16 * (256 * m + 256 * pages - 4)" using pg by (simp add: fr_def m diff_mult_distrib2 algebra_simps)
  then have al16: "16 dvd fr" by simp
  define k where "k = pages * 1024 - 16"
  have k: "k + 16 = pages * 1024" "fr = stack + 4 * k" using pg by (simp_all add: k_def fr_def)
  define mem where "mem = paint_stack stack pages (pa_mem pa)"
  have mem': "pa_mem (sc_pages s') = prime_frame fr tramp entry arg mem"
    by (simp add: s' task_publish_def task_fill_def Let_def top mem_def)
  have poison: "load32 (stack + 4 * i) (pa_mem (sc_pages s')) = STACK_POISON_WORD" if "i < k" for i
  proof -
    have "stack + 4 * i + 4 \<le> fr" using that k by simp
    then have "load32 (stack + 4 * i) (pa_mem (sc_pages s')) = load32 (stack + 4 * i) mem"
      by (simp add: mem' prime_frame_words)
    also have "\<dots> = STACK_POISON_WORD"
      unfolding mem_def paint_stack_def by (rule fold_store32) (use that k w in simp)
    finally show ?thesis .
  qed
  have len1: "length (sc_tasks s1) = 32" using assms(2) by (simp add: s1 MAX_TASKS_def)
  have t': "t_state (tget s' slot) = TASK_READY" "t_stack_base (tget s' slot) = stack"
    "t_stack_pages (tget s' slot) = pages" "t_sp (tget s' slot) = fr"
    using slot len1 by (simp_all add: s' task_publish_def task_fill_def Let_def tset_def tget_def top)
  have "sched_stack_used (int slot) s' = poison_scan (pa_mem (sc_pages s')) stack (k + 16)"
    using slot new(2) k(1) by (simp add: mult.commute sched_stack_used_def pid_ok_def MAX_TASKS_def Let_def t' w)
  also have "\<dots> = poison_scan (pa_mem (sc_pages s')) fr (Suc 15)"
    using poison_scan_skip [of k stack "pa_mem (sc_pages s')" 16] poison k(2) by simp
  also have "\<dots> = 64" using assms(4) by (simp only: poison_scan.simps mem' prime_frame_words if_False) simp
  finally have "sched_stack_used (int slot) s' = 64" .
  with t' new(1) al16 fr show ?thesis by (simp add: mem' prime_frame_words)
qed

theorem new_task_frame_witness:
  "\<exists>slot s'. task_create_full 0 0x80001000 0x80002000 5 1 (-1) 0 (sched_init demo_boot) = (int slot, s')
     \<and> sched_stack_used (int slot) s' = 64"
proof -
  let ?s = "sched_init demo_boot"
  have inv: "owned_inv (sc_pages ?s) {}" using owned_reach [OF demo_boot_owned] by (simp add: sched_init_def)
  have "[1..<MAX_TASKS] = 1 # [2..<MAX_TASKS]"
    by (simp add: MAX_TASKS_def upt_conv_Cons numeral_2_eq_2)
  moreover have "t_state (tget ?s 1) = TASK_UNUSED"
    by (simp add: sched_init_def tget_def MAX_TASKS_def zero_task_def)
  ultimately have r: "task_reserve ?s = (Some 1, tset 1 (\<lambda>t. t\<lparr>t_state := TASK_BLOCKED\<rparr>) ?s)"
    by (simp add: task_reserve_def)
  have "fst (palloc_pages demo_boot 1 0) = Some 0x2000"
    by (simp add: palloc_pages_def demo_boot_def palloc_init_def palloc_boot_def demo_cfg_def
        Let_def heap_capped_def blank_zone_def zone_setup_def page_up_def page_down_def alloc_fast_def zone_eval)
  then obtain pa where "palloc_pages demo_boot 1 0 = (Some 0x2000, pa)" by (cases "palloc_pages demo_boot 1 0") auto
  then obtain s' where c: "task_create_full 0 0x80001000 0x80002000 5 1 (-1) 0 ?s = (int 1, s')"
    using r by (simp add: task_create_full_def task_finish_def sched_init_def MAX_HARTS_def)
  have "length (sc_tasks ?s) = MAX_TASKS" by (simp add: sched_init_def MAX_TASKS_def)
  from new_task_frame [OF inv this c] c show ?thesis by (auto simp: STACK_POISON_WORD_def)
qed

section \<open>A slot under creation\<close>

text \<open>
  A slot that a creator has claimed is marked blocked, so a wake that names its number (for the
  dead task that had it before, say) makes it ready although it has no stack; the next scan on a hart
  with nothing better to run then switches to it.
\<close>

theorem reserved_slot_can_run:
  assumes "sys_reach cfg x" and "slot \<in> sy_reserved x" and "h < MAX_HARTS" and "cur h (sy x) = int p"
    and "t_affinity (tget (sy x) slot) = -1"
    and "\<And>j. j < MAX_TASKS \<Longrightarrow> j \<noteq> slot \<Longrightarrow> \<not> runnable_after h now (sy x) j"
  shows "task_unblock (int slot) (sy x) = (0, snd (task_unblock (int slot) (sy x)))
    \<and> (\<exists>s'. sched_yield h now here (snd (task_unblock (int slot) (sy x))) = Some s'
         \<and> cur h s' = int slot \<and> t_state (tget s' slot) = TASK_RUNNING \<and> t_stack_base (tget s' slot) = 0)"
proof -
  have ok: "sys_ok x" using sys_reach_ok [OF assms(1)] .
  note cok = sys_okD(1) [OF ok]
  note len = current_okD [OF cok]
  have s32: "slot < 32" using sys_okD(3) [OF ok] assms(2) by (simp add: life_ok_def)
  have h: "h < 2" using assms(3) by (simp add: MAX_HARTS_def)
  note rsv = sys_okD(5) [OF ok s32 assms(2)]
  have p: "p < 32" and run: "t_state (tget (sy x) p) = TASK_RUNNING"
    using current_ok_leaving [OF cok h] assms(4) by (simp_all add: leaving_def)
  have ps: "p \<noteq> slot" using run rsv by auto
  define f where "f = (\<lambda>t :: task. t\<lparr>t_armed := False, t_wake_at := 0, t_state := TASK_READY\<rparr>)"
  define s1 where "s1 = tset slot f (sy x)"
  have u: "task_unblock (int slot) (sy x) = (0, s1)"
    using rsv s32 len(4) by (simp add: task_unblock_def pid_ok_def MAX_TASKS_def s1_def f_def)
  note get = tget_tset [of slot "sy x", unfolded len(5), OF s32]
  have t1: "sched_has_task h s1" using assms(4) len(4) by (simp add: s1_def sched_has_task_def)
  have "stack_at s1 = stack_at (sy x)" by (auto simp: s1_def stack_at_def get f_def)
  then have "stacks_ok s1 (sy_others x)"
    using sys_okD(2) [OF ok] by (simp add: stacks_ok_def stacked_def) (simp add: s1_def)
  from reap_stacks [OF this _ h] len(3) obtain s0 where s0: "sched_reap h s1 = Some s0" by (auto simp: s1_def)
  note r = reap_facts [OF s0]
  have pr: "prios_ok s0" using prios_tset [OF len(1) s32, of f] len(1) s32
    by (simp add: prios_ok_def r s1_def f_def)
  have "runnable_after h now s0 j \<longleftrightarrow> j = slot" if "j < 32" for j
    using assms(5) assms(6) [of j] that
    by (auto simp: runnable_after_def r s1_def get f_def MAX_TASKS_def runnable_here_def wake_sleeper_def)
  from only_runnable [OF pr p s32 this] obtain s2 where scan: "next_runnable h now p s0 = (int slot, s2)" by blast
  have curp: "nat (cur h s0) = p" using assms(4) by (simp add: r s1_def)
  obtain q s' where com: "switch_commit h here p slot now s2 = (q, s')" by fastforce
  have sw: "switch_locked h now here False s0 = (q, s')"
    by (simp add: switch_locked_def Let_def curp scan com)
  have y: "sched_yield h now here s1 = Some s'"
    using t1 by (simp add: sched_yield_def sched_switch_def sched_has_task_def s0 sw)
  have l2: "length (sc_tasks s2) = 32" "length (sc_current s2) = 2"
    using pr len(2) by (simp_all add: next_runnable_scan(1) [OF pr p scan] prios_ok_def r s1_def)
  note c = commit_goes [OF ps [symmetric] l2(1) p s32 l2(2) h com]
  have "t_stack_base (tget s2 slot) = 0" using rsv s32 pr
    by (simp add: next_runnable_scan(1) [OF pr p scan] prios_ok_def)
      (simp add: tget_def [symmetric] r s1_def get f_def)
  moreover have "cur h s' = int slot" using l2(2) h by (simp add: cur_def c(2))
  ultimately show ?thesis using u y c(7) [of slot] by simp
qed

theorem reserved_slot_can_run_witness:
  "\<exists>x s'. sys_reach demo_cfg x \<and> 1 \<in> sy_reserved x
     \<and> sched_yield 0 7 0x8000 (snd (task_unblock 1 (sy x))) = Some s'
     \<and> cur 0 s' = 1 \<and> t_stack_base (tget s' 1) = 0"
proof -
  let ?s = "sched_init demo_boot"
  have "[1..<MAX_TASKS] = 1 # [2..<MAX_TASKS]"
    by (simp add: MAX_TASKS_def upt_conv_Cons numeral_2_eq_2)
  moreover have get: "tget ?s i = (if i = 0 then zero_task\<lparr>t_parent := -1, t_state := TASK_RUNNING, t_affinity := 0,
                          t_priority := TASK_PRIO_NORMAL\<rparr> else zero_task\<lparr>t_parent := -1, t_affinity := -1\<rparr>)" if "i < 32" for i
    using that by (cases i) (simp_all add: sched_init_def tget_def MAX_TASKS_def)
  ultimately have r: "task_reserve (sy (sys_boot demo_boot {})) = (Some 1, tset 1 (\<lambda>t. t\<lparr>t_state := TASK_BLOCKED\<rparr>) ?s)"
    by (simp add: task_reserve_def sys_boot_def zero_task_def)
  define x where "x = (sys_boot demo_boot {})\<lparr>sy := tset 1 (\<lambda>t. t\<lparr>t_state := TASK_BLOCKED\<rparr>) ?s,
    sy_reserved := insert 1 (sy_reserved (sys_boot demo_boot {})), sy_boot := sy_boot (sys_boot demo_boot {}) - {1}\<rparr>"
  have reach: "sys_reach demo_cfg x"
    unfolding x_def by (rule sys_reach.step [OF demo_reach sys_step.reserve [OF r]])
  have len: "length (sc_tasks ?s) = 32" by (simp add: sched_init_def MAX_TASKS_def)
  have getx: "tget (sy x) i = (if i = 1 then zero_task\<lparr>t_parent := -1, t_affinity := -1, t_state := TASK_BLOCKED\<rparr>
      else tget ?s i)" if "i < 32" for i
    using that len by (simp add: x_def tget_tset get)
  have c: "cur 0 (sy x) = int 0" by (simp add: x_def sched_init_def cur_def)
  have m: "1 \<in> sy_reserved x" "(0::nat) < MAX_HARTS" by (simp_all add: x_def MAX_HARTS_def)
  have a: "t_affinity (tget (sy x) 1) = -1" by (simp add: getx)
  have n: "\<not> runnable_after 0 7 (sy x) j" if "j < MAX_TASKS" "j \<noteq> 1" for j
    using that get by (auto simp: runnable_after_def getx MAX_TASKS_def wake_sleeper_def runnable_here_def zero_task_def)
  from reserved_slot_can_run [OF reach m c a n, of "0x8000"]
  have "\<exists>s'. sched_yield 0 7 0x8000 (snd (task_unblock 1 (sy x))) = Some s'
      \<and> cur 0 s' = 1 \<and> t_stack_base (tget s' 1) = 0" by auto
  with reach m(1) show ?thesis by blast
qed

end
