(* ===== verification/Lock.thy ===== *)
theory Lock
  imports Sched
begin

text \<open>
  The yielding locks of \<open>kernel/lock.c\<close> and the three things kept about them: the wait-for graph that
  channel calls and ylocks share, the count of ylocks each task holds, and the order in which each
  context takes them.  A lock is its address; the names and call sites kept for the reports and the
  reports themselves are left out.  A section with interrupts masked or under a leaf spinlock is one
  function; the record of the order, which the code keeps in a second section right after the acquisition
  and which concerns the taking context only, is part of the step that takes the lock.
\<close>

section \<open>Data\<close>

definition LOCKORD_DEPTH :: nat where "LOCKORD_DEPTH = 6"
definition LOCKORD_PAIRS :: nat where "LOCKORD_PAIRS = 96"
definition LOCKORD_CTX :: nat where "LOCKORD_CTX = MAX_TASKS + MAX_HARTS"
definition YLOCK_CYCLE_TURNS :: nat where "YLOCK_CYCLE_TURNS = 2048"

record ylock =
  yl_word :: bool
  yl_owner :: int
  yl_depth :: nat

text \<open>
  \<open>lk_held\<close> is \<open>g_held\<close> with \<open>g_held_n\<close>: for each context the locks it holds, in the order taken.
  The counters are \<open>nat\<close>: the fewer than 256 ylocks of the kernel keep \<open>g_ylocks_held\<close> in range.
\<close>

record locks =
  lk_waitfor :: "int list"
  lk_ready :: bool
  lk_y :: "nat \<Rightarrow> ylock"
  lk_count :: "nat list"
  lk_held :: "nat list list"
  lk_pairs :: "(nat \<times> nat) list"
  lk_reported :: "bool list"
  lk_dropped :: nat
  lk_overflow :: nat
  lk_inversions :: nat

definition ylock_init :: ylock where
  "ylock_init = \<lparr>yl_word = False, yl_owner = -1, yl_depth = 0\<rparr>"

text \<open>The statically initialised module, with every ylock initialised.\<close>

definition locks_zero :: locks where
  "locks_zero = \<lparr>lk_waitfor = replicate MAX_TASKS 0, lk_ready = False, lk_y = (\<lambda>_. ylock_init),
     lk_count = replicate MAX_TASKS 0, lk_held = replicate LOCKORD_CTX [], lk_pairs = [],
     lk_reported = replicate LOCKORD_PAIRS False, lk_dropped = 0, lk_overflow = 0, lk_inversions = 0\<rparr>"

section \<open>The wait-for graph\<close>

definition waitfor_init_once :: "locks \<Rightarrow> locks" where
  "waitfor_init_once s =
     (if lk_ready s then s else s\<lparr>lk_waitfor := replicate MAX_TASKS (-1), lk_ready := True\<rparr>)"

text \<open>The walk; its first argument is the guard, counting down.\<close>

fun wait_walk :: "nat \<Rightarrow> int list \<Rightarrow> int \<Rightarrow> int \<Rightarrow> bool" where
  "wait_walk 0 g me c = False"
| "wait_walk (Suc n) g me c =
     (if c < 0 \<or> int MAX_TASKS \<le> c then False
      else if c = me then True else wait_walk n g me (g ! nat c))"

definition waitfor_reaches :: "int \<Rightarrow> int \<Rightarrow> locks \<Rightarrow> bool" where
  "waitfor_reaches me target s = wait_walk MAX_TASKS (lk_waitfor s) me target"

definition waitfor_enter :: "int \<Rightarrow> int \<Rightarrow> locks \<Rightarrow> bool \<times> locks" where
  "waitfor_enter me target s =
     (if \<not> pid_ok me \<or> \<not> pid_ok target then (True, s)
      else
        (let s1 = waitfor_init_once s; cycle = waitfor_reaches me target s1
         in (\<not> cycle, if cycle then s1 else s1\<lparr>lk_waitfor := (lk_waitfor s1)[nat me := target]\<rparr>)))"

definition waitfor_leave :: "int \<Rightarrow> locks \<Rightarrow> locks" where
  "waitfor_leave me s =
     (if \<not> pid_ok me then s else s\<lparr>lk_waitfor := (lk_waitfor s)[nat me := -1]\<rparr>)"

definition waitfor_target :: "int \<Rightarrow> locks \<Rightarrow> int" where
  "waitfor_target pid s = (if \<not> pid_ok pid then -1 else lk_waitfor s ! nat pid)"

section \<open>Lock order\<close>

definition ctx_ok :: "int \<Rightarrow> bool" where
  "ctx_ok me \<longleftrightarrow> 0 \<le> me \<and> me < int LOCKORD_CTX"

definition pair_index :: "nat \<Rightarrow> nat \<Rightarrow> (nat \<times> nat) list \<Rightarrow> nat option" where
  "pair_index a b ps = find (\<lambda>i. ps ! i = (a, b)) [0..<length ps]"

text \<open>One turn of the loop over the locks already held: \<open>h\<close> is held, \<open>l\<close> has just been taken.\<close>

definition order_check :: "nat \<Rightarrow> locks \<Rightarrow> nat \<Rightarrow> locks" where
  "order_check l s h =
     (if h = l then s
      else
        (case pair_index l h (lk_pairs s) of
           Some i \<Rightarrow> s\<lparr>lk_inversions := wrap32 (lk_inversions s + 1), lk_reported := (lk_reported s)[i := True]\<rparr>
         | None \<Rightarrow>
             if pair_index h l (lk_pairs s) \<noteq> None then s
             else if length (lk_pairs s) < LOCKORD_PAIRS then s\<lparr>lk_pairs := lk_pairs s @ [(h, l)]\<rparr>
             else s\<lparr>lk_dropped := wrap32 (lk_dropped s + 1)\<rparr>))"

definition order_acquired :: "nat \<Rightarrow> int \<Rightarrow> bool \<Rightarrow> locks \<Rightarrow> locks" where
  "order_acquired l me may_wait s =
     (if \<not> ctx_ok me then s
      else
        (let hs = lk_held s ! nat me; s1 = (if may_wait then foldl (order_check l) s hs else s)
         in if length hs < LOCKORD_DEPTH then s1\<lparr>lk_held := (lk_held s1)[nat me := hs @ [l]]\<rparr>
            else s1\<lparr>lk_overflow := wrap32 (lk_overflow s1 + 1)\<rparr>))"

text \<open>The most recent entry goes; the later ones move down.\<close>

fun remove_last :: "nat \<Rightarrow> nat list \<Rightarrow> nat list" where
  "remove_last l [] = []"
| "remove_last l (h # hs) = (if h = l \<and> l \<notin> set hs then hs else h # remove_last l hs)"

definition order_released :: "nat \<Rightarrow> int \<Rightarrow> locks \<Rightarrow> locks" where
  "order_released l owner s =
     (if \<not> ctx_ok owner then s
      else s\<lparr>lk_held := (lk_held s)[nat owner := remove_last l (lk_held s ! nat owner)]\<rparr>)"

definition lock_task_reset :: "int \<Rightarrow> locks \<Rightarrow> locks" where
  "lock_task_reset pid s =
     (if \<not> ctx_ok pid then s
      else
        (let s1 = s\<lparr>lk_held := (lk_held s)[nat pid := []]\<rparr>
         in if pid < int MAX_TASKS then s1\<lparr>lk_count := (lk_count s1)[nat pid := 0]\<rparr> else s1))"

section \<open>Acquire and release\<close>

definition put_lock :: "nat \<Rightarrow> ylock \<Rightarrow> locks \<Rightarrow> locks" where
  "put_lock l y s = s\<lparr>lk_y := (lk_y s)(l := y)\<rparr>"

definition count_up :: "int \<Rightarrow> locks \<Rightarrow> locks" where
  "count_up me s = (if pid_ok me then s\<lparr>lk_count := (lk_count s)[nat me := Suc (lk_count s ! nat me)]\<rparr> else s)"

definition count_down :: "int \<Rightarrow> locks \<Rightarrow> locks" where
  "count_down w s =
     (if pid_ok w \<and> 0 < lk_count s ! nat w then s\<lparr>lk_count := (lk_count s)[nat w := lk_count s ! nat w - 1]\<rparr> else s)"

text \<open>
  One turn of \<open>ylock_acquire\<close>'s loop: \<open>Inl s'\<close> when the lock was taken, otherwise the owner the turn
  saw.  The second function is the rest of a failed turn, with the count of turns a cycle has lasted
  and whether it is reported now.
\<close>

definition ylock_turn :: "nat \<Rightarrow> int \<Rightarrow> locks \<Rightarrow> locks + int" where
  "ylock_turn l me s =
     (let y = lk_y s l in
      if 0 < yl_depth y \<and> yl_owner y = me then
        Inl (waitfor_leave me (put_lock l (y\<lparr>yl_depth := Suc (yl_depth y)\<rparr>) s))
      else if \<not> yl_word y then
        Inl (order_acquired l me True (waitfor_leave me (count_up me
               (put_lock l \<lparr>yl_word = True, yl_owner = me, yl_depth = 1\<rparr> s))))
      else Inr (yl_owner y))"

definition ylock_wait :: "int \<Rightarrow> int \<Rightarrow> nat \<Rightarrow> locks \<Rightarrow> nat \<times> bool \<times> locks" where
  "ylock_wait me holder cycle_turns s =
     (if pid_ok me then
        (case waitfor_enter me holder s of
           (True, s') \<Rightarrow> (0, False, s')
         | (False, s') \<Rightarrow> (Suc cycle_turns, Suc cycle_turns = YLOCK_CYCLE_TURNS, s'))
      else (0, False, s))"

definition ylock_try_acquire :: "nat \<Rightarrow> int \<Rightarrow> locks \<Rightarrow> bool \<times> locks" where
  "ylock_try_acquire l me s =
     (let y = lk_y s l in
      if 0 < yl_depth y \<and> yl_owner y = me then (True, put_lock l (y\<lparr>yl_depth := Suc (yl_depth y)\<rparr>) s)
      else if \<not> yl_word y then
        (True, order_acquired l me False (count_up me
                 (put_lock l \<lparr>yl_word = True, yl_owner = me, yl_depth = 1\<rparr> s)))
      else (False, s))"

text \<open>A release by a context that does not hold the lock is reported and then carried out.\<close>

definition ylock_misused :: "nat \<Rightarrow> int \<Rightarrow> locks \<Rightarrow> bool" where
  "ylock_misused l me s \<longleftrightarrow> yl_depth (lk_y s l) = 0 \<or> yl_owner (lk_y s l) \<noteq> me"

definition ylock_release :: "nat \<Rightarrow> locks \<Rightarrow> locks" where
  "ylock_release l s =
     (let y = lk_y s l in
      if yl_depth y = 0 then s
      else if yl_depth y - 1 = 0 then
        put_lock l \<lparr>yl_word = False, yl_owner = -1, yl_depth = 0\<rparr>
          (order_released l (yl_owner y) (count_down (yl_owner y) (put_lock l (y\<lparr>yl_depth := 0\<rparr>) s)))
      else put_lock l (y\<lparr>yl_depth := yl_depth y - 1\<rparr>) s)"

definition ylock_owner :: "nat \<Rightarrow> locks \<Rightarrow> int" where
  "ylock_owner l s = (if 0 < yl_depth (lk_y s l) then yl_owner (lk_y s l) else -1)"

definition ylock_held_by :: "int \<Rightarrow> locks \<Rightarrow> nat" where
  "ylock_held_by pid s = (if pid_ok pid then lk_count s ! nat pid else 0)"

definition ylock_depth :: "nat \<Rightarrow> locks \<Rightarrow> nat" where
  "ylock_depth l s = yl_depth (lk_y s l)"

record lock_order_stats =
  lo_pairs :: nat
  lo_pairs_max :: nat
  lo_pairs_dropped :: nat
  lo_inversions :: nat
  lo_held_overflow :: nat

definition lock_order_stats_of :: "locks \<Rightarrow> lock_order_stats" where
  "lock_order_stats_of s = \<lparr>lo_pairs = length (lk_pairs s), lo_pairs_max = LOCKORD_PAIRS, lo_pairs_dropped = lk_dropped s,
     lo_inversions = lk_inversions s, lo_held_overflow = lk_overflow s\<rparr>"

definition lock_order_pair :: "nat \<Rightarrow> locks \<Rightarrow> (nat \<times> nat) option" where
  "lock_order_pair i s = (if length (lk_pairs s) \<le> i then None else Some (lk_pairs s ! i))"

end
