(* ===== verification/Lock_Correct.thy ===== *)
theory Lock_Correct
  imports Lock
begin

text \<open>
  The locks under a client that releases only what it has taken: one context at a time is inside a
  lock, the wait-for graph never has a cycle and refuses exactly the edges that would close one, and
  the recorded lock order never has a pair both ways.
\<close>

section \<open>The graph as a relation\<close>

definition wait_edges :: "int list \<Rightarrow> (nat \<times> nat) set" where
  "wait_edges g = {(p, q). p < 32 \<and> q < 32 \<and> g ! p = int q}"

lemma wait_edges_single: "(a, b) \<in> wait_edges g \<Longrightarrow> (a, c) \<in> wait_edges g \<Longrightarrow> b = c"
  by (simp add: wait_edges_def)

lemma wait_edges_split:
  "(a, b) \<in> wait_edges g ^^ i \<Longrightarrow> (a, c) \<in> wait_edges g ^^ (i + j) \<Longrightarrow> (b, c) \<in> wait_edges g ^^ j"
proof (induction i arbitrary: a)
  case (Suc i)
  then obtain u v where "(a, u) \<in> wait_edges g" "(u, b) \<in> wait_edges g ^^ i"
    "(a, v) \<in> wait_edges g" "(v, c) \<in> wait_edges g ^^ (i + j)"
    by (auto simp del: relpow.simps simp: relpow_Suc_D2 elim!: relpow_Suc_E2)
  with Suc.IH wait_edges_single show ?case by metis
qed simp

lemma wait_edges_range: "(a, b) \<in> wait_edges g ^^ i \<Longrightarrow> a < 32 \<Longrightarrow> b < 32"
  by (cases i) (auto simp: wait_edges_def elim!: relpow_Suc_E simp del: relpow.simps(2))

text \<open>A path between two tasks is no longer than the table.\<close>

lemma wait_path_short:
  assumes "(a, b) \<in> (wait_edges g)\<^sup>*" and "a < 32"
  shows "\<exists>k < 32. (a, b) \<in> wait_edges g ^^ k"
proof -
  define k where "k = (LEAST n. (a, b) \<in> wait_edges g ^^ n)"
  have ex: "\<exists>n. (a, b) \<in> wait_edges g ^^ n" using assms(1) by (simp add: rtrancl_power)
  have k: "(a, b) \<in> wait_edges g ^^ k" unfolding k_def using ex by (rule LeastI_ex)
  have min: "n < k \<Longrightarrow> (a, b) \<notin> wait_edges g ^^ n" for n unfolding k_def by (rule not_less_Least)
  have "\<exists>c. (a, c) \<in> wait_edges g ^^ i" if "i \<le> k" for i
    using k that by (metis le_add_diff_inverse relpow_add relcomp.cases)
  then obtain f where f: "\<And>i. i \<le> k \<Longrightarrow> (a, f i) \<in> wait_edges g ^^ i" by metis
  have "inj_on f {..k}"
  proof (rule linorder_inj_onI')
    fix i j assume ij: "i \<in> {..k}" "j \<in> {..k}" "i < j"
    show "f i \<noteq> f j"
    proof
      assume eq: "f i = f j"
      have "(f j, b) \<in> wait_edges g ^^ (k - j)"
        using wait_edges_split [OF f [of j], of b "k - j"] k ij by simp
      moreover have "(a, f j) \<in> wait_edges g ^^ i" using eq f [of i] ij by simp
      ultimately have "(a, b) \<in> wait_edges g ^^ (i + (k - j))" unfolding relpow_add by (rule relcompI [rotated])
      moreover have "i + (k - j) < k" using ij by simp
      ultimately show False using min by blast
    qed
  qed
  moreover have "f ` {..k} \<subseteq> {..<32}" using f wait_edges_range assms(2) by blast
  ultimately have "card {..k} \<le> card {..<32 :: nat}" by (rule card_inj_on_le) simp
  then have "k < 32" by simp
  with k show ?thesis by blast
qed

lemma wait_walk_iff:
  "m < 32 \<Longrightarrow> wait_walk n g (int m) c \<longleftrightarrow> (\<exists>k < n. \<exists>t < 32. c = int t \<and> (t, m) \<in> wait_edges g ^^ k)"
proof (induction n arbitrary: c)
  case (Suc n)
  show ?case
  proof (cases "c < 0 \<or> 32 \<le> c")
    case True
    then show ?thesis by (auto simp: MAX_TASKS_def)
  next
    case False
    then obtain t where t: "c = int t" "t < 32" by (metis not_le nonneg_int_cases of_nat_less_numeral_iff)
    show ?thesis
    proof (cases "t = m")
      case True
      then show ?thesis using t by (auto simp: MAX_TASKS_def intro: exI [of _ "0 :: nat"])
    next
      case ne: False
      have step: "(t, m) \<in> wait_edges g ^^ k \<longleftrightarrow> (\<exists>j u. k = Suc j \<and> u < 32 \<and> g ! t = int u \<and> (u, m) \<in> wait_edges g ^^ j)" for k
      proof (cases k)
        case 0
        then show ?thesis using ne by simp
      next
        case (Suc j)
        have "(t, m) \<in> wait_edges g ^^ Suc j \<longleftrightarrow> (\<exists>u. (t, u) \<in> wait_edges g \<and> (u, m) \<in> wait_edges g ^^ j)"
          by (meson relpow_Suc_D2 relpow_Suc_I2)
        with Suc t show ?thesis by (auto simp: wait_edges_def)
      qed
      have "wait_walk (Suc n) g (int m) c = wait_walk n g (int m) (g ! t)"
        using False ne t by (simp add: MAX_TASKS_def)
      then show ?thesis using Suc.IH [OF Suc.prems] t step by auto
    qed
  qed
qed simp

text \<open>The walk decides reachability.\<close>

lemma waitfor_reaches_iff:
  assumes "me < 32" and "t < 32"
  shows "waitfor_reaches (int me) (int t) s \<longleftrightarrow> (t, me) \<in> (wait_edges (lk_waitfor s))\<^sup>*"
  using wait_path_short [of t me "lk_waitfor s"] assms
  unfolding waitfor_reaches_def wait_walk_iff [OF assms(1)]
  by (auto simp: MAX_TASKS_def rtrancl_power)

section \<open>Clients\<close>

text \<open>\<open>ls_in c l\<close> counts the acquisitions of \<open>l\<close> by context \<open>c\<close> that it has not released yet.\<close>

record lsys =
  ls :: locks
  ls_in :: "int \<Rightarrow> nat \<Rightarrow> nat"

definition bump :: "int \<Rightarrow> nat \<Rightarrow> (nat \<Rightarrow> nat) \<Rightarrow> (int \<Rightarrow> nat \<Rightarrow> nat) \<Rightarrow> int \<Rightarrow> nat \<Rightarrow> nat" where
  "bump c l f m = m(c := (m c)(l := f (m c l)))"

inductive lock_step :: "lsys \<Rightarrow> lsys \<Rightarrow> bool" where
  takes: "ctx_ok me \<Longrightarrow> ylock_turn l me (ls x) = Inl s' \<Longrightarrow>
    lock_step x (x\<lparr>ls := s', ls_in := bump me l Suc (ls_in x)\<rparr>)"
| waits: "ctx_ok me \<Longrightarrow> ylock_wait me holder k (ls x) = (k', rep, s') \<Longrightarrow> lock_step x (x\<lparr>ls := s'\<rparr>)"
| tries: "ctx_ok me \<Longrightarrow> ylock_try_acquire l me (ls x) = (got, s') \<Longrightarrow>
    lock_step x (x\<lparr>ls := s', ls_in := (if got then bump me l Suc (ls_in x) else ls_in x)\<rparr>)"
| releases: "0 < ls_in x me l \<Longrightarrow>
    lock_step x (x\<lparr>ls := ylock_release l (ls x), ls_in := bump me l (\<lambda>n. n - 1) (ls_in x)\<rparr>)"
| calls: "waitfor_enter me target (ls x) = (ok, s') \<Longrightarrow> lock_step x (x\<lparr>ls := s'\<rparr>)"
| leaves: "lock_step x (x\<lparr>ls := waitfor_leave me (ls x)\<rparr>)"
| reset: "(\<And>l. ls_in x pid l = 0) \<Longrightarrow> lock_step x (x\<lparr>ls := lock_task_reset pid (ls x)\<rparr>)"

inductive lock_reach :: "lsys \<Rightarrow> bool" where
  start: "lock_reach \<lparr>ls = locks_zero, ls_in = (\<lambda>_ _. 0)\<rparr>"
| step: "lock_reach x \<Longrightarrow> lock_step x y \<Longrightarrow> lock_reach y"

definition owned_by :: "(nat \<Rightarrow> ylock) \<Rightarrow> int \<Rightarrow> nat set" where
  "owned_by y c = {l. 0 < yl_depth (y l) \<and> yl_owner (y l) = c}"

definition taken_locks :: "(nat \<Rightarrow> ylock) \<Rightarrow> nat set" where
  "taken_locks y = {l. 0 < yl_depth (y l)}"

definition graph_ok :: "locks \<Rightarrow> bool" where
  "graph_ok s \<longleftrightarrow> length (lk_waitfor s) = 32 \<and> (lk_ready s \<longrightarrow> acyclic (wait_edges (lk_waitfor s)))"

definition pairs_ok :: "(nat \<times> nat) list \<Rightarrow> bool" where
  "pairs_ok ps \<longleftrightarrow> distinct ps \<and> length ps \<le> LOCKORD_PAIRS \<and> (\<forall>a b. (a, b) \<in> set ps \<longrightarrow> (b, a) \<notin> set ps)"

definition held_ok :: "locks \<Rightarrow> bool" where
  "held_ok s \<longleftrightarrow> length (lk_held s) = LOCKORD_CTX \<and> length (lk_count s) = 32 \<and> finite (taken_locks (lk_y s))
     \<and> (\<forall>c < LOCKORD_CTX. distinct (lk_held s ! c) \<and> set (lk_held s ! c) \<subseteq> owned_by (lk_y s) (int c)
          \<and> length (lk_held s ! c) \<le> LOCKORD_DEPTH)
     \<and> (\<forall>p < 32. lk_count s ! p = card (owned_by (lk_y s) (int p)))"

definition gate_ok :: "lsys \<Rightarrow> bool" where
  "gate_ok x \<longleftrightarrow> (\<forall>l. yl_word (lk_y (ls x) l) \<longleftrightarrow> 0 < yl_depth (lk_y (ls x) l))
     \<and> (\<forall>c l. ls_in x c l = (if yl_owner (lk_y (ls x) l) = c then yl_depth (lk_y (ls x) l) else 0))
     \<and> (\<forall>c l. 0 < ls_in x c l \<longrightarrow> ctx_ok c)"

section \<open>Every client step keeps the invariants\<close>

lemma wait_edges_upd:
  "me < 32 \<Longrightarrow> length g = 32 \<Longrightarrow> t < 32 \<Longrightarrow> wait_edges (g[me := int t]) \<subseteq> insert (me, t) (wait_edges g)"
  "length g = 32 \<Longrightarrow> wait_edges (g[me := -1]) \<subseteq> wait_edges g"
proof -
  show "me < 32 \<Longrightarrow> length g = 32 \<Longrightarrow> t < 32 \<Longrightarrow> wait_edges (g[me := int t]) \<subseteq> insert (me, t) (wait_edges g)"
    by (auto simp: wait_edges_def nth_list_update split: if_splits)
  have "g ! a = int b" if "length g = 32" "a < 32" "g[me := -1] ! a = int b" for a b
    using that by (cases "a = me") simp_all
  then show "length g = 32 \<Longrightarrow> wait_edges (g[me := -1]) \<subseteq> wait_edges g" by (auto simp: wait_edges_def)
qed

lemma graph_enter:
  assumes "graph_ok s" and "waitfor_enter me target s = (ok, s')"
  shows "graph_ok s'"
proof (cases "pid_ok me \<and> pid_ok target")
  case False
  with assms show ?thesis by (auto simp: waitfor_enter_def)
next
  case True
  then obtain m t where mt: "me = int m" "target = int t" "m < 32" "t < 32"
    by (auto simp: pid_ok_def MAX_TASKS_def) (metis int_nat_eq nat_less_numeral_power_cancel_iff zless_nat_eq_int_zless of_nat_numeral)
  define s1 where "s1 = waitfor_init_once s"
  have e: "wait_edges (replicate 32 (-1)) = {}" "acyclic ({} :: (nat \<times> nat) set)"
    by (auto simp: wait_edges_def acyclic_def)
  have ok1: "graph_ok s1" "lk_ready s1"
    using assms(1) by (auto simp: s1_def waitfor_init_once_def graph_ok_def MAX_TASKS_def e)
  have s': "s' = (if waitfor_reaches me target s1 then s1 else s1\<lparr>lk_waitfor := (lk_waitfor s1)[m := int t]\<rparr>)"
    using assms(2) True mt(1,2) by (auto simp: waitfor_enter_def s1_def [symmetric] Let_def split: if_splits)
  show ?thesis
  proof (cases "waitfor_reaches me target s1")
    case False
    then have "(t, m) \<notin> (wait_edges (lk_waitfor s1))\<^sup>*"
      using waitfor_reaches_iff [OF mt(3,4)] mt(1,2) by simp
    then have "acyclic (insert (m, t) (wait_edges (lk_waitfor s1)))"
      using ok1 by (simp add: graph_ok_def acyclic_insert)
    then have "acyclic (wait_edges ((lk_waitfor s1)[m := int t]))"
      using acyclic_subset wait_edges_upd(1) [of m "lk_waitfor s1" t] mt ok1(1) by (auto simp: graph_ok_def)
    with False ok1 show ?thesis by (simp add: s' graph_ok_def)
  qed (simp add: s' ok1)
qed

lemma graph_leave: "graph_ok s \<Longrightarrow> graph_ok (waitfor_leave me s)"
  using acyclic_subset [OF _ wait_edges_upd(2)] by (auto simp: waitfor_leave_def graph_ok_def)

lemma graph_same: "graph_ok s \<Longrightarrow> lk_waitfor s' = lk_waitfor s \<Longrightarrow> lk_ready s' = lk_ready s \<Longrightarrow> graph_ok s'"
  by (simp add: graph_ok_def)

lemma pair_index_None [simp]: "pair_index a b ps = None \<longleftrightarrow> (a, b) \<notin> set ps"
  by (auto simp: pair_index_def find_None_iff in_set_conv_nth)

lemma pair_index_Some: "pair_index a b ps = Some i \<Longrightarrow> i < length ps \<and> ps ! i = (a, b)"
  by (auto simp: pair_index_def find_Some_iff)

lemma order_check_frame [simp]:
  "lk_y (order_check l s h) = lk_y s" "lk_waitfor (order_check l s h) = lk_waitfor s"
  "lk_ready (order_check l s h) = lk_ready s" "lk_count (order_check l s h) = lk_count s"
  "lk_held (order_check l s h) = lk_held s"
  by (auto simp: order_check_def split: option.splits)

lemma order_checks_frame [simp]:
  "lk_y (foldl (order_check l) s hs) = lk_y s" "lk_waitfor (foldl (order_check l) s hs) = lk_waitfor s"
  "lk_ready (foldl (order_check l) s hs) = lk_ready s" "lk_count (foldl (order_check l) s hs) = lk_count s"
  "lk_held (foldl (order_check l) s hs) = lk_held s"
  by (induction hs arbitrary: s) simp_all

lemma order_check_pairs: "pairs_ok (lk_pairs s) \<Longrightarrow> pairs_ok (lk_pairs (order_check l s h))"
  by (auto simp: order_check_def pairs_ok_def dest: pair_index_Some split: option.splits)

lemma order_checks_pairs: "pairs_ok (lk_pairs s) \<Longrightarrow> pairs_ok (lk_pairs (foldl (order_check l) s hs))"
  by (induction hs arbitrary: s) (simp_all add: order_check_pairs)

lemma order_acquired_frame [simp]:
  "lk_y (order_acquired l me w s) = lk_y s" "lk_waitfor (order_acquired l me w s) = lk_waitfor s"
  "lk_ready (order_acquired l me w s) = lk_ready s" "lk_count (order_acquired l me w s) = lk_count s"
  by (auto simp: order_acquired_def Let_def)

lemma order_acquired_pairs: "pairs_ok (lk_pairs s) \<Longrightarrow> pairs_ok (lk_pairs (order_acquired l me w s))"
  by (auto simp: order_acquired_def Let_def order_checks_pairs)

lemma order_acquired_held:
  "lk_held (order_acquired l me w s) =
    (if ctx_ok me \<and> length (lk_held s ! nat me) < LOCKORD_DEPTH
     then (lk_held s)[nat me := lk_held s ! nat me @ [l]] else lk_held s)"
  by (auto simp: order_acquired_def Let_def)

lemma owned_by_put:
  "owned_by (y(l := v)) c =
    (if 0 < yl_depth v \<and> yl_owner v = c then insert l (owned_by y c) else owned_by y c - {l})"
  by (auto simp: owned_by_def)

lemma taken_put: "taken_locks (y(l := v)) = (if 0 < yl_depth v then insert l (taken_locks y) else taken_locks y - {l})"
  by (auto simp: taken_locks_def)

lemma owned_finite: "finite (taken_locks y) \<Longrightarrow> finite (owned_by y c)"
  by (rule finite_subset [of _ "taken_locks y"]) (auto simp: owned_by_def taken_locks_def)

lemma remove_last_distinct: "distinct hs \<Longrightarrow> remove_last l hs = remove1 l hs"
  by (induction hs) (auto simp: remove1_idem)

lemma held_take:
  assumes ok: "held_ok s" and me: "ctx_ok me" and free: "yl_depth (lk_y s l) = 0"
    and s': "lk_y s' = (lk_y s)(l := \<lparr>yl_word = True, yl_owner = me, yl_depth = 1\<rparr>)"
    "lk_count s' = lk_count (count_up me s)"
    "lk_held s' = (if length (lk_held s ! nat me) < LOCKORD_DEPTH
       then (lk_held s)[nat me := lk_held s ! nat me @ [l]] else lk_held s)"
  shows "held_ok s'"
proof -
  have o: "owned_by (lk_y s') c = (if c = me then insert l (owned_by (lk_y s) c) else owned_by (lk_y s) c)" for c
    using free by (auto simp: s' owned_by_put) (auto simp: owned_by_def)
  have nl: "l \<notin> owned_by (lk_y s) c" for c using free by (simp add: owned_by_def)
  have fin: "finite (taken_locks (lk_y s))" "length (lk_held s) = LOCKORD_CTX" "length (lk_count s) = 32"
    using ok by (simp_all add: held_ok_def)
  have hold: "distinct (lk_held s ! c) \<and> set (lk_held s ! c) \<subseteq> owned_by (lk_y s) (int c)
      \<and> length (lk_held s ! c) \<le> LOCKORD_DEPTH" if "c < LOCKORD_CTX" for c
    using ok that by (simp add: held_ok_def)
  have "distinct (lk_held s' ! c) \<and> set (lk_held s' ! c) \<subseteq> owned_by (lk_y s') (int c)
      \<and> length (lk_held s' ! c) \<le> LOCKORD_DEPTH" if c: "c < LOCKORD_CTX" for c
    using hold [OF c] nl [of "int c"] fin(2) c me unfolding s'(3) o
    by (cases "nat me = c") (auto simp: ctx_ok_def nth_list_update)
  moreover have "lk_count s' ! p = card (owned_by (lk_y s') (int p))" if p: "p < 32" for p
  proof -
    have old: "lk_count s ! p = card (owned_by (lk_y s) (int p))" using ok p by (simp add: held_ok_def)
    show ?thesis
      using old p fin nl owned_finite [OF fin(1)] me unfolding o s'(2)
      by (cases "int p = me") (auto simp: count_up_def pid_ok_def MAX_TASKS_def nth_list_update ctx_ok_def)
  qed
  ultimately show ?thesis using fin unfolding held_ok_def s'(1)
    by (auto simp: s'(2,3) taken_put count_up_def)
qed

lemma held_same:
  assumes "held_ok s" and "\<And>c. owned_by (lk_y s') c = owned_by (lk_y s) c" and "taken_locks (lk_y s') = taken_locks (lk_y s)"
    and "lk_count s' = lk_count s" and "lk_held s' = lk_held s"
  shows "held_ok s'"
  using assms by (simp add: held_ok_def)

lemma held_release:
  assumes ok: "held_ok s" and me: "ctx_ok me" and y: "yl_depth (lk_y s l) = 1" "yl_owner (lk_y s l) = me"
  shows "held_ok (ylock_release l s)"
proof -
  let ?s' = "ylock_release l s"
  have y': "lk_y ?s' = (lk_y s)(l := \<lparr>yl_word = False, yl_owner = -1, yl_depth = 0\<rparr>)"
    using y by (auto simp: ylock_release_def Let_def put_lock_def order_released_def count_down_def)
  have o: "owned_by (lk_y ?s') c = owned_by (lk_y s) c - {l}" for c by (simp add: y' owned_by_put)
  have own: "l \<in> owned_by (lk_y s) me" "c \<noteq> me \<Longrightarrow> l \<notin> owned_by (lk_y s) c" for c using y by (simp_all add: owned_by_def)
  have fin: "finite (taken_locks (lk_y s))" "length (lk_held s) = LOCKORD_CTX" "length (lk_count s) = 32"
    using ok by (simp_all add: held_ok_def)
  have hold: "distinct (lk_held s ! c) \<and> set (lk_held s ! c) \<subseteq> owned_by (lk_y s) (int c)
      \<and> length (lk_held s ! c) \<le> LOCKORD_DEPTH" if "c < LOCKORD_CTX" for c
    using ok that by (simp add: held_ok_def)
  have h': "lk_held ?s' = (lk_held s)[nat me := remove1 l (lk_held s ! nat me)]"
    using y me hold [of "nat me"]
    by (auto simp: ylock_release_def Let_def put_lock_def order_released_def count_down_def ctx_ok_def remove_last_distinct)
  have c': "lk_count ?s' = (if pid_ok me \<and> 0 < lk_count s ! nat me then (lk_count s)[nat me := lk_count s ! nat me - 1] else lk_count s)"
    using y by (auto simp: ylock_release_def Let_def put_lock_def order_released_def count_down_def)
  have "distinct (lk_held ?s' ! c) \<and> set (lk_held ?s' ! c) \<subseteq> owned_by (lk_y ?s') (int c)
      \<and> length (lk_held ?s' ! c) \<le> LOCKORD_DEPTH" if c: "c < LOCKORD_CTX" for c
  proof (cases "nat me = c")
    case True
    have "length (remove1 l (lk_held s ! c)) \<le> length (lk_held s ! c)" by (simp add: length_remove1)
    then show ?thesis using True hold [OF c] fin(2) c me unfolding h' o by (auto simp: ctx_ok_def)
  next
    case False
    then have "int c \<noteq> me" using me by (auto simp: ctx_ok_def)
    then show ?thesis using False hold [OF c] own(2) [of "int c"] unfolding h' o by auto
  qed
  moreover have "lk_count ?s' ! p = card (owned_by (lk_y ?s') (int p))" if p: "p < 32" for p
  proof -
    have old: "lk_count s ! p = card (owned_by (lk_y s) (int p))" using ok p by (simp add: held_ok_def)
    have "0 < card (owned_by (lk_y s) me)" using own(1) owned_finite [OF fin(1)] card_gt_0_iff by blast
    then show ?thesis
      using old p fin own owned_finite [OF fin(1)] me unfolding o c'
      by (cases "int p = me") (auto simp: pid_ok_def MAX_TASKS_def nth_list_update ctx_ok_def)
  qed
  ultimately show ?thesis using fin unfolding held_ok_def by (auto simp: h' c' y' taken_put)
qed

definition lock_ok :: "lsys \<Rightarrow> bool" where
  "lock_ok x \<longleftrightarrow> gate_ok x \<and> graph_ok (ls x) \<and> pairs_ok (lk_pairs (ls x)) \<and> held_ok (ls x)"

lemma lock_okD:
  assumes "lock_ok x"
  shows "yl_word (lk_y (ls x) l) \<longleftrightarrow> 0 < yl_depth (lk_y (ls x) l)"
    and "ls_in x c l = (if yl_owner (lk_y (ls x) l) = c then yl_depth (lk_y (ls x) l) else 0)"
    and "0 < ls_in x c l \<Longrightarrow> ctx_ok c"
    and "graph_ok (ls x)" and "pairs_ok (lk_pairs (ls x))" and "held_ok (ls x)"
  using assms unfolding lock_ok_def gate_ok_def by blast+

lemma gate_okI:
  assumes "\<And>l. yl_word (lk_y (ls x) l) \<longleftrightarrow> 0 < yl_depth (lk_y (ls x) l)"
    and "\<And>c l. ls_in x c l = (if yl_owner (lk_y (ls x) l) = c then yl_depth (lk_y (ls x) l) else 0)"
    and "\<And>c l. 0 < ls_in x c l \<Longrightarrow> ctx_ok c"
  shows "gate_ok x"
  using assms unfolding gate_ok_def by blast

lemma leave_frame [simp]:
  "lk_y (waitfor_leave me s) = lk_y s" "lk_count (waitfor_leave me s) = lk_count s"
  "lk_held (waitfor_leave me s) = lk_held s" "lk_pairs (waitfor_leave me s) = lk_pairs s"
  by (simp_all add: waitfor_leave_def)

lemma enter_frame:
  assumes "waitfor_enter me target s = (ok, s')"
  shows "lk_y s' = lk_y s" "lk_count s' = lk_count s" "lk_held s' = lk_held s" "lk_pairs s' = lk_pairs s"
  using assms by (auto simp: waitfor_enter_def waitfor_init_once_def Let_def split: if_splits)

lemma count_up_frame [simp]:
  "lk_y (count_up me s) = lk_y s" "lk_held (count_up me s) = lk_held s" "lk_pairs (count_up me s) = lk_pairs s"
  "lk_waitfor (count_up me s) = lk_waitfor s" "lk_ready (count_up me s) = lk_ready s"
  by (simp_all add: count_up_def)

lemma put_lock_frame [simp]:
  "lk_y (put_lock l y s) = (lk_y s)(l := y)" "lk_held (put_lock l y s) = lk_held s" "lk_pairs (put_lock l y s) = lk_pairs s"
  "lk_waitfor (put_lock l y s) = lk_waitfor s" "lk_ready (put_lock l y s) = lk_ready s" "lk_count (put_lock l y s) = lk_count s"
  by (simp_all add: put_lock_def)

lemma release_frame [simp]:
  "lk_waitfor (ylock_release l s) = lk_waitfor s" "lk_ready (ylock_release l s) = lk_ready s"
  "lk_pairs (ylock_release l s) = lk_pairs s"
  by (auto simp: ylock_release_def Let_def order_released_def count_down_def)

lemma order_acquired_ok:
  assumes "graph_ok s" "pairs_ok (lk_pairs s)"
  shows "graph_ok (order_acquired l me w s)" "pairs_ok (lk_pairs (order_acquired l me w s))"
  using assms by (auto intro: graph_same order_acquired_pairs)

text \<open>Taking a free lock, with or without a wait before it.\<close>

lemma take_ok:
  assumes ok: "lock_ok x" and me: "ctx_ok me" and free: "\<not> yl_word (lk_y (ls x) l)"
    and s1: "s1 = waitfor_leave me (count_up me (put_lock l \<lparr>yl_word = True, yl_owner = me, yl_depth = 1\<rparr> (ls x)))
       \<or> s1 = count_up me (put_lock l \<lparr>yl_word = True, yl_owner = me, yl_depth = 1\<rparr> (ls x))"
  shows "lock_ok (x\<lparr>ls := order_acquired l me w s1, ls_in := bump me l Suc (ls_in x)\<rparr>)"
proof -
  have d: "yl_depth (lk_y (ls x) l) = 0" using ok free by (simp add: lock_ok_def gate_ok_def)
  have g: "graph_ok s1"
    using ok s1 graph_leave graph_same [of "ls x" "count_up me (put_lock l \<lparr>yl_word = True, yl_owner = me, yl_depth = 1\<rparr> (ls x))"]
    by (auto simp: lock_ok_def)
  have p: "pairs_ok (lk_pairs s1)" using ok s1 by (auto simp: lock_ok_def)
  have y1: "lk_y s1 = (lk_y (ls x))(l := \<lparr>yl_word = True, yl_owner = me, yl_depth = 1\<rparr>)" using s1 by auto
  have h1: "lk_held s1 = lk_held (ls x)" using s1 by auto
  have c1: "lk_count s1 = lk_count (count_up me (ls x))" using s1 by (auto simp: count_up_def put_lock_def)
  have "held_ok (order_acquired l me w s1)"
    by (rule held_take [OF _ me d]) (use ok y1 h1 c1 me in \<open>simp_all add: lock_ok_def order_acquired_held\<close>)
  moreover have "gate_ok (x\<lparr>ls := order_acquired l me w s1, ls_in := bump me l Suc (ls_in x)\<rparr>)"
  proof (rule gate_okI)
    fix c k
    show "0 < ls_in (x\<lparr>ls := order_acquired l me w s1, ls_in := bump me l Suc (ls_in x)\<rparr>) c k \<Longrightarrow> ctx_ok c"
      using lock_okD(3) [OF ok, of c k] me by (cases "c = me") (auto simp: bump_def)
  qed (use lock_okD(1,2) [OF ok] d in \<open>auto simp: y1 bump_def\<close>)
  ultimately show ?thesis using order_acquired_ok [OF g p] by (simp add: lock_ok_def)
qed

lemma reenter_ok:
  assumes ok: "lock_ok x" and me: "ctx_ok me" and own: "0 < yl_depth (lk_y (ls x) l)" "yl_owner (lk_y (ls x) l) = me"
    and s1: "s1 = put_lock l ((lk_y (ls x) l)\<lparr>yl_depth := Suc (yl_depth (lk_y (ls x) l))\<rparr>) (ls x)"
  shows "lock_ok (x\<lparr>ls := s1, ls_in := bump me l Suc (ls_in x)\<rparr>)"
proof -
  have "held_ok s1"
    by (rule held_same [of "ls x"])
      (use ok own in \<open>auto simp: lock_ok_def s1 owned_by_def taken_locks_def\<close>)
  moreover have "gate_ok (x\<lparr>ls := s1, ls_in := bump me l Suc (ls_in x)\<rparr>)"
  proof (rule gate_okI)
    fix c k
    show "0 < ls_in (x\<lparr>ls := s1, ls_in := bump me l Suc (ls_in x)\<rparr>) c k \<Longrightarrow> ctx_ok c"
      using lock_okD(3) [OF ok, of c k] me by (cases "c = me") (auto simp: bump_def)
  qed (use lock_okD(1,2) [OF ok] own in \<open>auto simp: s1 bump_def\<close>)
  moreover have "graph_ok s1" using ok graph_same [of "ls x" s1] by (simp add: lock_ok_def s1)
  ultimately show ?thesis using ok by (simp add: lock_ok_def s1)
qed

lemma lock_ok_graph:
  assumes "lock_ok x" and "graph_ok s'" and "lk_y s' = lk_y (ls x)" "lk_count s' = lk_count (ls x)"
    "lk_held s' = lk_held (ls x)" "lk_pairs s' = lk_pairs (ls x)"
  shows "lock_ok (x\<lparr>ls := s'\<rparr>)"
  using assms by (simp add: lock_ok_def gate_ok_def held_ok_def)

lemma release_ok:
  assumes ok: "lock_ok x" and own: "0 < ls_in x me l"
  shows "lock_ok (x\<lparr>ls := ylock_release l (ls x), ls_in := bump me l (\<lambda>n. n - 1) (ls_in x)\<rparr>)"
proof -
  let ?y = "lk_y (ls x) l" and ?s' = "ylock_release l (ls x)"
  have y: "yl_owner ?y = me" "yl_depth ?y = ls_in x me l" and me: "ctx_ok me"
    using lock_okD(2,3) [OF ok, of me l] own by (auto split: if_splits)
  have y': "lk_y ?s' = (lk_y (ls x))(l := (if yl_depth ?y = 1 then \<lparr>yl_word = False, yl_owner = -1, yl_depth = 0\<rparr>
      else ?y\<lparr>yl_depth := yl_depth ?y - 1\<rparr>))"
    using own y by (auto simp: ylock_release_def Let_def order_released_def count_down_def)
  have "held_ok ?s'"
  proof (cases "yl_depth ?y = 1")
    case True
    then show ?thesis using held_release [OF _ me _ y(1)] ok by (simp add: lock_ok_def)
  next
    case False
    then have s': "?s' = put_lock l (?y\<lparr>yl_depth := yl_depth ?y - 1\<rparr>) (ls x)"
      using own y by (auto simp: ylock_release_def Let_def)
    have "yl_depth ?y - 1 > 0" using False own y by linarith
    then have o: "owned_by (lk_y ?s') c = owned_by (lk_y (ls x)) c" "taken_locks (lk_y ?s') = taken_locks (lk_y (ls x))" for c
      using own y(2) unfolding s' put_lock_frame owned_by_put taken_put by (auto simp: owned_by_def taken_locks_def)
    show ?thesis by (rule held_same [OF lock_okD(6) [OF ok] o]) (simp_all add: s')
  qed
  moreover have "gate_ok (x\<lparr>ls := ?s', ls_in := bump me l (\<lambda>n. n - 1) (ls_in x)\<rparr>)"
  proof (rule gate_okI)
    fix c k
    show "0 < ls_in (x\<lparr>ls := ?s', ls_in := bump me l (\<lambda>n. n - 1) (ls_in x)\<rparr>) c k \<Longrightarrow> ctx_ok c"
      using lock_okD(3) [OF ok, of c k] me by (cases "c = me") (auto simp: bump_def)
  next
    fix k
    have "0 < yl_depth ?y" using own y(2) by simp
    then show "yl_word (lk_y (ls (x\<lparr>ls := ?s', ls_in := bump me l (\<lambda>n. n - 1) (ls_in x)\<rparr>)) k) \<longleftrightarrow>
        0 < yl_depth (lk_y (ls (x\<lparr>ls := ?s', ls_in := bump me l (\<lambda>n. n - 1) (ls_in x)\<rparr>)) k)"
      using lock_okD(1) [OF ok, of k] by (cases "k = l") (auto simp: y')
  next
    fix c k
    show "ls_in (x\<lparr>ls := ?s', ls_in := bump me l (\<lambda>n. n - 1) (ls_in x)\<rparr>) c k =
        (if yl_owner (lk_y (ls (x\<lparr>ls := ?s', ls_in := bump me l (\<lambda>n. n - 1) (ls_in x)\<rparr>)) k) = c
         then yl_depth (lk_y (ls (x\<lparr>ls := ?s', ls_in := bump me l (\<lambda>n. n - 1) (ls_in x)\<rparr>)) k) else 0)"
      using lock_okD(2) [OF ok, of c k] y own by (cases "k = l") (auto simp: bump_def y')
  qed
  moreover have "graph_ok ?s'" using ok graph_same [of "ls x" ?s'] by (simp add: lock_ok_def)
  ultimately show ?thesis using ok by (simp add: lock_ok_def)
qed

lemma reset_ok:
  assumes ok: "lock_ok x" and none: "\<And>l. ls_in x pid l = 0"
  shows "lock_ok (x\<lparr>ls := lock_task_reset pid (ls x)\<rparr>)"
proof -
  let ?s' = "lock_task_reset pid (ls x)"
  have e: "owned_by (lk_y (ls x)) pid = {}"
  proof -
    have "yl_depth (lk_y (ls x) l) = 0 \<or> yl_owner (lk_y (ls x) l) \<noteq> pid" for l
      using lock_okD(2) [OF ok, of pid l] none [of l] by (auto split: if_splits)
    then show ?thesis by (auto simp: owned_by_def)
  qed
  have f: "lk_y ?s' = lk_y (ls x)" "lk_waitfor ?s' = lk_waitfor (ls x)" "lk_ready ?s' = lk_ready (ls x)" "lk_pairs ?s' = lk_pairs (ls x)"
    by (auto simp: lock_task_reset_def Let_def)
  have "held_ok ?s'"
  proof (cases "ctx_ok pid")
    case False
    then show ?thesis using ok by (simp add: lock_ok_def lock_task_reset_def)
  next
    case True
    then obtain p where p: "pid = int p" "p < LOCKORD_CTX" by (auto simp: ctx_ok_def dest: nonneg_int_cases)
    have h: "lk_held ?s' = (lk_held (ls x))[p := []]"
      "lk_count ?s' = (if p < 32 then (lk_count (ls x))[p := 0] else lk_count (ls x))"
      using True p by (auto simp: lock_task_reset_def Let_def MAX_TASKS_def)
    show ?thesis using ok e p unfolding lock_ok_def held_ok_def f h
      by (auto simp: nth_list_update)
  qed
  moreover have "graph_ok ?s'" using ok graph_same [of "ls x" ?s'] f by (simp add: lock_ok_def)
  ultimately show ?thesis using ok f by (simp add: lock_ok_def gate_ok_def)
qed

lemma lock_step_ok: "lock_step x y \<Longrightarrow> lock_ok x \<Longrightarrow> lock_ok y"
proof (induction rule: lock_step.induct)
  case (takes me l x s')
  show ?case
  proof (cases "0 < yl_depth (lk_y (ls x) l) \<and> yl_owner (lk_y (ls x) l) = me")
    case True
    define s1 where "s1 = put_lock l ((lk_y (ls x) l)\<lparr>yl_depth := Suc (yl_depth (lk_y (ls x) l))\<rparr>) (ls x)"
    have "s' = waitfor_leave me s1" using takes True by (simp add: ylock_turn_def Let_def s1_def)
    moreover have r: "lock_ok (x\<lparr>ls := s1, ls_in := bump me l Suc (ls_in x)\<rparr>)"
      using reenter_ok [OF takes.prems takes.hyps(1) _ _ s1_def] True by simp
    moreover have "graph_ok s1" using r by (simp add: lock_ok_def)
    ultimately show ?thesis using lock_ok_graph [OF r graph_leave [of s1 me]]
      by (simp add: lock_ok_def gate_ok_def)
  next
    case False
    then have "\<not> yl_word (lk_y (ls x) l)" and "s' = order_acquired l me True (waitfor_leave me (count_up me
               (put_lock l \<lparr>yl_word = True, yl_owner = me, yl_depth = 1\<rparr> (ls x))))"
      using takes by (auto simp: ylock_turn_def Let_def split: if_splits)
    then show ?thesis using take_ok [OF takes.prems takes.hyps(1)] by blast
  qed
next
  case (waits me holder k x k' rep s')
  show ?case
  proof (cases "pid_ok me")
    case True
    then obtain ok where e: "waitfor_enter me holder (ls x) = (ok, s')"
      using waits by (auto simp: ylock_wait_def split: prod.splits bool.splits)
    then show ?thesis
      using lock_ok_graph [OF waits.prems graph_enter [OF _ e]] enter_frame [OF e] waits.prems by (simp add: lock_ok_def)
  next
    case False
    then have "s' = ls x" using waits by (simp add: ylock_wait_def)
    then show ?thesis using waits.prems by simp
  qed
next
  case (tries me l x got s')
  show ?case
  proof (cases "0 < yl_depth (lk_y (ls x) l) \<and> yl_owner (lk_y (ls x) l) = me")
    case True
    then show ?thesis using tries reenter_ok [OF tries.prems tries.hyps(1), of l] by (auto simp: ylock_try_acquire_def Let_def)
  next
    case False
    then consider "got" "\<not> yl_word (lk_y (ls x) l)" "s' = order_acquired l me False (count_up me
               (put_lock l \<lparr>yl_word = True, yl_owner = me, yl_depth = 1\<rparr> (ls x)))" | "\<not> got" "s' = ls x"
      using tries by (auto simp: ylock_try_acquire_def Let_def split: if_splits)
    then show ?thesis
    proof cases
      case 1
      then show ?thesis using take_ok [OF tries.prems tries.hyps(1) 1(2)] by simp
    next
      case 2
      then show ?thesis using tries.prems by simp
    qed
  qed
next
  case (calls me target x ok s')
  then show ?case
    using lock_ok_graph [OF calls.prems graph_enter [OF _ calls.hyps]] enter_frame [OF calls.hyps] by (simp add: lock_ok_def)
next
  case (leaves x me)
  then show ?case using lock_ok_graph [OF leaves graph_leave [of "ls x" me]] by (simp add: lock_ok_def)
next
  case (releases x me l)
  then show ?case by (rule release_ok [rotated])
qed (simp_all add: reset_ok)

lemma lock_ok_start: "lock_ok \<lparr>ls = locks_zero, ls_in = (\<lambda>_ _. 0)\<rparr>"
  by (simp add: lock_ok_def gate_ok_def graph_ok_def pairs_ok_def held_ok_def locks_zero_def ylock_init_def
      owned_by_def taken_locks_def MAX_TASKS_def)

lemma lock_reach_ok: "lock_reach x \<Longrightarrow> lock_ok x"
  by (induction rule: lock_reach.induct) (auto intro: lock_ok_start lock_step_ok)


section \<open>What the locks promise\<close>


text \<open>
  C12: the wait-for graph of every reachable state has no cycle, and \<open>waitfor_enter\<close> records an edge
  exactly when the graph with that edge still has none: a wait that would close a cycle is refused and
  no other is.
\<close>

theorem wait_graph_acyclic:
  assumes "lock_reach x" and "m < 32" and "t < 32"
  shows "acyclic (wait_edges (lk_waitfor (waitfor_init_once (ls x))))
    \<and> (fst (waitfor_enter (int m) (int t) (ls x)) \<longleftrightarrow>
         acyclic (insert (m, t) (wait_edges (lk_waitfor (waitfor_init_once (ls x))))))
    \<and> (fst (waitfor_enter (int m) (int t) (ls x)) \<longrightarrow>
         (m, t) \<in> wait_edges (lk_waitfor (snd (waitfor_enter (int m) (int t) (ls x)))))"
proof -
  let ?s1 = "waitfor_init_once (ls x)"
  have e: "wait_edges (replicate 32 (-1)) = {}" "acyclic ({} :: (nat \<times> nat) set)"
    by (auto simp: wait_edges_def acyclic_def)
  have g: "graph_ok (ls x)" using lock_okD(4) [OF lock_reach_ok [OF assms(1)]] .
  then have ac: "acyclic (wait_edges (lk_waitfor ?s1))" and len: "length (lk_waitfor ?s1) = 32"
    by (auto simp: waitfor_init_once_def graph_ok_def MAX_TASKS_def e)
  have en: "waitfor_enter (int m) (int t) (ls x) = (\<not> waitfor_reaches (int m) (int t) ?s1,
      if waitfor_reaches (int m) (int t) ?s1 then ?s1 else ?s1\<lparr>lk_waitfor := (lk_waitfor ?s1)[m := int t]\<rparr>)"
    using assms(2,3) by (simp add: waitfor_enter_def pid_ok_def MAX_TASKS_def Let_def)
  have "acyclic (insert (m, t) (wait_edges (lk_waitfor ?s1))) \<longleftrightarrow> \<not> waitfor_reaches (int m) (int t) ?s1"
    using ac unfolding waitfor_reaches_iff [OF assms(2,3)] by (simp add: acyclic_insert)
  moreover have "(m, t) \<in> wait_edges ((lk_waitfor ?s1)[m := int t])"
    using len assms(2,3) by (simp add: wait_edges_def)
  ultimately show ?thesis using ac unfolding en by simp
qed

lemma order_checks_inversions:
  assumes "l \<notin> set hs"
  shows "lk_inversions (foldl (order_check l) s hs) mod 2 ^ 32 =
    (lk_inversions s + length (filter (\<lambda>h. (l, h) \<in> set (lk_pairs s)) hs)) mod 2 ^ 32"
  using assms
proof (induction hs arbitrary: s)
  case (Cons h hs)
  let ?s1 = "order_check l s h"
  have ne: "h \<noteq> l" "l \<notin> set hs" using Cons.prems by auto
  have p: "(l, k) \<in> set (lk_pairs ?s1) \<longleftrightarrow> (l, k) \<in> set (lk_pairs s)" for k
    using ne by (auto simp: order_check_def split: option.splits)
  have i: "lk_inversions ?s1 mod 2 ^ 32 = (lk_inversions s + (if (l, h) \<in> set (lk_pairs s) then 1 else 0)) mod 2 ^ 32"
  proof (cases "(l, h) \<in> set (lk_pairs s)")
    case True
    then obtain i where "pair_index l h (lk_pairs s) = Some i" using pair_index_None [of l h] by (cases "pair_index l h (lk_pairs s)") auto
    with ne True show ?thesis by (simp add: order_check_def wrap32_def)
  next
    case False
    then have none: "pair_index l h (lk_pairs s) = None" by simp
    show ?thesis using ne False by (simp add: order_check_def none)
  qed
  have "lk_inversions (foldl (order_check l) s (h # hs)) mod 2 ^ 32 =
      (lk_inversions ?s1 + length (filter (\<lambda>k. (l, k) \<in> set (lk_pairs s)) hs)) mod 2 ^ 32"
    using Cons.IH [OF ne(2), of ?s1] by (simp add: p)
  also have "\<dots> = (lk_inversions s + length (filter (\<lambda>k. (l, k) \<in> set (lk_pairs s)) (h # hs))) mod 2 ^ 32"
    using mod_add_cong [OF i refl, of "length (filter (\<lambda>k. (l, k) \<in> set (lk_pairs s)) hs)"] by (simp add: add_ac)
  finally show ?case .
qed simp

text \<open>
  when a task takes a free lock in \<open>ylock_acquire\<close>, the count of order inversions grows (mod
  \<open>2 ^ 32\<close>) by exactly the number of locks it holds that were once taken after this one, each lock
  counted once; and no two locks are ever recorded in both orders.
\<close>

theorem inversions_counted:
  assumes reach: "lock_reach x" and me: "ctx_ok me" and free: "yl_depth (lk_y (ls x) l) = 0"
    and s': "ylock_turn l me (ls x) = Inl s'"
  shows "lk_inversions s' mod 2 ^ 32 =
      (lk_inversions (ls x) + card {h \<in> set (lk_held (ls x) ! nat me). (l, h) \<in> set (lk_pairs (ls x))}) mod 2 ^ 32
    \<and> pairs_ok (lk_pairs s')"
proof -
  have ok: "lock_ok x" using reach by (rule lock_reach_ok)
  let ?hs = "lk_held (ls x) ! nat me"
  have c: "nat me < LOCKORD_CTX" "int (nat me) = me" using me by (auto simp: ctx_ok_def)
  then have hs: "distinct ?hs" "set ?hs \<subseteq> owned_by (lk_y (ls x)) me"
    using lock_okD(6) [OF ok] unfolding held_ok_def by metis+
  have l: "l \<notin> set ?hs" using hs(2) free by (auto simp: owned_by_def)
  have w: "\<not> yl_word (lk_y (ls x) l)" using lock_okD(1) [OF ok, of l] free by simp
  define s0 where "s0 = waitfor_leave me (count_up me (put_lock l \<lparr>yl_word = True, yl_owner = me, yl_depth = 1\<rparr> (ls x)))"
  have s0: "lk_held s0 = lk_held (ls x)" "lk_pairs s0 = lk_pairs (ls x)" "lk_inversions s0 = lk_inversions (ls x)"
    by (simp_all add: s0_def waitfor_leave_def count_up_def put_lock_def)
  have e: "s' = order_acquired l me True s0" using s' free w by (simp add: ylock_turn_def Let_def s0_def)
  have "lk_inversions s' = lk_inversions (foldl (order_check l) s0 ?hs)"
    using me unfolding e order_acquired_def by (simp add: Let_def s0)
  moreover have "length (filter (\<lambda>h. (l, h) \<in> set (lk_pairs (ls x))) ?hs) = card {h \<in> set ?hs. (l, h) \<in> set (lk_pairs (ls x))}"
    using distinct_card [OF distinct_filter [OF hs(1)], of "\<lambda>h. (l, h) \<in> set (lk_pairs (ls x))"] by simp
  moreover have "pairs_ok (lk_pairs s')" unfolding e
    by (rule order_acquired_pairs) (simp add: s0 lock_okD(5) [OF ok])
  ultimately show ?thesis using order_checks_inversions [OF l, of s0] by (simp add: s0)
qed


text \<open>
  The comment of \<open>waitfor_target\<close> promises -1 for a task that waits for no one.  Before the first
  \<open>waitfor_enter\<close> the table is still zero and every task is said to wait for task 0.
\<close>

lemma waitfor_target_unready: "waitfor_target 5 locks_zero = 0"
  by (simp add: waitfor_target_def locks_zero_def pid_ok_def MAX_TASKS_def)

section \<open>Concrete runs\<close>

definition demo_take :: "nat \<Rightarrow> int \<Rightarrow> lsys \<Rightarrow> lsys" where
  "demo_take l me x =
     (case ylock_turn l me (ls x) of Inl s' \<Rightarrow> x\<lparr>ls := s', ls_in := bump me l Suc (ls_in x)\<rparr> | Inr _ \<Rightarrow> x)"

definition demo_drop :: "nat \<Rightarrow> int \<Rightarrow> lsys \<Rightarrow> lsys" where
  "demo_drop l me x =
     (if 0 < ls_in x me l then x\<lparr>ls := ylock_release l (ls x), ls_in := bump me l (\<lambda>n. n - 1) (ls_in x)\<rparr> else x)"

definition demo_start :: lsys where "demo_start = \<lparr>ls = locks_zero, ls_in = (\<lambda>_ _. 0)\<rparr>"

text \<open>Task 1 takes lock 10 and then lock 20, drops both, and takes lock 20.\<close>

definition demo_locks :: lsys where
  "demo_locks = demo_take 20 1 (demo_drop 10 1 (demo_drop 20 1 (demo_take 20 1 (demo_take 10 1 demo_start))))"

lemma demo_take_reach: "lock_reach x \<Longrightarrow> ctx_ok me \<Longrightarrow> lock_reach (demo_take l me x)"
  by (auto simp: demo_take_def split: sum.splits intro: lock_reach.step takes)

lemma demo_drop_reach: "lock_reach x \<Longrightarrow> lock_reach (demo_drop l me x)"
  by (auto simp: demo_drop_def intro: lock_reach.step releases [unfolded One_nat_def])

lemma demo_locks_reach: "lock_reach demo_locks"
  unfolding demo_locks_def demo_start_def
  by (intro demo_take_reach demo_drop_reach lock_reach.start) (simp_all add: ctx_ok_def LOCKORD_CTX_def MAX_TASKS_def MAX_HARTS_def)

lemmas lock_eval = demo_locks_def demo_start_def demo_take_def demo_drop_def ylock_turn_def ylock_release_def
  waitfor_leave_def order_acquired_def order_released_def count_up_def count_down_def put_lock_def bump_def
  locks_zero_def ylock_init_def ctx_ok_def pid_ok_def LOCKORD_CTX_def LOCKORD_DEPTH_def LOCKORD_PAIRS_def
  MAX_TASKS_def MAX_HARTS_def order_check_def pair_index_def Let_def

lemma demo_locks_state:
  "ls_in demo_locks 1 20 = 1" "yl_depth (lk_y (ls demo_locks) 10) = 0"
  "lk_pairs (ls demo_locks) = [(10, 20)]" "lk_held (ls demo_locks) ! Suc 0 = [20]"
  "yl_word (lk_y (ls demo_locks) 10) = False" "lk_inversions (ls demo_locks) = 0" "lk_ready (ls demo_locks) = False"
  by (simp_all add: lock_eval)


text \<open>Task 3 waits for task 4, and then task 4 may not wait for task 3.\<close>

definition demo_waits :: lsys where
  "demo_waits = demo_start\<lparr>ls := snd (waitfor_enter 3 4 (ls demo_start))\<rparr>"

lemma demo_waits_reach: "lock_reach demo_waits"
proof -
  obtain ok s' where e: "waitfor_enter 3 4 (ls demo_start) = (ok, s')" by fastforce
  have "lock_reach demo_start" by (simp add: demo_start_def lock_reach.start)
  from lock_reach.step [OF this calls [OF e]] show ?thesis by (simp add: demo_waits_def e)
qed

lemma wait_graph_acyclic_witness:
  "fst (waitfor_enter 4 3 (ls demo_waits)) = False
    \<and> acyclic (wait_edges (lk_waitfor (waitfor_init_once (ls demo_waits))))
    \<and> \<not> acyclic (insert (4, 3) (wait_edges (lk_waitfor (waitfor_init_once (ls demo_waits)))))"
proof -
  have "fst (waitfor_enter (int 4) (int 3) (ls demo_waits)) = False"
    by code_simp
  then show ?thesis using wait_graph_acyclic [OF demo_waits_reach, of 4 3] by simp
qed

lemma inversions_counted_witness: "lk_inversions (ls (demo_take 10 1 demo_locks)) mod 2 ^ 32 = 1"
proof -
  have me: "ctx_ok 1" by (simp add: ctx_ok_def LOCKORD_CTX_def MAX_TASKS_def MAX_HARTS_def)
  obtain s' where s': "ylock_turn 10 1 (ls demo_locks) = Inl s'"
    by (simp add: ylock_turn_def Let_def demo_locks_state)
  have "{h. h = 20 \<and> (10, h) \<in> set [(10 :: nat, 20 :: nat)]} = {20}" by auto
  then show ?thesis
    using inversions_counted [OF demo_locks_reach me _ s'] by (simp add: demo_locks_state demo_take_def s' conj_commute)
qed

end
