(* ===== verification/Slip.thy ===== *)
theory Slip
  imports Prelude
begin

text \<open>
  The byte-stream layer of the links: the CRC-32 of \<open>kernel/crc32.c\<close> and the SLIP framing of
  \<open>drivers/slip.c\<close>.  A buffer is the list of its bytes and a cursor into it a natural number; the
  functions that write a buffer return it.  A pointer that the code tests against \<open>NULL\<close> is an
  option.
\<close>

section \<open>CRC-32\<close>

text \<open>One turn of the inner loop, the eight turns, and one byte.\<close>

definition crc_shift :: "u32 \<Rightarrow> u32" where
  "crc_shift crc = drop_bit 1 crc XOR (0xEDB88320 AND (- (crc AND 1)))"

definition crc_byte :: "u32 \<Rightarrow> u8 \<Rightarrow> u32" where
  "crc_byte crc b = (crc_shift ^^ 8) (crc XOR ucast b)"

definition crc32_update :: "u32 \<Rightarrow> bytes \<Rightarrow> u32" where
  "crc32_update crc data = foldl crc_byte crc data"

definition crc32_compute :: "bytes \<Rightarrow> u32" where
  "crc32_compute data = NOT (crc32_update 0xFFFFFFFF data)"

section \<open>SLIP\<close>

definition SLIP_END :: u8 where "SLIP_END = 0xC0"
definition SLIP_ESC :: u8 where "SLIP_ESC = 0xDB"
definition SLIP_ESC_END :: u8 where "SLIP_ESC_END = 0xDC"
definition SLIP_ESC_ESC :: u8 where "SLIP_ESC_ESC = 0xDD"
definition SLIP_DISCARDING :: nat where "SLIP_DISCARDING = 0xFFFFFFFF"

lemmas slip_bytes = SLIP_END_def SLIP_ESC_def SLIP_ESC_END_def SLIP_ESC_ESC_def

definition unescape :: "u8 \<Rightarrow> u8" where
  "unescape c = (if c = SLIP_ESC_END then SLIP_END else if c = SLIP_ESC_ESC then SLIP_ESC else c)"

text \<open>The results are: a frame is complete, the buffer, \<open>*frame_len\<close> and \<open>*escaping\<close>.\<close>

definition slip_feed :: "u8 \<Rightarrow> bytes \<Rightarrow> nat \<Rightarrow> nat \<Rightarrow> bool \<Rightarrow> bool \<times> bytes \<times> nat \<times> bool" where
  "slip_feed c frame frame_cap frame_len escaping =
     (if c = SLIP_END then
        (if frame_len = SLIP_DISCARDING then (False, frame, 0, False)
         else if frame_len = 0 then (False, frame, frame_len, False)
         else (True, frame, frame_len, False))
      else if frame_len = SLIP_DISCARDING then (False, frame, frame_len, escaping)
      else if \<not> escaping \<and> c = SLIP_ESC then (False, frame, frame_len, True)
      else
        (let c' = (if escaping then unescape c else c)
         in if frame_cap \<le> frame_len then (False, frame, SLIP_DISCARDING, False)
            else (False, frame[frame_len := c'], frame_len + 1, False)))"

fun slip_append :: "bytes \<Rightarrow> nat \<Rightarrow> nat \<Rightarrow> bytes \<Rightarrow> int \<times> bytes \<times> nat" where
  "slip_append dst out dst_max [] = (0, dst, out)"
| "slip_append dst out dst_max (c # cs) =
     (if c = SLIP_END \<or> c = SLIP_ESC then
        (if dst_max \<le> out + 2 then (-1, dst, out)
         else slip_append (dst[out := SLIP_ESC, out + 1 := if c = SLIP_END then SLIP_ESC_END else SLIP_ESC_ESC])
                (out + 2) dst_max cs)
      else
        (if dst_max \<le> out + 1 then (-1, dst, out)
         else slip_append (dst[out := c]) (out + 1) dst_max cs))"

definition slip_encode :: "bytes option \<Rightarrow> bytes option \<Rightarrow> nat \<Rightarrow> int \<times> bytes option" where
  "slip_encode src dst dst_max =
     (case (src, dst) of
        (Some xs, Some d) \<Rightarrow>
          (if dst_max < 2 then (-1, dst)
           else
             (case slip_append (d[0 := SLIP_END]) 1 dst_max xs of (r, d', out) \<Rightarrow>
                if r \<noteq> 0 then (-1, Some d')
                else if dst_max < out + 1 then (-1, Some d')
                else (int (out + 1), Some (d'[out := SLIP_END]))))
      | _ \<Rightarrow> (-1, dst))"

fun decode_loop :: "bytes \<Rightarrow> bytes \<Rightarrow> nat \<Rightarrow> nat \<Rightarrow> bool \<Rightarrow> int \<times> bytes" where
  "decode_loop [] dst out dst_max escaping = (int out, dst)"
| "decode_loop (c # cs) dst out dst_max escaping =
     (if c = SLIP_END then (if 0 < out then (int out, dst) else decode_loop cs dst out dst_max escaping)
      else if \<not> escaping \<and> c = SLIP_ESC then decode_loop cs dst out dst_max True
      else if dst_max \<le> out then (-1, dst)
      else decode_loop cs (dst[out := if escaping then unescape c else c]) (out + 1) dst_max False)"

definition slip_decode :: "bytes option \<Rightarrow> bytes option \<Rightarrow> nat \<Rightarrow> int \<times> bytes option" where
  "slip_decode src dst dst_max =
     (case (src, dst) of
        (Some xs, Some d) \<Rightarrow>
          (if xs = [] then (-1, dst)
           else (case decode_loop xs d 0 dst_max False of (r, d') \<Rightarrow> (r, Some d')))
      | _ \<Rightarrow> (-1, dst))"

lemma unescape_simps [simp]:
  "unescape SLIP_ESC_END = SLIP_END" "unescape SLIP_ESC_ESC = SLIP_ESC"
  by (simp_all add: unescape_def slip_bytes)

lemma slip_distinct [simp]:
  "SLIP_ESC \<noteq> SLIP_END" "SLIP_ESC_END \<noteq> SLIP_END" "SLIP_ESC_ESC \<noteq> SLIP_END"
  "SLIP_END \<noteq> SLIP_ESC" "SLIP_ESC_END \<noteq> SLIP_ESC" "SLIP_ESC_ESC \<noteq> SLIP_ESC"
  by (simp_all add: slip_bytes)

section \<open>The bytes on the wire\<close>

text \<open>What the encoder is meant to produce.\<close>

definition escape :: "u8 \<Rightarrow> bytes" where
  "escape c = (if c = SLIP_END then [SLIP_ESC, SLIP_ESC_END]
               else if c = SLIP_ESC then [SLIP_ESC, SLIP_ESC_ESC] else [c])"

definition escaped :: "bytes \<Rightarrow> bytes" where
  "escaped xs = concat (map escape xs)"

lemma escaped_simps [simp]:
  "escaped [] = []" "escaped (c # xs) = escape c @ escaped xs" "escaped (xs @ ys) = escaped xs @ escaped ys"
  by (simp_all add: escaped_def)

text \<open>The appended bytes are the escaped source, and the call fails exactly when they and a closing delimiter do not fit.\<close>

lemma slip_append_fits:
  "out + length (escaped src) < dst_max \<Longrightarrow> length dst = dst_max \<Longrightarrow>
    slip_append dst out dst_max src = (0, blit out (escaped src) dst, out + length (escaped src))"
proof (induction dst out dst_max src rule: slip_append.induct)
  case (2 dst out dst_max c cs)
  show ?case
  proof (cases "c = SLIP_END \<or> c = SLIP_ESC")
    case True
    have f: "out + 2 + length (escaped cs) < dst_max" using "2.prems" True by (auto simp: escape_def)
    let ?e = "if c = SLIP_END then SLIP_ESC_END else SLIP_ESC_ESC"
    have e: "escape c = [SLIP_ESC, ?e]" using True by (auto simp: escape_def)
    have d: "dst[out := SLIP_ESC, out + 1 := ?e] = blit out (escape c) dst"
      using blit_blit [of out "[SLIP_ESC]" "[?e]" dst] f "2.prems"(2) by (simp add: blit_update e)
    have "slip_append (blit out (escape c) dst) (out + 2) dst_max cs =
        (0, blit (out + 2) (escaped cs) (blit out (escape c) dst), out + 2 + length (escaped cs))"
      using "2.IH"(1) True f "2.prems"(2) unfolding d by (simp add: e)
    then show ?thesis
      using True f "2.prems"(2) blit_blit [of out "escape c" "escaped cs" dst] unfolding slip_append.simps d
      by (auto simp: e)
  next
    case False
    have e: "escape c = [c]" using False by (simp add: escape_def)
    then have f: "out + 1 + length (escaped cs) < dst_max" using "2.prems" by simp
    have "slip_append (blit out [c] dst) (out + 1) dst_max cs =
        (0, blit (out + 1) (escaped cs) (blit out [c] dst), out + 1 + length (escaped cs))"
      using "2.IH"(2) False f "2.prems"(2) by (simp add: blit_update)
    then show ?thesis
      using False f "2.prems"(2) blit_blit [of out "[c]" "escaped cs" dst] by (simp add: blit_update e)
  qed
qed simp

lemma slip_append_fails:
  "dst_max \<le> out + length (escaped src) \<Longrightarrow> src \<noteq> [] \<Longrightarrow> fst (slip_append dst out dst_max src) = -1"
proof (induction dst out dst_max src rule: slip_append.induct)
  case (2 dst out dst_max c cs)
  show ?case
  proof (cases "cs = []")
    case True
    then show ?thesis using "2.prems" by (auto simp: escape_def split: if_splits)
  next
    case False
    then show ?thesis using "2.IH" "2.prems" by (auto simp: escape_def split: if_splits)
  qed
qed simp

lemma slip_encode_fits:
  assumes "length (escaped xs) + 2 \<le> m" and "length d = m"
  shows "slip_encode (Some xs) (Some d) m =
    (int (length (escaped xs) + 2), Some (blit 0 (SLIP_END # escaped xs @ [SLIP_END]) d))"
proof -
  have "slip_append (d[0 := SLIP_END]) 1 m xs =
      (0, blit 1 (escaped xs) (blit 0 [SLIP_END] d), 1 + length (escaped xs))"
    using assms by (subst slip_append_fits) (auto simp: blit_update)
  moreover have "blit 1 (escaped xs) (blit 0 [SLIP_END] d) = blit 0 (SLIP_END # escaped xs) d"
    using blit_blit [of 0 "[SLIP_END]" "escaped xs" d] assms by simp
  moreover have "(blit 0 (SLIP_END # escaped xs) d)[Suc (length (escaped xs)) := SLIP_END]
      = blit 0 (SLIP_END # escaped xs @ [SLIP_END]) d"
    using blit_blit [of 0 "SLIP_END # escaped xs" "[SLIP_END]" d] assms by (simp add: blit_update)
  ultimately show ?thesis using assms(1) by (simp add: slip_encode_def)
qed

lemma slip_encode_fails: "m < length (escaped xs) + 2 \<Longrightarrow> fst (slip_encode (Some xs) (Some d) m) = -1"
  using slip_append_fails [of m 1 xs "d[0 := SLIP_END]"]
  by (cases "xs = []") (auto simp: slip_encode_def split: prod.splits)

lemma decode_escaped:
  "out + length xs \<le> m \<Longrightarrow> m \<le> length d \<Longrightarrow>
    decode_loop (escaped xs @ rest) d out m False = decode_loop rest (blit out xs d) (out + length xs) m False"
proof (induction xs arbitrary: d out)
  case (Cons c xs)
  have "decode_loop (escape c @ ys) d out m False = decode_loop ys (d[out := c]) (out + 1) m False" for ys
    using Cons.prems(1) by (auto simp: escape_def)
  then show ?case
    using Cons blit_blit [of out "[c]" xs d] by (simp add: blit_update)
qed simp

end
