(* ===== verification/Slip_Correct.thy ===== *)
theory Slip_Correct
  imports Slip
begin

text \<open>
  What the byte-stream layer promises: the decoder undoes the encoder, the streaming decoder loses only
  frames too long for its buffer and recovers from any noise, and the CRC finds every change confined to
  four bytes.
\<close>

section \<open>The streaming decoder\<close>

text \<open>
  One byte through \<open>slip_feed\<close> as its callers use it: a complete frame is taken out of the buffer and
  \<open>*frame_len\<close> set back to 0.  The state is the buffer, its fill and the escape flag.
\<close>

type_synonym slip_state = "bytes \<times> nat \<times> bool"

definition slip_take :: "nat \<Rightarrow> slip_state \<Rightarrow> u8 \<Rightarrow> bytes list \<times> slip_state" where
  "slip_take cap st c =
     (case st of (buf, len, esc) \<Rightarrow>
        case slip_feed c buf cap len esc of (complete, buf', len', esc') \<Rightarrow>
          if complete then ([take len' buf'], (buf', 0, esc')) else ([], (buf', len', esc')))"

fun slip_stream :: "nat \<Rightarrow> slip_state \<Rightarrow> bytes \<Rightarrow> bytes list \<times> slip_state" where
  "slip_stream cap st [] = ([], st)"
| "slip_stream cap st (c # cs) =
     (case slip_take cap st c of (fs, st1) \<Rightarrow> case slip_stream cap st1 cs of (gs, st2) \<Rightarrow> (fs @ gs, st2))"

definition slip_wire :: "bytes \<Rightarrow> bytes" where
  "slip_wire xs = SLIP_END # escaped xs @ [SLIP_END]"

lemma slip_stream_append:
  "slip_stream cap st (xs @ ys) =
    (fst (slip_stream cap st xs) @ fst (slip_stream cap (snd (slip_stream cap st xs)) ys),
     snd (slip_stream cap (snd (slip_stream cap st xs)) ys))"
  by (induction xs arbitrary: st) (auto simp: split_beta)

definition slip_ok :: "nat \<Rightarrow> slip_state \<Rightarrow> bool" where
  "slip_ok cap st \<longleftrightarrow> length (fst st) = cap \<and> (fst (snd st) \<le> cap \<or> fst (snd st) = SLIP_DISCARDING)"

lemma slip_take_ok: "slip_ok cap st \<Longrightarrow> slip_ok cap (snd (slip_take cap st c))"
  by (cases st) (auto simp: slip_take_def slip_feed_def slip_ok_def Let_def split: if_splits)

lemma slip_stream_ok: "slip_ok cap st \<Longrightarrow> slip_ok cap (snd (slip_stream cap st xs))"
  by (induction xs arbitrary: st) (auto simp: split_beta slip_take_ok)

text \<open>A delimiter empties the accumulator, whatever was in it.\<close>

lemma slip_take_end:
  "slip_ok cap st \<Longrightarrow> \<exists>buf. snd (slip_take cap st SLIP_END) = (buf, 0, False) \<and> length buf = cap"
  by (cases st) (auto simp: slip_take_def slip_feed_def slip_ok_def)

lemma stream_escape:
  assumes "cap < SLIP_DISCARDING" and "length buf = cap" and "len \<le> cap"
  shows "slip_stream cap (buf, len, False) (escape c) =
    ([], if len < cap then (buf[len := c], len + 1, False) else (buf, SLIP_DISCARDING, False))"
  using assms by (auto simp: escape_def slip_take_def slip_feed_def Let_def)

lemma stream_discarding: "c \<noteq> SLIP_END \<Longrightarrow>
    slip_take cap (buf, SLIP_DISCARDING, esc) c = ([], (buf, SLIP_DISCARDING, esc))"
  by (simp add: slip_take_def slip_feed_def)

lemma escape_no_end: "SLIP_END \<notin> set (escape c)"
  using slip_distinct by (auto simp: escape_def dest: sym)

lemma stream_discarding_all: "SLIP_END \<notin> set xs \<Longrightarrow>
    slip_stream cap (buf, SLIP_DISCARDING, esc) xs = ([], (buf, SLIP_DISCARDING, esc))"
  by (induction xs) (auto simp: stream_discarding)

lemma stream_escaped:
  assumes cap: "cap < SLIP_DISCARDING"
  shows "length buf = cap \<Longrightarrow> len \<le> cap \<Longrightarrow> slip_stream cap (buf, len, False) (escaped xs) =
    ([], if len + length xs \<le> cap then (blit len xs buf, len + length xs, False)
         else (blit len (take (cap - len) xs) buf, SLIP_DISCARDING, False))"
proof (induction xs arbitrary: buf len)
  case (Cons c xs)
  show ?case
  proof (cases "len < cap")
    case True
    have b: "(blit len [c] buf) = buf[len := c]" using True Cons.prems by (simp add: blit_update)
    have rest: "slip_stream cap (buf[len := c], len + 1, False) (escaped xs) =
        ([], if len + 1 + length xs \<le> cap then (blit (len + 1) xs (buf[len := c]), len + 1 + length xs, False)
         else (blit (len + 1) (take (cap - (len + 1)) xs) (buf[len := c]), SLIP_DISCARDING, False))"
      using Cons.IH [of "buf[len := c]" "len + 1"] Cons.prems True by simp
    have t: "take (cap - len) (c # xs) = c # take (cap - (len + 1)) xs" using True by (simp add: take_Cons')
    show ?thesis
      using stream_escape [OF cap Cons.prems] True rest Cons.prems
        blit_blit [of len "[c]" xs buf] blit_blit [of len "[c]" "take (cap - (len + 1)) xs" buf]
      by (auto simp: slip_stream_append b t)
  next
    case False
    have "SLIP_END \<notin> set (escaped xs)" using escape_no_end by (auto simp: escaped_def)
    then show ?thesis
      using stream_escape [OF cap Cons.prems] False Cons.prems
      by (simp add: slip_stream_append stream_discarding_all)
  qed
qed simp

text \<open>One framed message, from an idle accumulator.\<close>

lemma stream_wire:
  assumes cap: "cap < SLIP_DISCARDING" and st: "slip_ok cap st"
  shows "\<exists>junk buf. slip_stream cap st (slip_wire xs) =
    (junk @ (if xs \<noteq> [] \<and> length xs \<le> cap then [xs] else []), (buf, 0, False)) \<and> length buf = cap
    \<and> junk = fst (slip_take cap st SLIP_END)"
proof -
  obtain buf where e: "snd (slip_take cap st SLIP_END) = (buf, 0, False)" and b: "length buf = cap"
    using slip_take_end [OF st] by blast
  have mid: "slip_stream cap (buf, 0, False) (escaped xs) =
    ([], if length xs \<le> cap then (blit 0 xs buf, length xs, False) else (blit 0 (take cap xs) buf, SLIP_DISCARDING, False))"
    using stream_escaped [OF cap b, of 0 xs] by simp
  have last: "slip_take cap (blit 0 xs buf, length xs, False) SLIP_END =
      ((if xs \<noteq> [] then [xs] else []), (blit 0 xs buf, 0, False))" if "length xs \<le> cap"
    using that cap b take_blit [of 0 xs buf] by (auto simp: slip_take_def slip_feed_def)
  have over: "slip_take cap (ys, SLIP_DISCARDING, False) SLIP_END = ([], (ys, 0, False))" for ys
    by (simp add: slip_take_def slip_feed_def)
  show ?thesis
    using e mid last over b unfolding slip_wire_def
    by (auto simp: slip_stream_append split_beta)
qed

lemma stream_wires:
  assumes cap: "cap < SLIP_DISCARDING" and b: "length buf = cap"
  shows "\<exists>buf'. slip_stream cap (buf, 0, False) (concat (map slip_wire fs)) =
    (filter (\<lambda>f. f \<noteq> [] \<and> length f \<le> cap) fs, (buf', 0, False)) \<and> length buf' = cap"
  using b
proof (induction fs arbitrary: buf)
  case (Cons f fs)
  have "slip_ok cap (buf, 0, False)" using Cons.prems by (simp add: slip_ok_def)
  from stream_wire [OF cap this, of f] obtain buf1 where
    1: "slip_stream cap (buf, 0, False) (slip_wire f) =
      ((if f \<noteq> [] \<and> length f \<le> cap then [f] else []), (buf1, 0, False))" "length buf1 = cap"
    by (auto simp: slip_take_def slip_feed_def SLIP_DISCARDING_def)
  from Cons.IH [OF 1(2)] 1(1) show ?case by (auto simp: slip_stream_append)
qed simp

section \<open>Encode and decode\<close>

text \<open>
  decoding what \<open>slip_encode\<close> wrote gives back the message, for every message whose escaped form
  and two delimiters fit the output buffer; the length returned is the number of bytes written.  With
  less room the call returns -1.
\<close>

theorem slip_roundtrip:
  assumes "length d = m" and "length d' = m'" and "length xs \<le> m'"
  shows "(if length (escaped xs) + 2 \<le> m then
      (\<exists>w. slip_encode (Some xs) (Some d) m = (int (length (escaped xs) + 2), Some w)
         \<and> slip_decode (Some (take (length (escaped xs) + 2) w)) (Some d') m'
             = (int (length xs), Some (blit 0 xs d')))
    else fst (slip_encode (Some xs) (Some d) m) = -1)"
proof (cases "length (escaped xs) + 2 \<le> m")
  case True
  let ?w = "blit 0 (SLIP_END # escaped xs @ [SLIP_END]) d"
  have t: "take (length (escaped xs) + 2) ?w = SLIP_END # escaped xs @ [SLIP_END]"
    using take_blit [of 0 "SLIP_END # escaped xs @ [SLIP_END]" d] True assms(1) by simp
  have ne: "?w \<noteq> []" by (simp add: blit_def)
  have "decode_loop (escaped xs @ [SLIP_END]) d' 0 m' False = (int (length xs), blit 0 xs d')"
    using decode_escaped [of 0 xs m' d' "[SLIP_END]"] assms(2,3) by simp
  then show ?thesis
    using True slip_encode_fits [OF True assms(1)] t by (simp add: slip_decode_def ne)
next
  case False
  then show ?thesis using slip_encode_fails [of m xs d] by simp
qed

lemma slip_roundtrip_witness:
  "fst (slip_decode (Some [SLIP_END, 1, SLIP_ESC, SLIP_ESC_END, SLIP_END]) (Some [0, 0]) 2) = 2
    \<and> fst (slip_encode (Some [1, SLIP_END]) (Some [0, 0, 0, 0, 0]) 5) = 5"
proof -
  have "length (escaped [1, SLIP_END]) = 3" by (simp add: escape_def slip_bytes)
  then have "fst (slip_encode (Some [1, SLIP_END]) (Some [0, 0, 0, 0, 0]) 5) = 5"
    using slip_roundtrip [of "[0, 0, 0, 0, 0]" 5 "[0, 0]" 2 "[1, SLIP_END]"] by auto
  moreover have "fst (slip_decode (Some [SLIP_END, 1, SLIP_ESC, SLIP_ESC_END, SLIP_END]) (Some [0, 0]) 2) = 2"
    by (simp add: slip_decode_def slip_bytes unescape_def)
  ultimately show ?thesis by simp
qed

section \<open>Recovery from noise\<close>

text \<open>
  After any bytes whatsoever the streaming decoder delivers, in order, every following message
  that fits its buffer, drops the longer ones whole, and delivers nothing in between; only the noise
  itself can leave extra frames, before all of them.
\<close>

lemma slip_resync:
  assumes cap: "cap < SLIP_DISCARDING" and st: "slip_ok cap st"
  shows "\<exists>junk. fst (slip_stream cap st (noise @ concat (map slip_wire fs))) =
    junk @ filter (\<lambda>f. f \<noteq> [] \<and> length f \<le> cap) fs
    \<and> (fs \<noteq> [] \<longrightarrow> junk = fst (slip_stream cap st (noise @ [SLIP_END])))"
proof (cases fs)
  case (Cons f gs)
  let ?st = "snd (slip_stream cap st noise)"
  have ok: "slip_ok cap ?st" by (rule slip_stream_ok [OF st])
  from stream_wire [OF cap ok, of f] obtain buf where
    1: "slip_stream cap ?st (slip_wire f) = (fst (slip_take cap ?st SLIP_END) @
        (if f \<noteq> [] \<and> length f \<le> cap then [f] else []), (buf, 0, False))" "length buf = cap"
    by blast
  from stream_wires [OF cap 1(2), of gs] 1(1) show ?thesis
    by (auto simp: Cons slip_stream_append split_beta)
qed simp

section \<open>The CRC\<close>

text \<open>A register bit moves down and the feedback is the bit shifted out, so a turn can be undone.\<close>

lemma feedback: "(- (c AND 1)) = (if odd c then NOT 0 else 0 :: u32)"
  by (auto simp: and_one_eq odd_iff_mod_2_eq_one)

lemma bit_double: "bit (y * 2 :: u32) n \<longleftrightarrow> 0 < n \<and> n < 32 \<and> bit y (n - 1)"
  using bit_push_bit_iff [of 1 y n] by (auto simp: push_bit_eq_mult dest: bit_imp_le_length)

lemma crc_shift_xor: "crc_shift (a XOR b) = crc_shift a XOR crc_shift b"
proof (rule bit_word_eqI)
  fix n
  show "bit (crc_shift (a XOR b)) n = bit (crc_shift a XOR crc_shift b) n"
    unfolding crc_shift_def feedback by (auto simp: bit_simps even_xor_iff)
qed

lemma crc_shift_0 [simp]: "crc_shift 0 = 0"
  by (simp add: crc_shift_def)

lemma crc_shift_zero: "crc_shift c = 0 \<Longrightarrow> c = 0"
proof (rule bit_word_eqI)
  fix n assume z: "crc_shift c = 0" and n: "n < LENGTH(32)"
  have "bit (crc_shift c) 31 = bit c 0"
    unfolding crc_shift_def feedback by (auto simp: bit_simps bit_0 dest: bit_imp_le_length)
  with z have e: "even c" by (simp add: bit_0)
  then have "bit (crc_shift c) (n - 1) = bit c n" if "n \<noteq> 0"
    unfolding crc_shift_def feedback using n that by (simp add: bit_simps)
  with z e show "bit c n = bit (0 :: u32) n" by (cases "n = 0") (auto simp: bit_0)
qed

lemma crc_shifts_xor: "(crc_shift ^^ k) (a XOR b) = (crc_shift ^^ k) a XOR (crc_shift ^^ k) b"
  by (induction k) (simp_all add: crc_shift_xor)

lemma crc_shifts_zero: "(crc_shift ^^ k) c = 0 \<Longrightarrow> c = 0"
  by (induction k) (auto dest: crc_shift_zero)

lemma crc_shift_up: "\<not> bit y 31 \<Longrightarrow> crc_shift (push_bit 1 y) = y"
proof (rule bit_word_eqI)
  fix n assume y: "\<not> bit y 31" and n: "n < LENGTH(32)"
  have "even (push_bit 1 y)" by simp
  then show "bit (crc_shift (push_bit 1 y)) n = bit y n"
    unfolding crc_shift_def feedback using y n by (cases "n = 31") (auto simp: bit_simps bit_double)
qed

text \<open>Eight turns undo a shift up by a byte, as long as no bit is shifted out.\<close>

definition below :: "nat \<Rightarrow> u32 \<Rightarrow> bool" where
  "below k y \<longleftrightarrow> (\<forall>n \<ge> k. \<not> bit y n)"

lemma crc_shifts_up: "below (32 - k) y \<Longrightarrow> k \<le> 32 \<Longrightarrow> (crc_shift ^^ k) (push_bit k y) = y"
proof (induction k arbitrary: y)
  case (Suc k)
  have "below (32 - k) (push_bit 1 y)" using Suc.prems by (auto simp: below_def bit_double)
  then have "(crc_shift ^^ k) (push_bit k (push_bit 1 y)) = push_bit 1 y" using Suc by simp
  moreover have "push_bit (Suc k) y = push_bit k (push_bit 1 y)" by (simp only: push_bit_push_bit plus_1_eq_Suc add.commute)
  moreover have "\<not> bit y 31" using Suc.prems by (simp add: below_def)
  ultimately show ?case by (simp only: funpow.simps comp_apply crc_shift_up not_False_eq_True)
qed simp

lemma xor_zero: "a XOR b = 0 \<Longrightarrow> a = (b :: u32)"
  by (metis xor.assoc xor.left_neutral xor.right_neutral xor_self_eq)

lemma crc_shifts_inj:
  assumes "(crc_shift ^^ k) a = (crc_shift ^^ k) b"
  shows "a = b"
proof -
  have "(crc_shift ^^ k) (a XOR b) = 0" unfolding crc_shifts_xor assms by simp
  then show ?thesis by (rule crc_shifts_zero [THEN xor_zero])
qed

definition byte_diff :: "u8 \<Rightarrow> u8 \<Rightarrow> u32" where
  "byte_diff x y = ucast x XOR ucast y"

lemma byte_diff_bit: "bit (byte_diff x y) n \<longleftrightarrow> n < 8 \<and> bit x n \<noteq> bit y n"
  by (auto simp: byte_diff_def bit_simps dest: bit_imp_le_length)

lemma crc_byte_diff: "crc_byte a x XOR crc_byte b y = (crc_shift ^^ 8) ((a XOR b) XOR byte_diff x y)"
  by (simp add: crc_byte_def byte_diff_def crc_shifts_xor xor.assoc xor.left_commute)

text \<open>The difference of two runs of bytes, least significant byte first.\<close>

fun word_diff :: "bytes \<Rightarrow> bytes \<Rightarrow> u32" where
  "word_diff (x # xs) (y # ys) = byte_diff x y XOR push_bit 8 (word_diff xs ys)"
| "word_diff _ _ = 0"

lemma below_word_diff: "below (8 * length xs) (word_diff xs ys)"
  by (induction xs ys rule: list_induct2') (auto simp: below_def bit_xor_iff byte_diff_bit bit_push_bit_iff)

lemma burst_difference:
  "length xs = length ys \<Longrightarrow> length xs \<le> 4 \<Longrightarrow> foldl crc_byte a xs = foldl crc_byte b ys \<Longrightarrow>
    a XOR b = word_diff xs ys"
proof (induction xs ys arbitrary: a b rule: list_induct2')
  case (4 x xs y ys)
  let ?w = "word_diff xs ys"
  have ih: "crc_byte a x XOR crc_byte b y = ?w"
    using "4.IH" [of "crc_byte a x" "crc_byte b y"] "4.prems" by simp
  have "below (32 - 8) ?w" using below_word_diff [of xs ys] "4.prems"(2) by (auto simp: below_def)
  then have "(crc_shift ^^ 8) (push_bit 8 ?w) = ?w" by (rule crc_shifts_up) simp
  moreover have "(crc_shift ^^ 8) ((a XOR b) XOR byte_diff x y) = ?w" using ih by (simp only: crc_byte_diff)
  ultimately have "(crc_shift ^^ 8) ((a XOR b) XOR byte_diff x y) = (crc_shift ^^ 8) (push_bit 8 ?w)" by (rule trans [OF _ sym, rotated])
  then have "(a XOR b) XOR byte_diff x y = push_bit 8 ?w" by (rule crc_shifts_inj)
  then have "((a XOR b) XOR byte_diff x y) XOR byte_diff x y = push_bit 8 ?w XOR byte_diff x y" by simp
  then show ?case by (simp add: xor.assoc xor.commute [of "push_bit 8 ?w"])
qed simp_all

lemma word_diff_zero:
  "length xs = length ys \<Longrightarrow> length xs \<le> 4 \<Longrightarrow> word_diff xs ys = 0 \<Longrightarrow> xs = ys"
proof (induction xs ys rule: list_induct2')
  case (4 x xs y ys)
  let ?w = "word_diff xs ys"
  have z: "\<not> bit (byte_diff x y XOR push_bit 8 ?w) n" for n using "4.prems"(3) by simp
  have "bit x n = bit y n" if "n < LENGTH(8)" for n
    using z [of n] that by (auto simp: bit_xor_iff byte_diff_bit bit_push_bit_iff)
  then have x: "x = y" by (rule bit_word_eqI)
  have w: "\<not> bit ?w n" if "n < 24" for n
    using z [of "n + 8"] that by (auto simp: bit_xor_iff byte_diff_bit bit_push_bit_iff)
  have "\<not> bit ?w n" for n
    using w [of n] below_word_diff [of xs ys] "4.prems"(2) by (cases "n < 24") (auto simp: below_def)
  then have "?w = 0" by (simp add: bit_eq_iff)
  then show ?case using 4 x by simp
qed simp_all

lemma crc_byte_inj: "crc_byte a x = crc_byte b x \<Longrightarrow> a = b"
  using burst_difference [of "[x]" "[x]" a b] by (simp add: byte_diff_def xor_zero)

lemma crc_update_inj: "foldl crc_byte a xs = foldl crc_byte b xs \<Longrightarrow> a = b"
  by (induction xs arbitrary: a b) (auto dest: crc_byte_inj)

text \<open>
  two messages that differ, but only within four consecutive bytes, have different checksums:
  every error burst of up to 32 bits aligned to bytes is found, wherever it lies.
\<close>

theorem crc32_finds_bursts:
  assumes "length a = length b" and "length a \<le> 4" and "a \<noteq> b"
  shows "crc32_compute (p @ a @ s) \<noteq> crc32_compute (p @ b @ s)"
proof -
  have "foldl crc_byte c a \<noteq> foldl crc_byte c b" for c
    using burst_difference [OF assms(1,2), of c c] word_diff_zero [OF assms(1,2)] assms(3) by auto
  then show ?thesis
    by (auto simp: crc32_compute_def crc32_update_def bit.compl_eq_compl_iff dest: crc_update_inj)
qed

lemma crc32_finds_bursts_witness:
  "crc32_compute ([1, 2] @ [3, 4] @ [5]) \<noteq> crc32_compute ([1, 2] @ [9, 4] @ [5])"
  using crc32_finds_bursts [of "[3, 4]" "[9, 4]" "[1, 2]" "[5]"] by simp

end
