(* ===== verification/Llp.thy ===== *)
theory Llp
  imports Slip
begin

text \<open>
  The link protocol of \<open>kernel/llp.c\<close>: the frame header, the serial binding over SLIP and CRC-32, and
  the link itself with its handshake, credits and timers.  The counters and the sequence numbers are
  words, so that they wrap as in the code.

  The three callbacks of the configuration (\<open>send\<close>, \<open>rx_free\<close>, \<open>event\<close>) and their context are the
  binding's: the context is a value of type \<open>'c\<close> kept in the link, and a callback that may change it
  returns it.  An event callback gets the event; the link it may look at in the code is left out.
\<close>

section \<open>Constants and data\<close>

definition LLP_VERSION_MAJOR :: u8 where "LLP_VERSION_MAJOR = 1"
definition LLP_VERSION_MINOR :: u8 where "LLP_VERSION_MINOR = 0"
definition LLP_HDR_LEN :: nat where "LLP_HDR_LEN = 4"
definition LLP_CRC_LEN :: nat where "LLP_CRC_LEN = 4"
definition LLP_MAX_PAYLOAD :: u16 where "LLP_MAX_PAYLOAD = 4096"
definition LLP_MIN_PAYLOAD :: u16 where "LLP_MIN_PAYLOAD = 1514"
definition LLP_MAX_WINDOW :: u8 where "LLP_MAX_WINDOW = 64"

definition LLP_T_LINK :: u8 where "LLP_T_LINK = 1"
definition LLP_T_ETH :: u8 where "LLP_T_ETH = 2"
definition LLP_T_P9 :: u8 where "LLP_T_P9 = 3"

definition LLP_OP_HELLO :: u8 where "LLP_OP_HELLO = 1"
definition LLP_OP_CREDIT :: u8 where "LLP_OP_CREDIT = 2"
definition LLP_OP_PROBE :: u8 where "LLP_OP_PROBE = 3"
definition LLP_OP_STATE :: u8 where "LLP_OP_STATE = 4"

definition LLP_HELLO_LEN :: nat where "LLP_HELLO_LEN = 22"
definition LLP_CREDIT_LEN :: nat where "LLP_CREDIT_LEN = 3"
definition LLP_PROBE_LEN :: nat where "LLP_PROBE_LEN = 2"
definition LLP_STATE_LEN :: nat where "LLP_STATE_LEN = 5"

definition LLP_HELLO_F_UP :: u8 where "LLP_HELLO_F_UP = 1"
definition LLP_HELLO_F_FLOW :: u8 where "LLP_HELLO_F_FLOW = 2"

definition LLP_HELLO_RETRY_MS :: u32 where "LLP_HELLO_RETRY_MS = 500"
definition LLP_DEAD_MS :: u32 where "LLP_DEAD_MS = 3000"
definition LLP_KEEPALIVE_MS :: u32 where "LLP_KEEPALIVE_MS = 1000"
definition LLP_PROBE_MS :: u32 where "LLP_PROBE_MS = 100"

lemmas llp_consts = LLP_VERSION_MAJOR_def LLP_VERSION_MINOR_def LLP_HDR_LEN_def LLP_CRC_LEN_def
  LLP_MAX_PAYLOAD_def LLP_MIN_PAYLOAD_def LLP_MAX_WINDOW_def LLP_T_LINK_def LLP_T_ETH_def LLP_T_P9_def
  LLP_OP_HELLO_def LLP_OP_CREDIT_def LLP_OP_PROBE_def LLP_OP_STATE_def LLP_HELLO_LEN_def
  LLP_CREDIT_LEN_def LLP_PROBE_LEN_def LLP_STATE_LEN_def LLP_HELLO_F_UP_def LLP_HELLO_F_FLOW_def
  LLP_HELLO_RETRY_MS_def LLP_DEAD_MS_def LLP_KEEPALIVE_MS_def LLP_PROBE_MS_def

datatype llp_state = LLP_DOWN | LLP_UP | LLP_MISMATCH

datatype llp_event = LLP_EV_UP | LLP_EV_DOWN | LLP_EV_MISMATCH | LLP_EV_PEER_STATE

text \<open>The payload of a frame is the bytes \<open>payload[0..len-1]\<close>.\<close>

record llp_frame =
  f_type :: u8
  f_seq :: u8
  f_len :: u16
  f_payload :: bytes

record llp_serial_rx =
  rx_buf :: bytes
  rx_cap :: nat
  rx_len :: nat
  rx_esc :: bool
  rx_frames :: u32
  rx_crc_err :: u32
  rx_runt :: u32
  rx_bad_len :: u32
  rx_overflow :: u32

section \<open>Little-endian fields\<close>

definition put16 :: "u16 \<Rightarrow> bytes" where
  "put16 v = [ucast v, ucast (drop_bit 8 v)]"

definition put32 :: "u32 \<Rightarrow> bytes" where
  "put32 v = [ucast v, ucast (drop_bit 8 v), ucast (drop_bit 16 v), ucast (drop_bit 24 v)]"

definition get16 :: "bytes \<Rightarrow> u16" where
  "get16 p = ucast (p ! 0) OR push_bit 8 (ucast (p ! 1))"

definition get32 :: "bytes \<Rightarrow> u32" where
  "get32 p = ucast (p ! 0) OR push_bit 8 (ucast (p ! 1)) OR push_bit 16 (ucast (p ! 2)) OR push_bit 24 (ucast (p ! 3))"

definition elapsed :: "u32 \<Rightarrow> u32 \<Rightarrow> u32 \<Rightarrow> bool" where
  "elapsed now t ms \<longleftrightarrow> ms \<le> now - t"

section \<open>Framing\<close>

definition llp_hdr_put :: "u8 \<Rightarrow> u8 \<Rightarrow> u16 \<Rightarrow> bytes" where
  "llp_hdr_put type seq len = [type, seq] @ put16 len"

definition llp_frame_parse :: "bytes \<Rightarrow> nat \<Rightarrow> int \<times> llp_frame option" where
  "llp_frame_parse buf n =
     (if n < LLP_HDR_LEN then (-1, None)
      else if unat (get16 (drop 2 buf)) \<noteq> n - LLP_HDR_LEN then (-2, None)
      else (0, Some \<lparr>f_type = buf ! 0, f_seq = buf ! 1, f_len = get16 (drop 2 buf),
                     f_payload = take (n - LLP_HDR_LEN) (drop LLP_HDR_LEN buf)\<rparr>))"

section \<open>Serial binding\<close>

definition frame_crc :: "bytes \<Rightarrow> bytes \<Rightarrow> u32" where
  "frame_crc hdr payload = NOT (crc32_update (crc32_update 0xFFFFFFFF hdr) payload)"

definition llp_serial_encode :: "bytes \<Rightarrow> bytes \<Rightarrow> bytes \<Rightarrow> nat \<Rightarrow> int \<times> bytes" where
  "llp_serial_encode hdr payload dst cap =
     (if cap < 2 then (-1, dst)
      else
        (case slip_append (dst[0 := SLIP_END]) 1 cap hdr of (r1, d1, out1) \<Rightarrow>
           if r1 \<noteq> 0 then (-1, d1)
           else
             (case slip_append d1 out1 cap payload of (r2, d2, out2) \<Rightarrow>
                if r2 \<noteq> 0 then (-1, d2)
                else
                  (case slip_append d2 out2 cap (put32 (frame_crc hdr payload)) of (r3, d3, out3) \<Rightarrow>
                     if r3 \<noteq> 0 then (-1, d3)
                     else if cap < out3 + 1 then (-1, d3)
                     else (int (out3 + 1), d3[out3 := SLIP_END])))))"

text \<open>The emitting forms return the bytes handed to \<open>put\<close>, in order.\<close>

fun emit_escaped :: "bytes \<Rightarrow> bytes" where
  "emit_escaped [] = []"
| "emit_escaped (c # cs) =
     (if c = SLIP_END then [SLIP_ESC, SLIP_ESC_END]
      else if c = SLIP_ESC then [SLIP_ESC, SLIP_ESC_ESC] else [c]) @ emit_escaped cs"

definition llp_serial_emit :: "bytes \<Rightarrow> bytes \<Rightarrow> bytes" where
  "llp_serial_emit hdr payload =
     [SLIP_END] @ emit_escaped hdr @ emit_escaped payload @ emit_escaped (put32 (frame_crc hdr payload)) @ [SLIP_END]"

definition llp_serial_rx_init :: "bytes \<Rightarrow> nat \<Rightarrow> llp_serial_rx" where
  "llp_serial_rx_init buf cap = \<lparr>rx_buf = buf, rx_cap = cap, rx_len = 0, rx_esc = False, rx_frames = 0,
     rx_crc_err = 0, rx_runt = 0, rx_bad_len = 0, rx_overflow = 0\<rparr>"

definition llp_serial_feed :: "llp_serial_rx \<Rightarrow> u8 \<Rightarrow> llp_frame option \<times> llp_serial_rx" where
  "llp_serial_feed rx c =
     (case slip_feed c (rx_buf rx) (rx_cap rx) (rx_len rx) (rx_esc rx) of (complete, buf, len, esc) \<Rightarrow>
        let rx1 = rx\<lparr>rx_buf := buf, rx_len := len, rx_esc := esc\<rparr> in
        if \<not> complete then
          (None, if rx_len rx \<noteq> SLIP_DISCARDING \<and> len = SLIP_DISCARDING
                 then rx1\<lparr>rx_overflow := rx_overflow rx1 + 1\<rparr> else rx1)
        else
          (let rx2 = rx1\<lparr>rx_len := 0\<rparr> in
           if len < LLP_HDR_LEN + LLP_CRC_LEN then (None, rx2\<lparr>rx_runt := rx_runt rx2 + 1\<rparr>)
           else
             (let body = len - LLP_CRC_LEN in
              if crc32_compute (take body buf) \<noteq> get32 (drop body buf)
              then (None, rx2\<lparr>rx_crc_err := rx_crc_err rx2 + 1\<rparr>)
              else
                (case llp_frame_parse buf body of
                   (r, Some f) \<Rightarrow> (Some f, rx2\<lparr>rx_frames := rx_frames rx2 + 1\<rparr>)
                 | (r, None) \<Rightarrow> (None, rx2\<lparr>rx_bad_len := rx_bad_len rx2 + 1\<rparr>)))))"

section \<open>The link\<close>

record 'c llp_config =
  c_role :: u8
  c_major :: u8
  c_minor :: u8
  c_max_payload :: u16
  c_rx_window :: u8
  c_mac :: bytes
  c_send :: "'c \<Rightarrow> bytes \<Rightarrow> bytes \<Rightarrow> int \<times> 'c"
  c_rx_free :: "'c \<Rightarrow> u32"
  c_event :: "('c \<Rightarrow> llp_event \<Rightarrow> 'c) option"

record llp_stats =
  st_tx_frames :: u32
  st_rx_frames :: u32
  st_tx_link :: u32
  st_rx_link :: u32
  st_tx_refused :: u32
  st_tx_no_credit :: u32
  st_rx_lost :: u32
  st_rx_stale :: u32
  st_rx_not_up :: u32
  st_rx_bad :: u32
  st_rx_too_big :: u32
  st_hellos :: u32
  st_probes :: u32
  st_credits :: u32
  st_ups :: u32
  st_downs :: u32

record 'c llp_link =
  l_cfg :: "'c llp_config"
  l_ctx :: 'c
  l_state :: llp_state
  l_session :: u32
  l_peer_session :: u32
  l_peer_major :: u8
  l_peer_minor :: u8
  l_peer_role :: u8
  l_peer_flags :: u8
  l_peer_max_payload :: u16
  l_peer_mac :: bytes
  l_peer_link :: u8
  l_peer_rssi :: u8
  l_tx_seq :: u8
  l_tx_ack :: u8
  l_tx_window :: u8
  l_blocked :: bool
  l_last_probe :: u32
  l_rx_next :: u8
  l_adv_limit :: u8
  l_last_rx :: u32
  l_last_tx :: u32
  l_last_hello :: u32
  l_st :: llp_stats

definition zero_stats :: llp_stats where
  "zero_stats = \<lparr>st_tx_frames = 0, st_rx_frames = 0, st_tx_link = 0, st_rx_link = 0, st_tx_refused = 0,
     st_tx_no_credit = 0, st_rx_lost = 0, st_rx_stale = 0, st_rx_not_up = 0, st_rx_bad = 0, st_rx_too_big = 0,
     st_hellos = 0, st_probes = 0, st_credits = 0, st_ups = 0, st_downs = 0\<rparr>"

text \<open>Counting an occurrence in the statistics.\<close>

definition stat :: "(llp_stats \<Rightarrow> llp_stats) \<Rightarrow> 'c llp_link \<Rightarrow> 'c llp_link" where
  "stat f l = l\<lparr>l_st := f (l_st l)\<rparr>"

definition my_major :: "'c llp_link \<Rightarrow> u8" where
  "my_major l = (if c_major (l_cfg l) \<noteq> 0 then c_major (l_cfg l) else LLP_VERSION_MAJOR)"

definition my_minor :: "'c llp_link \<Rightarrow> u8" where
  "my_minor l = (if c_major (l_cfg l) \<noteq> 0 then c_minor (l_cfg l) else LLP_VERSION_MINOR)"

definition event :: "llp_event \<Rightarrow> 'c llp_link \<Rightarrow> 'c llp_link" where
  "event ev l = (case c_event (l_cfg l) of None \<Rightarrow> l | Some f \<Rightarrow> l\<lparr>l_ctx := f (l_ctx l) ev\<rparr>)"

definition emit :: "u8 \<Rightarrow> u8 \<Rightarrow> bytes \<Rightarrow> u32 \<Rightarrow> 'c llp_link \<Rightarrow> int \<times> 'c llp_link" where
  "emit type seq payload now l =
     (case c_send (l_cfg l) (l_ctx l) (llp_hdr_put type seq (word_of_nat (length payload))) payload of (r, ctx) \<Rightarrow>
        let l1 = l\<lparr>l_ctx := ctx\<rparr> in
        if r \<noteq> 0 then (-1, stat (\<lambda>s. s\<lparr>st_tx_refused := st_tx_refused s + 1\<rparr>) l1)
        else
          (let l2 = l1\<lparr>l_last_tx := now\<rparr>
           in (0, if type = LLP_T_LINK then stat (\<lambda>s. s\<lparr>st_tx_link := st_tx_link s + 1\<rparr>) l2 else l2)))"

definition rx_window_now :: "'c llp_link \<Rightarrow> u8" where
  "rx_window_now l =
     (if c_rx_window (l_cfg l) = 0 then 0
      else
        (let free = c_rx_free (l_cfg l) (l_ctx l); w = c_rx_window (l_cfg l)
         in ucast (if free < ucast w then free else ucast w)))"

definition hello_payload :: "'c llp_link \<Rightarrow> u8 \<Rightarrow> bytes" where
  "hello_payload l window =
     [LLP_OP_HELLO, my_major l, my_minor l, c_role (l_cfg l),
      (if l_state l = LLP_UP then LLP_HELLO_F_UP else 0) OR (if c_rx_window (l_cfg l) \<noteq> 0 then LLP_HELLO_F_FLOW else 0)]
     @ put32 (l_session l) @ put32 (l_peer_session l) @ put16 (c_max_payload (l_cfg l)) @ [window]
     @ take 6 (c_mac (l_cfg l))"

definition send_hello :: "u32 \<Rightarrow> 'c llp_link \<Rightarrow> 'c llp_link" where
  "send_hello now l =
     (let window = rx_window_now l;
          l1 = stat (\<lambda>s. s\<lparr>st_hellos := st_hellos s + 1\<rparr>) (l\<lparr>l_adv_limit := l_rx_next l + window, l_last_hello := now\<rparr>)
      in snd (emit LLP_T_LINK 0 (hello_payload l window) now l1))"

definition send_credit :: "u8 \<Rightarrow> u32 \<Rightarrow> 'c llp_link \<Rightarrow> 'c llp_link" where
  "send_credit window now l =
     snd (emit LLP_T_LINK 0 [LLP_OP_CREDIT, l_rx_next l, window] now
            (stat (\<lambda>s. s\<lparr>st_credits := st_credits s + 1\<rparr>) (l\<lparr>l_adv_limit := l_rx_next l + window\<rparr>)))"

definition maybe_credit :: "bool \<Rightarrow> u32 \<Rightarrow> 'c llp_link \<Rightarrow> 'c llp_link" where
  "maybe_credit force now l =
     (if c_rx_window (l_cfg l) = 0 then (if force then send_credit 0 now l else l)
      else
        (let window = rx_window_now l; moved = (l_rx_next l + window) - l_adv_limit l;
             q = c_rx_window (l_cfg l) div 4; thresh = (if q \<noteq> 0 then q else 1)
         in if force \<or> thresh \<le> moved \<and> moved < 128 then send_credit window now l else l))"

definition llp_link_can_send :: "'c llp_link \<Rightarrow> bool" where
  "llp_link_can_send l =
     (if l_state l \<noteq> LLP_UP then False
      else if l_peer_flags l AND LLP_HELLO_F_FLOW = 0 then True
      else l_tx_seq l - l_tx_ack l < l_tx_window l)"

definition llp_link_init :: "'c llp_config \<Rightarrow> 'c \<Rightarrow> u32 \<Rightarrow> u32 \<Rightarrow> 'c llp_link" where
  "llp_link_init cfg ctx session now =
     send_hello now
       \<lparr>l_cfg = cfg\<lparr>c_rx_window := min (c_rx_window cfg) LLP_MAX_WINDOW, c_max_payload := min (c_max_payload cfg) LLP_MAX_PAYLOAD\<rparr>,
        l_ctx = ctx, l_state = LLP_DOWN, l_session = session, l_peer_session = 0, l_peer_major = 0, l_peer_minor = 0,
        l_peer_role = 0, l_peer_flags = 0, l_peer_max_payload = 0, l_peer_mac = replicate 6 0, l_peer_link = 0,
        l_peer_rssi = 0, l_tx_seq = 0, l_tx_ack = 0, l_tx_window = 0, l_blocked = False, l_last_probe = 0,
        l_rx_next = 0, l_adv_limit = 0, l_last_rx = now, l_last_tx = now, l_last_hello = 0, l_st = zero_stats\<rparr>"

text \<open>
  \<open>on_hello\<close>: taking over what the peer's HELLO says of a new session, then the version check, then the
  answer.
\<close>

definition new_peer :: "bytes \<Rightarrow> 'c llp_link \<Rightarrow> 'c llp_link" where
  "new_peer p l =
     l\<lparr>l_peer_session := get32 (drop 5 p), l_peer_major := p ! 1, l_peer_minor := p ! 2, l_peer_role := p ! 3,
       l_peer_flags := p ! 4, l_peer_max_payload := get16 (drop 13 p), l_peer_mac := take 6 (drop 16 p),
       l_peer_link := 0, l_peer_rssi := 0, l_tx_seq := 0, l_tx_ack := 0,
       l_tx_window := (if p ! 15 < LLP_MAX_WINDOW then p ! 15 else LLP_MAX_WINDOW), l_blocked := False, l_rx_next := 0\<rparr>"

definition hello_answer :: "bytes \<Rightarrow> u32 \<Rightarrow> 'c llp_link \<Rightarrow> 'c llp_link" where
  "hello_answer p now l =
     (if get32 (drop 9 p) = l_session l then
        (let l1 = (if l_state l \<noteq> LLP_UP then
                     event LLP_EV_UP (stat (\<lambda>s. s\<lparr>st_ups := st_ups s + 1\<rparr>) (l\<lparr>l_state := LLP_UP, l_last_rx := now\<rparr>))
                   else l)
         in if p ! 4 AND LLP_HELLO_F_UP = 0 then send_hello now l1 else l1)
      else send_hello now l)"

definition rx_bad :: "'c llp_link \<Rightarrow> 'c llp_link" where
  "rx_bad l = stat (\<lambda>s. s\<lparr>st_rx_bad := st_rx_bad s + 1\<rparr>) l"

definition on_hello :: "bytes \<Rightarrow> nat \<Rightarrow> u32 \<Rightarrow> 'c llp_link \<Rightarrow> 'c llp_link" where
  "on_hello p len now l =
     (if len < LLP_HELLO_LEN then rx_bad l
      else if get32 (drop 5 p) = 0 then rx_bad l
      else if get32 (drop 5 p) \<noteq> l_peer_session l then
        (let l1 = new_peer p l;
             l2 = (if l_state l = LLP_UP then
                     event LLP_EV_DOWN (stat (\<lambda>s. s\<lparr>st_downs := st_downs s + 1\<rparr>) (l1\<lparr>l_state := LLP_DOWN\<rparr>))
                   else l1)
         in if l_peer_major l2 \<noteq> my_major l2 \<or> l_peer_max_payload l2 < LLP_MIN_PAYLOAD then
              send_hello now (event LLP_EV_MISMATCH (l2\<lparr>l_state := LLP_MISMATCH\<rparr>))
            else hello_answer p now (if l_state l2 = LLP_MISMATCH then l2\<lparr>l_state := LLP_DOWN\<rparr> else l2))
      else if l_state l = LLP_MISMATCH then l
      else hello_answer p now (l\<lparr>l_peer_flags := p ! 4\<rparr>))"

definition on_credit :: "bytes \<Rightarrow> nat \<Rightarrow> 'c llp_link \<Rightarrow> 'c llp_link" where
  "on_credit p len l =
     (if len < LLP_CREDIT_LEN then rx_bad l
      else if l_state l \<noteq> LLP_UP then l
      else if l_tx_seq l - l_tx_ack l < p ! 1 - l_tx_ack l then rx_bad l
      else
        (let l1 = l\<lparr>l_tx_ack := p ! 1, l_tx_window := (if p ! 2 < LLP_MAX_WINDOW then p ! 2 else LLP_MAX_WINDOW)\<rparr>
         in if llp_link_can_send l1 then l1\<lparr>l_blocked := False\<rparr> else l1))"

definition skip_to :: "u8 \<Rightarrow> 'c llp_link \<Rightarrow> 'c llp_link" where
  "skip_to next l = stat (\<lambda>s. s\<lparr>st_rx_lost := st_rx_lost s + ucast (next - l_rx_next l)\<rparr>) l"

definition on_probe :: "bytes \<Rightarrow> nat \<Rightarrow> u32 \<Rightarrow> 'c llp_link \<Rightarrow> 'c llp_link" where
  "on_probe p len now l =
     (if len < LLP_PROBE_LEN then rx_bad l
      else if l_state l \<noteq> LLP_UP then l
      else maybe_credit True now
             (if p ! 1 - l_rx_next l < 128 then (skip_to (p ! 1) l)\<lparr>l_rx_next := p ! 1\<rparr> else l))"

definition on_state :: "bytes \<Rightarrow> nat \<Rightarrow> 'c llp_link \<Rightarrow> 'c llp_link" where
  "on_state p len l =
     (if len < LLP_STATE_LEN then rx_bad l
      else if l_state l \<noteq> LLP_UP then l
      else event LLP_EV_PEER_STATE (l\<lparr>l_peer_link := p ! 1, l_peer_rssi := p ! 2\<rparr>))"

definition link_frame :: "llp_frame \<Rightarrow> u32 \<Rightarrow> 'c llp_link \<Rightarrow> 'c llp_link" where
  "link_frame f now l0 =
     (let l = stat (\<lambda>s. s\<lparr>st_rx_link := st_rx_link s + 1\<rparr>) l0; p = f_payload f; len = unat (f_len f) in
      if len < 1 then rx_bad l
      else if p ! 0 = LLP_OP_HELLO then on_hello p len now l
      else if p ! 0 = LLP_OP_CREDIT then on_credit p len l
      else if p ! 0 = LLP_OP_PROBE then on_probe p len now l
      else if p ! 0 = LLP_OP_STATE then on_state p len l
      else rx_bad l)"

definition llp_link_input :: "llp_frame \<Rightarrow> u32 \<Rightarrow> 'c llp_link \<Rightarrow> llp_frame option \<times> 'c llp_link" where
  "llp_link_input f now l0 =
     (let l = l0\<lparr>l_last_rx := now\<rparr> in
      if f_type f = LLP_T_LINK then (None, link_frame f now l)
      else if f_type f \<noteq> LLP_T_ETH \<and> f_type f \<noteq> LLP_T_P9 then (None, rx_bad l)
      else if l_state l \<noteq> LLP_UP then (None, stat (\<lambda>s. s\<lparr>st_rx_not_up := st_rx_not_up s + 1\<rparr>) l)
      else if c_max_payload (l_cfg l) < f_len f then (None, stat (\<lambda>s. s\<lparr>st_rx_too_big := st_rx_too_big s + 1\<rparr>) l)
      else if 128 \<le> f_seq f - l_rx_next l then (None, stat (\<lambda>s. s\<lparr>st_rx_stale := st_rx_stale s + 1\<rparr>) l)
      else
        (let l1 = (skip_to (f_seq f) l)\<lparr>l_rx_next := f_seq f + 1\<rparr> in
         if f_type f = LLP_T_ETH \<and> f_len f < 14 then (None, rx_bad l1)
         else if f_type f = LLP_T_P9 \<and> (f_len f < 7 \<or> get32 (f_payload f) \<noteq> ucast (f_len f)) then (None, rx_bad l1)
         else (Some f, stat (\<lambda>s. s\<lparr>st_rx_frames := st_rx_frames s + 1\<rparr>) l1)))"

definition llp_link_send :: "u8 \<Rightarrow> bytes \<Rightarrow> u16 \<Rightarrow> u32 \<Rightarrow> 'c llp_link \<Rightarrow> int \<times> 'c llp_link" where
  "llp_link_send type payload len now l =
     (if l_state l \<noteq> LLP_UP then (-1, l)
      else if type \<noteq> LLP_T_ETH \<and> type \<noteq> LLP_T_P9 \<or> l_peer_max_payload l < len then (-3, l)
      else if \<not> llp_link_can_send l then
        (-2, if l_blocked l then l
             else stat (\<lambda>s. s\<lparr>st_tx_no_credit := st_tx_no_credit s + 1\<rparr>) (l\<lparr>l_blocked := True, l_last_probe := now\<rparr>))
      else
        (case emit type (l_tx_seq l) payload now l of (r, l1) \<Rightarrow>
           if r \<noteq> 0 then (-4, l1)
           else (0, stat (\<lambda>s. s\<lparr>st_tx_frames := st_tx_frames s + 1\<rparr>) (l1\<lparr>l_tx_seq := l_tx_seq l1 + 1\<rparr>))))"

definition llp_link_send_state :: "u8 \<Rightarrow> u8 \<Rightarrow> u32 \<Rightarrow> 'c llp_link \<Rightarrow> 'c llp_link" where
  "llp_link_send_state link_up rssi now l =
     (if l_state l \<noteq> LLP_UP then l else snd (emit LLP_T_LINK 0 [LLP_OP_STATE, link_up, rssi, 0, 0] now l))"

definition tick_blocked :: "u32 \<Rightarrow> 'c llp_link \<Rightarrow> 'c llp_link" where
  "tick_blocked now l =
     (if \<not> l_blocked l then l
      else if llp_link_can_send l then l\<lparr>l_blocked := False\<rparr>
      else if elapsed now (l_last_probe l) LLP_PROBE_MS then
        snd (emit LLP_T_LINK 0 [LLP_OP_PROBE, l_tx_seq l] now
               (stat (\<lambda>s. s\<lparr>st_probes := st_probes s + 1\<rparr>) (l\<lparr>l_last_probe := now\<rparr>)))
      else l)"

definition llp_link_tick :: "u32 \<Rightarrow> 'c llp_link \<Rightarrow> 'c llp_link" where
  "llp_link_tick now l =
     (if l_state l = LLP_DOWN then
        (if elapsed now (l_last_hello l) LLP_HELLO_RETRY_MS then send_hello now l else l)
      else if l_state l \<noteq> LLP_UP then l
      else if elapsed now (l_last_rx l) LLP_DEAD_MS then
        send_hello now (event LLP_EV_DOWN (stat (\<lambda>s. s\<lparr>st_downs := st_downs s + 1\<rparr>) (l\<lparr>l_state := LLP_DOWN\<rparr>)))
      else
        (let l1 = tick_blocked now (maybe_credit False now l)
         in if elapsed now (l_last_tx l1) LLP_KEEPALIVE_MS then maybe_credit True now l1 else l1))"

end
