(* ===== verification/Llp_Serial.thy ===== *)
theory Llp_Serial
  imports Slip_Correct Llp
begin

text \<open>
  The serial binding of the link protocol: what one end emits the other end gets, after any noise; a
  frame damaged in up to four consecutive bytes is not delivered.
\<close>

section \<open>Fields\<close>

lemma get16_put16 [simp]: "get16 (put16 v @ xs) = v"
  by (rule bit_word_eqI) (auto simp: get16_def put16_def bit_simps nth_append)

lemma get32_put32 [simp]: "get32 (put32 v @ xs) = v"
proof (rule bit_word_eqI)
  fix n assume n: "n < LENGTH(32)"
  then show "bit (get32 (put32 v @ xs)) n = bit v n"
    by (cases "24 \<le> n"; cases "16 \<le> n"; cases "8 \<le> n") (auto simp: get32_def put32_def bit_simps)
qed

lemma get32_put32_only [simp]: "get32 (put32 v) = v"
  using get32_put32 [of v "[]"] by simp

lemma length_fields [simp]: "length (put16 v) = 2" "length (put32 w) = 4" "length (llp_hdr_put t q l) = 4"
  by (simp_all add: put16_def put32_def llp_hdr_put_def)

lemma put32_inj: "put32 a = put32 b \<Longrightarrow> a = b"
  by (metis get32_put32_only)

lemma put32_get32: "length p = 4 \<Longrightarrow> put32 (get32 p) = p"
proof -
  assume "length p = 4"
  then obtain a b c d where p: "p = [a, b, c, d]" by (auto simp: numeral_eq_Suc length_Suc_conv)
  have "ucast (drop_bit k (get32 p)) = p ! (k div 8)" if "k \<in> {0, 8, 16, 24}" for k
    by (rule bit_word_eqI) (use that in \<open>auto simp: p get32_def bit_simps dest: bit_imp_le_length\<close>)
  from this [of 0] this [of 8] this [of 16] this [of 24] show ?thesis by (simp add: put32_def p)
qed

section \<open>Emitting and encoding\<close>

definition frame_bytes :: "bytes \<Rightarrow> bytes \<Rightarrow> bytes" where
  "frame_bytes hdr payload = hdr @ payload @ put32 (frame_crc hdr payload)"

lemma emit_escaped_eq: "emit_escaped xs = escaped xs"
  by (induction xs) (auto simp: escape_def)

lemma emit_wire: "llp_serial_emit hdr payload = slip_wire (frame_bytes hdr payload)"
  by (simp add: llp_serial_emit_def slip_wire_def frame_bytes_def emit_escaped_eq)

lemma frame_crc_compute: "frame_crc hdr payload = crc32_compute (hdr @ payload)"
  by (simp add: frame_crc_def crc32_compute_def crc32_update_def)

text \<open>
  \<open>llp_serial_encode\<close> writes exactly the bytes that \<open>llp_serial_emit\<close> hands over, and returns
  their number, whenever they fit; with less room it fails.
\<close>

theorem encode_is_emit:
  assumes "length dst = cap"
  shows "if length (llp_serial_emit hdr payload) \<le> cap
    then llp_serial_encode hdr payload dst cap =
      (int (length (llp_serial_emit hdr payload)), blit 0 (llp_serial_emit hdr payload) dst)
    else fst (llp_serial_encode hdr payload dst cap) = -1"
proof -
  let ?c = "put32 (frame_crc hdr payload)"
  let ?w = "llp_serial_emit hdr payload"
  have w: "?w = [SLIP_END] @ escaped hdr @ escaped payload @ escaped ?c @ [SLIP_END]"
    by (simp add: emit_wire slip_wire_def frame_bytes_def)
  have c: "?c \<noteq> []" by (simp add: put32_def)
  have len: "length ?w = 2 + length (escaped hdr) + length (escaped payload) + length (escaped ?c)" by (simp add: w)
  have step: "slip_append (blit 0 ys dst) (length ys) cap xs =
      (if length ys + length (escaped xs) < cap then (0, blit 0 (ys @ escaped xs) dst, length ys + length (escaped xs))
       else slip_append (blit 0 ys dst) (length ys) cap xs)" if "length ys \<le> cap" for ys xs
    using slip_append_fits [of "length ys" xs cap "blit 0 ys dst"] blit_blit [of 0 ys "escaped xs" dst] assms that by auto
  have bad: "fst (slip_append d n cap xs) = -1" if "cap \<le> n + length (escaped xs)" "n < cap" for d n xs
    using slip_append_fails [of cap n xs d] that by (cases "xs = []") auto
  show ?thesis
  proof (cases "cap < 2")
    case True
    then show ?thesis by (simp add: llp_serial_encode_def len)
  next
    case False
    have d0: "dst[0 := SLIP_END] = blit 0 [SLIP_END] dst" using False assms by (simp add: blit_update)
    consider (a) "cap \<le> 1 + length (escaped hdr)"
      | (b) "1 + length (escaped hdr) < cap" "cap \<le> 1 + length (escaped hdr) + length (escaped payload)"
      | (c) "1 + length (escaped hdr) + length (escaped payload) < cap" "cap < length ?w"
      | (d) "length ?w \<le> cap" using len by linarith
    then show ?thesis
    proof cases
      case a
      then show ?thesis using bad [of 1 hdr "blit 0 [SLIP_END] dst"] False len by (auto simp: llp_serial_encode_def d0 split: prod.splits)
    next
      case b
      then show ?thesis
        using step [of "[SLIP_END]" hdr] bad [of "1 + length (escaped hdr)" payload "blit 0 (SLIP_END # escaped hdr) dst"] False len
        by (auto simp: llp_serial_encode_def d0 split: prod.splits)
    next
      case c
      then show ?thesis
        using step [of "[SLIP_END]" hdr] step [of "[SLIP_END] @ escaped hdr" payload]
          bad [of "1 + length (escaped hdr) + length (escaped payload)" ?c "blit 0 (SLIP_END # escaped hdr @ escaped payload) dst"] False len
        by (auto simp: llp_serial_encode_def d0 split: prod.splits)
    next
      case d
      have e: "(blit 0 (ys @ zs) dst)[length ys + length zs := x] = blit 0 (ys @ zs @ [x]) dst" if "length ys + length zs < cap" for ys zs x
        using blit_blit [of 0 "ys @ zs" "[x]" dst] that assms by (simp add: blit_update)
      show ?thesis
        using d step [of "[SLIP_END]" hdr] step [of "[SLIP_END] @ escaped hdr" payload]
          step [of "[SLIP_END] @ escaped hdr @ escaped payload" ?c] False len
          e [of "[SLIP_END] @ escaped hdr" "escaped payload @ escaped ?c" SLIP_END]
        by (simp add: llp_serial_encode_def d0 w add_ac)
    qed
  qed
qed

lemma encode_is_emit_witness:
  "fst (llp_serial_encode [2, 0, 0, 0] [] (replicate 20 0) 20) = int (length (llp_serial_emit [2, 0, 0, 0] []))"
proof -
  have e: "length (escape c) \<le> 2" for c by (simp add: escape_def)
  have le: "length (escaped xs) \<le> 2 * length xs" for xs
  proof (induction xs)
    case (Cons x xs)
    then show ?case using e [of x] by simp
  qed simp
  have "length (llp_serial_emit [2, 0, 0, 0] []) \<le> 20"
    using le [of "put32 (frame_crc [2, 0, 0, 0] [])"]
    by (simp add: emit_wire slip_wire_def frame_bytes_def escape_def slip_bytes)
  then show ?thesis using encode_is_emit [of "replicate 20 0" 20 "[2, 0, 0, 0]" "[]"] by simp
qed

section \<open>The receiver\<close>

fun serial_stream :: "llp_serial_rx \<Rightarrow> bytes \<Rightarrow> llp_frame list \<times> llp_serial_rx" where
  "serial_stream rx [] = ([], rx)"
| "serial_stream rx (c # cs) =
     (case llp_serial_feed rx c of (f, rx1) \<Rightarrow>
      case serial_stream rx1 cs of (gs, rx2) \<Rightarrow> ((case f of None \<Rightarrow> gs | Some g \<Rightarrow> g # gs), rx2))"

text \<open>What becomes of a complete message: the checks of \<open>llp_serial_feed\<close>.\<close>

definition deliver :: "bytes \<Rightarrow> llp_frame option" where
  "deliver m =
     (if length m < 8 then None
      else if crc32_compute (take (length m - 4) m) \<noteq> get32 (drop (length m - 4) m) then None
      else snd (llp_frame_parse m (length m - 4)))"

definition rx_state :: "llp_serial_rx \<Rightarrow> slip_state" where
  "rx_state rx = (rx_buf rx, rx_len rx, rx_esc rx)"

definition rx_ok :: "llp_serial_rx \<Rightarrow> bool" where
  "rx_ok rx \<longleftrightarrow> slip_ok (rx_cap rx) (rx_state rx) \<and> rx_cap rx < SLIP_DISCARDING"

lemma get16_take: "2 \<le> k \<Longrightarrow> get16 (take k p) = get16 p"
  by (simp add: get16_def)

lemma get32_take: "4 \<le> k \<Longrightarrow> get32 (take k p) = get32 p"
  by (simp add: get32_def)

lemma parse_take:
  assumes "4 \<le> n" and "n \<le> k"
  shows "llp_frame_parse (take k buf) n = llp_frame_parse buf n"
  using assms get16_take [of "k - 2" "drop 2 buf"]
  by (cases "n = 4 \<and> k < 4") (auto simp: llp_frame_parse_def LLP_HDR_LEN_def drop_take get16_take get16_def min_def)

text \<open>One byte: the SLIP layer's frame, if any, goes through \<open>deliver\<close>.\<close>

lemma feed_stream:
  assumes "rx_ok rx" and "slip_take (rx_cap rx) (rx_state rx) c = (fs, st)"
  shows "(case fst (llp_serial_feed rx c) of None \<Rightarrow> [] | Some f \<Rightarrow> [f]) = List.map_filter deliver fs
    \<and> rx_state (snd (llp_serial_feed rx c)) = st \<and> rx_cap (snd (llp_serial_feed rx c)) = rx_cap rx"
proof -
  obtain complete buf len esc where f: "slip_feed c (rx_buf rx) (rx_cap rx) (rx_len rx) (rx_esc rx) = (complete, buf, len, esc)"
    by (metis prod_cases4)
  show ?thesis
  proof (cases complete)
    case False
    then show ?thesis using assms(2) f
      by (auto simp: llp_serial_feed_def slip_take_def rx_state_def Let_def map_filter_simps split: if_splits)
  next
    case True
    have len: "len \<le> rx_cap rx" "length buf = rx_cap rx"
      using assms(1) f True by (auto simp: slip_feed_def rx_ok_def slip_ok_def rx_state_def Let_def split: if_splits)
    have fs: "fs = [take len buf]" "st = (buf, 0, esc)" using assms(2) f True by (auto simp: slip_take_def rx_state_def)
    have m: "length (take len buf) = len" using len by simp
    have d: "deliver (take len buf) =
        (if len < 8 then None
         else if crc32_compute (take (len - 4) buf) \<noteq> get32 (drop (len - 4) buf) then None
         else snd (llp_frame_parse buf (len - 4)))"
    proof (cases "len < 8")
      case False
      have "get32 (drop (len - 4) (take len buf)) = get32 (drop (len - 4) buf)"
        using False by (simp add: drop_take get32_take)
      moreover have "llp_frame_parse (take len buf) (len - 4) = llp_frame_parse buf (len - 4)"
        by (rule parse_take) (use False in auto)
      ultimately show ?thesis using False unfolding deliver_def m by (simp add: min_def)
    next
      case True
      then show ?thesis unfolding deliver_def m by simp
    qed
    show ?thesis unfolding fs
      using f True by (auto simp: d llp_serial_feed_def Let_def rx_state_def map_filter_simps LLP_HDR_LEN_def LLP_CRC_LEN_def
          split: prod.splits option.splits)
  qed
qed

lemma serial_stream_slip:
  "rx_ok rx \<Longrightarrow> fst (serial_stream rx xs) = List.map_filter deliver (fst (slip_stream (rx_cap rx) (rx_state rx) xs))
    \<and> rx_ok (snd (serial_stream rx xs))
    \<and> rx_state (snd (serial_stream rx xs)) = snd (slip_stream (rx_cap rx) (rx_state rx) xs)"
proof (induction xs arbitrary: rx)
  case (Cons c xs)
  obtain fs st where t: "slip_take (rx_cap rx) (rx_state rx) c = (fs, st)" by (rule prod.exhaust)
  obtain g rx1 where f: "llp_serial_feed rx c = (g, rx1)" by (rule prod.exhaust)
  have 1: "(case g of None \<Rightarrow> [] | Some f \<Rightarrow> [f]) = List.map_filter deliver fs" "rx_state rx1 = st" "rx_cap rx1 = rx_cap rx"
    using feed_stream [OF Cons.prems t] f by auto
  have ok: "rx_ok rx1" using Cons.prems slip_take_ok [of "rx_cap rx" "rx_state rx" c] 1 t by (simp add: rx_ok_def)
  have app: "List.map_filter deliver (fs @ ys) = List.map_filter deliver fs @ List.map_filter deliver ys" for ys
    by (simp add: List.map_filter_def)
  show ?case using Cons.IH [OF ok] 1(1) unfolding serial_stream.simps slip_stream.simps f t 1(2,3) prod.case split_beta fst_conv snd_conv app
    by (cases g) simp_all
qed (simp add: map_filter_simps)


section \<open>Delivery\<close>

lemma frame_bytes_split:
  "length (frame_bytes hdr payload) = length hdr + length payload + 4"
  "take (length hdr + length payload) (frame_bytes hdr payload) = hdr @ payload"
  "drop (length hdr + length payload) (frame_bytes hdr payload) = put32 (frame_crc hdr payload)"
  by (simp_all add: frame_bytes_def)

text \<open>An intact message is delivered as it was sent.\<close>

lemma deliver_frame:
  assumes "length payload < 2 ^ 16"
  shows "deliver (frame_bytes (llp_hdr_put type seq (word_of_nat (length payload))) payload) =
    Some \<lparr>f_type = type, f_seq = seq, f_len = word_of_nat (length payload), f_payload = payload\<rparr>"
proof -
  let ?h = "llp_hdr_put type seq (word_of_nat (length payload))"
  have l: "length (frame_bytes ?h payload) - 4 = length ?h + length payload" "8 \<le> length (frame_bytes ?h payload)"
    by (simp_all add: frame_bytes_split(1))
  have g: "get16 (drop 2 (?h @ payload @ zs)) = word_of_nat (length payload)" for zs by (simp add: llp_hdr_put_def)
  have u: "unat (word_of_nat (length payload) :: u16) = length payload" using assms by (simp add: unat_of_nat)
  have "snd (llp_frame_parse (frame_bytes ?h payload) (4 + length payload)) =
      Some \<lparr>f_type = type, f_seq = seq, f_len = word_of_nat (length payload), f_payload = payload\<rparr>"
    using g [of "put32 (frame_crc ?h payload)"] u unfolding llp_frame_parse_def frame_bytes_def LLP_HDR_LEN_def
    by (simp add: llp_hdr_put_def put16_def numeral_eq_Suc [of num.One] numeral_2_eq_2 numeral_3_eq_3)
  then show ?thesis
    using l(2) unfolding deliver_def l(1) frame_bytes_split(2,3) by (simp add: frame_crc_compute)
qed

lemma map_filter_append: "List.map_filter f (xs @ ys) = List.map_filter f xs @ List.map_filter f ys"
  by (simp add: List.map_filter_def)

text \<open>
  C20: after any noise the receiver delivers, in order, exactly the frames that the other end emits
  with \<open>llp_serial_emit\<close>, with type, sequence number, length and payload as sent, as long as each fits
  its buffer; frames that the noise itself might form can only come before them.
\<close>

theorem serial_resync:
  assumes rx: "rx_ok rx"
    and fits: "\<forall>(type, seq, payload) \<in> set fs. length payload < 2 ^ 16 \<and> length payload + 8 \<le> rx_cap rx"
  shows "\<exists>junk. fst (serial_stream rx (noise @ concat (map (\<lambda>(type, seq, payload).
      llp_serial_emit (llp_hdr_put type seq (word_of_nat (length payload))) payload) fs))) =
    junk @ map (\<lambda>(type, seq, payload).
      \<lparr>f_type = type, f_seq = seq, f_len = word_of_nat (length payload), f_payload = payload\<rparr>) fs"
proof -
  let ?m = "\<lambda>(type, seq, payload). frame_bytes (llp_hdr_put type seq (word_of_nat (length payload))) payload"
  have e: "map (\<lambda>(type, seq, payload). llp_serial_emit (llp_hdr_put type seq (word_of_nat (length payload))) payload) fs
      = map slip_wire (map ?m fs)"
    by (auto simp: emit_wire)
  have keep: "filter (\<lambda>f. f \<noteq> [] \<and> length f \<le> rx_cap rx) (map ?m fs) = map ?m fs"
  proof (rule filter_True, rule ballI)
    fix m assume "m \<in> set (map ?m fs)"
    then obtain type seq payload where "(type, seq, payload) \<in> set fs" and m: "m = ?m (type, seq, payload)"
      by auto
    then have "length payload + 8 \<le> rx_cap rx" using fits by blast
    moreover have "length m = length payload + 8" unfolding m by (simp add: frame_bytes_split(1))
    ultimately show "m \<noteq> [] \<and> length m \<le> rx_cap rx" by auto
  qed
  have d: "List.map_filter deliver (map ?m fs) = map (\<lambda>(type, seq, payload).
      \<lparr>f_type = type, f_seq = seq, f_len = word_of_nat (length payload), f_payload = payload\<rparr>) fs"
    using fits by (induction fs) (auto simp: map_filter_simps deliver_frame)
  obtain junk where "fst (slip_stream (rx_cap rx) (rx_state rx) (noise @ concat (map slip_wire (map ?m fs)))) = junk @ map ?m fs"
    using slip_resync [of "rx_cap rx" "rx_state rx" noise "map ?m fs"] rx keep by (auto simp: rx_ok_def)
  then have "fst (serial_stream rx (noise @ concat (map slip_wire (map ?m fs)))) =
      List.map_filter deliver junk @ List.map_filter deliver (map ?m fs)"
    using serial_stream_slip [OF rx, of "noise @ concat (map slip_wire (map ?m fs))"] map_filter_append [of deliver junk "map ?m fs"]
    by simp
  then show ?thesis unfolding e d by blast
qed

lemma serial_resync_witness:
  "\<exists>junk. fst (serial_stream (llp_serial_rx_init (replicate 16 0) 16)
      ([9, SLIP_ESC] @ concat (map (\<lambda>(type, seq, payload).
        llp_serial_emit (llp_hdr_put type seq (word_of_nat (length payload))) payload) [(2, 7, [1, SLIP_END])]))) =
    junk @ [\<lparr>f_type = 2, f_seq = 7, f_len = 2, f_payload = [1, SLIP_END]\<rparr>]"
proof -
  have "rx_ok (llp_serial_rx_init (replicate 16 0) 16)"
    by (simp add: rx_ok_def llp_serial_rx_init_def rx_state_def slip_ok_def SLIP_DISCARDING_def)
  from serial_resync [OF this, of "[(2, 7, [1, SLIP_END])]" "[9, SLIP_ESC]"]
  show ?thesis by (simp add: llp_serial_rx_init_def)
qed

section \<open>Damage\<close>

text \<open>The checksum sent behind a message drives the register to the same value for every message.\<close>

lemma put32_byte: "k < 4 \<Longrightarrow> n < 8 \<Longrightarrow> bit (put32 v ! k) n = bit v (8 * k + n)"
  by (auto simp: put32_def bit_simps numeral_eq_Suc less_Suc_eq add.commute)

lemma word_diff_put32: "word_diff (put32 a) (put32 b) = a XOR b"
proof (rule bit_word_eqI)
  fix n assume n: "n < LENGTH(32)"
  then show "bit (word_diff (put32 a) (put32 b)) n = bit (a XOR b) n"
    by (cases "24 \<le> n"; cases "16 \<le> n"; cases "8 \<le> n")
      (auto simp: put32_def byte_diff_def bit_simps)
qed

lemma same_difference:
  "length xs = length ys \<Longrightarrow> length xs \<le> 4 \<Longrightarrow> a XOR b = word_diff xs ys \<Longrightarrow> foldl crc_byte a xs = foldl crc_byte b ys"
proof (induction xs ys arbitrary: a b rule: list_induct2')
  case 1
  then show ?case by (simp add: xor_zero)
next
  case (4 x xs y ys)
  let ?w = "word_diff xs ys"
  have "below (32 - 8) ?w" using below_word_diff [of xs ys] "4.prems"(2) by (auto simp: below_def)
  then have "(crc_shift ^^ 8) (push_bit 8 ?w) = ?w" by (rule crc_shifts_up) simp
  moreover have "(a XOR b) XOR byte_diff x y = push_bit 8 ?w"
    using "4.prems"(3) by (simp add: xor.assoc xor.commute [of "push_bit 8 ?w"] xor.left_commute [of "byte_diff x y"])
  ultimately have "crc_byte a x XOR crc_byte b y = ?w" by (simp only: crc_byte_diff)
  then show ?case using "4.IH" "4.prems" by simp
qed simp_all

definition good_crc :: "bytes \<Rightarrow> bool" where
  "good_crc m \<longleftrightarrow> crc32_compute (take (length m - 4) m) = get32 (drop (length m - 4) m)"

lemma deliver_bad: "\<not> good_crc m \<Longrightarrow> deliver m = None"
  by (simp add: deliver_def good_crc_def)

lemma good_crc_residue:
  assumes "4 \<le> length m"
  shows "good_crc m \<longleftrightarrow> foldl crc_byte 0xFFFFFFFF m = foldl crc_byte 0 (put32 (NOT 0))"
proof -
  define R where "R = foldl crc_byte 0xFFFFFFFF (take (length m - 4) m)"
  define t where "t = drop (length m - 4) m"
  have m: "m = take (length m - 4) m @ t" by (simp add: t_def)
  have lt: "length t = 4" using assms by (simp add: t_def)
  have f: "foldl crc_byte 0xFFFFFFFF m = foldl crc_byte R t" by (subst m) (simp add: R_def)
  have w: "word_diff t (put32 (NOT 0)) = get32 t XOR NOT 0"
    using word_diff_put32 [of "get32 t" "NOT 0"] put32_get32 [OF lt] by simp
  have "foldl crc_byte R t = foldl crc_byte 0 (put32 (NOT 0)) \<longleftrightarrow> R XOR 0 = get32 t XOR NOT 0"
  proof
    assume "foldl crc_byte R t = foldl crc_byte 0 (put32 (NOT 0))"
    from burst_difference [OF _ _ this] show "R XOR 0 = get32 t XOR NOT 0" by (simp only: w lt length_fields order.refl)
  next
    assume "R XOR 0 = get32 t XOR NOT 0"
    then show "foldl crc_byte R t = foldl crc_byte 0 (put32 (NOT 0))"
      by (intro same_difference) (simp_all only: w lt length_fields order.refl)
  qed
  also have "R XOR 0 = get32 t XOR NOT 0 \<longleftrightarrow> R = NOT (get32 t)" by simp
  also have "\<dots> \<longleftrightarrow> NOT R = get32 t" by (metis bit.double_compl)
  finally show ?thesis by (simp add: good_crc_def f crc32_compute_def crc32_update_def R_def t_def)
qed

lemma burst_breaks_crc:
  assumes "length a = length b" "length a \<le> 4" "a \<noteq> b" "4 \<le> length (p @ a @ s)" "good_crc (p @ a @ s)"
  shows "\<not> good_crc (p @ b @ s)"
proof -
  have "foldl crc_byte c a \<noteq> foldl crc_byte c b" for c
    using burst_difference [OF assms(1,2), of c c] word_diff_zero [OF assms(1,2)] assms(3) by auto
  then have "foldl crc_byte 0xFFFFFFFF (p @ a @ s) \<noteq> foldl crc_byte 0xFFFFFFFF (p @ b @ s)"
    by (auto dest: crc_update_inj)
  then show ?thesis using good_crc_residue assms by simp
qed

text \<open>The CRC counter counts the complete messages of eight bytes or more whose checksum is wrong.\<close>

lemma feed_crc_err:
  assumes "rx_ok rx" and "slip_take (rx_cap rx) (rx_state rx) c = (fs, st)"
  shows "rx_crc_err (snd (llp_serial_feed rx c)) =
    rx_crc_err rx + of_nat (length (filter (\<lambda>m. 8 \<le> length m \<and> \<not> good_crc m) fs))"
proof -
  obtain complete buf len esc where f: "slip_feed c (rx_buf rx) (rx_cap rx) (rx_len rx) (rx_esc rx) = (complete, buf, len, esc)"
    by (metis prod_cases4)
  show ?thesis
  proof (cases complete)
    case False
    then show ?thesis using assms(2) f
      by (auto simp: llp_serial_feed_def slip_take_def rx_state_def Let_def)
  next
    case True
    have len: "len \<le> rx_cap rx" "length buf = rx_cap rx"
      using assms(1) f True by (auto simp: slip_feed_def rx_ok_def slip_ok_def rx_state_def Let_def split: if_splits)
    have fs: "fs = [take len buf]" using assms(2) f True by (auto simp: slip_take_def rx_state_def)
    have g: "8 \<le> len \<Longrightarrow> good_crc (take len buf) \<longleftrightarrow> crc32_compute (take (len - 4) buf) = get32 (drop (len - 4) buf)"
      using len by (simp add: good_crc_def min_def drop_take get32_take)
    show ?thesis using True f len g
      by (auto simp: fs llp_serial_feed_def Let_def LLP_HDR_LEN_def LLP_CRC_LEN_def split: prod.splits option.splits)
  qed
qed

lemma stream_crc_err:
  "rx_ok rx \<Longrightarrow> rx_crc_err (snd (serial_stream rx xs)) = rx_crc_err rx
    + of_nat (length (filter (\<lambda>m. 8 \<le> length m \<and> \<not> good_crc m) (fst (slip_stream (rx_cap rx) (rx_state rx) xs))))"
proof (induction xs arbitrary: rx)
  case (Cons c xs)
  obtain fs st where t: "slip_take (rx_cap rx) (rx_state rx) c = (fs, st)" by (rule prod.exhaust)
  obtain g rx1 where f: "llp_serial_feed rx c = (g, rx1)" by (rule prod.exhaust)
  have 1: "rx_state rx1 = st" "rx_cap rx1 = rx_cap rx" using feed_stream [OF Cons.prems t] f by auto
  have ok: "rx_ok rx1" using Cons.prems slip_take_ok [of "rx_cap rx" "rx_state rx" c] 1 t by (simp add: rx_ok_def)
  have e: "rx_crc_err rx1 = rx_crc_err rx + of_nat (length (filter (\<lambda>m. 8 \<le> length m \<and> \<not> good_crc m) fs))"
    using feed_crc_err [OF Cons.prems t] f by simp
  show ?case using Cons.IH [OF ok] by (simp add: t f 1 e split_beta)
qed simp

text \<open>
  a frame that is damaged on the way in up to four consecutive bytes - of the header, the payload,
  the checksum or across them - is not delivered, and \<open>crc_err\<close> goes up by one.
\<close>

theorem damaged_frame_dropped:
  assumes rx: "rx_ok rx" "rx_len rx = 0" and sent: "frame_bytes hdr payload = p @ a @ s" and hdr: "length hdr = 4"
    and damage: "length a = length b" "length a \<le> 4" "a \<noteq> b"
    and fits: "length (p @ b @ s) \<le> rx_cap rx"
  shows "fst (serial_stream rx (slip_wire (p @ b @ s))) = []
    \<and> rx_crc_err (snd (serial_stream rx (slip_wire (p @ b @ s)))) = rx_crc_err rx + 1"
proof -
  have l: "length (p @ b @ s) = length payload + 8"
    using arg_cong [OF sent, of length] damage(1) hdr by (simp add: frame_bytes_split(1))
  have "good_crc (p @ a @ s)"
    using frame_bytes_split(2,3) [of hdr payload]
    unfolding good_crc_def sent [symmetric] by (simp add: frame_bytes_split(1) frame_crc_compute)
  then have bad: "\<not> good_crc (p @ b @ s)" using burst_breaks_crc [OF damage] l damage(1) by simp
  have "fst (slip_take (rx_cap rx) (rx_state rx) SLIP_END) = []"
    using rx(2) by (simp add: slip_take_def rx_state_def slip_feed_def SLIP_DISCARDING_def)
  then have s: "fst (slip_stream (rx_cap rx) (rx_state rx) (slip_wire (p @ b @ s))) = [p @ b @ s]"
    using stream_wire [of "rx_cap rx" "rx_state rx" "p @ b @ s"] rx(1) fits l unfolding rx_ok_def by force
  have "deliver (p @ b @ s) = None" by (rule deliver_bad [OF bad])
  then show ?thesis
    using serial_stream_slip [OF rx(1), of "slip_wire (p @ b @ s)"] stream_crc_err [OF rx(1), of "slip_wire (p @ b @ s)"] bad l
    unfolding s by (simp add: map_filter_simps)
qed

lemma damaged_frame_dropped_witness:
  "\<exists>payload b. payload \<noteq> b \<and> fst (serial_stream (llp_serial_rx_init (replicate 16 0) 16)
      (slip_wire ([2, 0, 1, 0] @ b @ put32 (frame_crc [2, 0, 1, 0] payload)))) = []"
proof -
  have rx: "rx_ok (llp_serial_rx_init (replicate 16 0) 16)" "rx_len (llp_serial_rx_init (replicate 16 0) 16) = 0"
    by (simp_all add: rx_ok_def llp_serial_rx_init_def rx_state_def slip_ok_def SLIP_DISCARDING_def)
  have "frame_bytes [2, 0, 1, 0] [5] = [2, 0, 1, 0] @ [5] @ put32 (frame_crc [2, 0, 1, 0] [5])"
    by (simp add: frame_bytes_def)
  from damaged_frame_dropped [OF rx this, of "[4]"]
  have "fst (serial_stream (llp_serial_rx_init (replicate 16 0) 16)
      (slip_wire ([2, 0, 1, 0] @ [4] @ put32 (frame_crc [2, 0, 1, 0] [5])))) = []"
    by (simp add: llp_serial_rx_init_def)
  then show ?thesis by (intro exI [of _ "[5]"] exI [of _ "[4]"]) simp
qed

end
