(* ===== verification/Mem_Domain.thy ===== *)
theory Mem_Domain
  imports Prelude
begin

text \<open>
  Memory domains and their PMP back end (\<open>arch/riscv/common/mem_domain.c\<close> with \<open>CONFIG_MODE_M\<close>), and the
  copies between the kernel and a user task of \<open>kernel/uaccess.c\<close>.

  Addresses are 32-bit words.  What the code selects with \<open>#if CONFIG_BOARD_...\<close> is a record \<open>board\<close>.  The
  CSRs are a record \<open>pmp\<close>: a \<open>pmpcfg\<close> register is the list of its bytes, one for each entry.  What an entry
  keeps of the value written to it is the hardware's choice (its fields are WARL) and a parameter \<open>hw\<close>;
  an entry that is locked keeps what it has.
\<close>

section \<open>Constants and data\<close>

definition MEM_R :: u8 where "MEM_R = 1"
definition MEM_W :: u8 where "MEM_W = 2"
definition MEM_X :: u8 where "MEM_X = 4"

lemmas mem_perms = MEM_R_def MEM_W_def MEM_X_def

definition PMP_A_NAPOT :: u8 where "PMP_A_NAPOT = push_bit 3 3"
definition MAX_LOCKED_REGIONS :: nat where "MAX_LOCKED_REGIONS = 8"

text \<open>\<open>b_bit\<close> gives the bits \<open>PMP_R\<close>, \<open>PMP_W\<close> and \<open>PMP_X\<close>.\<close>

record board =
  b_entries :: nat
  b_max_regions :: nat
  b_bit :: "u8 \<times> u8 \<times> u8"
  b_fixed_low :: u32
  b_shadow :: "(u32 \<times> u32) list"

definition hardwired_shadow :: "(u32 \<times> u32) list" where
  "hardwired_shadow = [(0x00000000, 0x10000000), (0x40000000, 0x20000000), (0xd0000000, 0x10000000)]"

definition board_qemu :: board where
  "board_qemu = \<lparr>b_entries = 8, b_max_regions = 5, b_bit = (1, 2, 4), b_fixed_low = 0, b_shadow = []\<rparr>"

definition board_rp2350 :: board where
  "board_rp2350 = \<lparr>b_entries = 8, b_max_regions = 5, b_bit = (4, 2, 1), b_fixed_low = 3, b_shadow = hardwired_shadow\<rparr>"

definition board_esp32c6 :: board where
  "board_esp32c6 = \<lparr>b_entries = 16, b_max_regions = 14, b_bit = (1, 2, 4), b_fixed_low = 0, b_shadow = []\<rparr>"

record mem_region =
  mr_base :: u32
  mr_size :: u32
  mr_perms :: u8

text \<open>A domain is the list of its regions; \<open>count\<close> is the length.\<close>

record mem_domain =
  md_regions :: "mem_region list"

record pmp =
  pm_cfg :: "u8 list"
  pm_addr :: "u32 list"

record pmp_locked_region =
  lr_base :: u32
  lr_end :: u32
  lr_perms :: u8

text \<open>The module's state: the locked regions found, and the first and the number of the dynamic entries (-1: not probed).\<close>

record mem_module =
  mm_locked :: "pmp_locked_region list"
  mm_start :: int
  mm_avail :: int
  mm_activations :: "nat list"

record hardware =
  hw_cfg :: "nat \<Rightarrow> u8 \<Rightarrow> u8"
  hw_addr :: "nat \<Rightarrow> u32 \<Rightarrow> u32"

section \<open>The CSRs\<close>

definition locked_entry :: "u8 \<Rightarrow> bool" where
  "locked_entry c \<longleftrightarrow> c AND 0x80 \<noteq> 0"

definition pmpaddr_write :: "hardware \<Rightarrow> nat \<Rightarrow> u32 \<Rightarrow> pmp \<Rightarrow> pmp" where
  "pmpaddr_write hw i v p =
     (if i < length (pm_addr p) \<and> \<not> locked_entry (pm_cfg p ! i) then p\<lparr>pm_addr := (pm_addr p)[i := hw_addr hw i v]\<rparr> else p)"

definition pmpaddr_read :: "nat \<Rightarrow> pmp \<Rightarrow> u32" where
  "pmpaddr_read i p = (if i < length (pm_addr p) then pm_addr p ! i else 0)"

text \<open>Writing all the configuration registers.\<close>

definition pmpcfg_write :: "hardware \<Rightarrow> u8 list \<Rightarrow> pmp \<Rightarrow> pmp" where
  "pmpcfg_write hw cfg p =
     p\<lparr>pm_cfg := map (\<lambda>i. if locked_entry (pm_cfg p ! i) then pm_cfg p ! i else hw_cfg hw i (cfg ! i)) [0..<length (pm_cfg p)]\<rparr>"

definition napot_encode :: "u32 \<Rightarrow> u32 \<Rightarrow> u32" where
  "napot_encode base sz = drop_bit 2 base OR (drop_bit 3 sz - 1)"

section \<open>Locked entries\<close>

text \<open>\<open>__builtin_ctz\<close>, counted from bit \<open>i\<close> on.\<close>

fun ctz_from :: "nat \<Rightarrow> nat \<Rightarrow> u32 \<Rightarrow> nat" where
  "ctz_from 0 i w = i"
| "ctz_from (Suc n) i w = (if bit w i then i else ctz_from n (Suc i) w)"

definition trailing_ones :: "u32 \<Rightarrow> nat" where
  "trailing_ones a = ctz_from 32 0 (NOT a)"

definition to_mem_perms :: "board \<Rightarrow> u8 \<Rightarrow> u8" where
  "to_mem_perms b c =
     (case b_bit b of (r, w, x) \<Rightarrow>
        (if c AND r \<noteq> 0 then MEM_R else 0) OR (if c AND w \<noteq> 0 then MEM_W else 0) OR (if c AND x \<noteq> 0 then MEM_X else 0))"

definition locked_region :: "board \<Rightarrow> pmp \<Rightarrow> nat \<Rightarrow> pmp_locked_region option" where
  "locked_region b p i =
     (let c = pm_cfg p ! i; mode = drop_bit 3 c AND 3 in
      if mode = 3 then
        (let a = pmpaddr_read i p; ones = trailing_ones a;
             sz = (if 29 \<le> ones then -1 else push_bit ones 8);
             mask = (if 32 \<le> ones then -1 else push_bit ones 1 - 1);
             base = push_bit 2 (a AND NOT mask)
         in Some \<lparr>lr_base = base, lr_end = base + sz, lr_perms = to_mem_perms b c\<rparr>)
      else if mode = 1 then
        Some \<lparr>lr_base = (if 0 < i then push_bit 2 (pmpaddr_read (i - 1) p) else 0), lr_end = push_bit 2 (pmpaddr_read i p),
              lr_perms = to_mem_perms b c\<rparr>
      else None)"

definition locked_regions :: "board \<Rightarrow> pmp \<Rightarrow> pmp_locked_region list" where
  "locked_regions b p =
     take MAX_LOCKED_REGIONS (List.map_filter (locked_region b p) (filter (\<lambda>i. locked_entry (pm_cfg p ! i)) [0..<b_entries b]))"

definition dyn_start :: "board \<Rightarrow> pmp \<Rightarrow> nat" where
  "dyn_start b p = length (takeWhile (\<lambda>i. locked_entry (pm_cfg p ! i)) [0..<b_entries b])"

text \<open>One past the last dynamic entry.\<close>

definition dyn_end :: "board \<Rightarrow> pmp \<Rightarrow> nat" where
  "dyn_end b p = b_entries b - length (takeWhile (\<lambda>i. locked_entry (pm_cfg p ! i)) (rev [dyn_start b p..<b_entries b]))"

definition pmp_probe_locked :: "board \<Rightarrow> pmp \<Rightarrow> mem_module \<Rightarrow> mem_module" where
  "pmp_probe_locked b p m =
     (if 0 \<le> mm_start m then m
      else
        (let avail = dyn_end b p - dyn_start b p
         in m\<lparr>mm_locked := locked_regions b p, mm_start := int (dyn_start b p),
              mm_avail := int (avail - length (b_shadow b))\<rparr>))"

definition pmp_is_covered_locked :: "board \<Rightarrow> pmp \<Rightarrow> u32 \<Rightarrow> u32 \<Rightarrow> u8 \<Rightarrow> mem_module \<Rightarrow> bool \<times> mem_module" where
  "pmp_is_covered_locked b p base sz perms m =
     (let m1 = pmp_probe_locked b p m
      in (\<exists>r \<in> set (mm_locked m1). lr_perms r AND perms = perms \<and> lr_base r \<le> base \<and> base + sz \<le> lr_end r, m1))"

section \<open>Domains\<close>

definition mem_domain_init :: mem_domain where
  "mem_domain_init = \<lparr>md_regions = []\<rparr>"

definition mem_domain_add ::
  "board \<Rightarrow> pmp \<Rightarrow> u32 \<Rightarrow> u32 \<Rightarrow> u8 \<Rightarrow> mem_domain option \<times> mem_module \<Rightarrow> int \<times> mem_domain option \<times> mem_module" where
  "mem_domain_add b p base sz perms dm =
     (case dm of
        (None, m) \<Rightarrow> (-1, None, m)
      | (Some d, m) \<Rightarrow>
          (case pmp_is_covered_locked b p base sz perms m of (covered, m1) \<Rightarrow>
             if covered then (0, Some d, m1)
             else if b_max_regions b \<le> length (md_regions d) then (-1, Some d, m1)
             else if sz < 32 \<or> sz AND (sz - 1) \<noteq> 0 then (-1, Some d, m1)
             else if base AND (sz - 1) \<noteq> 0 then (-1, Some d, m1)
             else (0, Some (d\<lparr>md_regions := md_regions d @ [\<lparr>mr_base = base, mr_size = sz, mr_perms = perms\<rparr>]\<rparr>), m1)))"

text \<open>The loop returns at the first region that holds the whole range.\<close>

definition region_holds :: "u32 \<Rightarrow> u32 \<Rightarrow> mem_region \<Rightarrow> bool" where
  "region_holds base len r \<longleftrightarrow> mr_base r \<le> base \<and> base + len \<le> mr_base r + mr_size r"

definition mem_domain_permits ::
  "board \<Rightarrow> pmp \<Rightarrow> mem_domain option \<Rightarrow> u32 \<Rightarrow> u32 \<Rightarrow> u8 \<Rightarrow> mem_module \<Rightarrow> bool \<times> mem_module" where
  "mem_domain_permits b p dmn base len perms m =
     (case dmn of
        None \<Rightarrow> (True, m)
      | Some d \<Rightarrow>
          if len = 0 then (True, m)
          else if base + len < base then (False, m)
          else
            (case find (region_holds base len) (md_regions d) of
               Some r \<Rightarrow> (mr_perms r AND perms = perms, m)
             | None \<Rightarrow> pmp_is_covered_locked b p base len perms m))"

definition mem_domain_destroy :: "mem_domain option \<Rightarrow> mem_domain option" where
  "mem_domain_destroy dmn = map_option (\<lambda>d. d\<lparr>md_regions := []\<rparr>) dmn"

section \<open>Activation\<close>

definition cfg_byte :: "board \<Rightarrow> u8 \<Rightarrow> u8" where
  "cfg_byte b perms =
     (case b_bit b of (r, w, x) \<Rightarrow>
        PMP_A_NAPOT OR (if perms AND MEM_R \<noteq> 0 then r else 0) OR (if perms AND MEM_W \<noteq> 0 then w else 0)
        OR (if perms AND MEM_X \<noteq> 0 then x else 0))"

text \<open>
  The configuration bytes: the regions from \<open>start\<close> on, the hardwired ranges shadowed after the dynamic
  entries, everything else off.
\<close>

definition domain_cfg :: "board \<Rightarrow> nat \<Rightarrow> nat \<Rightarrow> mem_domain option \<Rightarrow> u8 list" where
  "domain_cfg b start avail dmn =
     map (\<lambda>i. case dmn of
        None \<Rightarrow> 0
      | Some d \<Rightarrow>
          if start \<le> i \<and> i < start + length (md_regions d) then cfg_byte b (mr_perms (md_regions d ! (i - start)))
          else if start + avail \<le> i \<and> i < start + avail + length (b_shadow b) then PMP_A_NAPOT else 0) [0..<b_entries b]"

definition write_addrs :: "hardware \<Rightarrow> nat \<Rightarrow> (u32 \<times> u32) list \<Rightarrow> pmp \<Rightarrow> pmp" where
  "write_addrs hw start rs p = foldl (\<lambda>p (i, base, sz). pmpaddr_write hw i (napot_encode base sz) p) p (zip [start..<start + length rs] rs)"

definition domain_ranges :: "mem_domain option \<Rightarrow> (u32 \<times> u32) list" where
  "domain_ranges dmn = (case dmn of None \<Rightarrow> [] | Some d \<Rightarrow> map (\<lambda>r. (mr_base r, mr_size r)) (md_regions d))"

definition kept_address :: "board \<Rightarrow> pmp \<Rightarrow> nat \<Rightarrow> u32 \<times> u32 \<Rightarrow> bool" where
  "kept_address b p i rng \<longleftrightarrow>
     pmpaddr_read i p OR b_fixed_low b = napot_encode (fst rng) (snd rng) OR b_fixed_low b"

definition mem_domain_activate ::
  "board \<Rightarrow> hardware \<Rightarrow> nat \<Rightarrow> mem_domain option \<Rightarrow> pmp \<Rightarrow> mem_module \<Rightarrow> int \<times> pmp \<times> mem_module" where
  "mem_domain_activate b hw hart dmn p m0 =
     (let m1 = (if dmn \<noteq> None then m0\<lparr>mm_activations := (mm_activations m0)[hart := wrap32 (mm_activations m0 ! hart + 1)]\<rparr> else m0);
          m = pmp_probe_locked b p m1; start = nat (mm_start m); avail = nat (mm_avail m)
      in if avail < length (domain_ranges dmn) then (-1, p, m)
         else
           (let p1 = pmpcfg_write hw (replicate (b_entries b) 0) p;
                p2 = (if dmn \<noteq> None then write_addrs hw (start + avail) (b_shadow b) p1 else p1);
                p3 = write_addrs hw start (domain_ranges dmn) p2;
                p4 = pmpcfg_write hw (domain_cfg b start avail dmn) p3
            in (if \<forall>i < length (domain_ranges dmn). kept_address b p4 (start + i) (domain_ranges dmn ! i) then 0 else -1, p4, m)))"

section \<open>Copies between the kernel and a user task\<close>

text \<open>
  \<open>dmn\<close> is the domain of the running task.  The result of \<open>memcpy\<close> from the user's memory is the list of
  bytes; \<open>None\<close> stands for \<open>NULL\<close>.
\<close>

definition user_bytes :: "(u32 \<Rightarrow> u8) \<Rightarrow> u32 \<Rightarrow> nat \<Rightarrow> bytes" where
  "user_bytes mem a n = map (\<lambda>i. mem (a + of_nat i)) [0..<n]"

definition copy_from_user ::
  "board \<Rightarrow> pmp \<Rightarrow> mem_domain option \<Rightarrow> (u32 \<Rightarrow> u8) \<Rightarrow> bytes option \<Rightarrow> u32 \<Rightarrow> u32 \<Rightarrow> mem_module \<Rightarrow> int \<times> bytes option \<times> mem_module" where
  "copy_from_user b p dmn mem dst usrc len m =
     (case dst of
        None \<Rightarrow> (-1, dst, m)
      | Some d \<Rightarrow>
          if len = 0 then (0, dst, m)
          else
            (case mem_domain_permits b p dmn usrc len MEM_R m of (ok, m1) \<Rightarrow>
               if \<not> ok then (-1, dst, m1) else (0, Some (user_bytes mem usrc (unat len) @ drop (unat len) d), m1)))"

definition poke_bytes :: "u32 \<Rightarrow> bytes \<Rightarrow> (u32 \<Rightarrow> u8) \<Rightarrow> u32 \<Rightarrow> u8" where
  "poke_bytes a xs mem = (\<lambda>x. if unat (x - a) < length xs then xs ! unat (x - a) else mem x)"

definition copy_to_user ::
  "board \<Rightarrow> pmp \<Rightarrow> mem_domain option \<Rightarrow> u32 \<Rightarrow> bytes option \<Rightarrow> u32 \<Rightarrow> (u32 \<Rightarrow> u8) \<times> mem_module \<Rightarrow> int \<times> (u32 \<Rightarrow> u8) \<times> mem_module" where
  "copy_to_user b p dmn udst src len mm =
     (case src of
        None \<Rightarrow> (-1, mm)
      | Some s \<Rightarrow>
          if len = 0 then (0, mm)
          else
            (case mem_domain_permits b p dmn udst len MEM_W (snd mm) of (ok, m1) \<Rightarrow>
               if \<not> ok then (-1, fst mm, m1) else (0, poke_bytes udst (take (unat len) s) (fst mm), m1)))"

text \<open>The loop over the string, with the bytes copied so far; its first argument counts what is left of \<open>max\<close>.\<close>

fun strncpy_loop ::
  "nat \<Rightarrow> board \<Rightarrow> pmp \<Rightarrow> mem_domain option \<Rightarrow> (u32 \<Rightarrow> u8) \<Rightarrow> u32 \<Rightarrow> bytes \<Rightarrow> mem_module \<Rightarrow> int \<times> bytes \<times> mem_module" where
  "strncpy_loop 0 b p dmn mem usrc acc m = (-1, acc, m)"
| "strncpy_loop (Suc n) b p dmn mem usrc acc m =
     (case mem_domain_permits b p dmn (usrc + of_nat (length acc)) 1 MEM_R m of (ok, m1) \<Rightarrow>
        if \<not> ok then (-1, acc, m1)
        else
          (let c = mem (usrc + of_nat (length acc))
           in if c = 0 then (int (length acc), acc @ [c], m1)
              else strncpy_loop n b p dmn mem usrc (acc @ [c]) m1))"

text \<open>The bytes returned are those written to the front of the buffer.\<close>

definition strncpy_from_user ::
  "board \<Rightarrow> pmp \<Rightarrow> mem_domain option \<Rightarrow> (u32 \<Rightarrow> u8) \<Rightarrow> bool \<Rightarrow> u32 \<Rightarrow> u32 \<Rightarrow> mem_module \<Rightarrow> int \<times> bytes \<times> mem_module" where
  "strncpy_from_user b p dmn mem dst_null usrc mx m =
     (if dst_null \<or> mx = 0 then (-1, [], m) else strncpy_loop (unat mx) b p dmn mem usrc [] m)"

end
