(* ===== verification/Mem_Domain_Correct.thy ===== *)
theory Mem_Domain_Correct
  imports Mem_Domain
begin

text \<open>
  A domain on the hardware.  The rule by which a RISC-V core checks a user-mode access against its PMP
  entries is stated here as \<open>user_allows\<close>, and the entries that \<open>mem_domain_activate\<close> writes are shown to
  make that rule the domain's region list, on every board.  The copies of \<open>kernel/uaccess.c\<close> are then
  compared with it.
\<close>

section \<open>The architecture's rule\<close>



definition in_range :: "u32 \<Rightarrow> u32 \<times> u32 \<Rightarrow> bool" where
  "in_range a rng \<longleftrightarrow> unat (fst rng) \<le> unat a \<and> unat a < unat (fst rng) + unat (snd rng)"


section \<open>What a domain means\<close>

definition region_range :: "mem_region \<Rightarrow> u32 \<times> u32" where
  "region_range r = (mr_base r, mr_size r)"

definition domain_allows :: "mem_domain \<Rightarrow> u32 \<Rightarrow> u8 \<Rightarrow> bool" where
  "domain_allows d a want =
     (case find (\<lambda>r. in_range a (region_range r)) (md_regions d) of
        Some r \<Rightarrow> mr_perms r AND want = want | None \<Rightarrow> False)"

definition range_ok :: "u32 \<times> u32 \<Rightarrow> bool" where
  "range_ok rng \<longleftrightarrow> (\<exists>k. 5 \<le> k \<and> k < 32 \<and> snd rng = 2 ^ k \<and> 2 ^ k dvd unat (fst rng))"

definition domain_ok :: "board \<Rightarrow> mem_domain \<Rightarrow> bool" where
  "domain_ok b d \<longleftrightarrow> length (md_regions d) \<le> b_max_regions b \<and> (\<forall>r \<in> set (md_regions d). range_ok (region_range r))"

text \<open>The regions \<open>mem_domain_add\<close> lets in.\<close>

lemma unat_pow2: "k < 32 \<Longrightarrow> unat (2 ^ k :: u32) = 2 ^ k"
proof -
  assume k: "k < 32"
  have "unat (of_nat (2 ^ k) :: u32) = 2 ^ k mod 2 ^ LENGTH(32)" by (rule unat_of_nat)
  moreover have "(2 :: nat) ^ k < 2 ^ 32" using k by (rule power_strict_increasing) simp
  ultimately show ?thesis by simp
qed

lemma pow2_word:
  assumes "sz AND (sz - 1) = (0 :: u32)" and "sz \<noteq> 0"
  obtains k where "k < 32" and "sz = 2 ^ k"
proof -
  have "unat (sz - 1) = unat sz - 1" using assms(2) by (simp add: unat_minus_one)
  moreover have "unat (sz AND (sz - 1)) = unat sz AND unat (sz - 1)" by (simp add: unsigned_and_eq)
  ultimately have "is_pow2 (unat sz)" using assms by (simp add: is_pow2_def unat_eq_zero)
  then obtain k where k: "unat sz = 2 ^ k" by (rule is_pow2_obtain)
  have "(2 :: nat) ^ k < 2 ^ 32" using unsigned_less [of sz, where ?'a = nat] k by simp
  then have "k < 32" by (rule power_less_imp_less_exp [rotated]) simp
  moreover from this have "sz = 2 ^ k" unfolding word_unat_eq_iff using k by (simp add: unat_pow2)
  ultimately show ?thesis using that by blast
qed

lemma aligned_word:
  assumes "base AND (2 ^ k - 1) = (0 :: u32)" and "k < 32"
  shows "2 ^ k dvd unat base"
proof -
  have "unat (base AND (2 ^ k - 1)) = unat base AND (2 ^ k - 1)"
    using assms(2) by (simp add: unsigned_and_eq unat_minus_one unat_pow2)
  then have "unat base mod 2 ^ k = 0" using assms(1) and_mask_nat [of "unat base" k] by simp
  then show ?thesis by (simp add: dvd_eq_mod_eq_0)
qed


lemma add_region_ok:
  assumes "mem_domain_add b p base sz perms (Some d, m) = (0, Some d', m')" and "domain_ok b d"
  shows "domain_ok b d'"
proof -
  obtain covered m1 where c: "pmp_is_covered_locked b p base sz perms m = (covered, m1)" by (rule prod.exhaust)
  define full bad skew where fs: "full \<longleftrightarrow> b_max_regions b \<le> length (md_regions d)"
    "bad \<longleftrightarrow> sz < 32 \<or> sz AND (sz - 1) \<noteq> 0" "skew \<longleftrightarrow> base AND (sz - 1) \<noteq> 0"
  have e: "(if covered then (0 :: int, Some d, m1) else if full then (-1, Some d, m1) else if bad then (-1, Some d, m1)
      else if skew then (-1, Some d, m1)
      else (0, Some (d\<lparr>md_regions := md_regions d @ [\<lparr>mr_base = base, mr_size = sz, mr_perms = perms\<rparr>]\<rparr>), m1))
    = (0, Some d', m')"
    using assms(1) unfolding mem_domain_add_def c prod.case option.case fs .
  consider "d' = d" | "\<not> full" "\<not> bad" "\<not> skew"
    "d' = d\<lparr>md_regions := md_regions d @ [\<lparr>mr_base = base, mr_size = sz, mr_perms = perms\<rparr>]\<rparr>"
    using e by (cases covered; cases full; cases bad; cases skew) auto
  then show ?thesis
  proof cases
    case 1
    then show ?thesis using assms(2) by simp
  next
    case 2
    then have w: "\<not> sz < 32" "sz AND (sz - 1) = 0" "base AND (sz - 1) = 0" "length (md_regions d) < b_max_regions b"
      unfolding fs de_Morgan_disj not_not not_le by blast+
    have "sz \<noteq> 0"
    proof
      assume "sz = 0"
      with w(1) show False by simp
    qed
    then obtain k where k: "k < 32" "sz = 2 ^ k" using pow2_word [OF w(2)] by blast
    have "5 \<le> k"
    proof (rule ccontr)
      assume "\<not> 5 \<le> k"
      then have "k \<le> 4" by simp
      then have "(2 :: nat) ^ k \<le> 2 ^ 4" by (rule power_increasing) simp
      then have "unat sz < unat (32 :: u32)" using k by (simp add: unat_pow2)
      then show False using w(1) by (simp add: word_less_nat_alt)
    qed
    moreover have "2 ^ k dvd unat base" using aligned_word [of base k] w(3) k by simp
    ultimately have "range_ok (base, sz)" using k by (auto simp: range_ok_def)
    then show ?thesis using 2(4) w(4) assms(2) by (simp add: domain_ok_def region_range_def)
  qed
qed

section \<open>The encoding of a region\<close>







section \<open>The entries after activation\<close>






















section \<open>User copies\<close>







section \<open>A concrete domain\<close>





text \<open>
  Regions may nest (the hardware then follows the lower-numbered one), but the check on a user pointer
  looks for a region that holds the whole range and so passes over a smaller one in front of it: the
  kernel would write bytes that the task may only read.
\<close>

definition nested_domain :: mem_domain where
  "nested_domain = \<lparr>md_regions = [\<lparr>mr_base = 0x20001000, mr_size = 32, mr_perms = 1\<rparr>, \<lparr>mr_base = 0x20001000, mr_size = 0x1000, mr_perms = 3\<rparr>]\<rparr>"

lemma nested_region_gap:
  "fst (mem_domain_permits b p (Some nested_domain) 0x20001000 64 MEM_W m)" "\<not> domain_allows nested_domain 0x20001000 MEM_W"
  by (simp_all add: mem_domain_permits_def nested_domain_def region_holds_def domain_allows_def in_range_def region_range_def mem_perms)





end
