(* ===== verification/Chan.thy ===== *)
theory Chan
  imports Lock Mem_Domain
begin

text \<open>
  Message channels (\<open>kernel/chan.c\<close>): the endpoint table, the claim of an endpoint with its queue of
  waiting tasks, the call, the owner's side and the clean-up when a task exits.

  One function is one section under the endpoint's lock, or the accesses between two points at which the
  code can be switched away.  The scheduler's answers (is a task alive, which task runs, the clock) are
  arguments.  A handler with its context is a function of the request and the response buffer; an
  endpoint is its index in the table.
\<close>

section \<open>Data\<close>

definition CHAN_MAX_ENDPOINTS :: nat where "CHAN_MAX_ENDPOINTS = 16"
definition CHAN_WAITQ_LEN :: nat where "CHAN_WAITQ_LEN = 8"
definition CHAN_WAIT_MS :: nat where "CHAN_WAIT_MS = 50"

type_synonym chan_handler = "bytes \<Rightarrow> bytes \<Rightarrow> nat \<Rightarrow> int \<times> bytes"

record endpoint =
  ep_name :: string
  ep_handler :: "chan_handler option"
  ep_owner :: int
  ep_caller :: int
  ep_req_len :: nat
  ep_reply_len :: int
  ep_pending :: bool
  ep_req_buf :: bytes
  ep_req_cap :: nat
  ep_resp_buf :: bytes
  ep_resp_cap :: nat
  ep_in_use :: bool
  ep_busy :: bool
  ep_holder :: int
  ep_wq :: "int list"
  ep_wq_head :: nat
  ep_wq_len :: nat
  ep_handed :: int

record chans =
  ch_eps :: "endpoint list"
  ch_num :: nat

definition zero_endpoint :: endpoint where
  "zero_endpoint = \<lparr>ep_name = [], ep_handler = None, ep_owner = 0, ep_caller = 0, ep_req_len = 0, ep_reply_len = 0,
     ep_pending = False, ep_req_buf = [], ep_req_cap = 0, ep_resp_buf = [], ep_resp_cap = 0, ep_in_use = False,
     ep_busy = False, ep_holder = 0, ep_wq = replicate CHAN_WAITQ_LEN 0, ep_wq_head = 0, ep_wq_len = 0, ep_handed = 0\<rparr>"

definition chans_zero :: chans where
  "chans_zero = \<lparr>ch_eps = replicate CHAN_MAX_ENDPOINTS zero_endpoint, ch_num = 0\<rparr>"

section \<open>Registration\<close>

definition chan_lookup :: "string option \<Rightarrow> chans \<Rightarrow> nat option" where
  "chan_lookup name s =
     (case name of None \<Rightarrow> None
      | Some n \<Rightarrow> find (\<lambda>i. ep_in_use (ch_eps s ! i) \<and> ep_name (ch_eps s ! i) = n) [0..<ch_num s])"

definition add_endpoint :: "(endpoint \<Rightarrow> endpoint) \<Rightarrow> chans \<Rightarrow> int \<times> chans" where
  "add_endpoint f s = (0, s\<lparr>ch_eps := (ch_eps s)[ch_num s := f (ch_eps s ! ch_num s)], ch_num := ch_num s + 1\<rparr>)"

text \<open>The fields that both registrations set last.\<close>

definition idle_endpoint :: "bytes \<Rightarrow> nat \<Rightarrow> bytes \<Rightarrow> nat \<Rightarrow> endpoint \<Rightarrow> endpoint" where
  "idle_endpoint req req_cap resp resp_cap ep =
     ep\<lparr>ep_req_buf := req, ep_req_cap := req_cap, ep_resp_buf := resp, ep_resp_cap := resp_cap, ep_in_use := True,
        ep_busy := False, ep_holder := -1, ep_wq_head := 0, ep_wq_len := 0, ep_handed := -1\<rparr>"

definition chan_register ::
  "string option \<Rightarrow> chan_handler option \<Rightarrow> bytes option \<Rightarrow> nat \<Rightarrow> bytes option \<Rightarrow> nat \<Rightarrow> chans \<Rightarrow> int \<times> chans" where
  "chan_register name handler req_buf req_cap resp_buf resp_cap s =
     (case (name, handler, req_buf, resp_buf) of
        (Some n, Some h, Some req, Some resp) \<Rightarrow>
          if req_cap = 0 \<or> resp_cap = 0 then (-1, s)
          else if chan_lookup name s \<noteq> None then (-1, s)
          else if CHAN_MAX_ENDPOINTS \<le> ch_num s then (-1, s)
          else add_endpoint (\<lambda>ep. idle_endpoint req req_cap resp resp_cap (ep\<lparr>ep_name := n, ep_handler := Some h, ep_owner := -1\<rparr>)) s
      | _ \<Rightarrow> (-1, s))"

text \<open>\<open>unused\<close>: \<open>sched_task_state(owner_pid) == TASK_UNUSED\<close>.\<close>

definition chan_register_task ::
  "string option \<Rightarrow> int \<Rightarrow> bool \<Rightarrow> bytes option \<Rightarrow> nat \<Rightarrow> bytes option \<Rightarrow> nat \<Rightarrow> chans \<Rightarrow> int \<times> chans" where
  "chan_register_task name owner_pid unused req_buf req_cap resp_buf resp_cap s =
     (case (name, req_buf, resp_buf) of
        (Some n, Some req, Some resp) \<Rightarrow>
          if owner_pid < 0 \<or> req_cap = 0 \<or> resp_cap = 0 then (-1, s)
          else if unused then (-1, s)
          else if chan_lookup name s \<noteq> None then (-1, s)
          else if CHAN_MAX_ENDPOINTS \<le> ch_num s then (-1, s)
          else add_endpoint (\<lambda>ep. idle_endpoint req req_cap resp resp_cap
                 (ep\<lparr>ep_name := n, ep_handler := None, ep_owner := owner_pid, ep_caller := -1, ep_req_len := 0,
                     ep_reply_len := -1, ep_pending := False\<rparr>)) s
      | _ \<Rightarrow> (-1, s))"

definition chan_info :: "nat \<Rightarrow> chans \<Rightarrow> (string \<times> bool) option" where
  "chan_info index s =
     (if ch_num s \<le> index \<or> \<not> ep_in_use (ch_eps s ! index) then None
      else Some (ep_name (ch_eps s ! index), ep_busy (ch_eps s ! index)))"

definition chan_endpoint_busy :: "endpoint option \<Rightarrow> bool" where
  "chan_endpoint_busy ep = (case ep of None \<Rightarrow> False | Some e \<Rightarrow> ep_in_use e \<and> ep_busy e)"

section \<open>The claim\<close>

definition wq_push :: "int \<Rightarrow> endpoint \<Rightarrow> endpoint" where
  "wq_push pid ep =
     ep\<lparr>ep_wq := (ep_wq ep)[(ep_wq_head ep + ep_wq_len ep) mod CHAN_WAITQ_LEN := pid], ep_wq_len := ep_wq_len ep + 1\<rparr>"

text \<open>One turn of the loop; the state is the ring and the number kept.\<close>

definition wq_keep :: "int \<Rightarrow> nat \<Rightarrow> int list \<times> nat \<Rightarrow> nat \<Rightarrow> int list \<times> nat" where
  "wq_keep pid head st i =
     (case st of (wq, kept) \<Rightarrow>
        let w = wq ! ((head + i) mod CHAN_WAITQ_LEN)
        in if w \<noteq> pid then (wq[(head + kept) mod CHAN_WAITQ_LEN := w], kept + 1) else (wq, kept))"

definition wq_remove :: "int \<Rightarrow> endpoint \<Rightarrow> endpoint" where
  "wq_remove pid ep =
     (case foldl (wq_keep pid (ep_wq_head ep)) (ep_wq ep, 0) [0..<ep_wq_len ep] of
        (wq, kept) \<Rightarrow> ep\<lparr>ep_wq := wq, ep_wq_len := kept\<rparr>)"

function release_locked :: "(int \<Rightarrow> bool) \<Rightarrow> endpoint \<Rightarrow> int \<times> endpoint" where
  "release_locked alive ep =
     (if ep_wq_len ep = 0 then (-1, ep\<lparr>ep_busy := False, ep_holder := -1\<rparr>)
      else
        (let pid = ep_wq ep ! ep_wq_head ep;
             ep1 = ep\<lparr>ep_wq_head := (ep_wq_head ep + 1) mod CHAN_WAITQ_LEN, ep_wq_len := ep_wq_len ep - 1\<rparr>
         in if \<not> alive pid then release_locked alive ep1
            else (pid, ep1\<lparr>ep_handed := pid, ep_holder := pid\<rparr>)))"
  by pat_completeness auto
termination
  by (relation "measure (\<lambda>(_, ep). ep_wq_len ep)") auto

declare release_locked.simps [simp del]

text \<open>
  \<open>ep_claim\<close> up to its loop, and one turn of the loop.  \<open>WAITING q\<close>: the wait goes on, \<open>q\<close> says whether
  the task stands in the queue.
\<close>

datatype claim = CLAIMED | REFUSED | WAITING bool

definition claim_enter :: "nat \<Rightarrow> int \<Rightarrow> int \<Rightarrow> bool \<Rightarrow> bool \<Rightarrow> endpoint \<Rightarrow> claim \<times> endpoint" where
  "claim_enter wait_ms ctx me active in_handler ep =
     (if \<not> ep_busy ep then (CLAIMED, ep\<lparr>ep_busy := True, ep_holder := ctx\<rparr>)
      else if wait_ms = 0 \<or> ep_holder ep = ctx \<or> me < 0 \<or> \<not> active \<or> in_handler then (REFUSED, ep)
      else if ep_wq_len ep < CHAN_WAITQ_LEN then (WAITING True, wq_push me ep)
      else (WAITING False, ep))"

definition claim_turn :: "int \<Rightarrow> int \<Rightarrow> bool \<Rightarrow> bool \<Rightarrow> endpoint \<Rightarrow> claim \<times> endpoint" where
  "claim_turn ctx me late queued ep =
     (if queued \<and> ep_handed ep = me then (CLAIMED, ep\<lparr>ep_handed := -1, ep_holder := ctx\<rparr>)
      else if \<not> queued \<and> \<not> ep_busy ep then (CLAIMED, ep\<lparr>ep_busy := True, ep_holder := ctx\<rparr>)
      else
        (let join = \<not> queued \<and> ep_wq_len ep < CHAN_WAITQ_LEN;
             ep1 = (if join then wq_push me ep else ep); queued1 = (queued \<or> join)
         in if late then (REFUSED, if queued1 then wq_remove me ep1 else ep1)
            else (WAITING queued1, ep1)))"

section \<open>The call\<close>

text \<open>
  The caller's side of the two copies: kernel memory, or the memory of the running user task under its
  domain.
\<close>

record user_mem =
  um_board :: board
  um_pmp :: pmp
  um_domain :: "mem_domain option"
  um_mem :: "u32 \<Rightarrow> u8"
  um_module :: mem_module

text \<open>\<open>n\<close> bytes from the front of a buffer, put over the front of another.\<close>

definition put_front :: "bytes \<Rightarrow> bytes \<Rightarrow> bytes" where
  "put_front xs buf = xs @ drop (length xs) buf"

definition call_refused :: "endpoint \<Rightarrow> bool \<Rightarrow> bool \<Rightarrow> nat \<Rightarrow> bool \<Rightarrow> bool" where
  "call_refused ep user req_null req_len spin_held \<longleftrightarrow>
     \<not> ep_in_use ep \<or> \<not> user \<and> req_null \<or> req_len = 0 \<or> ep_req_cap ep < req_len \<or> spin_held"

definition copy_in :: "bytes \<Rightarrow> endpoint \<Rightarrow> endpoint" where
  "copy_in req ep = ep\<lparr>ep_req_buf := put_front req (ep_req_buf ep)\<rparr>"

definition copy_in_user :: "user_mem \<Rightarrow> u32 \<Rightarrow> u32 \<Rightarrow> endpoint \<Rightarrow> bool \<times> endpoint" where
  "copy_in_user u ureq req_len ep =
     (case copy_from_user (um_board u) (um_pmp u) (um_domain u) (um_mem u) (Some (ep_req_buf ep)) ureq req_len (um_module u) of
        (r, Some buf, _) \<Rightarrow> (\<not> r < 0, if r < 0 then ep else ep\<lparr>ep_req_buf := buf\<rparr>)
      | (r, None, _) \<Rightarrow> (False, ep))"

text \<open>The start of \<open>chan_call_task\<close>: the owner is alive, a task runs, and the wait closes no cycle.\<close>

definition call_task_open :: "bool \<Rightarrow> int \<Rightarrow> endpoint \<Rightarrow> locks \<Rightarrow> bool \<times> locks" where
  "call_task_open owner_gone me ep s =
     (if owner_gone then (False, s) else if me < 0 then (False, s) else waitfor_enter me (ep_owner ep) s)"

definition call_publish :: "int \<Rightarrow> nat \<Rightarrow> endpoint \<Rightarrow> endpoint" where
  "call_publish me req_len ep = ep\<lparr>ep_req_len := req_len, ep_caller := me, ep_reply_len := -1, ep_pending := True\<rparr>"

definition call_answered :: "int \<Rightarrow> endpoint \<Rightarrow> bool" where
  "call_answered me ep \<longleftrightarrow> ep_caller ep \<noteq> me"

definition call_handler :: "nat \<Rightarrow> endpoint \<Rightarrow> int \<times> endpoint" where
  "call_handler req_len ep =
     (case ep_handler ep of
        Some h \<Rightarrow> (case h (take req_len (ep_req_buf ep)) (ep_resp_buf ep) (ep_resp_cap ep) of
                     (r, buf) \<Rightarrow> (r, ep\<lparr>ep_resp_buf := buf\<rparr>))
      | None \<Rightarrow> (-1, ep))"

definition call_result :: "int \<Rightarrow> nat \<Rightarrow> endpoint \<Rightarrow> int" where
  "call_result resp_len resp_max ep =
     (if resp_len < 0 \<or> int (ep_resp_cap ep) < resp_len \<or> int resp_max < resp_len then -1 else resp_len)"

text \<open>The bytes copied out to a kernel buffer, and the copy to a user task.\<close>

definition copy_out :: "int \<Rightarrow> endpoint \<Rightarrow> bytes" where
  "copy_out ret ep = (if 0 < ret then take (nat ret) (ep_resp_buf ep) else [])"

definition copy_out_user :: "user_mem \<Rightarrow> u32 \<Rightarrow> int \<Rightarrow> endpoint \<Rightarrow> int \<times> user_mem" where
  "copy_out_user u uresp ret ep =
     (if ret \<le> 0 then (ret, u)
      else
        (case copy_to_user (um_board u) (um_pmp u) (um_domain u) uresp (Some (ep_resp_buf ep)) (word_of_int ret) (um_mem u, um_module u) of
           (r, mem, m) \<Rightarrow> (if r < 0 then -1 else ret, u\<lparr>um_mem := mem, um_module := m\<rparr>)))"

text \<open>
  \<open>chan_call\<close> on an endpoint with a handler, from a context that finds it free or is refused: the
  result, the bytes copied out and the task to wake (-1: none).
\<close>

definition chan_call_inline ::
  "(int \<Rightarrow> bool) \<Rightarrow> int \<Rightarrow> bytes option \<Rightarrow> nat \<Rightarrow> bool \<Rightarrow> endpoint \<Rightarrow> (int \<times> bytes \<times> int) \<times> endpoint" where
  "chan_call_inline alive ctx req resp_max spin_held ep =
     (case req of
        None \<Rightarrow> ((-1, [], -1), ep)
      | Some xs \<Rightarrow>
          if call_refused ep False False (length xs) spin_held then ((-1, [], -1), ep)
          else
            (case claim_enter 0 ctx ctx True False ep of
               (CLAIMED, ep1) \<Rightarrow>
                 (case call_handler (length xs) (copy_in xs ep1) of
                    (resp_len, ep2) \<Rightarrow>
                      let ret = call_result resp_len resp_max ep2
                      in (case release_locked alive ep2 of (next, ep3) \<Rightarrow> ((ret, copy_out ret ep2, next), ep3)))
             | (_, ep1) \<Rightarrow> ((-1, [], -1), ep1)))"

section \<open>The owner\<close>

definition serve_ready :: "endpoint \<Rightarrow> nat option" where
  "serve_ready ep = (if ep_pending ep then Some (ep_req_len ep) else None)"

definition chan_serve_reply :: "nat \<Rightarrow> endpoint \<Rightarrow> int \<times> endpoint" where
  "chan_serve_reply resp_len ep =
     (ep_caller ep, ep\<lparr>ep_reply_len := int resp_len, ep_pending := False, ep_caller := -1\<rparr>)"

definition serve_copy :: "nat \<Rightarrow> nat \<Rightarrow> endpoint \<Rightarrow> bytes" where
  "serve_copy len out_max ep = take (min len out_max) (ep_req_buf ep)"

definition chan_serve_reply_copy :: "bytes \<Rightarrow> endpoint \<Rightarrow> int \<times> endpoint" where
  "chan_serve_reply_copy input ep =
     (let n = min (length input) (ep_resp_cap ep)
      in chan_serve_reply n (ep\<lparr>ep_resp_buf := put_front (take n input) (ep_resp_buf ep)\<rparr>))"

definition serve_copy_user :: "user_mem \<Rightarrow> u32 \<Rightarrow> nat \<Rightarrow> nat \<Rightarrow> endpoint \<Rightarrow> int \<times> user_mem" where
  "serve_copy_user u uout len out_max ep =
     (if out_max < len \<or> len = 0 then (0, u)
      else
        (case copy_to_user (um_board u) (um_pmp u) (um_domain u) uout (Some (ep_req_buf ep)) (word_of_nat len) (um_mem u, um_module u) of
           (r, mem, m) \<Rightarrow> (if r < 0 then -1 else 0, u\<lparr>um_mem := mem, um_module := m\<rparr>)))"

definition chan_serve_reply_user :: "user_mem \<Rightarrow> u32 \<Rightarrow> nat \<Rightarrow> endpoint \<Rightarrow> int \<times> int \<times> endpoint" where
  "chan_serve_reply_user u uin resp_len ep =
     (if ep_resp_cap ep < resp_len then (-1, -1, ep)
      else if resp_len = 0 then (case chan_serve_reply 0 ep of (caller, ep') \<Rightarrow> (0, caller, ep'))
      else
        (case copy_from_user (um_board u) (um_pmp u) (um_domain u) (um_mem u) (Some (ep_resp_buf ep)) uin (word_of_nat resp_len) (um_module u) of
           (r, Some buf, _) \<Rightarrow>
             if r < 0 then (-1, -1, ep)
             else (case chan_serve_reply resp_len (ep\<lparr>ep_resp_buf := buf\<rparr>) of (caller, ep') \<Rightarrow> (0, caller, ep'))
         | (r, None, _) \<Rightarrow> (-1, -1, ep)))"

section \<open>A task exits\<close>

text \<open>The two sections of \<open>chan_owner_exited\<close> for one endpoint; each returns the task to wake (-1: none).\<close>

definition exit_waiter :: "(int \<Rightarrow> bool) \<Rightarrow> int \<Rightarrow> endpoint \<Rightarrow> int \<times> endpoint" where
  "exit_waiter alive pid ep =
     (let ep1 = wq_remove pid ep
      in if ep_busy ep1 \<and> ep_holder ep1 = pid then release_locked alive (ep1\<lparr>ep_handed := -1\<rparr>) else (-1, ep1))"

definition exit_owner :: "int \<Rightarrow> endpoint \<Rightarrow> int \<times> endpoint" where
  "exit_owner pid ep =
     (if ep_in_use ep \<and> ep_owner ep = pid \<and> ep_pending ep
      then (ep_caller ep, ep\<lparr>ep_reply_len := -1, ep_pending := False, ep_caller := -1\<rparr>)
      else (-1, ep))"

fun exit_from :: "(int \<Rightarrow> bool) \<Rightarrow> int \<Rightarrow> endpoint list \<Rightarrow> int list \<times> endpoint list" where
  "exit_from alive pid [] = ([], [])"
| "exit_from alive pid (ep # eps) =
     (case exit_from alive pid eps of (wakes, eps') \<Rightarrow>
        if \<not> ep_in_use ep then (wakes, ep # eps')
        else
          (case exit_waiter alive pid ep of (next, ep1) \<Rightarrow>
             case exit_owner pid ep1 of (caller, ep2) \<Rightarrow>
               (filter (\<lambda>p. 0 \<le> p) [next, caller] @ wakes, ep2 # eps')))"

definition chan_owner_exited :: "(int \<Rightarrow> bool) \<Rightarrow> int \<Rightarrow> chans \<Rightarrow> int list \<times> chans" where
  "chan_owner_exited alive owner_pid s =
     (case exit_from alive owner_pid (take (ch_num s) (ch_eps s)) of
        (wakes, eps) \<Rightarrow> (wakes, s\<lparr>ch_eps := eps @ drop (ch_num s) (ch_eps s)\<rparr>))"

end
