(* ===== verification/Chan_Steps.thy ===== *)
theory Chan_Steps
  imports Chan
begin

text \<open>
  One task-owned endpoint between its clients and its owner, as sequences of steps.  A step is the code of
  one task between two points at which other tasks, on this hart or another, can run: the sections under
  the endpoint's lock, the scheduler's calls, the stores that publish a request or a reply.

  A task's place in the scheduler is what \<open>t_state\<close>, \<open>t_armed\<close> and \<open>t_pending\<close> of the scheduler's model
  say of it (\<open>nap_of\<close>).  A \<open>task_unblock\<close> that a step owes after leaving the lock is kept in \<open>cs_wakes\<close>
  and delivered by a step of its own.  The owner answers a request \<open>xs\<close> with \<open>srv xs\<close>.  Clients do not exit
  inside a call.
\<close>

section \<open>Tasks\<close>

datatype nap = AWAKE | ARMED | TOKEN | ASLEEP

definition nap_prepare :: "nap \<Rightarrow> nap" where "nap_prepare z = ARMED"
definition nap_done :: "nap \<Rightarrow> nap" where "nap_done z = AWAKE"

definition nap_wake :: "nap \<Rightarrow> nap" where
  "nap_wake z = (case z of ARMED \<Rightarrow> TOKEN | ASLEEP \<Rightarrow> AWAKE | _ \<Rightarrow> z)"

definition nap_block :: "nap \<Rightarrow> nap" where
  "nap_block z = (if z = TOKEN then AWAKE else ASLEEP)"

text \<open>
  Where a client stands.  \<open>P_TOP q\<close>, \<open>P_TURN q\<close>, \<open>P_NAP q\<close>, \<open>P_SLEPT q\<close>: the loop of \<open>ep_claim\<close>, before
  \<open>task_prepare_block\<close>, before the lock, before the block, in the block; \<open>q\<close> is \<open>queued\<close>, and the second
  flag of the last two says that the turn prepared.  The others are in \<open>chan_call_impl\<close> with the claim.
\<close>

datatype pc = P_OUT | P_TOP bool | P_TURN bool | P_NAP bool bool | P_SLEPT bool bool
  | P_COPY | P_OPEN | P_ARMED | P_WAIT | P_BLOCKED | P_CHECK | P_RECHECK | P_BACK int

text \<open>Where the owner stands in \<open>chan_serve_wait\<close>, and whether it has read the request, exits or is dead.\<close>

datatype srv_pc = S_TOP | S_LOOP | S_TEST | S_BLOCK | S_BLOCKED | S_GOT | S_BUSY bytes | S_EXIT | S_DEAD

record csys =
  cs_ep :: endpoint
  cs_pc :: "nat \<Rightarrow> pc"
  cs_nap :: "nat \<Rightarrow> nap"
  cs_srv :: srv_pc
  cs_wakes :: "nat list"
  cs_req :: "nat \<Rightarrow> bytes"

definition owner :: "csys \<Rightarrow> nat" where
  "owner s = nat (ep_owner (cs_ep s))"

section \<open>Steps\<close>

definition owe :: "int \<Rightarrow> csys \<Rightarrow> csys" where
  "owe pid s = (if pid < 0 then s else s\<lparr>cs_wakes := nat pid # cs_wakes s\<rparr>)"

definition at :: "nat \<Rightarrow> pc \<Rightarrow> csys \<Rightarrow> csys" where
  "at i p s = s\<lparr>cs_pc := (cs_pc s)(i := p)\<rparr>"

definition nap_set :: "nat \<Rightarrow> (nap \<Rightarrow> nap) \<Rightarrow> csys \<Rightarrow> csys" where
  "nap_set i f s = s\<lparr>cs_nap := (cs_nap s)(i := f (cs_nap s i))\<rparr>"

text \<open>A task delivers a wake it owes, and the clock ends a sleep that has a deadline.\<close>

definition wake_step :: "nat \<Rightarrow> csys \<Rightarrow> csys option" where
  "wake_step i s =
     (if i \<in> set (cs_wakes s) then Some (nap_set i nap_wake (s\<lparr>cs_wakes := remove1 i (cs_wakes s)\<rparr>)) else None)"

definition timer_step :: "nat \<Rightarrow> csys \<Rightarrow> csys option" where
  "timer_step i s =
     (case (cs_pc s i, cs_nap s i) of
        (P_SLEPT q armed, ASLEEP) \<Rightarrow> Some (nap_set i nap_wake s)
      | _ \<Rightarrow> None)"

text \<open>A client starts a call with a wait of \<open>wait_ms\<close>.\<close>

definition enter_step :: "nat \<Rightarrow> nat \<Rightarrow> bytes \<Rightarrow> csys \<Rightarrow> csys option" where
  "enter_step i wait_ms req s =
     (if cs_pc s i \<noteq> P_OUT \<or> i = owner s then None
      else if call_refused (cs_ep s) False False (length req) False then Some s
      else
        (case claim_enter wait_ms (int i) (int i) True False (cs_ep s) of
           (r, ep) \<Rightarrow>
             Some (at i (case r of CLAIMED \<Rightarrow> P_COPY | REFUSED \<Rightarrow> P_OUT | WAITING q \<Rightarrow> P_TOP q)
               (s\<lparr>cs_ep := ep, cs_req := (cs_req s)(i := req)\<rparr>))))"

text \<open>The claim's loop and the call, one step of client \<open>i\<close>; \<open>flag\<close> is the step's outside answer.\<close>

definition claim_step :: "nat \<Rightarrow> bool \<Rightarrow> csys \<Rightarrow> csys option" where
  "claim_step i flag s =
     (case cs_pc s i of
        P_TOP q \<Rightarrow> Some (at i (P_TURN q) (if q then nap_set i nap_prepare s else s))
      | P_TURN q \<Rightarrow>
          (case claim_turn (int i) (int i) flag q (cs_ep s) of
             (r, ep) \<Rightarrow>
               let s1 = s\<lparr>cs_ep := ep\<rparr>
               in Some (case r of
                    CLAIMED \<Rightarrow> at i P_COPY (if q then nap_set i nap_done s1 else s1)
                  | REFUSED \<Rightarrow> at i P_OUT (nap_set i nap_done s1)
                  | WAITING q' \<Rightarrow> at i (P_NAP q' q) s1))
      | P_NAP q armed \<Rightarrow>
          Some (at i (if cs_nap s i = TOKEN then P_TOP q else P_SLEPT q armed) (nap_set i nap_block s))
      | P_SLEPT q armed \<Rightarrow> if cs_nap s i = ASLEEP then None else Some (at i (P_TOP q) s)
      | _ \<Rightarrow> None)"

definition call_step :: "nat \<Rightarrow> bool \<Rightarrow> csys \<Rightarrow> csys option" where
  "call_step i flag s =
     (case cs_pc s i of
        P_COPY \<Rightarrow>
          let s1 = s\<lparr>cs_ep := copy_in (cs_req s i) (cs_ep s)\<rparr>
          in Some (at i (if cs_srv s = S_DEAD \<or> flag then P_BACK (-1) else P_OPEN) s1)
      | P_OPEN \<Rightarrow> Some (at i P_ARMED (nap_set i nap_prepare s))
      | P_ARMED \<Rightarrow>
          Some (owe (ep_owner (cs_ep s))
            (at i P_WAIT (s\<lparr>cs_ep := call_publish (int i) (length (cs_req s i)) (cs_ep s)\<rparr>)))
      | P_WAIT \<Rightarrow> Some (at i (if cs_nap s i = TOKEN then P_CHECK else P_BLOCKED) (nap_set i nap_block s))
      | P_BLOCKED \<Rightarrow> if cs_nap s i = ASLEEP then None else Some (at i P_CHECK s)
      | P_CHECK \<Rightarrow>
          if call_answered (int i) (cs_ep s) then Some (at i (P_BACK (ep_reply_len (cs_ep s))) (nap_set i nap_done s))
          else Some (at i P_RECHECK (nap_set i nap_prepare s))
      | P_RECHECK \<Rightarrow>
          if call_answered (int i) (cs_ep s) then Some (at i (P_BACK (ep_reply_len (cs_ep s))) (nap_set i nap_done s))
          else Some (at i P_WAIT s)
      | P_BACK r \<Rightarrow>
          (case release_locked (\<lambda>_. True) (cs_ep s) of
             (pid, ep) \<Rightarrow> Some (owe pid (at i P_OUT (s\<lparr>cs_ep := ep\<rparr>))))
      | _ \<Rightarrow> None)"

definition reply_step :: "(bytes \<Rightarrow> bytes) \<Rightarrow> bytes \<Rightarrow> csys \<Rightarrow> csys" where
  "reply_step srv xs s =
     (case chan_serve_reply_copy (srv xs) (cs_ep s) of
        (caller, ep) \<Rightarrow> owe caller (s\<lparr>cs_ep := ep, cs_srv := S_TOP\<rparr>))"

definition serve_step :: "(bytes \<Rightarrow> bytes) \<Rightarrow> csys \<Rightarrow> csys option" where
  "serve_step srv s =
     (case cs_srv s of
        S_TOP \<Rightarrow> Some (s\<lparr>cs_srv := (if serve_ready (cs_ep s) = None then S_LOOP else S_GOT)\<rparr>)
      | S_LOOP \<Rightarrow> Some (nap_set (owner s) nap_prepare (s\<lparr>cs_srv := S_TEST\<rparr>))
      | S_TEST \<Rightarrow>
          Some (if serve_ready (cs_ep s) = None then s\<lparr>cs_srv := S_BLOCK\<rparr>
                else nap_set (owner s) nap_done (s\<lparr>cs_srv := S_GOT\<rparr>))
      | S_BLOCK \<Rightarrow>
          Some (nap_set (owner s) nap_block (s\<lparr>cs_srv := (if cs_nap s (owner s) = TOKEN then S_LOOP else S_BLOCKED)\<rparr>))
      | S_BLOCKED \<Rightarrow> if cs_nap s (owner s) = ASLEEP then None else Some (s\<lparr>cs_srv := S_LOOP\<rparr>)
      | S_GOT \<Rightarrow> Some (s\<lparr>cs_srv := S_BUSY (serve_copy (ep_req_len (cs_ep s)) (ep_req_len (cs_ep s)) (cs_ep s))\<rparr>)
      | S_BUSY xs \<Rightarrow> Some (reply_step srv xs s)
      | _ \<Rightarrow> None)"

text \<open>
  The owner exits: \<open>chan_owner_exited\<close> first, and later, in \<open>task_exit\<close>, the state \<open>TASK_DEAD\<close>.  It is in no
  queue and holds no claim of its own endpoint.
\<close>

definition exit_step :: "csys \<Rightarrow> csys option" where
  "exit_step s =
     (case cs_srv s of
        S_EXIT \<Rightarrow> Some (s\<lparr>cs_srv := S_DEAD\<rparr>)
      | S_DEAD \<Rightarrow> None
      | p \<Rightarrow>
          if cs_nap s (owner s) = ASLEEP then None
          else (case exit_owner (ep_owner (cs_ep s)) (cs_ep s) of
                  (caller, ep) \<Rightarrow> Some (owe caller (s\<lparr>cs_ep := ep, cs_srv := S_EXIT\<rparr>))))"

datatype action = Enter nat nat bytes | Claim nat bool | Call nat bool | Serve | Wake nat | Timer nat | Exit

fun chan_step :: "(bytes \<Rightarrow> bytes) \<Rightarrow> action \<Rightarrow> csys \<Rightarrow> csys option" where
  "chan_step srv (Enter i wait_ms req) s = enter_step i wait_ms req s"
| "chan_step srv (Claim i late) s = claim_step i late s"
| "chan_step srv (Call i cycle) s = call_step i cycle s"
| "chan_step srv Serve s = serve_step srv s"
| "chan_step srv (Wake i) s = wake_step i s"
| "chan_step srv (Timer i) s = timer_step i s"
| "chan_step srv Exit s = exit_step s"

fun chan_run :: "(bytes \<Rightarrow> bytes) \<Rightarrow> action list \<Rightarrow> csys \<Rightarrow> csys option" where
  "chan_run srv [] s = Some s"
| "chan_run srv (a # as) s = (case chan_step srv a s of None \<Rightarrow> None | Some s' \<Rightarrow> chan_run srv as s')"

text \<open>The endpoint as \<open>chan_register_task\<close> leaves it; every task awake, no call under way.\<close>

definition chan_start :: "endpoint \<Rightarrow> csys" where
  "chan_start ep = \<lparr>cs_ep = ep, cs_pc = (\<lambda>_. P_OUT), cs_nap = (\<lambda>_. AWAKE), cs_srv = S_TOP, cs_wakes = [], cs_req = (\<lambda>_. [])\<rparr>"

definition fresh_ep :: "nat \<Rightarrow> endpoint \<Rightarrow> bool" where
  "fresh_ep own ep \<longleftrightarrow> ep_in_use ep \<and> ep_owner ep = int own \<and> \<not> ep_busy ep \<and> ep_wq_head ep < CHAN_WAITQ_LEN
     \<and> ep_wq_len ep = 0 \<and> length (ep_wq ep) = CHAN_WAITQ_LEN \<and> ep_handed ep = -1 \<and> ep_caller ep = -1
     \<and> \<not> ep_pending ep \<and> ep_handler ep = None
     \<and> length (ep_req_buf ep) = ep_req_cap ep \<and> length (ep_resp_buf ep) = ep_resp_cap ep"

inductive chan_reach :: "(bytes \<Rightarrow> bytes) \<Rightarrow> csys \<Rightarrow> bool" for srv :: "bytes \<Rightarrow> bytes" where
  start: "fresh_ep own ep \<Longrightarrow> chan_reach srv (chan_start ep)"
| step: "chan_reach srv s \<Longrightarrow> chan_step srv a s = Some s' \<Longrightarrow> chan_reach srv s'"

lemma chan_reach_run: "chan_reach srv s \<Longrightarrow> chan_run srv as s = Some s' \<Longrightarrow> chan_reach srv s'"
  by (induction "as" arbitrary: s) (auto split: option.splits intro: chan_reach.step)

section \<open>The scheduler's side\<close>

text \<open>
  What a task's entry in the task table says of it, and that the scheduler's calls act on it as the
  steps say.  A task that blocks without having prepared is only marked blocked.
\<close>

definition nap_of :: "task \<Rightarrow> nap" where
  "nap_of t = (if t_state t = TASK_BLOCKED then ASLEEP
     else if t_armed t then (if t_pending t then TOKEN else ARMED) else AWAKE)"

lemma nap_of_prepare:
  assumes "sc_active s" "sched_has_task h s" "cur h s = int p" "p < length (sc_tasks s)" "t_state (tget s p) = TASK_RUNNING"
  shows "nap_of (tget (task_prepare_block h s) p) = nap_prepare (nap_of (tget s p))"
  using assms by (simp add: task_prepare_block_def nap_of_def nap_prepare_def tget_def tset_def)

lemma nap_of_done:
  assumes "sc_active s" "sched_has_task h s" "cur h s = int p" "p < length (sc_tasks s)" "t_state (tget s p) = TASK_RUNNING"
  shows "nap_of (tget (task_wait_done h s) p) = nap_done (nap_of (tget s p))"
  using assms by (simp add: task_wait_done_def nap_of_def nap_done_def tget_def tset_def)

lemma nap_of_wake:
  assumes "sc_active s" "pid_ok (int p)" "p < length (sc_tasks s)"
  shows "nap_of (tget (snd (task_unblock (int p) s)) p) = nap_wake (nap_of (tget s p))"
  using assms by (auto simp: task_unblock_def nap_of_def nap_wake_def tget_def tset_def split: nap.splits)

lemma nap_of_wake_other: "q \<noteq> p \<Longrightarrow> tget (snd (task_unblock (int p) s)) q = tget s q"
  by (simp add: task_unblock_def tget_def tset_def)

text \<open>The block of a task that has its token ends in the block itself; of any other, not.\<close>

lemma nap_of_block:
  assumes "cur h s = int p" "t_state (tget s p) = TASK_RUNNING" "t_pending (tget s p) \<longrightarrow> t_armed (tget s p)"
  shows "fst (switch_locked h now here True s) = SWITCH_WOKEN \<longleftrightarrow> nap_of (tget s p) = TOKEN"
proof -
  have "nap_of (tget s p) = TOKEN \<longleftrightarrow> t_pending (tget s p)" using assms(2,3) by (simp add: nap_of_def)
  then show ?thesis using assms(1) by (simp add: switch_locked_def switch_commit_def Let_def split: prod.splits)
qed

lemma nap_of_token:
  assumes "cur h s = int p" "p < length (sc_tasks s)" "t_state (tget s p) = TASK_RUNNING" "nap_of (tget s p) = TOKEN"
  shows "nap_of (tget (snd (switch_locked h now here True s)) p) = nap_block TOKEN"
proof -
  have "t_pending (tget s p)" using assms(3,4) by (simp add: nap_of_def split: if_splits)
  then show ?thesis using assms(1-3) by (simp add: switch_locked_def Let_def nap_of_def nap_block_def tget_def tset_def)
qed

end
