(* ===== verification/Chan_Queue.thy ===== *)
theory Chan_Queue
  imports Chan Fifo
begin

text \<open>
  The ring of waiting tasks of an endpoint as a list, oldest first: what joining, leaving and releasing do
  to it, and that it is a first-come first-served queue.
\<close>

section \<open>The ring as a list\<close>

definition wq_list :: "endpoint \<Rightarrow> int list" where
  "wq_list ep = map (\<lambda>k. ep_wq ep ! ((ep_wq_head ep + k) mod CHAN_WAITQ_LEN)) [0..<ep_wq_len ep]"

definition wq_ok :: "endpoint \<Rightarrow> bool" where
  "wq_ok ep \<longleftrightarrow> length (ep_wq ep) = 8 \<and> ep_wq_head ep < 8 \<and> ep_wq_len ep \<le> 8"

lemma wq_list_length [simp]: "length (wq_list ep) = ep_wq_len ep"
  by (simp add: wq_list_def)

lemma wq_list_Nil: "wq_list ep = [] \<longleftrightarrow> ep_wq_len ep = 0"
  by (simp add: wq_list_def)

lemma ring_slot: "j < 8 \<Longrightarrow> k < 8 \<Longrightarrow> (h + j) mod 8 = (h + k) mod (8 :: nat) \<longleftrightarrow> j = k"
proof
  assume "j < 8" and "k < 8" and "(h + j) mod 8 = (h + k) mod 8"
  then obtain q r where "j + 8 * q = k + 8 * r" by (auto simp: nat_mod_eq_iff)
  then have "(j + 8 * q) mod 8 = (k + 8 * r) mod 8" by simp
  then show "j = k" using \<open>j < 8\<close> \<open>k < 8\<close> by simp
qed simp

lemma wq_list_cong:
  "ep_wq ep' = ep_wq ep \<Longrightarrow> ep_wq_head ep' = ep_wq_head ep \<Longrightarrow> ep_wq_len ep' = ep_wq_len ep \<Longrightarrow> wq_list ep' = wq_list ep"
  by (simp add: wq_list_def)

lemma wq_push_list: "wq_ok ep \<Longrightarrow> ep_wq_len ep < 8 \<Longrightarrow> wq_list (wq_push p ep) = wq_list ep @ [p]"
  by (rule nth_equalityI) (auto simp: wq_list_def wq_push_def wq_ok_def CHAN_WAITQ_LEN_def nth_append nth_list_update ring_slot less_Suc_eq)

lemma wq_push_ok: "wq_ok ep \<Longrightarrow> ep_wq_len ep < 8 \<Longrightarrow> wq_ok (wq_push p ep)"
  by (simp add: wq_ok_def wq_push_def)

text \<open>The loop of \<open>wq_remove\<close> after \<open>i\<close> turns: the first entries are the ones kept, the later ones untouched.\<close>

lemma wq_keep_inv:
  fixes p :: int and wq0 :: "int list"
  assumes "length wq0 = 8" and "i \<le> 8"
  shows "case foldl (wq_keep p h) (wq0, 0) [0..<i] of (wq, kept) \<Rightarrow>
    length wq = 8 \<and> kept \<le> i
    \<and> map (\<lambda>k. wq ! ((h + k) mod 8)) [0..<kept] = filter (\<lambda>w. w \<noteq> p) (map (\<lambda>k. wq0 ! ((h + k) mod 8)) [0..<i])
    \<and> (\<forall>m. i \<le> m \<and> m < 8 \<longrightarrow> wq ! ((h + m) mod 8) = wq0 ! ((h + m) mod 8))"
  using assms(2)
proof (induction i)
  case (Suc i)
  obtain wq kept where f: "foldl (wq_keep p h) (wq0, 0) [0..<i] = (wq, kept)" by (rule prod.exhaust)
  have ih: "length wq = 8" "kept \<le> i"
    "map (\<lambda>k. wq ! ((h + k) mod 8)) [0..<kept] = filter (\<lambda>w. w \<noteq> p) (map (\<lambda>k. wq0 ! ((h + k) mod 8)) [0..<i])"
    "i \<le> m \<Longrightarrow> m < 8 \<Longrightarrow> wq ! ((h + m) mod 8) = wq0 ! ((h + m) mod 8)" for m
    using Suc f by simp_all
  define w where "w = wq0 ! ((h + i) mod 8)"
  have w: "wq ! ((h + i) mod 8) = w" using ih(4) [of i] Suc.prems by (simp add: w_def)
  have step: "foldl (wq_keep p h) (wq0, 0) [0..<Suc i] =
      (if w \<noteq> p then (wq[(h + kept) mod 8 := w], kept + 1) else (wq, kept))"
    by (simp add: f wq_keep_def CHAN_WAITQ_LEN_def w)
  show ?case
  proof (cases "w = p")
    case True
    with ih show ?thesis unfolding step by (simp add: w_def)
  next
    case False
    have other: "m < 8 \<Longrightarrow> m \<noteq> kept \<Longrightarrow> wq[(h + kept) mod 8 := w] ! ((h + m) mod 8) = wq ! ((h + m) mod 8)" for m
      using ring_slot [of kept m h] ih(2) Suc.prems by (simp add: nth_list_update)
    have "map (\<lambda>k. wq[(h + kept) mod 8 := w] ! ((h + k) mod 8)) [0..<kept] = map (\<lambda>k. wq ! ((h + k) mod 8)) [0..<kept]"
      using other ih(2) Suc.prems by auto
    then have "map (\<lambda>k. wq[(h + kept) mod 8 := w] ! ((h + k) mod 8)) [0..<Suc kept]
        = filter (\<lambda>w. w \<noteq> p) (map (\<lambda>k. wq0 ! ((h + k) mod 8)) [0..<i]) @ [w]"
      using ih(1,3) by simp
    then show ?thesis using ih False other Suc.prems unfolding step by (auto simp: w_def)
  qed
qed (use assms in simp)

lemma wq_remove_list: "wq_ok ep \<Longrightarrow> wq_list (wq_remove p ep) = filter (\<lambda>w. w \<noteq> p) (wq_list ep)"
  using wq_keep_inv [of "ep_wq ep" "ep_wq_len ep" "ep_wq_head ep" p]
  by (auto simp: wq_list_def wq_remove_def wq_ok_def CHAN_WAITQ_LEN_def split: prod.splits)

lemma wq_remove_ok: "wq_ok ep \<Longrightarrow> wq_ok (wq_remove p ep)"
  using wq_keep_inv [of "ep_wq ep" "ep_wq_len ep" "ep_wq_head ep" p]
  by (auto simp: wq_remove_def wq_ok_def split: prod.splits)

lemma wq_keep_absent:
  "p \<notin> (\<lambda>k. wq ! ((h + k) mod 8)) ` {..<i} \<Longrightarrow> foldl (wq_keep p h) (wq, 0) [0..<i] = (wq, i)"
  by (induction i) (auto simp: wq_keep_def CHAN_WAITQ_LEN_def lessThan_Suc)

lemma wq_remove_absent: "p \<notin> set (wq_list ep) \<Longrightarrow> wq_remove p ep = ep"
  using wq_keep_absent [of p "ep_wq ep" "ep_wq_head ep" "ep_wq_len ep"]
  by (simp add: wq_remove_def wq_list_def CHAN_WAITQ_LEN_def atLeast0LessThan)

section \<open>Releasing\<close>

lemma wq_list_pop:
  "wq_ok ep \<Longrightarrow> 0 < ep_wq_len ep \<Longrightarrow>
   wq_list ep = ep_wq ep ! ep_wq_head ep
     # wq_list (ep\<lparr>ep_wq_head := (ep_wq_head ep + 1) mod CHAN_WAITQ_LEN, ep_wq_len := ep_wq_len ep - 1\<rparr>)"
  by (rule nth_equalityI)
    (auto simp: wq_list_def wq_ok_def CHAN_WAITQ_LEN_def nth_Cons mod_simps split: nat.splits)

text \<open>Who gets the endpoint: the oldest waiter still alive; the dead ones in front of it are dropped.\<close>

lemma release_locked_list:
  assumes "wq_ok ep"
  shows "case dropWhile (\<lambda>p. \<not> alive p) (wq_list ep) of
      [] \<Rightarrow> \<exists>ep'. release_locked alive ep = (-1, ep') \<and> wq_ok ep' \<and> wq_list ep' = [] \<and> \<not> ep_busy ep' \<and> ep_holder ep' = -1
              \<and> ep_handed ep' = ep_handed ep
    | p # ps \<Rightarrow> \<exists>ep'. release_locked alive ep = (p, ep') \<and> wq_ok ep' \<and> wq_list ep' = ps
              \<and> ep_busy ep' = ep_busy ep \<and> ep_holder ep' = p \<and> ep_handed ep' = p"
  using assms
proof (induction alive ep rule: release_locked.induct)
  case (1 alive ep)
  show ?case
  proof (cases "ep_wq_len ep = 0")
    case True
    then show ?thesis using "1.prems" by (simp add: wq_list_def release_locked.simps [of _ ep] wq_ok_def)
  next
    case False
    define ep1 where "ep1 = ep\<lparr>ep_wq_head := (ep_wq_head ep + 1) mod CHAN_WAITQ_LEN, ep_wq_len := ep_wq_len ep - 1\<rparr>"
    define p where "p = ep_wq ep ! ep_wq_head ep"
    have l: "wq_list ep = p # wq_list ep1" using wq_list_pop [OF "1.prems"] False by (simp add: p_def ep1_def)
    have ok1: "wq_ok ep1" using "1.prems" by (auto simp: wq_ok_def ep1_def CHAN_WAITQ_LEN_def)
    have r: "release_locked alive ep = (if \<not> alive p then release_locked alive ep1 else (p, ep1\<lparr>ep_handed := p, ep_holder := p\<rparr>))"
      using False by (subst release_locked.simps) (simp add: p_def ep1_def Let_def)
    show ?thesis
    proof (cases "alive p")
      case True
      have "wq_list (ep1\<lparr>ep_handed := p, ep_holder := p\<rparr>) = wq_list ep1" "wq_ok (ep1\<lparr>ep_handed := p, ep_holder := p\<rparr>)"
        using ok1 by (simp_all add: wq_list_def wq_ok_def)
      with True show ?thesis by (simp add: l r) (simp add: ep1_def)
    next
      case dead: False
      have "ep_busy ep1 = ep_busy ep" "ep_handed ep1 = ep_handed ep" by (simp_all add: ep1_def)
      moreover have "release_locked alive ep = release_locked alive ep1" by (simp add: r dead)
      moreover have "dropWhile (\<lambda>p. \<not> alive p) (wq_list ep) = dropWhile (\<lambda>p. \<not> alive p) (wq_list ep1)" by (simp add: l dead)
      ultimately show ?thesis using "1.IH" [OF False p_def ep1_def dead ok1]
        by (cases "dropWhile (\<lambda>p. \<not> alive p) (wq_list ep1)") (simp_all only: list.case)
    qed
  qed
qed

lemma release_alive:
  assumes "wq_ok ep"
  shows "wq_list ep = [] \<Longrightarrow> \<exists>ep'. release_locked (\<lambda>_. True) ep = (-1, ep') \<and> wq_ok ep' \<and> wq_list ep' = []
      \<and> \<not> ep_busy ep' \<and> ep_holder ep' = -1 \<and> ep_handed ep' = ep_handed ep"
    and "wq_list ep = p # ps \<Longrightarrow> \<exists>ep'. release_locked (\<lambda>_. True) ep = (p, ep') \<and> wq_ok ep' \<and> wq_list ep' = ps
      \<and> ep_busy ep' = ep_busy ep \<and> ep_holder ep' = p \<and> ep_handed ep' = p"
  using release_locked_list [OF assms, of "\<lambda>_. True"] by simp_all

text \<open>The part of an endpoint that a release and the queue's operations leave alone.\<close>

definition same_call :: "endpoint \<Rightarrow> endpoint \<Rightarrow> bool" where
  "same_call ep ep' \<longleftrightarrow> ep_owner ep' = ep_owner ep \<and> ep_caller ep' = ep_caller ep \<and> ep_pending ep' = ep_pending ep
     \<and> ep_req_len ep' = ep_req_len ep \<and> ep_reply_len ep' = ep_reply_len ep \<and> ep_req_buf ep' = ep_req_buf ep
     \<and> ep_resp_buf ep' = ep_resp_buf ep \<and> ep_req_cap ep' = ep_req_cap ep \<and> ep_resp_cap ep' = ep_resp_cap ep
     \<and> ep_in_use ep' = ep_in_use ep \<and> ep_handler ep' = ep_handler ep"

lemma same_call_refl [simp]: "same_call ep ep"
  by (simp add: same_call_def)

lemma same_call_trans: "same_call a b \<Longrightarrow> same_call b c \<Longrightarrow> same_call a c"
  by (simp add: same_call_def)

lemma same_call_push [simp]: "same_call ep (wq_push p ep)"
  by (simp add: same_call_def wq_push_def)

lemma same_call_remove [simp]: "same_call ep (wq_remove p ep)"
  by (simp add: same_call_def wq_remove_def split: prod.splits)

lemma same_call_release: "same_call ep (snd (release_locked alive ep))"
proof (induction alive ep rule: release_locked.induct)
  case (1 alive ep)
  show ?case
  proof (cases "ep_wq_len ep \<noteq> 0 \<and> \<not> alive (ep_wq ep ! ep_wq_head ep)")
    case True
    let ?ep1 = "ep\<lparr>ep_wq_head := (ep_wq_head ep + 1) mod CHAN_WAITQ_LEN, ep_wq_len := ep_wq_len ep - 1\<rparr>"
    have "same_call ?ep1 (snd (release_locked alive ?ep1))" using "1.IH" True by simp
    moreover have "release_locked alive ep = release_locked alive ?ep1"
      using True by (subst release_locked.simps) (simp add: Let_def)
    ultimately show ?thesis by (simp add: same_call_def)
  next
    case False
    then show ?thesis by (subst release_locked.simps) (auto simp: Let_def same_call_def)
  qed
qed

lemma same_call_turn: "same_call ep (snd (claim_turn ctx me late q ep))"
  by (auto simp: claim_turn_def Let_def same_call_def wq_push_def wq_remove_def split: prod.splits)

lemma same_call_enter: "same_call ep (snd (claim_enter wait_ms ctx me active in_handler ep))"
  by (simp add: claim_enter_def same_call_def wq_push_def)

section \<open>First come, first served\<close>

definition q_holds :: "endpoint \<Rightarrow> int list \<Rightarrow> bool" where
  "q_holds ep ws \<longleftrightarrow> wq_ok ep \<and> wq_list ep = ws \<and> distinct ws \<and> (\<forall>p \<in> set ws. 0 \<le> p)"

definition q_room :: "endpoint \<Rightarrow> int list \<Rightarrow> int \<Rightarrow> bool" where
  "q_room ep ws p \<longleftrightarrow> length ws < CHAN_WAITQ_LEN \<and> 0 \<le> p"

definition q_pop :: "endpoint \<Rightarrow> (int \<times> endpoint) option" where
  "q_pop ep = (case release_locked (\<lambda>_. True) ep of (p, ep') \<Rightarrow> if p < 0 then None else Some (p, ep'))"

definition q_remove :: "endpoint \<Rightarrow> int \<Rightarrow> (bool \<times> endpoint) option" where
  "q_remove ep p = Some (p \<in> set (wq_list ep), wq_remove p ep)"

lemma q_holds_pop:
  "q_holds ep [] \<Longrightarrow> q_pop ep = None"
  "q_holds ep (p # ps) \<Longrightarrow> \<exists>ep'. q_pop ep = Some (p, ep') \<and> q_holds ep' ps"
  using release_alive [of ep] by (auto simp: q_holds_def q_pop_def)

lemma filter_neq_remove1: "distinct xs \<Longrightarrow> filter (\<lambda>x. x \<noteq> a) xs = remove1 a xs"
  by (simp add: distinct_remove1_removeAll removeAll_filter_not_eq eq_commute)

interpretation turns: fifo q_holds q_room "\<lambda>ep p. wq_push p ep" q_pop q_remove
proof unfold_locales
  fix ep ws p
  show "q_holds ep ws \<Longrightarrow> distinct ws" by (simp add: q_holds_def)
  show "q_holds ep ws \<Longrightarrow> p \<notin> set ws \<Longrightarrow> q_room ep ws p \<Longrightarrow> q_holds (wq_push p ep) (ws @ [p])"
    using wq_push_list [of ep p] wq_push_ok [of ep p] wq_list_length [of ep]
    by (auto simp: q_holds_def q_room_def CHAN_WAITQ_LEN_def)
  show "q_holds ep [] \<Longrightarrow> q_pop ep = None" by (rule q_holds_pop)
  show "q_holds ep (p # ws) \<Longrightarrow> \<exists>ep'. q_pop ep = Some (p, ep') \<and> q_holds ep' ws" by (rule q_holds_pop)
  show "q_holds ep ws \<Longrightarrow> p \<in> set ws \<Longrightarrow> \<exists>ep'. q_remove ep p = Some (True, ep') \<and> q_holds ep' (remove1 p ws)"
    using wq_remove_list [of ep p] wq_remove_ok [of ep p] filter_neq_remove1 [of ws p] set_remove1_subset [of p ws]
    by (auto simp: q_holds_def q_remove_def distinct_remove1)
  show "q_holds ep ws \<Longrightarrow> p \<notin> set ws \<Longrightarrow> q_remove ep p = Some (False, ep)"
    using wq_remove_absent [of p ep] by (simp add: q_holds_def q_remove_def)
qed

end
