(* ===== verification/Chan_Correct.thy ===== *)
theory Chan_Correct
  imports Chan_Steps Chan_Queue
begin

text \<open>
  What holds of an endpoint in every state its clients and its owner can reach: one claim at a time, the
  queue and the hand-off agree, the call's buffers belong to the call under way, and a wake is under way to
  whoever has to be woken.
\<close>

section \<open>One claim at a time\<close>

fun in_queue :: "pc \<Rightarrow> bool" where
  "in_queue (P_TOP q) = q"
| "in_queue (P_TURN q) = q"
| "in_queue (P_NAP q armed) = q"
| "in_queue (P_SLEPT q armed) = q"
| "in_queue _ = False"

fun holding :: "pc \<Rightarrow> bool" where
  "holding P_OUT = False"
| "holding (P_TOP q) = False"
| "holding (P_TURN q) = False"
| "holding (P_NAP q armed) = False"
| "holding (P_SLEPT q armed) = False"
| "holding _ = True"

definition claim_inv :: "endpoint \<Rightarrow> (nat \<Rightarrow> pc) \<Rightarrow> bool" where
  "claim_inv ep p \<longleftrightarrow> wq_ok ep \<and> distinct (wq_list ep) \<and> (\<forall>w \<in> set (wq_list ep). 0 \<le> w)
     \<and> (\<forall>i. int i \<in> set (wq_list ep) \<longleftrightarrow> in_queue (p i) \<and> ep_handed ep \<noteq> int i)
     \<and> (ep_handed ep \<noteq> -1 \<longrightarrow> ep_busy ep \<and> (\<exists>h. ep_handed ep = int h \<and> in_queue (p h)))
     \<and> (\<not> ep_busy ep \<longrightarrow> wq_list ep = [])
     \<and> (\<forall>i. holding (p i) \<longrightarrow> ep_busy ep \<and> ep_handed ep = -1 \<and> ep_holder ep = int i)
     \<and> (ep_busy ep \<and> ep_handed ep = -1 \<longrightarrow> (\<exists>i. holding (p i)))"

lemma claim_invD:
  assumes "claim_inv ep p"
  shows "wq_ok ep" "distinct (wq_list ep)" "w \<in> set (wq_list ep) \<Longrightarrow> 0 \<le> w"
    "int i \<in> set (wq_list ep) \<longleftrightarrow> in_queue (p i) \<and> ep_handed ep \<noteq> int i"
    "ep_handed ep \<noteq> -1 \<Longrightarrow> ep_busy ep \<and> (\<exists>h. ep_handed ep = int h \<and> in_queue (p h))"
    "\<not> ep_busy ep \<Longrightarrow> wq_list ep = []"
    "holding (p i) \<Longrightarrow> ep_busy ep \<and> ep_handed ep = -1 \<and> ep_holder ep = int i"
    "ep_busy ep \<Longrightarrow> ep_handed ep = -1 \<Longrightarrow> \<exists>i. holding (p i)"
  using assms by (auto simp: claim_inv_def)

lemma one_holder: "claim_inv ep p \<Longrightarrow> holding (p i) \<Longrightarrow> holding (p j) \<Longrightarrow> i = j"
  using claim_invD(7) [of ep p i] claim_invD(7) [of ep p j] by simp

text \<open>Steps that leave the claim and the queue alone.\<close>

definition same_claim :: "endpoint \<Rightarrow> endpoint \<Rightarrow> bool" where
  "same_claim ep ep' \<longleftrightarrow> ep_wq ep' = ep_wq ep \<and> ep_wq_head ep' = ep_wq_head ep \<and> ep_wq_len ep' = ep_wq_len ep
     \<and> ep_busy ep' = ep_busy ep \<and> ep_handed ep' = ep_handed ep \<and> ep_holder ep' = ep_holder ep"

lemma same_claim_refl [simp]: "same_claim ep ep"
  by (simp add: same_claim_def)

lemma same_claim_ops [simp]:
  "same_claim ep (copy_in xs ep)" "same_claim ep (call_publish me n ep)"
  "same_claim ep (snd (chan_serve_reply_copy xs ep))" "same_claim ep (snd (exit_owner pid ep))"
  by (simp_all add: same_claim_def copy_in_def call_publish_def chan_serve_reply_copy_def chan_serve_reply_def
      exit_owner_def Let_def)

lemma same_claim_reply: "chan_serve_reply_copy xs ep = (c, ep') \<Longrightarrow> same_claim ep ep'"
  using same_claim_ops(3) [of ep xs] by simp

lemma same_claim_exit: "exit_owner pid ep = (c, ep') \<Longrightarrow> same_claim ep ep'"
  using same_claim_ops(4) [of ep pid] by simp

lemma claim_inv_same:
  assumes "claim_inv ep p" and "same_claim ep ep'"
    and "\<And>j. in_queue (p' j) = in_queue (p j) \<and> holding (p' j) = holding (p j)"
  shows "claim_inv ep' p'"
proof -
  have "wq_list ep' = wq_list ep" "wq_ok ep' = wq_ok ep"
    using assms(2) by (auto simp: same_claim_def wq_ok_def intro: wq_list_cong)
  then show ?thesis using assms unfolding claim_inv_def same_claim_def by simp
qed

lemma claim_inv_move:
  "claim_inv ep p \<Longrightarrow> same_claim ep ep' \<Longrightarrow> in_queue x = in_queue (p i) \<Longrightarrow> holding x = holding (p i) \<Longrightarrow> claim_inv ep' (p(i := x))"
  by (erule (1) claim_inv_same) simp

text \<open>The four ways in which the claim and the queue change.\<close>

lemma claim_inv_take:
  assumes "claim_inv ep p" and "\<not> ep_busy ep" and "\<not> in_queue x" and "holding x"
    and "\<not> in_queue (p i)"
  shows "claim_inv (ep\<lparr>ep_busy := True, ep_holder := int i\<rparr>) (p(i := x))"
proof -
  note d = claim_invD [OF assms(1)]
  have h: "ep_handed ep = -1" using d(5) assms(2) by blast
  have none: "\<not> holding (p j)" for j using d(7) assms(2) by blast
  have w: "wq_list (ep\<lparr>ep_busy := True, ep_holder := int i\<rparr>) = []" using d(6) [OF assms(2)] by (simp add: wq_list_def)
  have q: "\<not> in_queue (p j)" for j using d(4) [of j] d(6) [OF assms(2)] h by simp
  show ?thesis using assms d(1) none q h unfolding claim_inv_def w by (auto simp: wq_ok_def)
qed

lemma claim_inv_push:
  assumes "claim_inv ep p" and "ep_busy ep" and "ep_wq_len ep < 8" and "in_queue x" and "\<not> holding x"
    and "\<not> in_queue (p i)" and "\<not> holding (p i)"
  shows "claim_inv (wq_push (int i) ep) (p(i := x))"
proof -
  note d = claim_invD [OF assms(1)]
  have l: "wq_list (wq_push (int i) ep) = wq_list ep @ [int i]" "wq_ok (wq_push (int i) ep)"
    using wq_push_list wq_push_ok d(1) assms(3) by simp_all
  have f: "ep_busy (wq_push (int i) ep) = ep_busy ep" "ep_handed (wq_push (int i) ep) = ep_handed ep"
    "ep_holder (wq_push (int i) ep) = ep_holder ep" by (simp_all add: wq_push_def)
  have new: "int i \<notin> set (wq_list ep)" using d(4) assms(6) by simp
  have nh: "ep_handed ep \<noteq> int i" using d(5) assms(6) by fastforce
  have "\<exists>j. holding ((p(i := x)) j)" if "ep_handed ep = -1" using d(8) [OF assms(2) that] assms(7) by auto
  then show ?thesis using d new nh assms l(2) unfolding claim_inv_def l(1) f by auto
qed

lemma claim_inv_leave:
  assumes "claim_inv ep p" and "ep_handed ep \<noteq> int i" and "in_queue (p i)" and "\<not> in_queue x" and "\<not> holding x"
  shows "claim_inv (wq_remove (int i) ep) (p(i := x))"
proof -
  note d = claim_invD [OF assms(1)]
  have l: "wq_list (wq_remove (int i) ep) = filter (\<lambda>w. w \<noteq> int i) (wq_list ep)" "wq_ok (wq_remove (int i) ep)"
    using wq_remove_list wq_remove_ok d(1) by simp_all
  have f: "ep_busy (wq_remove (int i) ep) = ep_busy ep" "ep_handed (wq_remove (int i) ep) = ep_handed ep"
    "ep_holder (wq_remove (int i) ep) = ep_holder ep" by (simp_all add: wq_remove_def split: prod.splits)
  have busy: "ep_busy ep" using d(4) [of i] d(6) assms(2,3) by (cases "ep_busy ep") simp_all
  have nh: "\<not> holding (p i)" using assms(3) by (cases "p i") auto
  have "\<exists>j. holding ((p(i := x)) j)" if "ep_handed ep = -1" using d(8) [OF busy that] nh by auto
  then show ?thesis using d assms busy l(2) unfolding claim_inv_def l(1) f by auto
qed

lemma claim_inv_accept:
  assumes "claim_inv ep p" and "ep_handed ep = int i" and "\<not> in_queue x" and "holding x"
  shows "claim_inv (ep\<lparr>ep_handed := -1, ep_holder := int i\<rparr>) (p(i := x))"
proof -
  note d = claim_invD [OF assms(1)]
  have l: "wq_list (ep\<lparr>ep_handed := -1, ep_holder := int i\<rparr>) = wq_list ep" by (rule wq_list_cong) simp_all
  have ok: "wq_ok (ep\<lparr>ep_handed := -1, ep_holder := int i\<rparr>)" using d(1) by (simp add: wq_ok_def)
  have none: "\<not> holding (p j)" for j using d(7) assms(2) by fastforce
  have out: "int i \<notin> set (wq_list ep)" using d(4) assms(2) by simp
  have busy: "ep_busy ep" using d(5) assms(2) by auto
  show ?thesis using d none out busy assms ok unfolding claim_inv_def l by auto
qed

lemma claim_inv_release:
  assumes "claim_inv ep p" and "holding (p i)" and "release_locked (\<lambda>_. True) ep = (n, ep')"
  shows "claim_inv ep' (p(i := P_OUT)) \<and> ep_handed ep' = n"
proof -
  note d = claim_invD [OF assms(1)]
  have h: "ep_busy ep" "ep_handed ep = -1" "ep_holder ep = int i" using d(7) [OF assms(2)] by auto
  have none: "\<not> holding ((p(i := P_OUT)) j)" for j using one_holder [OF assms(1,2)] by auto
  have nq: "\<not> in_queue (p i)" using assms(2) by (cases "p i") auto
  show ?thesis
  proof (cases "wq_list ep")
    case Nil
    then obtain "n = -1" "wq_ok ep'" "wq_list ep' = []" "\<not> ep_busy ep'" "ep_holder ep' = -1" "ep_handed ep' = -1"
      using release_alive(1) [OF d(1) Nil] assms(3) h by auto
    moreover have "\<not> in_queue (p j)" for j using d(4) [of j] Nil h by simp
    ultimately show ?thesis using none by (auto simp: claim_inv_def)
  next
    case (Cons w ws)
    then obtain e: "n = w" "wq_ok ep'" "wq_list ep' = ws" "ep_busy ep'" "ep_holder ep' = w" "ep_handed ep' = w"
      using release_alive(2) [OF d(1) Cons] assms(3) h by auto
    have w: "0 \<le> w" using d(3) Cons by simp
    then have wj: "w = int j \<longleftrightarrow> j = nat w" for j by auto
    have "in_queue (p (nat w))" using d(4) [of "nat w"] Cons w by simp
    moreover have "nat w \<noteq> i" using calculation nq by auto
    moreover have "int j \<in> set ws \<longleftrightarrow> in_queue ((p(i := P_OUT)) j) \<and> w \<noteq> int j" for j
      using d(4) [of j] d(2) Cons h nq w by (auto simp: wj)
    moreover have "distinct ws" "\<forall>w \<in> set ws. 0 \<le> w" using d(2,3) Cons by auto
    ultimately show ?thesis using none e w unfolding claim_inv_def by (auto intro: exI [of _ "nat w"])
  qed
qed

section \<open>The call's buffers\<close>

fun calling :: "pc \<Rightarrow> bool" where
  "calling P_WAIT = True"
| "calling P_BLOCKED = True"
| "calling P_CHECK = True"
| "calling P_RECHECK = True"
| "calling _ = False"

lemma calling_holding: "calling x \<Longrightarrow> holding x"
  by (cases x) auto

text \<open>The request \<open>xs\<close> stands in the request buffer; the reply to it, of length \<open>r\<close>, in the response buffer.\<close>

definition loaded :: "endpoint \<Rightarrow> bytes \<Rightarrow> bool" where
  "loaded ep xs \<longleftrightarrow> take (length xs) (ep_req_buf ep) = xs"

definition answered :: "(bytes \<Rightarrow> bytes) \<Rightarrow> endpoint \<Rightarrow> bytes \<Rightarrow> int \<Rightarrow> bool" where
  "answered srv ep xs r \<longleftrightarrow> r = -1 \<or>
     r = int (min (length (srv xs)) (ep_resp_cap ep)) \<and> take (nat r) (ep_resp_buf ep) = take (ep_resp_cap ep) (srv xs)"

definition call_ok :: "(bytes \<Rightarrow> bytes) \<Rightarrow> endpoint \<Rightarrow> nat \<Rightarrow> bytes \<Rightarrow> pc \<Rightarrow> bool" where
  "call_ok srv ep i xs x \<longleftrightarrow> x \<noteq> P_OUT \<longrightarrow> length xs \<le> ep_req_cap ep
     \<and> (x = P_OPEN \<or> x = P_ARMED \<longrightarrow> loaded ep xs)
     \<and> (calling x \<longrightarrow> (if ep_caller ep = int i then loaded ep xs \<and> ep_req_len ep = length xs else answered srv ep xs (ep_reply_len ep)))
     \<and> (\<forall>r. x = P_BACK r \<longrightarrow> answered srv ep xs r)"

definition srv_ok :: "endpoint \<Rightarrow> (nat \<Rightarrow> bytes) \<Rightarrow> srv_pc \<Rightarrow> bool" where
  "srv_ok ep req z \<longleftrightarrow> (z = S_GOT \<longrightarrow> ep_pending ep)
     \<and> (\<forall>xs. z = S_BUSY xs \<longrightarrow> ep_pending ep \<and> (\<exists>i. ep_caller ep = int i \<and> xs = req i))"

definition call_inv :: "(bytes \<Rightarrow> bytes) \<Rightarrow> csys \<Rightarrow> bool" where
  "call_inv srv s \<longleftrightarrow> length (ep_req_buf (cs_ep s)) = ep_req_cap (cs_ep s)
     \<and> length (ep_resp_buf (cs_ep s)) = ep_resp_cap (cs_ep s)
     \<and> (ep_pending (cs_ep s) \<longleftrightarrow> ep_caller (cs_ep s) \<noteq> -1)
     \<and> (ep_caller (cs_ep s) \<noteq> -1 \<longrightarrow> (\<exists>i. ep_caller (cs_ep s) = int i \<and> calling (cs_pc s i)))
     \<and> (\<forall>i. call_ok srv (cs_ep s) i (cs_req s i) (cs_pc s i))
     \<and> srv_ok (cs_ep s) (cs_req s) (cs_srv s)"

lemma call_invD:
  assumes "call_inv srv s"
  shows "length (ep_req_buf (cs_ep s)) = ep_req_cap (cs_ep s)"
    "length (ep_resp_buf (cs_ep s)) = ep_resp_cap (cs_ep s)"
    "ep_pending (cs_ep s) \<longleftrightarrow> ep_caller (cs_ep s) \<noteq> -1"
    "ep_caller (cs_ep s) \<noteq> -1 \<Longrightarrow> \<exists>i. ep_caller (cs_ep s) = int i \<and> calling (cs_pc s i)"
    "call_ok srv (cs_ep s) i (cs_req s i) (cs_pc s i)"
    "srv_ok (cs_ep s) (cs_req s) (cs_srv s)"
  using assms by (auto simp: call_inv_def)

lemma call_ok_away: "\<not> holding x \<Longrightarrow> ep_req_cap ep' = ep_req_cap ep \<Longrightarrow> call_ok srv ep i xs x \<Longrightarrow> call_ok srv ep' i xs x"
  by (cases x) (auto simp: call_ok_def)

lemma call_ok_same: "same_call ep ep' \<Longrightarrow> call_ok srv ep' i xs x = call_ok srv ep i xs x"
  by (simp add: call_ok_def same_call_def loaded_def answered_def)

lemma srv_ok_same: "same_call ep ep' \<Longrightarrow> srv_ok ep' req z = srv_ok ep req z"
  by (simp add: srv_ok_def same_call_def)

text \<open>A client moves and the call's part of the endpoint stays as it is.\<close>

lemma call_inv_move:
  assumes "call_inv srv s" and "same_call (cs_ep s) (cs_ep s')" and "cs_pc s' = (cs_pc s)(i := x)"
    and "cs_req s' = cs_req s" and "cs_srv s' = cs_srv s"
    and "call_ok srv (cs_ep s) i (cs_req s i) x" and "calling x = calling (cs_pc s i)"
  shows "call_inv srv s'"
proof -
  note d = call_invD [OF assms(1)]
  have e: "ep_caller (cs_ep s') = ep_caller (cs_ep s)" "ep_pending (cs_ep s') = ep_pending (cs_ep s)"
    "length (ep_req_buf (cs_ep s')) = ep_req_cap (cs_ep s')" "length (ep_resp_buf (cs_ep s')) = ep_resp_cap (cs_ep s')"
    using assms(2) d(1,2) by (simp_all add: same_call_def)
  have "call_ok srv (cs_ep s') j (cs_req s' j) (cs_pc s' j)" for j
    using d(5) [of j] assms by (simp add: call_ok_same [OF assms(2)])
  moreover have "srv_ok (cs_ep s') (cs_req s') (cs_srv s')" using d(6) assms by (simp add: srv_ok_same [OF assms(2)])
  moreover have "\<exists>j. ep_caller (cs_ep s) = int j \<and> calling (cs_pc s' j)" if "ep_caller (cs_ep s) \<noteq> -1"
    using d(4) [OF that] assms(3,7) by auto
  ultimately show ?thesis using d(3) unfolding call_inv_def e by simp
qed

section \<open>The claim is kept by every step\<close>

lemma state_simps [simp]:
  "cs_ep (owe pid s) = cs_ep s" "cs_pc (owe pid s) = cs_pc s" "cs_nap (owe pid s) = cs_nap s"
  "cs_srv (owe pid s) = cs_srv s" "cs_req (owe pid s) = cs_req s"
  "cs_ep (at i x s) = cs_ep s" "cs_pc (at i x s) = (cs_pc s)(i := x)" "cs_nap (at i x s) = cs_nap s"
  "cs_srv (at i x s) = cs_srv s" "cs_req (at i x s) = cs_req s" "cs_wakes (at i x s) = cs_wakes s"
  "cs_ep (nap_set i f s) = cs_ep s" "cs_pc (nap_set i f s) = cs_pc s" "cs_nap (nap_set i f s) = (cs_nap s)(i := f (cs_nap s i))"
  "cs_srv (nap_set i f s) = cs_srv s" "cs_req (nap_set i f s) = cs_req s" "cs_wakes (nap_set i f s) = cs_wakes s"
  by (simp_all add: owe_def at_def nap_set_def)

lemma owe_wakes: "set (cs_wakes (owe pid s)) = (if pid < 0 then {} else {nat pid}) \<union> set (cs_wakes s)"
  by (simp add: owe_def)

lemma claim_inv_enter:
  assumes "claim_inv ep p" and "\<not> in_queue (p i)" "\<not> holding (p i)"
    and "claim_enter wait_ms (int i) (int i) True False ep = (r, ep')"
  shows "claim_inv ep' (p(i := (case r of CLAIMED \<Rightarrow> P_COPY | REFUSED \<Rightarrow> P_OUT | WAITING q \<Rightarrow> P_TOP q)))"
proof -
  have keep: "\<not> in_queue x \<Longrightarrow> \<not> holding x \<Longrightarrow> claim_inv ep (p(i := x))" for x
    using claim_inv_move [OF assms(1) same_claim_refl] assms(2,3) by simp
  have "ep_wq_len ep < 8 \<Longrightarrow> ep_busy ep \<Longrightarrow> claim_inv (wq_push (int i) ep) (p(i := P_TOP True))"
    using claim_inv_push [OF assms(1)] assms(2,3) by simp
  then show ?thesis
    using assms(4) claim_inv_take [OF assms(1), of P_COPY i] keep assms(2,3)
    by (auto simp: claim_enter_def CHAN_WAITQ_LEN_def split: if_splits)
qed

lemma claim_inv_turn:
  assumes "claim_inv ep p" and "p i = P_TURN q" and "claim_turn (int i) (int i) late q ep = (r, ep')"
  shows "claim_inv ep' (p(i := (case r of CLAIMED \<Rightarrow> P_COPY | REFUSED \<Rightarrow> P_OUT | WAITING q' \<Rightarrow> P_NAP q' armed)))"
proof (cases q)
  case True
  show ?thesis
  proof (cases "ep_handed ep = int i")
    case h: True
    with True assms(3) claim_inv_accept [OF assms(1) h, of P_COPY] show ?thesis by (auto simp: claim_turn_def)
  next
    case False
    have "claim_inv (wq_remove (int i) ep) (p(i := P_OUT))"
      using claim_inv_leave [OF assms(1) False, of P_OUT] assms(2) True by simp
    moreover have "claim_inv ep (p(i := P_NAP True armed))"
      using claim_inv_move [OF assms(1) same_claim_refl, of "P_NAP True armed" i] assms(2) True by simp
    ultimately show ?thesis using True False assms(3) by (auto simp: claim_turn_def split: if_splits)
  qed
next
  case False
  have nq: "\<not> in_queue (p i)" "\<not> holding (p i)" using assms(2) False by simp_all
  have keep: "\<not> in_queue x \<Longrightarrow> \<not> holding x \<Longrightarrow> claim_inv ep (p(i := x))" for x
    using claim_inv_move [OF assms(1) same_claim_refl] nq by simp
  have nh: "ep_handed ep \<noteq> int i" using claim_invD(5) [OF assms(1)] nq by fastforce
  have push: "ep_busy ep \<Longrightarrow> ep_wq_len ep < 8 \<Longrightarrow> in_queue x \<Longrightarrow> \<not> holding x \<Longrightarrow> claim_inv (wq_push (int i) ep) (p(i := x))" for x
    using claim_inv_push [OF assms(1)] nq by simp
  have leave: "claim_inv (wq_remove (int i) (wq_push (int i) ep)) (p(i := P_OUT))" if "ep_busy ep" "ep_wq_len ep < 8"
    using claim_inv_leave [OF push [OF that, of "P_TOP True"], of i P_OUT] nh by (simp add: wq_push_def)
  show ?thesis using assms(3) False claim_inv_take [OF assms(1), of P_COPY i] nq keep push leave
    by (auto simp: claim_turn_def Let_def CHAN_WAITQ_LEN_def split: if_splits)
qed

lemma claim_inv_claim_step:
  assumes "claim_inv (cs_ep s) (cs_pc s)" and "claim_step i flag s = Some s'"
  shows "claim_inv (cs_ep s') (cs_pc s')"
proof -
  note mv = claim_inv_move [OF assms(1) same_claim_refl]
  show ?thesis
  proof (cases "cs_pc s i")
    case (P_TURN q)
    obtain r ep where t: "claim_turn (int i) (int i) flag q (cs_ep s) = (r, ep)" by (rule prod.exhaust)
    from claim_inv_turn [OF assms(1) P_TURN t, of q] assms(2) P_TURN t show ?thesis
      by (auto simp: claim_step_def Let_def split: claim.splits)
  qed (use assms mv [of _ i] in \<open>auto simp: claim_step_def split: if_splits\<close>)
qed

lemma claim_inv_call_step:
  assumes "claim_inv (cs_ep s) (cs_pc s)" and "call_step i flag s = Some s'"
  shows "claim_inv (cs_ep s') (cs_pc s')"
proof -
  note mv = claim_inv_move [OF assms(1)]
  show ?thesis
  proof (cases "cs_pc s i")
    case (P_BACK r)
    obtain n ep where t: "release_locked (\<lambda>_. True) (cs_ep s) = (n, ep)" by (rule prod.exhaust)
    from claim_inv_release [OF assms(1) _ t, of i] assms(2) P_BACK t show ?thesis by (auto simp: call_step_def)
  qed (use assms mv [of _ _ i] in \<open>auto simp: call_step_def Let_def split: if_splits\<close>)
qed

lemma serve_step_claim: "serve_step srv s = Some s' \<Longrightarrow> same_claim (cs_ep s) (cs_ep s') \<and> cs_pc s' = cs_pc s"
  by (auto simp: serve_step_def reply_step_def split: srv_pc.splits if_splits prod.splits dest: same_claim_reply)

lemma exit_step_claim: "exit_step s = Some s' \<Longrightarrow> same_claim (cs_ep s) (cs_ep s') \<and> cs_pc s' = cs_pc s"
  by (auto simp: exit_step_def split: srv_pc.splits if_splits prod.splits dest: same_claim_exit)

lemma wake_step_idle: "wake_step i s = Some s' \<Longrightarrow> cs_ep s' = cs_ep s \<and> cs_pc s' = cs_pc s \<and> cs_req s' = cs_req s \<and> cs_srv s' = cs_srv s"
  by (auto simp: wake_step_def split: if_splits)

lemma timer_step_idle: "timer_step i s = Some s' \<Longrightarrow> cs_ep s' = cs_ep s \<and> cs_pc s' = cs_pc s \<and> cs_req s' = cs_req s \<and> cs_srv s' = cs_srv s"
  by (auto simp: timer_step_def split: pc.splits nap.splits)

lemma claim_inv_step:
  assumes "claim_inv (cs_ep s) (cs_pc s)" and "chan_step srv a s = Some s'"
  shows "claim_inv (cs_ep s') (cs_pc s')"
proof (cases a)
  case (Enter i wait_ms req)
  obtain r ep where t: "claim_enter wait_ms (int i) (int i) True False (cs_ep s) = (r, ep)" by (rule prod.exhaust)
  from claim_inv_enter [OF assms(1) _ _ t] assms Enter t show ?thesis by (auto simp: enter_step_def split: if_splits)
next
  case Serve
  then show ?thesis using claim_inv_same [OF assms(1)] assms(2) serve_step_claim [of srv s s'] by simp
next
  case Exit
  then show ?thesis using claim_inv_same [OF assms(1)] assms(2) exit_step_claim [of s s'] by simp
next
  case (Claim i flag)
  with assms show ?thesis by (auto intro: claim_inv_claim_step)
next
  case (Call i flag)
  with assms show ?thesis by (auto intro: claim_inv_call_step)
qed (use assms wake_step_idle timer_step_idle in auto)

section \<open>The buffers belong to the call under way\<close>

lemma call_ok_length: "call_ok srv ep i xs x \<Longrightarrow> x \<noteq> P_OUT \<Longrightarrow> length xs \<le> ep_req_cap ep"
  by (simp add: call_ok_def)

lemma call_ok_simple:
  "length xs \<le> ep_req_cap ep \<Longrightarrow> \<not> calling x \<Longrightarrow> x \<notin> {P_OPEN, P_ARMED} \<Longrightarrow> (\<forall>r. x \<noteq> P_BACK r) \<Longrightarrow> call_ok srv ep i xs x"
  by (simp add: call_ok_def)

text \<open>Only the holder of the claim can be in the middle of a call.\<close>

lemma no_caller:
  assumes "call_inv srv s" and "claim_inv (cs_ep s) (cs_pc s)" and "holding (cs_pc s i)" and "\<not> calling (cs_pc s i)"
  shows "ep_caller (cs_ep s) = -1"
  using call_invD(4) [OF assms(1)] one_holder [OF assms(2,3)] calling_holding assms(4) by blast

lemma others_ok:
  assumes "call_inv srv s" and "claim_inv (cs_ep s) (cs_pc s)" and "holding (cs_pc s i)" and "j \<noteq> i"
    and "ep_req_cap ep' = ep_req_cap (cs_ep s)"
  shows "call_ok srv ep' j (cs_req s j) (cs_pc s j)"
  using call_ok_away [OF _ assms(5) call_invD(5) [OF assms(1)]] one_holder [OF assms(2,3)] assms(4) by blast

lemma call_inv_enter:
  assumes "call_inv srv s" and "enter_step i wait_ms req s = Some s'"
  shows "call_inv srv s'"
proof -
  note d = call_invD [OF assms(1)]
  have out: "cs_pc s i = P_OUT" using assms(2) by (auto simp: enter_step_def split: if_splits)
  show ?thesis
  proof (cases "call_refused (cs_ep s) False False (length req) False")
    case True
    with assms out show ?thesis by (auto simp: enter_step_def split: if_splits)
  next
    case False
    obtain r ep where t: "claim_enter wait_ms (int i) (int i) True False (cs_ep s) = (r, ep)" by (rule prod.exhaust)
    define x where "x = (case r of CLAIMED \<Rightarrow> P_COPY | REFUSED \<Rightarrow> P_OUT | WAITING q \<Rightarrow> P_TOP q)"
    have s': "s' = at i x (s\<lparr>cs_ep := ep, cs_req := (cs_req s)(i := req)\<rparr>)"
      using assms(2) False t by (auto simp: enter_step_def x_def split: if_splits)
    have same: "same_call (cs_ep s) ep" using same_call_enter [of "cs_ep s"] t by (metis snd_conv)
    have len: "length req \<le> ep_req_cap (cs_ep s)" using False by (simp add: call_refused_def)
    have nc: "\<not> calling x" by (simp add: x_def split: claim.splits)
    have "call_ok srv (cs_ep s) i req x" using len by (simp add: x_def call_ok_def split: claim.splits)
    then have "call_ok srv ep j (((cs_req s)(i := req)) j) (((cs_pc s)(i := x)) j)" for j
      using d(5) [of j] by (simp add: call_ok_same [OF same])
    moreover have "\<exists>j. ep_caller ep = int j \<and> calling (((cs_pc s)(i := x)) j)" if "ep_caller ep \<noteq> -1"
      using d(4) out that same by (auto simp: same_call_def)
    moreover have "srv_ok (cs_ep s) ((cs_req s)(i := req)) (cs_srv s)"
      using d(3,4,6) out unfolding srv_ok_def by fastforce
    moreover have "length (ep_req_buf ep) = ep_req_cap ep" "length (ep_resp_buf ep) = ep_resp_cap ep"
      "ep_pending ep \<longleftrightarrow> ep_caller ep \<noteq> -1" using d(1-3) same by (simp_all add: same_call_def)
    moreover have "cs_ep s' = ep" "cs_pc s' = (cs_pc s)(i := x)" "cs_req s' = (cs_req s)(i := req)" "cs_srv s' = cs_srv s"
      by (simp_all add: s')
    ultimately show ?thesis unfolding call_inv_def by (simp only: srv_ok_same [OF same]) blast
  qed
qed

lemma call_inv_claim_step:
  assumes "call_inv srv s" and "claim_step i flag s = Some s'"
  shows "call_inv srv s'"
proof -
  note d = call_invD(5) [OF assms(1), of i]
  have simple: "call_ok srv (cs_ep s) i (cs_req s i) x" if "\<not> calling x" "x \<notin> {P_OPEN, P_ARMED}" "\<forall>r. x \<noteq> P_BACK r" "cs_pc s i \<noteq> P_OUT" for x
    using call_ok_simple [OF call_ok_length [OF d] that(1-3)] that(4) by simp
  note mv = call_inv_move [OF assms(1), of s']
  show ?thesis
  proof (cases "cs_pc s i")
    case (P_TURN q)
    obtain r ep where t: "claim_turn (int i) (int i) flag q (cs_ep s) = (r, ep)" by (rule prod.exhaust)
    have same: "same_call (cs_ep s) ep" using same_call_turn [of "cs_ep s"] t by (metis snd_conv)
    define x where "x = (case r of CLAIMED \<Rightarrow> P_COPY | REFUSED \<Rightarrow> P_OUT | WAITING q' \<Rightarrow> P_NAP q' q)"
    have "cs_pc s' = (cs_pc s)(i := x) \<and> cs_ep s' = ep \<and> cs_req s' = cs_req s \<and> cs_srv s' = cs_srv s"
      using assms(2) P_TURN t by (auto simp: claim_step_def Let_def x_def split: claim.splits)
    moreover have "\<not> calling x \<and> x \<notin> {P_OPEN, P_ARMED} \<and> (\<forall>r. x \<noteq> P_BACK r)" by (simp add: x_def split: claim.splits)
    ultimately show ?thesis using mv [of i x] same simple [of x] P_TURN by simp
  qed (use assms mv [of i] simple in \<open>auto simp: claim_step_def split: if_splits\<close>)
qed

lemma call_inv_hold:
  assumes "call_inv srv s" and "claim_inv (cs_ep s) (cs_pc s)" and "holding (cs_pc s i)"
    and "cs_pc s' = (cs_pc s)(i := x)" and "cs_req s' = cs_req s"
    and "ep_req_cap (cs_ep s') = ep_req_cap (cs_ep s)" and "length (ep_req_buf (cs_ep s')) = ep_req_cap (cs_ep s')"
    and "length (ep_resp_buf (cs_ep s')) = ep_resp_cap (cs_ep s')"
    and "ep_pending (cs_ep s') \<longleftrightarrow> ep_caller (cs_ep s') \<noteq> -1"
    and "ep_caller (cs_ep s') \<noteq> -1 \<Longrightarrow> ep_caller (cs_ep s') = int i \<and> calling x"
    and "call_ok srv (cs_ep s') i (cs_req s i) x" and "srv_ok (cs_ep s') (cs_req s') (cs_srv s')"
  shows "call_inv srv s'"
proof -
  have "call_ok srv (cs_ep s') j (cs_req s' j) (cs_pc s' j)" for j
    using others_ok [OF assms(1-3), of j "cs_ep s'"] assms(4-6,11) by (cases "j = i") simp_all
  moreover have "\<exists>j. ep_caller (cs_ep s') = int j \<and> calling (cs_pc s' j)" if "ep_caller (cs_ep s') \<noteq> -1"
    using assms(10) [OF that] assms(4) by (intro exI [of _ i]) simp
  ultimately show ?thesis using assms(7-9,12) unfolding call_inv_def by blast
qed

lemma length_put_front: "length xs \<le> length buf \<Longrightarrow> length (put_front xs buf) = length buf"
  by (simp add: put_front_def)

lemma call_inv_call_step:
  assumes "call_inv srv s" and "claim_inv (cs_ep s) (cs_pc s)" and "call_step i flag s = Some s'"
  shows "call_inv srv s'"
proof -
  note d = call_invD [OF assms(1)]
  have ok: "call_ok srv (cs_ep s) i (cs_req s i) (cs_pc s i)" by (rule d(5))
  note hold = call_inv_hold [OF assms(1,2), of i s']
  have len: "length (cs_req s i) \<le> ep_req_cap (cs_ep s)" if "holding (cs_pc s i)"
    using call_ok_length [OF ok] that by (cases "cs_pc s i") auto
  have move: "call_inv srv s'" if "cs_ep s' = cs_ep s" "cs_pc s' = (cs_pc s)(i := x)" "cs_req s' = cs_req s" "cs_srv s' = cs_srv s"
      "call_ok srv (cs_ep s) i (cs_req s i) x" "calling x = calling (cs_pc s i)" for x
    using call_inv_move [OF assms(1), of s' i x] that by simp
  have returns: "call_inv srv s'" if c: "calling (cs_pc s i)" "call_answered (int i) (cs_ep s)"
    and s': "s' = at i (P_BACK (ep_reply_len (cs_ep s))) (nap_set i nap_done s)"
  proof -
    have n: "ep_caller (cs_ep s) = -1"
      using d(4) one_holder [OF assms(2) calling_holding [OF c(1)]] calling_holding c(2) by (fastforce simp: call_answered_def)
    have "call_ok srv (cs_ep s) i (cs_req s i) (P_BACK (ep_reply_len (cs_ep s)))"
      using ok c n by (auto simp: call_ok_def)
    then show ?thesis using hold [of "P_BACK (ep_reply_len (cs_ep s))"] calling_holding [OF c(1)] d(1-3,6) n
      by (simp add: s')
  qed
  show ?thesis
  proof (cases "cs_pc s i")
    case P_COPY
    define x where "x = (if cs_srv s = S_DEAD \<or> flag then P_BACK (-1) else P_OPEN)"
    have s': "s' = at i x (s\<lparr>cs_ep := copy_in (cs_req s i) (cs_ep s)\<rparr>)"
      using assms(3) P_COPY by (simp add: call_step_def x_def Let_def)
    have c: "ep_caller (cs_ep s) = -1" using no_caller [OF assms(1,2), of i] P_COPY by simp
    have x: "\<not> calling x" by (simp add: x_def)
    have l: "length (put_front (cs_req s i) (ep_req_buf (cs_ep s))) = ep_req_cap (cs_ep s)"
      using len P_COPY d(1) by (simp add: length_put_front)
    have "call_ok srv (copy_in (cs_req s i) (cs_ep s)) i (cs_req s i) x"
      using len P_COPY by (auto simp: call_ok_def copy_in_def loaded_def put_front_def answered_def x_def)
    moreover have "srv_ok (copy_in (cs_req s i) (cs_ep s)) (cs_req s) (cs_srv s)"
      using d(6) by (simp add: srv_ok_def copy_in_def)
    ultimately show ?thesis using hold [of x] P_COPY c d(2,3) l x by (simp add: s' copy_in_def)
  next
    case P_OPEN
    then have "call_ok srv (cs_ep s) i (cs_req s i) P_ARMED" using ok by (auto simp: call_ok_def)
    with P_OPEN move [of P_ARMED] assms(3) show ?thesis by (auto simp: call_step_def)
  next
    case P_ARMED
    let ?ep = "call_publish (int i) (length (cs_req s i)) (cs_ep s)"
    have s': "s' = owe (ep_owner (cs_ep s)) (at i P_WAIT (s\<lparr>cs_ep := ?ep\<rparr>))"
      using assms(3) P_ARMED by (simp add: call_step_def)
    have c: "ep_caller (cs_ep s) = -1" using no_caller [OF assms(1,2), of i] P_ARMED by simp
    have e: "cs_ep s' = ?ep" "cs_pc s' = (cs_pc s)(i := P_WAIT)" "cs_req s' = cs_req s" "cs_srv s' = cs_srv s"
      by (simp_all add: s')
    have "call_ok srv ?ep i (cs_req s i) P_WAIT" using ok P_ARMED by (auto simp: call_ok_def call_publish_def loaded_def)
    moreover have "srv_ok ?ep (cs_req s) (cs_srv s)" using d(3,6) c by (auto simp: srv_ok_def call_publish_def)
    ultimately show ?thesis using hold [of P_WAIT, unfolded e] P_ARMED d(1,2) by (simp add: call_publish_def)
  next
    case P_WAIT
    then have "call_ok srv (cs_ep s) i (cs_req s i) P_CHECK" "call_ok srv (cs_ep s) i (cs_req s i) P_BLOCKED"
      using ok by (auto simp: call_ok_def)
    with P_WAIT move [of P_CHECK] move [of P_BLOCKED] assms(3) show ?thesis
      by (auto simp: call_step_def)
  next
    case P_BLOCKED
    then have "call_ok srv (cs_ep s) i (cs_req s i) P_CHECK" using ok by (auto simp: call_ok_def)
    with P_BLOCKED move [of P_CHECK] assms(3) show ?thesis by (auto simp: call_step_def split: if_splits)
  next
    case P_CHECK
    then have "call_ok srv (cs_ep s) i (cs_req s i) P_RECHECK" using ok by (auto simp: call_ok_def)
    with P_CHECK move [of P_RECHECK] returns assms(3) show ?thesis by (auto simp: call_step_def split: if_splits)
  next
    case P_RECHECK
    then have "call_ok srv (cs_ep s) i (cs_req s i) P_WAIT" using ok by (auto simp: call_ok_def)
    with P_RECHECK move [of P_WAIT] returns assms(3) show ?thesis by (auto simp: call_step_def split: if_splits)
  next
    case (P_BACK r)
    obtain n ep where t: "release_locked (\<lambda>_. True) (cs_ep s) = (n, ep)" by (rule prod.exhaust)
    have "same_call (cs_ep s) ep" using same_call_release [of "cs_ep s" "\<lambda>_. True"] t by simp
    then show ?thesis using call_inv_move [OF assms(1), of s' i P_OUT] assms(3) P_BACK t
      by (auto simp: call_step_def call_ok_def)
  qed (use assms in \<open>auto simp: call_step_def\<close>)
qed

text \<open>The owner's steps: only the reply and the exit touch the call, and both end it.\<close>

lemma call_inv_reply:
  assumes "call_inv srv s" and "claim_inv (cs_ep s) (cs_pc s)"
    and "cs_pc s' = cs_pc s" "cs_req s' = cs_req s"
    and "ep_req_cap (cs_ep s') = ep_req_cap (cs_ep s)" "ep_req_buf (cs_ep s') = ep_req_buf (cs_ep s)"
    and "length (ep_resp_buf (cs_ep s')) = ep_resp_cap (cs_ep s')"
    and "\<not> ep_pending (cs_ep s')" "ep_caller (cs_ep s') = -1" "cs_srv s' \<noteq> S_GOT" "\<forall>xs. cs_srv s' \<noteq> S_BUSY xs"
    and "ep_caller (cs_ep s) = int i" and "answered srv (cs_ep s') (cs_req s i) (ep_reply_len (cs_ep s'))"
  shows "call_inv srv s'"
proof -
  note d = call_invD [OF assms(1)]
  have c: "calling (cs_pc s i)" using d(4) assms(12) by auto
  have "call_ok srv (cs_ep s') j (cs_req s' j) (cs_pc s' j)" for j
  proof (cases "j = i")
    case True
    have "length (cs_req s i) \<le> ep_req_cap (cs_ep s)" using call_ok_length [OF d(5) [of i]] c by (cases "cs_pc s i") simp_all
    then show ?thesis using assms(3-5,9,13) c True by (cases "cs_pc s i") (auto simp: call_ok_def)
  next
    case False
    then show ?thesis using others_ok [OF assms(1,2) calling_holding [OF c] False assms(5)] assms(3,4) by simp
  qed
  then show ?thesis using assms(5-11) d(1) by (auto simp: call_inv_def srv_ok_def)
qed

lemma call_inv_serve:
  assumes "call_inv srv s" and "claim_inv (cs_ep s) (cs_pc s)" and "serve_step srv s = Some s'"
  shows "call_inv srv s'"
proof -
  note d = call_invD [OF assms(1)]
  have stay: "call_inv srv s'" if "cs_ep s' = cs_ep s" "cs_pc s' = cs_pc s" "cs_req s' = cs_req s"
      "srv_ok (cs_ep s) (cs_req s) (cs_srv s')"
    using assms(1) that by (simp add: call_inv_def)
  show ?thesis
  proof (cases "cs_srv s")
    case S_GOT
    then have "ep_pending (cs_ep s)" using d(6) by (simp add: srv_ok_def)
    then obtain i where i: "ep_caller (cs_ep s) = int i" "calling (cs_pc s i)" using d(3,4) by auto
    have "loaded (cs_ep s) (cs_req s i)" "ep_req_len (cs_ep s) = length (cs_req s i)"
      using d(5) [of i] i by (auto simp: call_ok_def)
    then have "srv_ok (cs_ep s) (cs_req s) (cs_srv s')"
      using assms(3) S_GOT i d(3) by (auto simp: serve_step_def srv_ok_def serve_copy_def loaded_def)
    with stay S_GOT assms(3) show ?thesis by (auto simp: serve_step_def)
  next
    case (S_BUSY xs)
    then obtain i where i: "ep_caller (cs_ep s) = int i" "xs = cs_req s i" using d(6) by (auto simp: srv_ok_def)
    let ?n = "min (length (srv xs)) (ep_resp_cap (cs_ep s))"
    obtain c ep where r: "chan_serve_reply_copy (srv xs) (cs_ep s) = (c, ep)" by (rule prod.exhaust)
    have s': "s' = owe c (s\<lparr>cs_ep := ep, cs_srv := S_TOP\<rparr>)" using assms(3) S_BUSY r by (simp add: serve_step_def reply_step_def)
    have ep: "ep = (cs_ep s)\<lparr>ep_resp_buf := put_front (take ?n (srv xs)) (ep_resp_buf (cs_ep s)), ep_reply_len := int ?n,
        ep_pending := False, ep_caller := -1\<rparr>"
      using r by (auto simp: chan_serve_reply_copy_def chan_serve_reply_def Let_def)
    have l: "length (put_front (take ?n (srv xs)) (ep_resp_buf (cs_ep s))) = ep_resp_cap (cs_ep s)"
      using d(2) by (simp add: length_put_front)
    have "take (nat (int ?n)) (put_front (take ?n (srv xs)) (ep_resp_buf (cs_ep s))) = take (ep_resp_cap (cs_ep s)) (srv xs)"
      by (simp add: put_front_def min_def)
    then have "answered srv ep (cs_req s i) (ep_reply_len ep)" unfolding answered_def ep i(2) [symmetric] by simp
    then show ?thesis using call_inv_reply [OF assms(1,2), of s' i] i d(1) l by (simp add: s') (simp add: ep)
  qed (use assms stay d(6) in \<open>auto simp: serve_step_def srv_ok_def serve_ready_def split: if_splits\<close>)
qed

lemma call_inv_exit:
  assumes "call_inv srv s" and "claim_inv (cs_ep s) (cs_pc s)" and "exit_step s = Some s'"
  shows "call_inv srv s'"
proof (cases "cs_srv s = S_EXIT \<or> \<not> (ep_in_use (cs_ep s) \<and> ep_pending (cs_ep s))")
  case True
  then have "cs_ep s' = cs_ep s \<and> cs_pc s' = cs_pc s \<and> cs_req s' = cs_req s \<and> cs_srv s' \<in> {S_EXIT, S_DEAD}"
    using assms(3) by (auto simp: exit_step_def exit_owner_def split: srv_pc.splits if_splits)
  then show ?thesis using assms(1) by (auto simp: call_inv_def srv_ok_def)
next
  case False
  let ?ep = "(cs_ep s)\<lparr>ep_reply_len := -1, ep_pending := False, ep_caller := -1\<rparr>"
  note d = call_invD [OF assms(1)]
  obtain i where i: "ep_caller (cs_ep s) = int i" using d(3,4) False by auto
  have "s' = owe (int i) (s\<lparr>cs_ep := ?ep, cs_srv := S_EXIT\<rparr>)"
    using assms(3) False i by (auto simp: exit_step_def exit_owner_def split: srv_pc.splits if_splits)
  then show ?thesis using call_inv_reply [OF assms(1,2), of s' i] i d(1,2) by (simp add: answered_def)
qed

lemma call_inv_step:
  assumes "call_inv srv s" and "claim_inv (cs_ep s) (cs_pc s)" and "chan_step srv a s = Some s'"
  shows "call_inv srv s'"
proof (cases a)
  case (Wake i)
  then show ?thesis using assms(1,3) wake_step_idle [of i s s'] by (simp add: call_inv_def)
next
  case (Timer i)
  then show ?thesis using assms(1,3) timer_step_idle [of i s s'] by (simp add: call_inv_def)
next
  case (Enter i w req)
  then show ?thesis using assms(3) call_inv_enter [OF assms(1)] by simp
next
  case (Claim i f)
  then show ?thesis using assms(3) call_inv_claim_step [OF assms(1)] by simp
next
  case (Call i f)
  then show ?thesis using assms(3) call_inv_call_step [OF assms(1,2)] by simp
next
  case Serve
  then show ?thesis using assms(3) call_inv_serve [OF assms(1,2)] by simp
next
  case Exit
  then show ?thesis using assms(3) call_inv_exit [OF assms(1,2)] by simp
qed

section \<open>Whoever has to wake is woken\<close>

definition wake_ok :: "endpoint \<Rightarrow> nat \<Rightarrow> pc \<Rightarrow> nap \<Rightarrow> bool \<Rightarrow> bool" where
  "wake_ok ep i x z w \<longleftrightarrow> (z = ASLEEP \<longrightarrow> x = P_BLOCKED \<or> (\<exists>q armed. x = P_SLEPT q armed))
     \<and> (x \<in> {P_TURN True, P_NAP True True, P_ARMED, P_WAIT, P_RECHECK} \<longrightarrow> z \<in> {ARMED, TOKEN})
     \<and> (x = P_NAP True True \<and> ep_handed ep = int i \<longrightarrow> z = TOKEN \<or> w)
     \<and> (x = P_SLEPT True True \<and> z = ASLEEP \<and> ep_handed ep = int i \<longrightarrow> w)
     \<and> (x = P_WAIT \<and> ep_caller ep \<noteq> int i \<longrightarrow> z = TOKEN \<or> w)
     \<and> (x = P_BLOCKED \<and> z = ASLEEP \<and> ep_caller ep \<noteq> int i \<longrightarrow> w)"

definition own_ok :: "endpoint \<Rightarrow> srv_pc \<Rightarrow> nap \<Rightarrow> bool \<Rightarrow> bool" where
  "own_ok ep y z w \<longleftrightarrow> (z = ASLEEP \<longrightarrow> y = S_BLOCKED) \<and> (y \<in> {S_TEST, S_BLOCK} \<longrightarrow> z \<in> {ARMED, TOKEN})
     \<and> (y = S_BLOCK \<and> ep_pending ep \<longrightarrow> z = TOKEN \<or> w) \<and> (y = S_BLOCKED \<and> z = ASLEEP \<and> ep_pending ep \<longrightarrow> w)"

definition wake_inv :: "csys \<Rightarrow> bool" where
  "wake_inv s \<longleftrightarrow> 0 \<le> ep_owner (cs_ep s) \<and> cs_pc s (owner s) = P_OUT
     \<and> (\<forall>i. i \<noteq> owner s \<longrightarrow> wake_ok (cs_ep s) i (cs_pc s i) (cs_nap s i) (i \<in> set (cs_wakes s)))
     \<and> own_ok (cs_ep s) (cs_srv s) (cs_nap s (owner s)) (owner s \<in> set (cs_wakes s))"

lemma wake_invD:
  assumes "wake_inv s"
  shows "0 \<le> ep_owner (cs_ep s)" "cs_pc s (owner s) = P_OUT"
    "i \<noteq> owner s \<Longrightarrow> wake_ok (cs_ep s) i (cs_pc s i) (cs_nap s i) (i \<in> set (cs_wakes s))"
    "own_ok (cs_ep s) (cs_srv s) (cs_nap s (owner s)) (owner s \<in> set (cs_wakes s))"
  using assms by (simp_all add: wake_inv_def)

text \<open>For a task that does not move, a new reason to wake has to come with a wake.\<close>

lemma wake_ok_frame:
  assumes "wake_ok ep j x z w" and "w \<longrightarrow> w'" and "ep_handed ep' = int j \<longrightarrow> ep_handed ep = int j \<or> w'"
    and "ep_caller ep' \<noteq> int j \<longrightarrow> ep_caller ep \<noteq> int j \<or> w'"
  shows "wake_ok ep' j x z w'"
  using assms unfolding wake_ok_def by argo

lemma own_ok_frame:
  "own_ok ep y z w \<Longrightarrow> (w \<longrightarrow> w') \<Longrightarrow> (ep_pending ep' \<longrightarrow> ep_pending ep \<or> w') \<Longrightarrow> own_ok ep' y z w'"
  unfolding own_ok_def by argo

text \<open>Client \<open>i\<close> moves; the others and the owner are covered by the frame.\<close>

lemma wake_inv_move:
  assumes "wake_inv s" and "i \<noteq> owner s" and "cs_pc s' = (cs_pc s)(i := x)" and "cs_nap s' = (cs_nap s)(i := z)"
    and "cs_srv s' = cs_srv s" and "ep_owner (cs_ep s') = ep_owner (cs_ep s)"
    and "set (cs_wakes s) \<subseteq> set (cs_wakes s')"
    and "\<And>j. j \<noteq> i \<Longrightarrow> ep_handed (cs_ep s') = int j \<Longrightarrow> ep_handed (cs_ep s) = int j \<or> j \<in> set (cs_wakes s')"
    and "\<And>j. j \<noteq> i \<Longrightarrow> ep_caller (cs_ep s') \<noteq> int j \<Longrightarrow> ep_caller (cs_ep s) \<noteq> int j"
    and "ep_pending (cs_ep s') \<Longrightarrow> ep_pending (cs_ep s) \<or> owner s \<in> set (cs_wakes s')"
    and "wake_ok (cs_ep s') i x z (i \<in> set (cs_wakes s'))"
  shows "wake_inv s'"
proof -
  note d = wake_invD [OF assms(1)]
  have o: "owner s' = owner s" using assms(6) by (simp add: owner_def)
  have "wake_ok (cs_ep s') j (cs_pc s' j) (cs_nap s' j) (j \<in> set (cs_wakes s'))" if "j \<noteq> owner s" for j
  proof (cases "j = i")
    case False
    have "wake_ok (cs_ep s') j (cs_pc s j) (cs_nap s j) (j \<in> set (cs_wakes s'))"
      by (rule wake_ok_frame [OF d(3) [OF that]]) (use assms(7-9) False in blast)+
    then show ?thesis using False assms(3,4) by simp
  qed (use assms(3,4,11) in simp)
  moreover have "own_ok (cs_ep s') (cs_srv s) (cs_nap s (owner s)) (owner s \<in> set (cs_wakes s'))"
    by (rule own_ok_frame [OF d(4)]) (use assms(7,10) in blast)+
  ultimately show ?thesis using d(1,2) assms(2-6) unfolding wake_inv_def o by simp
qed

text \<open>The owner moves.\<close>

lemma wake_inv_owner:
  assumes "wake_inv s" and "cs_pc s' = cs_pc s" and "cs_nap s' = (cs_nap s)(owner s := z)"
    and "ep_owner (cs_ep s') = ep_owner (cs_ep s)" and "set (cs_wakes s) \<subseteq> set (cs_wakes s')"
    and "ep_handed (cs_ep s') = ep_handed (cs_ep s)"
    and "\<And>j. ep_caller (cs_ep s') \<noteq> int j \<Longrightarrow> ep_caller (cs_ep s) \<noteq> int j \<or> j \<in> set (cs_wakes s')"
    and "own_ok (cs_ep s') (cs_srv s') z (owner s \<in> set (cs_wakes s'))"
  shows "wake_inv s'"
proof -
  note d = wake_invD [OF assms(1)]
  have o: "owner s' = owner s" using assms(4) by (simp add: owner_def)
  have "wake_ok (cs_ep s') j (cs_pc s j) (cs_nap s j) (j \<in> set (cs_wakes s'))" if "j \<noteq> owner s" for j
    by (rule wake_ok_frame [OF d(3) [OF that]]) (use assms(5-7) in auto)
  then show ?thesis using d(1,2) assms(2-4,8) unfolding wake_inv_def o by simp
qed

lemma turn_handed:
  "claim_turn (int i) (int i) late q ep = (r, ep') \<Longrightarrow> ep_handed ep' = ep_handed ep \<or> ep_handed ep' = -1"
  by (auto simp: claim_turn_def Let_def wq_push_def wq_remove_def split: if_splits prod.splits)

lemma turn_missed:
  "claim_turn (int i) (int i) late True ep = (WAITING q', ep') \<Longrightarrow> q' \<and> ep' = ep \<and> ep_handed ep \<noteq> int i"
  by (auto simp: claim_turn_def split: if_splits)

lemma same_call_fields:
  assumes "same_call ep ep'"
  shows "ep_owner ep' = ep_owner ep" "ep_caller ep' = ep_caller ep" "ep_pending ep' = ep_pending ep"
  using assms by (simp_all add: same_call_def)

lemma wake_ok_awake [simp]: "wake_ok ep i x AWAKE w \<longleftrightarrow> x \<notin> {P_TURN True, P_NAP True True, P_ARMED, P_WAIT, P_RECHECK}"
  by (auto simp: wake_ok_def)

lemma wake_inv_enter:
  assumes "wake_inv s" and "enter_step i wait_ms req s = Some s'"
  shows "wake_inv s'"
proof (cases "call_refused (cs_ep s) False False (length req) False")
  case True
  with assms show ?thesis by (auto simp: enter_step_def split: if_splits)
next
  case False
  have i: "i \<noteq> owner s" "cs_pc s i = P_OUT" using assms(2) by (auto simp: enter_step_def split: if_splits)
  obtain r ep where t: "claim_enter wait_ms (int i) (int i) True False (cs_ep s) = (r, ep)" by (rule prod.exhaust)
  define x where "x = (case r of CLAIMED \<Rightarrow> P_COPY | REFUSED \<Rightarrow> P_OUT | WAITING q \<Rightarrow> P_TOP q)"
  have s': "s' = at i x (s\<lparr>cs_ep := ep, cs_req := (cs_req s)(i := req)\<rparr>)"
    using assms(2) False t i by (simp add: enter_step_def x_def)
  have "same_call (cs_ep s) ep" using same_call_enter [of "cs_ep s"] t by (metis snd_conv)
  note f = same_call_fields [OF this]
  have h: "ep_handed ep = ep_handed (cs_ep s)" using t by (auto simp: claim_enter_def wq_push_def split: if_splits)
  have "cs_nap s i \<noteq> ASLEEP" using wake_invD(3) [OF assms(1) i(1)] i(2) by (auto simp: wake_ok_def)
  then have "wake_ok ep i x (cs_nap s i) w" for w by (simp add: x_def wake_ok_def split: claim.splits)
  then show ?thesis using wake_inv_move [OF assms(1) i(1), of s' x "cs_nap s i"] f h by (simp add: s')
qed

lemma wake_inv_claim_step:
  assumes "wake_inv s" and "claim_step i flag s = Some s'"
  shows "wake_inv s'"
proof -
  have i: "i \<noteq> owner s" using assms(2) wake_invD(2) [OF assms(1)] by (auto simp: claim_step_def)
  note w = wake_invD(3) [OF assms(1) i]
  have move: "wake_inv s'" if "cs_ep s' = cs_ep s" "cs_pc s' = (cs_pc s)(i := x)" "cs_nap s' = (cs_nap s)(i := z)"
      "cs_srv s' = cs_srv s" "cs_wakes s' = cs_wakes s" "wake_ok (cs_ep s) i x z (i \<in> set (cs_wakes s))" for x z
    using wake_inv_move [OF assms(1) i, of s' x z] that by simp
  show ?thesis
  proof (cases "cs_pc s i")
    case (P_TOP q)
    then have "cs_nap s i \<noteq> ASLEEP" using w by (auto simp: wake_ok_def)
    then have "wake_ok (cs_ep s) i (P_TURN q) (if q then ARMED else cs_nap s i) w'" for w' by (auto simp: wake_ok_def)
    then show ?thesis using move [of "P_TURN q" "if q then ARMED else cs_nap s i"] assms(2) P_TOP
      by (auto simp: claim_step_def nap_prepare_def fun_upd_idem)
  next
    case (P_TURN q)
    obtain r ep where t: "claim_turn (int i) (int i) flag q (cs_ep s) = (r, ep)" by (rule prod.exhaust)
    define x where "x = (case r of CLAIMED \<Rightarrow> P_COPY | REFUSED \<Rightarrow> P_OUT | WAITING q' \<Rightarrow> P_NAP q' q)"
    define z where "z = (if r = REFUSED \<or> r = CLAIMED \<and> q then AWAKE else cs_nap s i)"
    have e: "cs_pc s' = (cs_pc s)(i := x)" "cs_ep s' = ep" "cs_nap s' = (cs_nap s)(i := z)" "cs_srv s' = cs_srv s" "cs_wakes s' = cs_wakes s"
      using assms(2) P_TURN t by (auto simp: claim_step_def Let_def x_def z_def nap_done_def fun_upd_idem split: claim.splits)
    have same: "same_call (cs_ep s) ep" using same_call_turn [of "cs_ep s"] t by (metis snd_conv)
    have nz: "cs_nap s i \<noteq> ASLEEP" "q \<Longrightarrow> cs_nap s i \<in> {ARMED, TOKEN}" using w P_TURN by (auto simp: wake_ok_def)
    have "wake_ok ep i x z w'" for w'
    proof (cases r)
      case (WAITING q')
      then show ?thesis using nz t turn_missed [of i flag "cs_ep s" q' ep] by (cases q) (auto simp: x_def z_def wake_ok_def)
    qed (use nz in \<open>auto simp: x_def z_def wake_ok_def\<close>)
    then show ?thesis using wake_inv_move [OF assms(1) i, of s' x z, unfolded e] same_call_fields [OF same] turn_handed [OF t] by auto
  next
    case (P_NAP q armed)
    define tok where "tok \<longleftrightarrow> cs_nap s i = TOKEN"
    have "wake_ok (cs_ep s) i (if tok then P_TOP q else P_SLEPT q armed) (nap_block (cs_nap s i)) (i \<in> set (cs_wakes s))"
      using w P_NAP by (auto simp: wake_ok_def nap_block_def tok_def)
    then show ?thesis using move [of "if tok then P_TOP q else P_SLEPT q armed" "nap_block (cs_nap s i)"] assms(2) P_NAP
      by (auto simp: claim_step_def tok_def)
  next
    case (P_SLEPT q armed)
    then have "cs_nap s i \<noteq> ASLEEP" and s': "s' = at i (P_TOP q) s" using assms(2) by (auto simp: claim_step_def split: if_splits)
    then have "wake_ok (cs_ep s) i (P_TOP q) (cs_nap s i) w'" for w' by (simp add: wake_ok_def)
    then show ?thesis using move [of "P_TOP q" "cs_nap s i"] by (simp add: s')
  qed (use assms in \<open>auto simp: claim_step_def\<close>)
qed

lemma owe_owner: "0 \<le> ep_owner (cs_ep s) \<Longrightarrow> owner s \<in> set (cs_wakes (owe (ep_owner (cs_ep s)) t))"
  by (simp add: owe_wakes owner_def)

lemma wake_inv_call_step:
  assumes "wake_inv s" and "call_inv srv s" and "claim_inv (cs_ep s) (cs_pc s)" and "call_step i flag s = Some s'"
  shows "wake_inv s'"
proof -
  have i: "i \<noteq> owner s" using assms(4) wake_invD(2) [OF assms(1)] by (auto simp: call_step_def)
  note w = wake_invD(3) [OF assms(1) i]
  have move: "wake_inv s'" if "same_claim (cs_ep s) (cs_ep s')" "ep_owner (cs_ep s') = ep_owner (cs_ep s)"
      "ep_caller (cs_ep s') = ep_caller (cs_ep s)" "ep_pending (cs_ep s') = ep_pending (cs_ep s)"
      "cs_pc s' = (cs_pc s)(i := x)" "cs_nap s' = (cs_nap s)(i := z)"
      "cs_srv s' = cs_srv s" "cs_wakes s' = cs_wakes s" "wake_ok (cs_ep s') i x z (i \<in> set (cs_wakes s))" for x z
    using wake_inv_move [OF assms(1) i, of s' x z] that by (simp add: same_claim_def)
  have awake: "cs_nap s i \<noteq> ASLEEP" if "cs_pc s i \<noteq> P_BLOCKED" "holding (cs_pc s i)"
    using w that by (cases "cs_pc s i") (auto simp: wake_ok_def)
  show ?thesis
  proof (cases "cs_pc s i")
    case P_COPY
    define x where "x = (if cs_srv s = S_DEAD \<or> flag then P_BACK (-1) else P_OPEN)"
    have s': "s' = at i x (s\<lparr>cs_ep := copy_in (cs_req s i) (cs_ep s)\<rparr>)"
      using assms(4) P_COPY by (simp add: call_step_def x_def Let_def)
    have "wake_ok ep i x (cs_nap s i) w'" for ep w' using awake P_COPY by (auto simp: wake_ok_def x_def)
    then show ?thesis using move [of x "cs_nap s i"] by (simp add: s') (simp add: copy_in_def)
  next
    case P_OPEN
    then have s': "s' = at i P_ARMED (nap_set i nap_prepare s)" using assms(4) by (simp add: call_step_def)
    have "wake_ok ep i P_ARMED ARMED w'" for ep w' by (simp add: wake_ok_def)
    then show ?thesis using move [of P_ARMED ARMED] by (simp add: s' nap_prepare_def)
  next
    case P_ARMED
    let ?ep = "call_publish (int i) (length (cs_req s i)) (cs_ep s)"
    have s': "s' = owe (ep_owner (cs_ep s)) (at i P_WAIT (s\<lparr>cs_ep := ?ep\<rparr>))"
      using assms(4) P_ARMED by (simp add: call_step_def)
    have c: "ep_caller (cs_ep s) = -1" using no_caller [OF assms(2,3), of i] P_ARMED by simp
    have n: "cs_nap s i \<in> {ARMED, TOKEN}" using w P_ARMED by (simp add: wake_ok_def)
    have "wake_ok ?ep i P_WAIT (cs_nap s i) w'" for w' using n by (auto simp: wake_ok_def call_publish_def)
    moreover have "owner s \<in> set (cs_wakes s')" unfolding s' by (rule owe_owner [OF wake_invD(1) [OF assms(1)]])
    ultimately show ?thesis using wake_inv_move [OF assms(1) i, of s' P_WAIT "cs_nap s i"] c
      by (simp add: s' owe_wakes) (simp add: call_publish_def)
  next
    case P_WAIT
    define x where "x = (if cs_nap s i = TOKEN then P_CHECK else P_BLOCKED)"
    have s': "s' = at i x (nap_set i nap_block s)" using assms(4) P_WAIT by (simp add: call_step_def x_def)
    have "wake_ok (cs_ep s) i x (nap_block (cs_nap s i)) (i \<in> set (cs_wakes s))"
      using w P_WAIT by (auto simp: wake_ok_def nap_block_def x_def)
    then show ?thesis using move [of x "nap_block (cs_nap s i)"] by (simp add: s')
  next
    case P_BLOCKED
    then have s': "s' = at i P_CHECK s" "cs_nap s i \<noteq> ASLEEP" using assms(4) by (auto simp: call_step_def split: if_splits)
    then have "wake_ok (cs_ep s) i P_CHECK (cs_nap s i) w'" for w' by (simp add: wake_ok_def)
    then show ?thesis using move [of P_CHECK "cs_nap s i"] by (simp add: s'(1))
  next
    case P_CHECK
    define x where "x = (if call_answered (int i) (cs_ep s) then P_BACK (ep_reply_len (cs_ep s)) else P_RECHECK)"
    define z where "z = (if call_answered (int i) (cs_ep s) then AWAKE else ARMED)"
    have "cs_ep s' = cs_ep s" "cs_pc s' = (cs_pc s)(i := x)" "cs_nap s' = (cs_nap s)(i := z)" "cs_srv s' = cs_srv s" "cs_wakes s' = cs_wakes s"
      using assms(4) P_CHECK by (auto simp: call_step_def x_def z_def nap_done_def nap_prepare_def split: if_splits)
    moreover have "wake_ok (cs_ep s) i x z w'" for w' by (auto simp: x_def z_def wake_ok_def)
    ultimately show ?thesis using move [of x z] by simp
  next
    case P_RECHECK
    define x where "x = (if call_answered (int i) (cs_ep s) then P_BACK (ep_reply_len (cs_ep s)) else P_WAIT)"
    define z where "z = (if call_answered (int i) (cs_ep s) then AWAKE else cs_nap s i)"
    have "cs_ep s' = cs_ep s" "cs_pc s' = (cs_pc s)(i := x)" "cs_nap s' = (cs_nap s)(i := z)" "cs_srv s' = cs_srv s" "cs_wakes s' = cs_wakes s"
      using assms(4) P_RECHECK by (auto simp: call_step_def x_def z_def nap_done_def fun_upd_idem split: if_splits)
    moreover have "wake_ok (cs_ep s) i x z w'" for w'
      using w P_RECHECK by (auto simp: x_def z_def wake_ok_def call_answered_def)
    ultimately show ?thesis using move [of x z] by simp
  next
    case (P_BACK r)
    obtain n ep where t: "release_locked (\<lambda>_. True) (cs_ep s) = (n, ep)" by (rule prod.exhaust)
    have s': "s' = owe n (at i P_OUT (s\<lparr>cs_ep := ep\<rparr>))" using assms(4) P_BACK t by (simp add: call_step_def)
    have same: "same_call (cs_ep s) ep" using same_call_release [of "cs_ep s" "\<lambda>_. True"] t by simp
    have h: "ep_handed ep = n" using claim_inv_release [OF assms(3) _ t, of i] P_BACK by simp
    have "wake_ok ep i P_OUT (cs_nap s i) w'" for w' using awake P_BACK by (simp add: wake_ok_def)
    then show ?thesis using wake_inv_move [OF assms(1) i, of s' P_OUT "cs_nap s i"] same_call_fields [OF same] h
      by (auto simp: s' owe_wakes)
  qed (use assms in \<open>auto simp: call_step_def\<close>)
qed

lemma wake_inv_serve:
  assumes "wake_inv s" and "call_inv srv s" and "serve_step srv s = Some s'"
  shows "wake_inv s'"
proof -
  let ?o = "owner s"
  note w = wake_invD(4) [OF assms(1)]
  have stay: "wake_inv s'" if "cs_ep s' = cs_ep s" "cs_pc s' = cs_pc s" "cs_nap s' = (cs_nap s)(?o := z)" "cs_wakes s' = cs_wakes s"
      "own_ok (cs_ep s) (cs_srv s') z (?o \<in> set (cs_wakes s))" for z
    using wake_inv_owner [OF assms(1), of s' z] that by simp
  have same: "(cs_nap s)(?o := cs_nap s ?o) = cs_nap s" by (rule fun_upd_triv)
  show ?thesis
  proof (cases "cs_srv s")
    case (S_BUSY xs)
    obtain c ep where r: "chan_serve_reply_copy (srv xs) (cs_ep s) = (c, ep)" by (rule prod.exhaust)
    have s': "s' = owe c (s\<lparr>cs_ep := ep, cs_srv := S_TOP\<rparr>)" using assms(3) S_BUSY r by (simp add: serve_step_def reply_step_def)
    have ep: "c = ep_caller (cs_ep s)" "ep_handed ep = ep_handed (cs_ep s)" "ep_owner ep = ep_owner (cs_ep s)"
      using r by (auto simp: chan_serve_reply_copy_def chan_serve_reply_def Let_def)
    have "cs_nap s ?o \<noteq> ASLEEP" using w S_BUSY by (auto simp: own_ok_def)
    then have "own_ok ep S_TOP (cs_nap s ?o) w'" for w' by (simp add: own_ok_def)
    then show ?thesis using wake_inv_owner [OF assms(1), of s' "cs_nap s ?o"] ep same by (auto simp: s' owe_wakes)
  next
    case S_LOOP
    have "own_ok (cs_ep s) S_TEST ARMED w'" for w' by (simp add: own_ok_def)
    then show ?thesis using stay [of ARMED] assms(3) S_LOOP by (auto simp: serve_step_def nap_prepare_def)
  next
    case S_TEST
    define y where "y = (if serve_ready (cs_ep s) = None then S_BLOCK else S_GOT)"
    define z where "z = (if serve_ready (cs_ep s) = None then cs_nap s ?o else AWAKE)"
    have "cs_ep s' = cs_ep s" "cs_pc s' = cs_pc s" "cs_nap s' = (cs_nap s)(?o := z)" "cs_wakes s' = cs_wakes s" "cs_srv s' = y"
      using assms(3) S_TEST by (auto simp: serve_step_def y_def z_def nap_done_def fun_upd_idem)
    moreover have "own_ok (cs_ep s) y z w'" for w'
      using w S_TEST by (auto simp: own_ok_def y_def z_def serve_ready_def)
    ultimately show ?thesis using stay [of z] by simp
  next
    case S_BLOCK
    define y where "y = (if cs_nap s ?o = TOKEN then S_LOOP else S_BLOCKED)"
    have "cs_ep s' = cs_ep s" "cs_pc s' = cs_pc s" "cs_nap s' = (cs_nap s)(?o := nap_block (cs_nap s ?o))" "cs_wakes s' = cs_wakes s" "cs_srv s' = y"
      using assms(3) S_BLOCK by (auto simp: serve_step_def y_def owner_def)
    moreover have "own_ok (cs_ep s) y (nap_block (cs_nap s ?o)) (?o \<in> set (cs_wakes s))"
      using w S_BLOCK by (auto simp: own_ok_def y_def nap_block_def)
    ultimately show ?thesis using stay [of "nap_block (cs_nap s ?o)"] by simp
  qed (use assms(3) stay [of "cs_nap s ?o"] w same in \<open>auto simp: serve_step_def own_ok_def split: if_splits\<close>)
qed

lemma wake_inv_exit:
  assumes "wake_inv s" and "exit_step s = Some s'"
  shows "wake_inv s'"
proof -
  note w = wake_invD(4) [OF assms(1)]
  define d where "d \<longleftrightarrow> cs_srv s \<noteq> S_EXIT \<and> ep_in_use (cs_ep s) \<and> ep_pending (cs_ep s)"
  have e: "cs_pc s' = cs_pc s" "cs_nap s' = cs_nap s" "cs_srv s' \<in> {S_EXIT, S_DEAD}" "ep_owner (cs_ep s') = ep_owner (cs_ep s)"
    "ep_handed (cs_ep s') = ep_handed (cs_ep s)"
    "ep_caller (cs_ep s') = (if d then -1 else ep_caller (cs_ep s))"
    "set (cs_wakes s') = set (cs_wakes s) \<union> (if d \<and> 0 \<le> ep_caller (cs_ep s) then {nat (ep_caller (cs_ep s))} else {})"
    using assms(2) by (auto simp: exit_step_def exit_owner_def d_def owe_def split: srv_pc.splits if_splits)
  have "cs_nap s (owner s) \<noteq> ASLEEP"
    using w assms(2) by (auto simp: own_ok_def exit_step_def split: srv_pc.splits if_splits)
  then have "own_ok (cs_ep s') (cs_srv s') (cs_nap s (owner s)) w'" for w' using e(3) by (auto simp: own_ok_def)
  then show ?thesis using wake_inv_owner [OF assms(1), of s' "cs_nap s (owner s)"] e by (auto split: if_splits)
qed

lemma wake_ok_woken: "wake_ok ep i x z w \<Longrightarrow> wake_ok ep i x (nap_wake z) w'"
  by (cases z) (auto simp: wake_ok_def nap_wake_def)

lemma own_ok_woken: "own_ok ep y z w \<Longrightarrow> own_ok ep y (nap_wake z) w'"
  by (cases z) (auto simp: own_ok_def nap_wake_def)

lemma wake_inv_woken:
  assumes "wake_inv s" and "cs_ep s' = cs_ep s" "cs_pc s' = cs_pc s" "cs_srv s' = cs_srv s"
    and "cs_nap s' = (cs_nap s)(i := nap_wake (cs_nap s i))" and "\<And>j. j \<noteq> i \<Longrightarrow> j \<in> set (cs_wakes s') \<longleftrightarrow> j \<in> set (cs_wakes s)"
  shows "wake_inv s'"
proof -
  note d = wake_invD [OF assms(1)]
  have o: "owner s' = owner s" using assms(2) by (simp add: owner_def)
  have "wake_ok (cs_ep s) j (cs_pc s j) (cs_nap s' j) (j \<in> set (cs_wakes s'))" if "j \<noteq> owner s" for j
    using d(3) [OF that] wake_ok_woken [OF d(3) [OF that]] assms(5,6) by (cases "j = i") simp_all
  moreover have "own_ok (cs_ep s) (cs_srv s) (cs_nap s' (owner s)) (owner s \<in> set (cs_wakes s'))"
    using d(4) own_ok_woken [OF d(4)] assms(5,6) by (cases "owner s = i") simp_all
  ultimately show ?thesis using d(1,2) assms(2-4) unfolding wake_inv_def o by simp
qed

lemma wake_inv_step:
  assumes "wake_inv s" and "call_inv srv s" and "claim_inv (cs_ep s) (cs_pc s)" and "chan_step srv a s = Some s'"
  shows "wake_inv s'"
proof (cases a)
  case (Wake i)
  then have "s' = nap_set i nap_wake (s\<lparr>cs_wakes := remove1 i (cs_wakes s)\<rparr>)"
    using assms(4) by (auto simp: wake_step_def split: if_splits)
  then show ?thesis using wake_inv_woken [OF assms(1), of s' i] by simp
next
  case (Timer i)
  then have "s' = nap_set i nap_wake s" using assms(4) by (auto simp: timer_step_def split: pc.splits nap.splits)
  then show ?thesis using wake_inv_woken [OF assms(1), of s' i] by simp
next
  case (Enter i w req)
  then show ?thesis using assms(4) wake_inv_enter [OF assms(1)] by simp
next
  case (Claim i f)
  then show ?thesis using assms(4) wake_inv_claim_step [OF assms(1)] by simp
next
  case (Call i f)
  then show ?thesis using assms(4) wake_inv_call_step [OF assms(1-3)] by simp
next
  case Serve
  then show ?thesis using assms(4) wake_inv_serve [OF assms(1,2)] by simp
next
  case Exit
  then show ?thesis using assms(4) wake_inv_exit [OF assms(1)] by simp
qed

section \<open>Reachable states\<close>

definition chan_inv :: "(bytes \<Rightarrow> bytes) \<Rightarrow> csys \<Rightarrow> bool" where
  "chan_inv srv s \<longleftrightarrow> claim_inv (cs_ep s) (cs_pc s) \<and> call_inv srv s \<and> wake_inv s"

lemma chan_inv_start: "fresh_ep own ep \<Longrightarrow> chan_inv srv (chan_start ep)"
  by (auto simp: chan_inv_def chan_start_def fresh_ep_def claim_inv_def call_inv_def wake_inv_def wq_ok_def wq_list_def
      CHAN_WAITQ_LEN_def call_ok_def srv_ok_def own_ok_def owner_def)

lemma chan_inv_step: "chan_inv srv s \<Longrightarrow> chan_step srv a s = Some s' \<Longrightarrow> chan_inv srv s'"
  using claim_inv_step call_inv_step wake_inv_step unfolding chan_inv_def by blast

lemma chan_reach_inv: "chan_reach srv s \<Longrightarrow> chan_inv srv s"
  by (induction rule: chan_reach.induct) (auto intro: chan_inv_start chan_inv_step)

lemma chan_reachD:
  assumes "chan_reach srv s"
  shows "claim_inv (cs_ep s) (cs_pc s)" "call_inv srv s" "wake_inv s"
  using chan_reach_inv [OF assms] by (simp_all add: chan_inv_def)

end
