(* ===== verification/Chan_Safe.thy ===== *)
theory Chan_Safe
  imports Chan_Correct
begin

text \<open>
  The properties of a task-owned endpoint over all interleavings of its clients and its owner, and the two
  runs in which the code falls short.
\<close>

section \<open>A demonstration endpoint\<close>

text \<open>Endpoint ''i2c'' of task 20, whose owner answers a request with its bytes in reverse order.\<close>

definition demo_ep :: endpoint where
  "demo_ep = hd (ch_eps (snd (chan_register_task (Some ''i2c'') 20 False (Some (replicate 4 0)) 4 (Some (replicate 4 0)) 4 chans_zero)))"

lemma demo_fresh: "fresh_ep 20 demo_ep"
  by code_simp

lemma ep_run_reach: "chan_run rev as (chan_start demo_ep) = Some s \<Longrightarrow> chan_reach rev s"
  by (rule chan_reach_run [OF chan_reach.start [OF demo_fresh]])

text \<open>Task 1 calls and holds the endpoint, tasks 2 and 3 wait behind it.\<close>

definition demo_calls :: "action list" where
  "demo_calls = [Enter 1 50 [7, 8, 9], Enter 2 50 [1], Enter 3 50 [2, 5]]"

text \<open>Task 1's call is served while the owner waits for it.\<close>

definition demo_service :: "action list" where
  "demo_service = [Serve, Serve, Serve, Serve, Call 1 False, Call 1 False, Call 1 False, Call 1 False, Wake 20,
     Serve, Serve, Serve, Serve, Serve, Wake 1, Call 1 False, Call 1 False]"

definition demo_state :: "action list \<Rightarrow> csys" where
  "demo_state as = the (chan_run rev as (chan_start demo_ep))"

lemma run_some: "case chan_run srv as s of None \<Rightarrow> False | Some t \<Rightarrow> P t \<Longrightarrow> \<exists>t. chan_run srv as s = Some t \<and> P t"
  by (simp split: option.splits)

section \<open>Properties\<close>

text \<open>
  C8: One call at a time.  In every state the clients and the owner can reach, the clients between their
  claim and their release are none or one; the endpoint is free exactly when there is none and no turn is
  handed to anybody; and a turn is handed only to a client that waits in the queue and while nobody holds
  the claim.
\<close>

theorem one_call_at_a_time:
  assumes "chan_reach srv s"
  shows "(\<forall>i j. holding (cs_pc s i) \<and> holding (cs_pc s j) \<longrightarrow> i = j)
    \<and> (ep_busy (cs_ep s) \<longleftrightarrow> (\<exists>i. holding (cs_pc s i)) \<or> ep_handed (cs_ep s) \<noteq> -1)
    \<and> (\<forall>i. ep_handed (cs_ep s) = int i \<longrightarrow> in_queue (cs_pc s i) \<and> (\<forall>j. \<not> holding (cs_pc s j)))"
proof -
  note c = chan_reachD(1) [OF assms]
  show ?thesis using one_holder [OF c] claim_invD(5,7,8) [OF c] by fastforce
qed

theorem one_call_at_a_time_witness:
  "\<exists>s. chan_run rev demo_calls (chan_start demo_ep) = Some s \<and> cs_pc s 1 = P_COPY \<and> \<not> holding (cs_pc s 2) \<and> ep_busy (cs_ep s)"
proof -
  have "case chan_run rev demo_calls (chan_start demo_ep) of None \<Rightarrow> False | Some s \<Rightarrow> cs_pc s 1 = P_COPY" by code_simp
  then obtain s where s: "chan_run rev demo_calls (chan_start demo_ep) = Some s" "cs_pc s 1 = P_COPY" using run_some by blast
  note p = one_call_at_a_time [OF ep_run_reach [OF s(1)]]
  have "holding (cs_pc s 1)" using s(2) by simp
  with p have "ep_busy (cs_ep s)" "\<not> holding (cs_pc s 2)" by force+
  with s show ?thesis by blast
qed

text \<open>
  C9: A call returns the answer to its own request.  When a client comes back from a call with a length that
  passes the checks, the bytes it copies out are the owner's answer to the very bytes it sent, cut at the
  capacity of the response buffer, however many other clients called, waited, timed out or were refused
  meanwhile; the length is the number of those bytes.
\<close>

theorem call_gets_its_answer:
  assumes "chan_reach srv s" and "cs_pc s i = P_BACK r" and "0 \<le> call_result r resp_max (cs_ep s)"
  shows "copy_out (call_result r resp_max (cs_ep s)) (cs_ep s) = take (ep_resp_cap (cs_ep s)) (srv (cs_req s i))
    \<and> r = int (min (length (srv (cs_req s i))) (ep_resp_cap (cs_ep s)))"
proof -
  have a: "answered srv (cs_ep s) (cs_req s i) r"
    using call_invD(5) [OF chan_reachD(2) [OF assms(1)], of i] assms(2) by (simp add: call_ok_def)
  have r: "call_result r resp_max (cs_ep s) = r" "0 \<le> r" using assms(3) by (auto simp: call_result_def split: if_splits)
  then have r': "r = int (min (length (srv (cs_req s i))) (ep_resp_cap (cs_ep s)))"
      "take (nat r) (ep_resp_buf (cs_ep s)) = take (ep_resp_cap (cs_ep s)) (srv (cs_req s i))"
    using a by (auto simp: answered_def)
  have "copy_out r (cs_ep s) = take (nat r) (ep_resp_buf (cs_ep s))" using r(2) by (simp add: copy_out_def)
  with r(1) r' show ?thesis by simp
qed

theorem call_gets_its_answer_witness:
  "\<exists>s. chan_run rev (demo_calls @ demo_service) (chan_start demo_ep) = Some s
     \<and> copy_out (call_result 3 4 (cs_ep s)) (cs_ep s) = [9, 8, 7]"
proof -
  have "case chan_run rev (demo_calls @ demo_service) (chan_start demo_ep) of None \<Rightarrow> False
    | Some s \<Rightarrow> cs_pc s 1 = P_BACK 3 \<and> 0 \<le> call_result 3 4 (cs_ep s) \<and> ep_resp_cap (cs_ep s) = 4 \<and> cs_req s 1 = [7, 8, 9]"
    by code_simp
  then obtain s where s: "chan_run rev (demo_calls @ demo_service) (chan_start demo_ep) = Some s" "cs_pc s 1 = P_BACK 3"
    "0 \<le> call_result 3 4 (cs_ep s)" "ep_resp_cap (cs_ep s) = 4" "cs_req s 1 = [7, 8, 9]" using run_some by blast
  from call_gets_its_answer [OF ep_run_reach [OF s(1)] s(2,3)] s show ?thesis by auto
qed



section \<open>Where the code falls short\<close>

text \<open>A turn handed to a task that is asleep stays with it until its own deadline.\<close>

lemma handed_stays:
  assumes "chan_inv srv s" and "ep_handed (cs_ep s) = int i" and "cs_nap s i = ASLEEP" and "i \<notin> set (cs_wakes s)"
    and "i \<noteq> owner s" and "chan_step srv a s = Some s'" and "a \<noteq> Timer i"
  shows "ep_handed (cs_ep s') = int i \<and> cs_nap s' i = ASLEEP \<and> i \<notin> set (cs_wakes s') \<and> i \<noteq> owner s'"
proof -
  have c: "claim_inv (cs_ep s) (cs_pc s)" and k: "call_inv srv s" and w: "wake_inv s" using assms(1) by (simp_all add: chan_inv_def)
  have busy: "ep_busy (cs_ep s)" and none: "\<not> holding (cs_pc s j)" for j using claim_invD(5,7) [OF c] assms(2) by fastforce+
  have nc: "ep_caller (cs_ep s) = -1" "\<not> ep_pending (cs_ep s)"
    using call_invD(3,4) [OF k] none calling_holding by blast+
  have pc: "cs_pc s i \<noteq> P_OUT" using claim_invD(5) [OF c] assms(2) by auto
  show ?thesis
  proof (cases a)
    case (Enter j wait_ms req)
    then show ?thesis using assms(2-6) busy
      by (auto simp: enter_step_def claim_enter_def wq_push_def owner_def split: if_splits prod.splits)
  next
    case (Claim j flag)
    show ?thesis
    proof (cases "j = i")
      case True
      have "\<exists>q armed. cs_pc s i = P_SLEPT q armed"
        using wake_invD(3) [OF w assms(5)] assms(3) none [of i] by (auto simp: wake_ok_def)
      then show ?thesis using assms(3,6) Claim True by (auto simp: claim_step_def)
    next
      case False
      then show ?thesis using assms(2-6) Claim busy
        by (auto simp: claim_step_def claim_turn_def Let_def wq_push_def wq_remove_def owner_def
            split: pc.splits if_splits claim.splits prod.splits)
    qed
  next
    case (Call j flag)
    then show ?thesis using assms(6) none [of j] by (cases "cs_pc s j") (auto simp: call_step_def)
  next
    case Serve
    have "cs_srv s \<noteq> S_BUSY xs" for xs using call_invD(6) [OF k] nc by (auto simp: srv_ok_def)
    then show ?thesis using Serve assms(2-6) by (auto simp: serve_step_def owner_def split: srv_pc.splits if_splits)
  next
    case (Wake j)
    then show ?thesis using assms(2-6) notin_set_remove1
      by (cases "j = i") (auto simp: wake_step_def owner_def split: if_splits)
  next
    case (Timer j)
    then show ?thesis using assms(2-7) by (cases "j = i") (auto simp: timer_step_def owner_def split: pc.splits nap.splits)
  next
    case Exit
    then show ?thesis using assms(2-6) nc by (auto simp: exit_step_def exit_owner_def owner_def owe_def split: srv_pc.splits if_splits)
  qed
qed

text \<open>
  C39: A lost turn.  Suppose a turn is handed to a client that sleeps and no wake for it is under way.  Then
  whatever the other tasks do, the endpoint stays busy and handed to it, and it sleeps, until its own deadline.
  The witness reaches such a state: a client that found the queue full joins it in a later turn of its loop
  without having prepared to block; the hand-off comes between that turn and the block.
\<close>

theorem lost_turn_lasts:
  assumes "chan_reach srv s" and "ep_handed (cs_ep s) = int i" and "cs_nap s i = ASLEEP" and "i \<notin> set (cs_wakes s)"
    and "i \<noteq> owner s" and "chan_run srv as s = Some s'" and "Timer i \<notin> set as"
  shows "ep_busy (cs_ep s') \<and> ep_handed (cs_ep s') = int i \<and> cs_nap s' i = ASLEEP"
proof -
  have "chan_inv srv s' \<and> ep_handed (cs_ep s') = int i \<and> cs_nap s' i = ASLEEP"
    using chan_reach_inv [OF assms(1)] assms(2-)
  proof (induction "as" arbitrary: s)
    case (Cons a as)
    then obtain t where t: "chan_step srv a s = Some t" "chan_run srv as t = Some s'" by (auto split: option.splits)
    with Cons show ?case using handed_stays [OF Cons.prems(1-5) t(1)] chan_inv_step [OF Cons.prems(1) t(1)] by auto
  qed simp
  then show ?thesis using claim_invD(5) [of "cs_ep s'" "cs_pc s'"] by (auto simp: chan_inv_def)
qed

text \<open>
  Task 1 holds the endpoint, 2 to 9 fill the queue, 10 finds it full and polls.  2 to 9 reach their deadlines,
  10 joins the queue, task 1's call is refused and it releases; the wake finds task 10 awake and not prepared.
\<close>

definition demo_late :: "action list" where
  "demo_late = map (\<lambda>i. Enter i 50 [1]) [1..<11] @ concat (map (\<lambda>i. [Claim i False, Claim i True]) [2..<10])
     @ [Claim 10 False, Claim 10 False, Call 1 True, Call 1 True, Wake 10, Claim 10 False]"

theorem lost_turn_lasts_witness:
  "\<exists>s s'. chan_run rev demo_late (chan_start demo_ep) = Some s \<and> cs_pc s 10 = P_SLEPT True False
     \<and> chan_run rev [Enter 11 0 [1], Enter 12 50 [2], Claim 12 False] s = Some s'
     \<and> ep_busy (cs_ep s') \<and> ep_handed (cs_ep s') = 10 \<and> cs_nap s' 10 = ASLEEP"
proof -
  have "case chan_run rev demo_late (chan_start demo_ep) of None \<Rightarrow> False
    | Some s \<Rightarrow> cs_pc s 10 = P_SLEPT True False \<and> ep_handed (cs_ep s) = 10 \<and> cs_nap s 10 = ASLEEP \<and> 10 \<notin> set (cs_wakes s)
        \<and> 10 \<noteq> owner s \<and> chan_run rev [Enter 11 0 [1], Enter 12 50 [2], Claim 12 False] s \<noteq> None" by code_simp
  then obtain s s' where s: "chan_run rev demo_late (chan_start demo_ep) = Some s" "cs_pc s 10 = P_SLEPT True False"
    "ep_handed (cs_ep s) = int 10" "cs_nap s 10 = ASLEEP" "10 \<notin> set (cs_wakes s)" "10 \<noteq> owner s"
    "chan_run rev [Enter 11 0 [1], Enter 12 50 [2], Claim 12 False] s = Some s'" using run_some by fastforce
  from lost_turn_lasts [OF ep_run_reach [OF s(1)] s(3-7)] s(1,2,7) show ?thesis by auto
qed





end
