(* ===== verification/Idstore.thy ===== *)
theory Idstore
  imports Slip
begin

text \<open>
  The identity record (\<open>kernel/idstore.c\<close>): 4096 bytes with a header, a CRC-32 and typed fields.  A block
  device is a state with its two functions, the source's pointers being options; \<open>fake_read\<close> and
  \<open>fake_write\<close> are the device of the source's own selftest.
\<close>

section \<open>Data\<close>

definition IDSTORE_BLOCK_SIZE :: nat where "IDSTORE_BLOCK_SIZE = 512"
definition IDSTORE_BLOCKS :: nat where "IDSTORE_BLOCKS = 8"
definition IDSTORE_SIZE_BYTES :: nat where "IDSTORE_SIZE_BYTES = IDSTORE_BLOCK_SIZE * IDSTORE_BLOCKS"
definition IDSTORE_HEADER_LEN :: nat where "IDSTORE_HEADER_LEN = 12"
definition IDSTORE_VERSION :: u8 where "IDSTORE_VERSION = 1"
definition IDSTORE_MAGIC :: bytes where "IDSTORE_MAGIC = [76, 71, 73, 68]"

lemmas idstore_sizes = IDSTORE_SIZE_BYTES_def IDSTORE_BLOCK_SIZE_def IDSTORE_BLOCKS_def IDSTORE_HEADER_LEN_def

datatype idstore_state = IDSTORE_UNPROVISIONED | IDSTORE_CORRUPT | IDSTORE_VALID
datatype idstore_class = IDSTORE_CLASS_FACTORY | IDSTORE_CLASS_OWNER | IDSTORE_CLASS_HARDWARE

text \<open>\<open>idstore_field_type_t\<close>: the tags 1 to 18 by name.\<close>

definition IDSTORE_FIELD_UID :: u8 where "IDSTORE_FIELD_UID = 1"
definition IDSTORE_FIELD_NAME :: u8 where "IDSTORE_FIELD_NAME = 2"
definition IDSTORE_FIELD_DEVKEY :: u8 where "IDSTORE_FIELD_DEVKEY = 3"
definition IDSTORE_FIELD_WLAN_SSID :: u8 where "IDSTORE_FIELD_WLAN_SSID = 4"
definition IDSTORE_FIELD_WLAN_PSK :: u8 where "IDSTORE_FIELD_WLAN_PSK = 5"
definition IDSTORE_FIELD_IPV4 :: u8 where "IDSTORE_FIELD_IPV4 = 6"
definition IDSTORE_FIELD_GRANTS :: u8 where "IDSTORE_FIELD_GRANTS = 7"
definition IDSTORE_FIELD_MQTT :: u8 where "IDSTORE_FIELD_MQTT = 8"
definition IDSTORE_FIELD_ALTITUDE :: u8 where "IDSTORE_FIELD_ALTITUDE = 9"
definition IDSTORE_FIELD_SENSOR_CAL :: u8 where "IDSTORE_FIELD_SENSOR_CAL = 10"
definition IDSTORE_FIELD_POWER :: u8 where "IDSTORE_FIELD_POWER = 11"
definition IDSTORE_FIELD_ORIENT :: u8 where "IDSTORE_FIELD_ORIENT = 12"
definition IDSTORE_FIELD_OTA_PUBKEY :: u8 where "IDSTORE_FIELD_OTA_PUBKEY = 13"
definition IDSTORE_FIELD_SETUP_SECRET :: u8 where "IDSTORE_FIELD_SETUP_SECRET = 14"
definition IDSTORE_FIELD_MFG_CERT :: u8 where "IDSTORE_FIELD_MFG_CERT = 15"
definition IDSTORE_FIELD_TLS_KEY :: u8 where "IDSTORE_FIELD_TLS_KEY = 16"
definition IDSTORE_FIELD_TLS_CERT :: u8 where "IDSTORE_FIELD_TLS_CERT = 17"
definition IDSTORE_FIELD_TLS_CA :: u8 where "IDSTORE_FIELD_TLS_CA = 18"

lemmas idstore_tags = IDSTORE_FIELD_UID_def IDSTORE_FIELD_NAME_def IDSTORE_FIELD_DEVKEY_def IDSTORE_FIELD_WLAN_SSID_def
  IDSTORE_FIELD_WLAN_PSK_def IDSTORE_FIELD_IPV4_def IDSTORE_FIELD_GRANTS_def IDSTORE_FIELD_MQTT_def IDSTORE_FIELD_ALTITUDE_def
  IDSTORE_FIELD_SENSOR_CAL_def IDSTORE_FIELD_POWER_def IDSTORE_FIELD_ORIENT_def IDSTORE_FIELD_OTA_PUBKEY_def
  IDSTORE_FIELD_SETUP_SECRET_def IDSTORE_FIELD_MFG_CERT_def IDSTORE_FIELD_TLS_KEY_def IDSTORE_FIELD_TLS_CERT_def
  IDSTORE_FIELD_TLS_CA_def

record idstore =
  is_buf :: bytes
  is_fields_len :: nat
  is_unknown :: nat

record idstore_writer =
  iw_buf :: bytes
  iw_fields_len :: nat

section \<open>Bytes\<close>

definition rd_u16le :: "bytes \<Rightarrow> nat \<Rightarrow> nat" where
  "rd_u16le b p = unat (b ! p) + 256 * unat (b ! (p + 1))"

definition rd_u32le :: "bytes \<Rightarrow> nat \<Rightarrow> u32" where
  "rd_u32le b p = ucast (b ! p) OR push_bit 8 (ucast (b ! (p + 1))) OR push_bit 16 (ucast (b ! (p + 2)))
     OR push_bit 24 (ucast (b ! (p + 3)))"

definition wr_u16le :: "nat \<Rightarrow> bytes" where
  "wr_u16le v = [word_of_nat v, word_of_nat (v div 256)]"

definition wr_u32le :: "u32 \<Rightarrow> bytes" where
  "wr_u32le v = [ucast v, ucast (drop_bit 8 v), ucast (drop_bit 16 v), ucast (drop_bit 24 v)]"

text \<open>\<open>memcpy(&buf[p], xs, n)\<close>.\<close>

definition put_at :: "nat \<Rightarrow> bytes \<Rightarrow> bytes \<Rightarrow> bytes" where
  "put_at p xs buf = take p buf @ xs @ drop (p + length xs) buf"

definition record_crc :: "bytes \<Rightarrow> nat \<Rightarrow> u32" where
  "record_crc buf fields_len =
     NOT (crc32_update (crc32_update 0xFFFFFFFF (take (IDSTORE_HEADER_LEN - 4) buf)) (take fields_len (drop IDSTORE_HEADER_LEN buf)))"

section \<open>Field types\<close>

definition field_type_known :: "u8 \<Rightarrow> bool" where
  "field_type_known t \<longleftrightarrow> t = IDSTORE_FIELD_UID \<or> t = IDSTORE_FIELD_NAME \<or> t = IDSTORE_FIELD_DEVKEY
     \<or> t = IDSTORE_FIELD_WLAN_SSID \<or> t = IDSTORE_FIELD_WLAN_PSK \<or> t = IDSTORE_FIELD_IPV4 \<or> t = IDSTORE_FIELD_GRANTS
     \<or> t = IDSTORE_FIELD_MQTT \<or> t = IDSTORE_FIELD_ALTITUDE \<or> t = IDSTORE_FIELD_SENSOR_CAL \<or> t = IDSTORE_FIELD_POWER
     \<or> t = IDSTORE_FIELD_ORIENT \<or> t = IDSTORE_FIELD_OTA_PUBKEY \<or> t = IDSTORE_FIELD_SETUP_SECRET
     \<or> t = IDSTORE_FIELD_MFG_CERT \<or> t = IDSTORE_FIELD_TLS_KEY \<or> t = IDSTORE_FIELD_TLS_CERT \<or> t = IDSTORE_FIELD_TLS_CA"

definition idstore_field_class :: "u8 \<Rightarrow> idstore_class" where
  "idstore_field_class t =
     (if t \<in> {IDSTORE_FIELD_NAME, IDSTORE_FIELD_WLAN_SSID, IDSTORE_FIELD_WLAN_PSK, IDSTORE_FIELD_IPV4, IDSTORE_FIELD_GRANTS,
              IDSTORE_FIELD_MQTT, IDSTORE_FIELD_ALTITUDE, IDSTORE_FIELD_POWER, IDSTORE_FIELD_ORIENT, IDSTORE_FIELD_TLS_KEY,
              IDSTORE_FIELD_TLS_CERT, IDSTORE_FIELD_TLS_CA} then IDSTORE_CLASS_OWNER
      else if t = IDSTORE_FIELD_SENSOR_CAL then IDSTORE_CLASS_HARDWARE
      else IDSTORE_CLASS_FACTORY)"

definition idstore_field_network_writable :: "u8 \<Rightarrow> bool \<Rightarrow> bool" where
  "idstore_field_network_writable t admin \<longleftrightarrow> idstore_field_class t \<noteq> IDSTORE_CLASS_FACTORY \<and> admin"

definition idstore_path_is_secret :: "string option \<Rightarrow> bool" where
  "idstore_path_is_secret path = (case path of None \<Rightarrow> False | Some p \<Rightarrow> p \<in> set [''/dev/identity'', ''/dev/identity0''])"

section \<open>Reading\<close>

text \<open>The loop over the fields, as each of the functions has it.\<close>

function read_walk :: "bytes \<Rightarrow> nat \<Rightarrow> nat \<Rightarrow> nat \<Rightarrow> nat" where
  "read_walk buf fin off unknown =
     (if off + 3 \<le> fin
      then
        (let flen = rd_u16le buf (off + 1); voff = off + 3
         in if fin < voff + flen then unknown
            else read_walk buf fin (voff + flen) (if field_type_known (buf ! off) then unknown else unknown + 1))
      else unknown)"
  by pat_completeness auto
termination
  by (relation "measure (\<lambda>(buf, fin, off, u). fin - off)") auto

function find_walk :: "bytes \<Rightarrow> nat \<Rightarrow> u8 \<Rightarrow> nat \<Rightarrow> (nat \<times> nat) option" where
  "find_walk buf fin t off =
     (if off + 3 \<le> fin
      then
        (let flen = rd_u16le buf (off + 1); voff = off + 3
         in if fin < voff + flen then None
            else if buf ! off = t then Some (voff, flen)
            else find_walk buf fin t (voff + flen))
      else None)"
  by pat_completeness auto
termination
  by (relation "measure (\<lambda>(buf, fin, t, off). fin - off)") auto

declare read_walk.simps [simp del] find_walk.simps [simp del]

definition idstore_read ::
  "('d \<Rightarrow> bytes \<Rightarrow> nat \<Rightarrow> nat \<Rightarrow> int \<times> bytes) option \<Rightarrow> 'd option \<Rightarrow> idstore option \<Rightarrow> idstore_state \<times> idstore option" where
  "idstore_read read_blocks dev out =
     (case out of
        None \<Rightarrow> (IDSTORE_CORRUPT, None)
      | Some rec0 \<Rightarrow>
          let rec1 = rec0\<lparr>is_fields_len := 0, is_unknown := 0\<rparr>
          in case (dev, read_blocks) of
               (Some d, Some rd) \<Rightarrow>
                 (case rd d (is_buf rec1) 0 IDSTORE_BLOCKS of
                    (rc, buf) \<Rightarrow>
                      let rec2 = rec1\<lparr>is_buf := buf\<rparr>
                      in if rc \<noteq> 0 then (IDSTORE_CORRUPT, Some rec2)
                         else if take 4 buf \<noteq> IDSTORE_MAGIC then (IDSTORE_UNPROVISIONED, Some rec2)
                         else
                           let len = rd_u16le buf 6; fields_len = len - IDSTORE_HEADER_LEN
                           in if buf ! 4 \<noteq> IDSTORE_VERSION then (IDSTORE_CORRUPT, Some rec2)
                              else if len < IDSTORE_HEADER_LEN \<or> IDSTORE_SIZE_BYTES < len then (IDSTORE_CORRUPT, Some rec2)
                              else if record_crc buf fields_len \<noteq> rd_u32le buf 8 then (IDSTORE_CORRUPT, Some rec2)
                              else (IDSTORE_VALID, Some (rec2\<lparr>is_fields_len := fields_len,
                                      is_unknown := read_walk buf (IDSTORE_HEADER_LEN + fields_len) IDSTORE_HEADER_LEN 0\<rparr>)))
             | _ \<Rightarrow> (IDSTORE_CORRUPT, Some rec1))"

definition find_field :: "idstore \<Rightarrow> u8 \<Rightarrow> (nat \<times> nat) option" where
  "find_field r t = find_walk (is_buf r) (IDSTORE_HEADER_LEN + is_fields_len r) t IDSTORE_HEADER_LEN"

text \<open>The result and the bytes copied to \<open>val\<close>; the offset and the length for the pointer.\<close>

definition idstore_get_field :: "idstore option \<Rightarrow> u8 \<Rightarrow> nat \<Rightarrow> int \<times> bytes" where
  "idstore_get_field r t cap =
     (case r of
        None \<Rightarrow> (-1, [])
      | Some x \<Rightarrow>
          (case find_field x t of
             None \<Rightarrow> (-1, [])
           | Some (voff, flen) \<Rightarrow> (int flen, take (min flen cap) (drop voff (is_buf x)))))"

definition idstore_field_ptr :: "idstore option \<Rightarrow> u8 \<Rightarrow> (nat \<times> nat) option" where
  "idstore_field_ptr r t = (case r of None \<Rightarrow> None | Some x \<Rightarrow> find_field x t)"

section \<open>Writing\<close>

definition idstore_writer_init :: "idstore_writer \<Rightarrow> idstore_writer" where
  "idstore_writer_init w = w\<lparr>iw_buf := replicate IDSTORE_SIZE_BYTES 0, iw_fields_len := 0\<rparr>"

definition idstore_writer_add_field :: "idstore_writer \<Rightarrow> u8 \<Rightarrow> bytes \<Rightarrow> int \<times> idstore_writer" where
  "idstore_writer_add_field w t val =
     (if IDSTORE_SIZE_BYTES < IDSTORE_HEADER_LEN + iw_fields_len w + 3 + length val then (-1, w)
      else (0, w\<lparr>iw_buf := put_at (IDSTORE_HEADER_LEN + iw_fields_len w) (t # wr_u16le (length val) @ val) (iw_buf w),
                 iw_fields_len := iw_fields_len w + 3 + length val\<rparr>))"

function carry_walk :: "bytes \<Rightarrow> nat \<Rightarrow> nat \<Rightarrow> int \<Rightarrow> nat \<Rightarrow> idstore_writer \<Rightarrow> int \<times> nat \<times> idstore_writer" where
  "carry_walk buf fin off rc n w =
     (if off + 3 \<le> fin
      then
        (let flen = rd_u16le buf (off + 1); voff = off + 3
         in if fin < voff + flen then (rc, n, w)
            else if field_type_known (buf ! off) then carry_walk buf fin (voff + flen) rc n w
            else
              (case idstore_writer_add_field w (buf ! off) (take flen (drop voff buf)) of
                 (r, w') \<Rightarrow> carry_walk buf fin (voff + flen) (rc OR r) (n + 1) w'))
      else (rc, n, w))"
  by pat_completeness auto
termination
  by (relation "measure (\<lambda>(buf, fin, off, rc, n, w). fin - off)") auto

declare carry_walk.simps [simp del]

definition idstore_writer_carry_unknown :: "idstore_writer \<Rightarrow> idstore \<Rightarrow> int \<times> nat \<times> idstore_writer" where
  "idstore_writer_carry_unknown w old =
     carry_walk (is_buf old) (IDSTORE_HEADER_LEN + is_fields_len old) IDSTORE_HEADER_LEN 0 0 w"

text \<open>The record with its header filled in, and the write.\<close>

definition seal :: "idstore_writer \<Rightarrow> bytes" where
  "seal w =
     (let b = put_at 0 (IDSTORE_MAGIC @ [IDSTORE_VERSION, 0] @ wr_u16le (IDSTORE_HEADER_LEN + iw_fields_len w)) (iw_buf w)
      in put_at 8 (wr_u32le (record_crc b (iw_fields_len w))) b)"

definition idstore_writer_commit ::
  "('d \<Rightarrow> bytes \<Rightarrow> nat \<Rightarrow> nat \<Rightarrow> int \<times> 'd) option \<Rightarrow> 'd option \<Rightarrow> idstore_writer \<Rightarrow> int \<times> 'd option \<times> idstore_writer" where
  "idstore_writer_commit write_blocks dev w =
     (case (dev, write_blocks) of
        (Some d, Some wr) \<Rightarrow> (case wr d (seal w) 0 IDSTORE_BLOCKS of (rc, d') \<Rightarrow> (rc, Some d', w\<lparr>iw_buf := seal w\<rparr>))
      | _ \<Rightarrow> (-1, dev, w))"

section \<open>The selftest's device\<close>

type_synonym fake_disk = "bytes option"

definition fake_read :: "fake_disk \<Rightarrow> bytes \<Rightarrow> nat \<Rightarrow> nat \<Rightarrow> int \<times> bytes" where
  "fake_read disk buf lba count =
     (case disk of
        None \<Rightarrow> (-1, buf)
      | Some b \<Rightarrow> if IDSTORE_BLOCKS < lba + count then (-1, buf)
                  else (0, put_at 0 (take (count * IDSTORE_BLOCK_SIZE) (drop (lba * IDSTORE_BLOCK_SIZE) b)) buf))"

definition fake_write :: "fake_disk \<Rightarrow> bytes \<Rightarrow> nat \<Rightarrow> nat \<Rightarrow> int \<times> fake_disk" where
  "fake_write disk buf lba count =
     (case disk of
        None \<Rightarrow> (-1, disk)
      | Some b \<Rightarrow> if IDSTORE_BLOCKS < lba + count then (-1, disk)
                  else (0, Some (put_at (lba * IDSTORE_BLOCK_SIZE) (take (count * IDSTORE_BLOCK_SIZE) buf) b)))"

end
