(* ===== verification/Idstore_Correct.thy ===== *)
theory Idstore_Correct
  imports Idstore Slip_Correct
begin

text \<open>
  The identity record as a list of typed fields: the loops of the code are functions of that list, what is
  written is read back, damage is refused, and a rewrite keeps the fields this build does not know.
\<close>

section \<open>The fields as a list\<close>

function tlvs :: "bytes \<Rightarrow> nat \<Rightarrow> nat \<Rightarrow> (u8 \<times> bytes) list" where
  "tlvs buf fin off =
     (if off + 3 \<le> fin \<and> off + 3 + rd_u16le buf (off + 1) \<le> fin
      then (buf ! off, take (rd_u16le buf (off + 1)) (drop (off + 3) buf)) # tlvs buf fin (off + 3 + rd_u16le buf (off + 1))
      else [])"
  by pat_completeness auto
termination
  by (relation "measure (\<lambda>(buf, fin, off). fin - off)") auto

declare tlvs.simps [simp del]

definition unknown_of :: "(u8 \<times> bytes) list \<Rightarrow> (u8 \<times> bytes) list" where
  "unknown_of fs = filter (\<lambda>(t, v). \<not> field_type_known t) fs"

lemma unknown_of_simps [simp]:
  "unknown_of [] = []" "unknown_of ((t, v) # fs) = (if field_type_known t then unknown_of fs else (t, v) # unknown_of fs)"
  by (simp_all add: unknown_of_def)

text \<open>Fields added one after the other; the result is the disjunction of the results.\<close>

fun add_all :: "idstore_writer \<Rightarrow> (u8 \<times> bytes) list \<Rightarrow> int \<times> idstore_writer" where
  "add_all w [] = (0, w)"
| "add_all w ((t, v) # fs) =
     (case idstore_writer_add_field w t v of (r, w1) \<Rightarrow> case add_all w1 fs of (r', w2) \<Rightarrow> (r OR r', w2))"

lemma read_walk_tlvs: "read_walk buf fin off u = u + length (unknown_of (tlvs buf fin off))"
proof (induction buf fin off arbitrary: u rule: tlvs.induct)
  case (1 buf fin off)
  then show ?case by (subst read_walk.simps, subst tlvs.simps) (auto simp: Let_def)
qed

lemma find_walk_tlvs: "map_option (\<lambda>(p, n). take n (drop p buf)) (find_walk buf fin t off) = map_of (tlvs buf fin off) t"
proof (induction buf fin off rule: tlvs.induct)
  case (1 buf fin off)
  then show ?case by (subst find_walk.simps, subst tlvs.simps) (auto simp: Let_def)
qed

lemma find_walk_inside: "find_walk buf fin t off = Some (p, n) \<Longrightarrow> p + n \<le> fin"
proof (induction buf fin t off rule: find_walk.induct)
  case (1 buf fin t off)
  from "1.prems" "1.IH" [OF _ refl refl] show ?case
    by (subst (asm) find_walk.simps) (auto simp: Let_def split: if_splits)
qed

lemma carry_walk_tlvs:
  "carry_walk buf fin off rc n w =
     (case add_all w (unknown_of (tlvs buf fin off)) of (r, w') \<Rightarrow> (rc OR r, n + length (unknown_of (tlvs buf fin off)), w'))"
proof (induction buf fin off arbitrary: rc n w rule: tlvs.induct)
  case (1 buf fin off)
  let ?len = "rd_u16le buf (off + 1)"
  let ?v = "take ?len (drop (off + 3) buf)"
  show ?case
  proof (cases "off + 3 \<le> fin \<and> off + 3 + ?len \<le> fin")
    case True
    have t: "tlvs buf fin off = (buf ! off, ?v) # tlvs buf fin (off + 3 + ?len)"
      using True by (subst tlvs.simps) (rule if_P)
    obtain r w1 where a: "idstore_writer_add_field w (buf ! off) ?v = (r, w1)" by (rule prod.exhaust)
    have "carry_walk buf fin off rc n w =
        (if field_type_known (buf ! off) then carry_walk buf fin (off + 3 + ?len) rc n w
         else carry_walk buf fin (off + 3 + ?len) (rc OR r) (n + 1) w1)"
      using True a by (subst carry_walk.simps) (simp add: Let_def)
    with "1.IH" [OF True] a show ?thesis by (auto simp: t or.assoc split: prod.splits)
  next
    case False
    then have "tlvs buf fin off = []" by (subst tlvs.simps) (rule if_not_P)
    moreover have "carry_walk buf fin off rc n w = (rc, n, w)"
      using False by (subst carry_walk.simps) (auto simp: Let_def)
    ultimately show ?thesis by simp
  qed
qed

definition fields_of :: "idstore \<Rightarrow> (u8 \<times> bytes) list" where
  "fields_of r = tlvs (is_buf r) (IDSTORE_HEADER_LEN + is_fields_len r) IDSTORE_HEADER_LEN"

text \<open>A lookup finds the first field of the type.\<close>

lemma get_field_map_of:
  assumes "IDSTORE_HEADER_LEN + is_fields_len r \<le> length (is_buf r)"
  shows "idstore_get_field (Some r) t cap = (case map_of (fields_of r) t of None \<Rightarrow> (-1, []) | Some v \<Rightarrow> (int (length v), take cap v))"
proof (cases "find_field r t")
  case None
  then have "map_of (fields_of r) t = None"
    using find_walk_tlvs [of "is_buf r" _ t] by (simp add: find_field_def fields_of_def flip: find_walk_tlvs)
  with None show ?thesis by (simp add: idstore_get_field_def)
next
  case (Some x)
  obtain p n where x: "x = (p, n)" by (rule prod.exhaust)
  then have "map_of (fields_of r) t = Some (take n (drop p (is_buf r)))"
    using Some by (simp add: find_field_def fields_of_def flip: find_walk_tlvs)
  moreover have "p + n \<le> length (is_buf r)" using find_walk_inside Some x assms by (fastforce simp: find_field_def)
  ultimately show ?thesis using Some x by (simp add: idstore_get_field_def min.commute)
qed

section \<open>What the writer holds\<close>

definition tlv :: "u8 \<times> bytes \<Rightarrow> bytes" where
  "tlv f = fst f # wr_u16le (length (snd f)) @ snd f"

lemma length_tlv: "length (tlv f) = 3 + length (snd f)"
  by (simp add: tlv_def wr_u16le_def)

lemma rd_wr_u16le: "n < 65536 \<Longrightarrow> length xs = p \<Longrightarrow> rd_u16le (xs @ wr_u16le n @ ys) p = n"
  by (simp add: rd_u16le_def wr_u16le_def nth_append unat_of_nat)

lemma tlvs_concat:
  assumes "\<forall>f \<in> set fs. length (snd f) < 65536"
  shows "tlvs (pre @ concat (map tlv fs) @ post) (length pre + length (concat (map tlv fs))) (length pre) = fs"
  using assms
proof (induction fs arbitrary: pre)
  case Nil
  then show ?case by (subst tlvs.simps) simp
next
  case (Cons f fs)
  let ?rest = "concat (map tlv fs)"
  let ?buf = "pre @ concat (map tlv (f # fs)) @ post"
  have b: "?buf = (pre @ [fst f]) @ wr_u16le (length (snd f)) @ (snd f @ ?rest @ post)" by (simp add: tlv_def)
  have len: "rd_u16le ?buf (length pre + 1) = length (snd f)" unfolding b using Cons.prems by (intro rd_wr_u16le) simp_all
  have t: "?buf ! length pre = fst f" by (simp add: tlv_def nth_append)
  have v: "take (length (snd f)) (drop (length pre + 3) ?buf) = snd f" by (simp add: tlv_def wr_u16le_def numeral_3_eq_3)
  have "tlvs ?buf (length pre + length (concat (map tlv (f # fs)))) (length pre + 3 + length (snd f)) = fs"
    using Cons.IH [of "pre @ tlv f"] Cons.prems by (simp add: length_tlv add.assoc)
  then show ?case by (subst tlvs.simps, simp only: len t v) (simp add: length_tlv)
qed

definition holds :: "idstore_writer \<Rightarrow> (u8 \<times> bytes) list \<Rightarrow> bool" where
  "holds w fs \<longleftrightarrow> length (iw_buf w) = 4096 \<and> iw_fields_len w = length (concat (map tlv fs)) \<and> 12 + iw_fields_len w \<le> 4096
     \<and> take (iw_fields_len w) (drop 12 (iw_buf w)) = concat (map tlv fs)"

lemma holds_init: "holds (idstore_writer_init w) []"
  by (simp add: holds_def idstore_writer_init_def idstore_sizes)

lemma length_put_at: "p + length xs \<le> length buf \<Longrightarrow> length (put_at p xs buf) = length buf"
  by (simp add: put_at_def)

lemma holds_add:
  assumes "holds w fs" and "idstore_writer_add_field w t v = (0, w')"
  shows "holds w' (fs @ [(t, v)])"
proof -
  let ?n = "iw_fields_len w"
  have fit: "12 + ?n + 3 + length v \<le> 4096" and w': "w' = w\<lparr>iw_buf := put_at (12 + ?n) (tlv (t, v)) (iw_buf w), iw_fields_len := ?n + 3 + length v\<rparr>"
    using assms(2) by (auto simp: idstore_writer_add_field_def idstore_sizes tlv_def split: if_splits)
  have "take (?n + 3 + length v) (drop 12 (put_at (12 + ?n) (tlv (t, v)) (iw_buf w))) = take ?n (drop 12 (iw_buf w)) @ tlv (t, v)"
    using fit assms(1) by (simp add: put_at_def length_tlv take_drop holds_def) (simp add: drop_take)
  then show ?thesis using assms(1) fit by (auto simp: holds_def w' length_put_at length_tlv)
qed

lemma add_field_codes: "idstore_writer_add_field w t v = (r, w') \<Longrightarrow> r = 0 \<or> r = -1"
  by (auto simp: idstore_writer_add_field_def split: if_splits)

lemma add_all_codes: "add_all w fs = (r, w') \<Longrightarrow> r = 0 \<or> r = -1"
  by (induction fs arbitrary: w r) (auto split: prod.splits dest!: add_field_codes, fastforce+)

lemma holds_add_all: "holds w fs \<Longrightarrow> add_all w gs = (0, w') \<Longrightarrow> holds w' (fs @ gs)"
proof (induction gs arbitrary: w fs)
  case (Cons g gs)
  obtain t v where g: "g = (t, v)" by (rule prod.exhaust)
  obtain r w1 where a: "idstore_writer_add_field w t v = (r, w1)" by (rule prod.exhaust)
  obtain r' w2 where b: "add_all w1 gs = (r', w2)" by (rule prod.exhaust)
  have "r OR r' = 0" "w2 = w'" using Cons.prems(2) by (simp_all add: g a b)
  then have "r = 0" "r' = 0" using add_field_codes [OF a] add_all_codes [OF b] by auto
  then show ?case using Cons.IH [of w1 "fs @ [(t, v)]"] holds_add [OF Cons.prems(1)] a b \<open>w2 = w'\<close> by (simp add: g)
qed simp

section \<open>The sealed record\<close>

definition sealed_head :: "idstore_writer \<Rightarrow> bytes" where
  "sealed_head w = IDSTORE_MAGIC @ [IDSTORE_VERSION, 0] @ wr_u16le (12 + iw_fields_len w)"

lemma length_heads [simp]: "length (sealed_head w) = 8" "length (wr_u32le v) = 4"
  by (simp_all add: sealed_head_def IDSTORE_MAGIC_def wr_u16le_def wr_u32le_def)

lemma rd_wr_u32le: "length xs = p \<Longrightarrow> rd_u32le (xs @ wr_u32le v @ ys) p = v"
proof -
  assume p: "length xs = p"
  have "rd_u32le (xs @ wr_u32le v @ ys) p =
      ucast (ucast v :: u8) OR push_bit 8 (ucast (ucast (drop_bit 8 v) :: u8)) OR push_bit 16 (ucast (ucast (drop_bit 16 v) :: u8))
        OR push_bit 24 (ucast (ucast (drop_bit 24 v) :: u8))"
    using p by (auto simp: rd_u32le_def wr_u32le_def nth_append)
  also have "\<dots> = v"
  proof (rule bit_word_eqI)
    fix n assume "n < LENGTH(32)"
    then show "bit (ucast (ucast v :: u8) OR push_bit 8 (ucast (ucast (drop_bit 8 v) :: u8)) OR push_bit 16 (ucast (ucast (drop_bit 16 v) :: u8))
        OR push_bit 24 (ucast (ucast (drop_bit 24 v) :: u8)) :: u32) n = bit v n"
      by (cases "24 \<le> n"; cases "16 \<le> n"; cases "8 \<le> n") (auto simp: bit_simps)
  qed
  finally show ?thesis .
qed

definition crc_of :: "idstore_writer \<Rightarrow> u32" where
  "crc_of w = NOT (crc32_update (crc32_update 0xFFFFFFFF (sealed_head w)) (take (iw_fields_len w) (drop 12 (iw_buf w))))"

lemma seal_eq:
  assumes "length (iw_buf w) = 4096"
  shows "seal w = sealed_head w @ wr_u32le (crc_of w) @ drop 12 (iw_buf w)"
proof -
  let ?b = "put_at 0 (sealed_head w) (iw_buf w)"
  have b: "?b = sealed_head w @ drop 8 (iw_buf w)" by (simp add: put_at_def)
  have "record_crc ?b (iw_fields_len w) = crc_of w" by (simp add: record_crc_def crc_of_def b idstore_sizes)
  then have "seal w = put_at 8 (wr_u32le (crc_of w)) ?b" by (simp add: seal_def sealed_head_def idstore_sizes Let_def)
  then show ?thesis by (simp add: b put_at_def)
qed

lemma length_seal: "length (iw_buf w) = 4096 \<Longrightarrow> length (seal w) = 4096"
  by (simp add: seal_eq)

text \<open>A buffer with a header that \<open>idstore_writer_commit\<close> writes is valid exactly if its checksum fits.\<close>

lemma read_sealed:
  assumes "length (fb @ rest) = 4084" and "buf = sealed_head w @ wr_u32le c @ fb @ rest"
    and "length fb = iw_fields_len w" and "rd d (is_buf old) 0 8 = (0, buf)"
  shows "idstore_read (Some rd) (Some d) (Some old) =
    (if NOT (crc32_update (crc32_update 0xFFFFFFFF (sealed_head w)) fb) = c
     then (IDSTORE_VALID, Some (old\<lparr>is_buf := buf, is_fields_len := iw_fields_len w,
             is_unknown := length (unknown_of (tlvs buf (12 + iw_fields_len w) 12))\<rparr>))
     else (IDSTORE_CORRUPT, Some (old\<lparr>is_buf := buf, is_fields_len := 0, is_unknown := 0\<rparr>)))"
proof -
  have n: "12 + iw_fields_len w \<le> 4096" using assms(1,3) by simp
  have m: "take 4 buf = IDSTORE_MAGIC" by (simp add: assms(2) sealed_head_def IDSTORE_MAGIC_def)
  have v: "buf ! 4 = IDSTORE_VERSION" by (simp add: assms(2) sealed_head_def IDSTORE_MAGIC_def)
  have l: "rd_u16le buf 6 = 12 + iw_fields_len w"
    using rd_wr_u16le [of "12 + iw_fields_len w" "IDSTORE_MAGIC @ [IDSTORE_VERSION, 0]" 6] n
    by (simp add: assms(2) sealed_head_def IDSTORE_MAGIC_def)
  have c: "rd_u32le buf 8 = c" using rd_wr_u32le [of "sealed_head w" 8] by (simp add: assms(2))
  have r: "record_crc buf (iw_fields_len w) = NOT (crc32_update (crc32_update 0xFFFFFFFF (sealed_head w)) fb)"
    using assms(3) by (simp add: record_crc_def assms(2) idstore_sizes)
  show ?thesis using assms(4) n by (simp add: idstore_read_def m v l c r idstore_sizes Let_def read_walk_tlvs)
qed

section \<open>Any device that keeps what is written to it\<close>

locale block_store =
  fixes rd :: "'d \<Rightarrow> bytes \<Rightarrow> nat \<Rightarrow> nat \<Rightarrow> int \<times> bytes"
    and wr :: "'d \<Rightarrow> bytes \<Rightarrow> nat \<Rightarrow> nat \<Rightarrow> int \<times> 'd"
  assumes read_back: "wr d buf 0 IDSTORE_BLOCKS = (0, d') \<Longrightarrow> length buf = IDSTORE_SIZE_BYTES \<Longrightarrow> length old = IDSTORE_SIZE_BYTES
    \<Longrightarrow> rd d' old 0 IDSTORE_BLOCKS = (0, buf)"
begin

lemma commit_read:
  assumes "holds w fs" and "idstore_writer_commit (Some wr) (Some d) w = (0, Some d', w')" and "length (is_buf old) = IDSTORE_SIZE_BYTES"
  shows "\<exists>r. idstore_read (Some rd) (Some d') (Some old) = (IDSTORE_VALID, Some r) \<and> fields_of r = fs
    \<and> IDSTORE_HEADER_LEN + is_fields_len r \<le> length (is_buf r) \<and> is_unknown r = length (unknown_of fs)"
proof -
  let ?f = "concat (map tlv fs)"
  have h: "length (iw_buf w) = 4096" "iw_fields_len w = length ?f" "12 + length ?f \<le> 4096"
      "take (length ?f) (drop 12 (iw_buf w)) = ?f"
    using assms(1) by (auto simp: holds_def)
  define rest where "rest = drop (12 + length ?f) (iw_buf w)"
  have buf: "drop 12 (iw_buf w) = ?f @ rest" using h(4) append_take_drop_id [of "length ?f" "drop 12 (iw_buf w)"] by (simp add: rest_def add.commute)
  have w: "wr d (seal w) 0 IDSTORE_BLOCKS = (0, d')"
    using assms(2) by (auto simp: idstore_writer_commit_def split: prod.splits)
  have rd: "rd d' (is_buf old) 0 8 = (0, seal w)"
    using read_back [OF w _ assms(3)] length_seal [OF h(1)] by (simp add: idstore_sizes)
  have eq: "seal w = sealed_head w @ wr_u32le (crc_of w) @ ?f @ rest" using seal_eq [OF h(1)] buf by simp
  have crc: "crc_of w = NOT (crc32_update (crc32_update 0xFFFFFFFF (sealed_head w)) ?f)" using h(2,4) by (simp add: crc_of_def)
  have len: "length (?f @ rest) = 4084" using h(1) by (simp flip: buf)
  have short: "\<forall>f \<in> set fs. length (snd f) < 65536"
  proof
    fix f assume "f \<in> set fs"
    then have "length (tlv f) \<le> length ?f" by (induction fs) auto
    then show "length (snd f) < 65536" using h(3) by (simp add: length_tlv)
  qed
  define r where "r = old\<lparr>is_buf := seal w, is_fields_len := iw_fields_len w, is_unknown := length (unknown_of fs)\<rparr>"
  have t: "tlvs (seal w) (12 + iw_fields_len w) 12 = fs"
    using tlvs_concat [OF short, of "sealed_head w @ wr_u32le (crc_of w)" rest] by (simp add: eq h(2))
  have "idstore_read (Some rd) (Some d') (Some old) = (IDSTORE_VALID, Some r)"
    using read_sealed [OF len eq h(2) [symmetric], of rd d' old] rd unfolding crc [symmetric] t by (simp add: r_def)
  moreover have "fields_of r = fs" using t by (simp add: fields_of_def r_def idstore_sizes)
  moreover have "IDSTORE_HEADER_LEN + is_fields_len r \<le> length (is_buf r)"
    using length_seal [OF h(1)] h(2,3) by (simp add: r_def idstore_sizes)
  ultimately show ?thesis by (intro exI [of _ r]) (simp add: r_def)
qed

end

lemma fake_read_back:
  assumes "fake_write d buf 0 IDSTORE_BLOCKS = (0, d')" and "length buf = IDSTORE_SIZE_BYTES" and "length old = IDSTORE_SIZE_BYTES"
  shows "fake_read d' old 0 IDSTORE_BLOCKS = (0, buf)"
  using assms by (auto simp: fake_write_def fake_read_def put_at_def idstore_sizes split: option.splits)

interpretation selftest_disk: block_store fake_read fake_write
  by unfold_locales (rule fake_read_back)

section \<open>Properties\<close>

text \<open>
  C21: What is stored is read back.  On any device that keeps what is written to it: a record built from fields
  that all fitted, once committed, reads as valid; a lookup of a type gives the first field of that type,
  cut at the caller's capacity, with its full length, and -1 for a type that was not stored; the fields of a
  type this build does not know are counted.
\<close>

theorem idstore_roundtrip:
  assumes "\<And>d buf d' old. wr d buf 0 IDSTORE_BLOCKS = (0, d') \<Longrightarrow> length buf = IDSTORE_SIZE_BYTES \<Longrightarrow> length old = IDSTORE_SIZE_BYTES
      \<Longrightarrow> rd d' old 0 IDSTORE_BLOCKS = (0, buf)"
    and "add_all (idstore_writer_init w0) fs = (0, w)" and "idstore_writer_commit (Some wr) (Some d) w = (0, Some d', w')"
    and "length (is_buf old) = IDSTORE_SIZE_BYTES"
  shows "\<exists>r. idstore_read (Some rd) (Some d') (Some old) = (IDSTORE_VALID, Some r)
    \<and> (\<forall>t cap. idstore_get_field (Some r) t cap = (case map_of fs t of None \<Rightarrow> (-1, []) | Some v \<Rightarrow> (int (length v), take cap v)))
    \<and> is_unknown r = length (unknown_of fs)"
proof -
  have "block_store rd wr" by (rule block_store.intro) (rule assms(1))
  moreover have "holds w fs" using holds_add_all [OF holds_init assms(2)] by simp
  ultimately obtain r where "idstore_read (Some rd) (Some d') (Some old) = (IDSTORE_VALID, Some r)" "fields_of r = fs"
      "IDSTORE_HEADER_LEN + is_fields_len r \<le> length (is_buf r)" "is_unknown r = length (unknown_of fs)"
    using block_store.commit_read [OF _ _ assms(3,4)] by blast
  then show ?thesis using get_field_map_of by auto
qed

definition demo_old :: idstore where
  "demo_old = \<lparr>is_buf = replicate IDSTORE_SIZE_BYTES 0, is_fields_len = 0, is_unknown = 0\<rparr>"

definition demo_writer :: idstore_writer where
  "demo_writer = snd (add_all (idstore_writer_init \<lparr>iw_buf = [], iw_fields_len = 0\<rparr>) [(IDSTORE_FIELD_UID, [1, 2]), (200, [5])])"

lemma demo_add: "add_all (idstore_writer_init \<lparr>iw_buf = [], iw_fields_len = 0\<rparr>) [(IDSTORE_FIELD_UID, [1, 2]), (200, [5])] = (0, demo_writer)"
  by (simp add: demo_writer_def idstore_writer_add_field_def idstore_writer_init_def idstore_sizes)

lemma fake_commit: "\<exists>d' w'. idstore_writer_commit (Some fake_write) (Some (Some b)) w = (0, Some d', w')"
  by (simp add: idstore_writer_commit_def fake_write_def idstore_sizes)

theorem idstore_roundtrip_witness:
  "\<exists>d' w' r. idstore_writer_commit (Some fake_write) (Some (Some (replicate 4096 255))) demo_writer = (0, Some d', w')
     \<and> idstore_read (Some fake_read) (Some d') (Some demo_old) = (IDSTORE_VALID, Some r)
     \<and> idstore_get_field (Some r) IDSTORE_FIELD_UID 8 = (2, [1, 2]) \<and> idstore_get_field (Some r) IDSTORE_FIELD_NAME 8 = (-1, [])
     \<and> is_unknown r = 1"
proof -
  obtain d' w' where c: "idstore_writer_commit (Some fake_write) (Some (Some (replicate 4096 255))) demo_writer = (0, Some d', w')"
    using fake_commit by blast
  have o: "length (is_buf demo_old) = IDSTORE_SIZE_BYTES" by (simp add: demo_old_def)
  have "\<exists>r. idstore_read (Some fake_read) (Some d') (Some demo_old) = (IDSTORE_VALID, Some r)
      \<and> (\<forall>t cap. idstore_get_field (Some r) t cap =
            (case map_of [(IDSTORE_FIELD_UID, [1, 2]), (200, [5])] t of None \<Rightarrow> (-1, []) | Some v \<Rightarrow> (int (length v), take cap v)))
      \<and> is_unknown r = length (unknown_of [(IDSTORE_FIELD_UID, [1, 2]), (200, [5])])"
    by (rule idstore_roundtrip [OF _ demo_add c o]) (rule fake_read_back)
  then obtain r where r: "idstore_read (Some fake_read) (Some d') (Some demo_old) = (IDSTORE_VALID, Some r)"
    "\<And>t cap. idstore_get_field (Some r) t cap =
       (case map_of [(IDSTORE_FIELD_UID, [1, 2]), (200, [5])] t of None \<Rightarrow> (-1, []) | Some v \<Rightarrow> (int (length v), take cap v))"
    "is_unknown r = length (unknown_of [(IDSTORE_FIELD_UID, [1, 2]), (200, [5])])" by blast
  have "idstore_get_field (Some r) IDSTORE_FIELD_UID 8 = (2, [1, 2])" unfolding r(2) by simp
  moreover have "idstore_get_field (Some r) IDSTORE_FIELD_NAME 8 = (-1, [])" unfolding r(2) by (simp add: idstore_tags)
  moreover have "is_unknown r = 1" unfolding r(3) by (simp add: field_type_known_def idstore_tags)
  ultimately show ?thesis using c r(1) by blast
qed

text \<open>
  C22: Damage is refused.  If up to four consecutive bytes in the fields of a committed record read back as
  something else, the record is corrupt: no field is found in it, under any type.
\<close>

theorem damaged_record_refused:
  assumes "add_all (idstore_writer_init w0) fs = (0, w)" and "seal w = p @ a @ q" and "IDSTORE_HEADER_LEN \<le> length p"
    and "length (p @ a) \<le> IDSTORE_HEADER_LEN + iw_fields_len w" and "length b = length a" and "length a \<le> 4" and "a \<noteq> b"
    and "rd d (is_buf old) 0 IDSTORE_BLOCKS = (0, p @ b @ q)"
  shows "\<exists>r. idstore_read (Some rd) (Some d) (Some old) = (IDSTORE_CORRUPT, Some r) \<and> (\<forall>t cap. idstore_get_field (Some r) t cap = (-1, []))"
proof -
  have h: "holds w fs" using holds_add_all [OF holds_init assms(1)] by simp
  then have l: "length (iw_buf w) = 4096" and n: "12 + iw_fields_len w \<le> 4096" by (auto simp: holds_def)
  define k where "k = length p - 12"
  define post where "post = take (iw_fields_len w - (k + length a)) q"
  define rest where "rest = drop (iw_fields_len w - (k + length a)) q"
  have p: "length p = 12 + k" and ka: "k + length a \<le> iw_fields_len w" using assms(3,4) by (simp_all add: k_def idstore_sizes)
  have eq: "sealed_head w @ wr_u32le (crc_of w) @ drop 12 (iw_buf w) = p @ a @ q" using seal_eq [OF l] assms(2) by simp
  have "take 12 (p @ a @ q) = sealed_head w @ wr_u32le (crc_of w)" by (simp flip: eq)
  then have head: "take 12 p = sealed_head w @ wr_u32le (crc_of w)" using p by simp
  define pre where "pre = drop 12 p"
  have pp: "p = sealed_head w @ wr_u32le (crc_of w) @ pre" using append_take_drop_id [of 12 p] head by (simp add: pre_def)
  have q: "q = post @ rest" by (simp add: post_def rest_def)
  have body: "drop 12 (iw_buf w) = pre @ a @ post @ rest" using eq by (simp add: pp q)
  have lq: "iw_fields_len w - (k + length a) \<le> length q"
  proof -
    have "length (p @ a @ q) = 4096" using length_seal [OF l] assms(2) by simp
    then show ?thesis using p n by simp
  qed
  have lf: "length (pre @ x @ post) = iw_fields_len w" if "length x = length a" for x
    using that p ka lq by (simp add: pre_def post_def)
  have crc: "crc_of w = NOT (crc32_update (crc32_update 0xFFFFFFFF (sealed_head w)) (pre @ a @ post))"
    using lf [of a] by (simp add: crc_of_def body take_append)
  have "foldl crc_byte c a \<noteq> foldl crc_byte c b" for c
    using burst_difference [of a b c c] word_diff_zero [of a b] assms(5-7) by auto
  then have ne: "foldl crc_byte c b \<noteq> foldl crc_byte c a" for c by (rule not_sym)
  have "crc32_update c (pre @ b @ post) \<noteq> crc32_update c (pre @ a @ post)" for c
  proof
    assume "crc32_update c (pre @ b @ post) = crc32_update c (pre @ a @ post)"
    then have "foldl crc_byte (foldl crc_byte (foldl crc_byte c pre) b) post = foldl crc_byte (foldl crc_byte (foldl crc_byte c pre) a) post"
      by (simp add: crc32_update_def)
    then have "foldl crc_byte (foldl crc_byte c pre) b = foldl crc_byte (foldl crc_byte c pre) a" by (rule crc_update_inj)
    with ne show False by blast
  qed
  then have bad: "NOT (crc32_update (crc32_update 0xFFFFFFFF (sealed_head w)) (pre @ b @ post)) \<noteq> crc_of w"
    by (simp add: crc bit.compl_eq_compl_iff)
  have len: "length ((pre @ b @ post) @ rest) = 4084"
    using l assms(5) arg_cong [OF body, of length] by simp
  have "idstore_read (Some rd) (Some d) (Some old) = (IDSTORE_CORRUPT, Some (old\<lparr>is_buf := p @ b @ q, is_fields_len := 0, is_unknown := 0\<rparr>))"
    using read_sealed [OF len, of "p @ b @ q" w "crc_of w" rd d old] bad lf [OF assms(5)] assms(8)
    by (simp add: pp q idstore_sizes)
  moreover have "find_walk buf 12 t 12 = None" for buf t by (subst find_walk.simps) simp
  ultimately show ?thesis by (simp add: idstore_get_field_def find_field_def idstore_sizes)
qed

theorem damaged_record_refused_witness:
  "\<exists>r. idstore_read (Some fake_read) (Some (Some (take 15 (seal demo_writer) @ [9, 9] @ drop 17 (seal demo_writer)))) (Some demo_old) = (IDSTORE_CORRUPT, Some r)
     \<and> idstore_get_field (Some r) IDSTORE_FIELD_UID 8 = (-1, [])"
proof -
  let ?s = "seal demo_writer"
  have h: "holds demo_writer [(IDSTORE_FIELD_UID, [1, 2]), (200, [5])]" using holds_add_all [OF holds_init demo_add] by simp
  then have l: "length ?s = 4096" and n: "iw_fields_len demo_writer = 9"
    using length_seal by (auto simp: holds_def length_tlv)
  have d: "take 9 (drop 12 (iw_buf demo_writer)) = [1, 2, 0, 1, 2, 200, 1, 0, 5]"
    using h n by (simp add: holds_def tlv_def wr_u16le_def IDSTORE_FIELD_UID_def)
  have "take 2 (drop 15 ?s) = take 2 (drop 3 (take 9 (drop 12 (iw_buf demo_writer))))"
    using h by (simp add: seal_eq holds_def drop_take)
  then have a: "take 2 (drop 15 ?s) = [1, 2]" by (simp add: d)
  have "take 15 ?s @ take 2 (drop 15 ?s) @ drop 2 (drop 15 ?s) = ?s" by (simp only: append_take_drop_id)
  then have eq: "?s = take 15 ?s @ [1, 2] @ drop 17 ?s" by (simp add: a)
  have rd: "fake_read (Some (take 15 ?s @ [9, 9] @ drop 17 ?s)) (is_buf demo_old) 0 IDSTORE_BLOCKS = (0, take 15 ?s @ [9, 9] @ drop 17 ?s)"
    using l by (simp add: fake_read_def put_at_def demo_old_def idstore_sizes)
  have "\<exists>r. idstore_read (Some fake_read) (Some (Some (take 15 ?s @ [9, 9] @ drop 17 ?s))) (Some demo_old) = (IDSTORE_CORRUPT, Some r)
      \<and> (\<forall>t cap. idstore_get_field (Some r) t cap = (-1, []))"
    by (rule damaged_record_refused [where p = "take 15 ?s" and a = "[1, 2]" and b = "[9, 9]" and q = "drop 17 ?s" and rd = fake_read, OF demo_add eq _ _ _ _ _ rd]) (use l n in \<open>simp_all add: idstore_sizes\<close>)
  then show ?thesis by blast
qed

text \<open>
  C23: A rewrite keeps what it does not understand.  A new record is built from fields of known types and from
  the fields of unknown type of any old record, all of which fitted.  Read back, a type this build knows has
  the new value, or none if it was not written, and a type it does not know has exactly what the old record
  gave for it.
\<close>

theorem rewrite_keeps_unknown:
  assumes "\<And>d buf d' old. wr d buf 0 IDSTORE_BLOCKS = (0, d') \<Longrightarrow> length buf = IDSTORE_SIZE_BYTES \<Longrightarrow> length old = IDSTORE_SIZE_BYTES
      \<Longrightarrow> rd d' old 0 IDSTORE_BLOCKS = (0, buf)"
    and "IDSTORE_HEADER_LEN + is_fields_len r \<le> length (is_buf r)" and "\<And>t v. (t, v) \<in> set fs \<Longrightarrow> field_type_known t"
    and "add_all (idstore_writer_init w0) fs = (0, w1)" and "idstore_writer_carry_unknown w1 r = (0, n, w2)"
    and "idstore_writer_commit (Some wr) (Some d) w2 = (0, Some d', w')" and "length (is_buf old) = IDSTORE_SIZE_BYTES"
  shows "\<exists>r'. idstore_read (Some rd) (Some d') (Some old) = (IDSTORE_VALID, Some r')
    \<and> (\<forall>t cap. idstore_get_field (Some r') t cap =
          (if field_type_known t then (case map_of fs t of None \<Rightarrow> (-1, []) | Some v \<Rightarrow> (int (length v), take cap v))
           else idstore_get_field (Some r) t cap))"
proof -
  have "block_store rd wr" by (rule block_store.intro) (rule assms(1))
  moreover have "add_all w1 (unknown_of (fields_of r)) = (0, w2)"
    using assms(5) by (auto simp: idstore_writer_carry_unknown_def carry_walk_tlvs fields_of_def split: prod.splits)
  then have "holds w2 (fs @ unknown_of (fields_of r))"
    using holds_add_all [OF holds_add_all [OF holds_init assms(4)]] by simp
  ultimately obtain r' where r': "idstore_read (Some rd) (Some d') (Some old) = (IDSTORE_VALID, Some r')"
      "fields_of r' = fs @ unknown_of (fields_of r)" "IDSTORE_HEADER_LEN + is_fields_len r' \<le> length (is_buf r')"
    using block_store.commit_read [OF _ _ assms(6,7)] by blast
  have new: "map_of fs t = None" if "\<not> field_type_known t" for t using assms(3) that by (auto simp: map_of_eq_None_iff)
  have kept: "map_of (unknown_of gs) t = (if field_type_known t then None else map_of gs t)" for gs t
    by (induction gs) (auto simp: unknown_of_def)
  have "map_of (fields_of r') t = (if field_type_known t then map_of fs t else map_of (fields_of r) t)" for t
    using new [of t] by (auto simp: r'(2) map_add_def kept split: option.splits)
  then show ?thesis using r'(1) get_field_map_of [OF r'(3)] get_field_map_of [OF assms(2)] by auto
qed

definition demo_newer :: idstore where
  "demo_newer = \<lparr>is_buf = replicate 12 0 @ [200, 1, 0, 5, 2, 1, 0, 77], is_fields_len = 8, is_unknown = 1\<rparr>"

definition demo_known :: idstore_writer where
  "demo_known = snd (add_all (idstore_writer_init \<lparr>iw_buf = [], iw_fields_len = 0\<rparr>) [(IDSTORE_FIELD_UID, [1, 2])])"

lemma demo_known_add: "add_all (idstore_writer_init \<lparr>iw_buf = [], iw_fields_len = 0\<rparr>) [(IDSTORE_FIELD_UID, [1, 2])] = (0, demo_known)"
  by (simp add: demo_known_def idstore_writer_add_field_def idstore_writer_init_def idstore_sizes)

lemma demo_newer_fields: "fields_of demo_newer = [(200, [5]), (2, [77])]"
  by (simp add: fields_of_def demo_newer_def idstore_sizes tlvs.simps rd_u16le_def nth_append)

lemma demo_carry: "\<exists>w. idstore_writer_carry_unknown demo_known demo_newer = (0, 1, w)"
proof -
  have n: "iw_fields_len demo_known = 5" by (simp add: demo_known_def idstore_writer_add_field_def idstore_writer_init_def idstore_sizes)
  have "unknown_of (fields_of demo_newer) = [(200, [5])]" by (simp add: demo_newer_fields field_type_known_def idstore_tags)
  then show ?thesis
    using carry_walk_tlvs [of "is_buf demo_newer" "IDSTORE_HEADER_LEN + is_fields_len demo_newer" IDSTORE_HEADER_LEN 0 0 demo_known]
    by (simp add: idstore_writer_carry_unknown_def flip: fields_of_def) (simp add: idstore_writer_add_field_def n idstore_sizes)
qed

theorem rewrite_keeps_unknown_witness:
  "\<exists>w2 d' w' r'. idstore_writer_carry_unknown demo_known demo_newer = (0, 1, w2)
     \<and> idstore_writer_commit (Some fake_write) (Some (Some (replicate 4096 255))) w2 = (0, Some d', w')
     \<and> idstore_read (Some fake_read) (Some d') (Some demo_old) = (IDSTORE_VALID, Some r')
     \<and> idstore_get_field (Some r') 200 8 = (1, [5])"
proof -
  obtain w2 where c: "idstore_writer_carry_unknown demo_known demo_newer = (0, 1, w2)" using demo_carry by blast
  obtain d' w' where d: "idstore_writer_commit (Some fake_write) (Some (Some (replicate 4096 255))) w2 = (0, Some d', w')"
    using fake_commit by blast
  have fit: "IDSTORE_HEADER_LEN + is_fields_len demo_newer \<le> length (is_buf demo_newer)" by (simp add: demo_newer_def idstore_sizes)
  have "\<exists>r'. idstore_read (Some fake_read) (Some d') (Some demo_old) = (IDSTORE_VALID, Some r')
      \<and> (\<forall>t cap. idstore_get_field (Some r') t cap =
            (if field_type_known t then (case map_of [(IDSTORE_FIELD_UID, [1, 2])] t of None \<Rightarrow> (-1, []) | Some v \<Rightarrow> (int (length v), take cap v))
             else idstore_get_field (Some demo_newer) t cap))"
    by (rule rewrite_keeps_unknown [OF _ fit _ demo_known_add c d])
      (auto simp: fake_read_back field_type_known_def demo_old_def)
  then obtain r' where r': "idstore_read (Some fake_read) (Some d') (Some demo_old) = (IDSTORE_VALID, Some r')"
    "idstore_get_field (Some r') 200 8 = idstore_get_field (Some demo_newer) 200 8"
    by (auto simp: field_type_known_def idstore_tags)
  have "idstore_get_field (Some demo_newer) 200 8 = (1, [5])" unfolding get_field_map_of [OF fit] demo_newer_fields by simp
  with c d r' show ?thesis by auto
qed

end
