(* ===== verification/Uheap.thy ===== *)
theory Uheap
  imports Prelude
begin

text \<open>
  The heap of a confined runtime (\<open>kernel/uheap.c\<close>): boundary tags with segregated free lists in one arena.
  Addresses are offsets from the arena's base; memory is bytes, and a field of a block's header or of its
  links is the 32-bit word at the block's offset plus the field's.  A list link is an offset plus one, 0
  ends a list.  A pointer is an offset too; pointers below the arena, which \<open>owns\<close> rejects, have none.
\<close>

section \<open>Data\<close>

definition UHEAP_CLASSES :: nat where "UHEAP_CLASSES = 32"
definition HDR :: nat where "HDR = 8"
definition MIN_BLOCK :: nat where "MIN_BLOCK = 16"
definition USED :: nat where "USED = 1"

lemmas uheap_consts = UHEAP_CLASSES_def HDR_def MIN_BLOCK_def USED_def

record uheap =
  uh_mem :: "nat \<Rightarrow> u8"
  uh_size :: nat
  uh_free_head :: "nat list"
  uh_used_bytes :: nat
  uh_used_blocks :: nat
  uh_high_water :: nat
  uh_fail_count :: nat

section \<open>Words of the arena\<close>

definition rd :: "uheap \<Rightarrow> nat \<Rightarrow> nat" where
  "rd h a = unat (load32 a (uh_mem h))"

definition wr :: "nat \<Rightarrow> nat \<Rightarrow> uheap \<Rightarrow> uheap" where
  "wr a v h = h\<lparr>uh_mem := store32 a (word_of_nat v) (uh_mem h)\<rparr>"

text \<open>Subtraction on \<open>uint32_t\<close>.\<close>

definition sub32 :: "nat \<Rightarrow> nat \<Rightarrow> nat" where
  "sub32 a b = wrap32 (a + 4294967296 - b)"

text \<open>The fields of the block at offset \<open>b\<close>: \<open>size\<close>, \<open>prev\<close>, and of a free block \<open>next\<close> and \<open>prevfree\<close>.\<close>

definition at_size :: "nat \<Rightarrow> nat" where "at_size b = b"
definition at_prev :: "nat \<Rightarrow> nat" where "at_prev b = b + 4"
definition at_next :: "nat \<Rightarrow> nat" where "at_next b = b + HDR"
definition at_prevfree :: "nat \<Rightarrow> nat" where "at_prevfree b = b + HDR + 4"

text \<open>Sizes are multiples of 8 with the used bit in bit 0: \<open>size & ~USED\<close> and \<open>size & USED\<close>.\<close>

definition bsize :: "uheap \<Rightarrow> nat \<Rightarrow> nat" where
  "bsize h b = 2 * (rd h (at_size b) div 2)"

definition bused :: "uheap \<Rightarrow> nat \<Rightarrow> bool" where
  "bused h b \<longleftrightarrow> odd (rd h (at_size b))"

definition next_blk :: "uheap \<Rightarrow> nat \<Rightarrow> nat" where
  "next_blk h b = b + bsize h b"

definition free_head :: "uheap \<Rightarrow> nat \<Rightarrow> nat" where
  "free_head h c = uh_free_head h ! c"

definition set_head :: "nat \<Rightarrow> nat \<Rightarrow> uheap \<Rightarrow> uheap" where
  "set_head c v h = h\<lparr>uh_free_head := (uh_free_head h)[c := v]\<rparr>"

text \<open>\<open>cls\<close>, by shifting.\<close>

fun cls_loop :: "nat \<Rightarrow> nat \<Rightarrow> nat" where
  "cls_loop n c = (if n div 2 = 0 then c else cls_loop (n div 2) (c + 1))"

declare cls_loop.simps [simp del]

definition cls :: "nat \<Rightarrow> nat" where
  "cls n = cls_loop n 0"

section \<open>The free lists\<close>

definition list_insert :: "nat \<Rightarrow> uheap \<Rightarrow> uheap" where
  "list_insert b h =
     (let c = cls (bsize h b);
          h1 = wr (at_prevfree b) 0 (wr (at_next b) (free_head h c) h);
          h2 = (if free_head h1 c \<noteq> 0 then wr (at_prevfree (free_head h1 c - 1)) (b + 1) h1 else h1)
      in set_head c (b + 1) h2)"

definition list_remove :: "nat \<Rightarrow> uheap \<Rightarrow> uheap" where
  "list_remove b h =
     (let c = cls (bsize h b);
          h1 = (if rd h (at_prevfree b) \<noteq> 0 then wr (at_next (rd h (at_prevfree b) - 1)) (rd h (at_next b)) h
                else set_head c (rd h (at_next b)) h)
      in if rd h1 (at_next b) \<noteq> 0 then wr (at_prevfree (rd h1 (at_next b) - 1)) (rd h1 (at_prevfree b)) h1 else h1)"

section \<open>Set-up\<close>

definition set_size :: "nat \<Rightarrow> nat \<Rightarrow> uheap \<Rightarrow> uheap" where
  "set_size b v h = wr (at_size b) v h"

definition set_prev :: "nat \<Rightarrow> nat \<Rightarrow> uheap \<Rightarrow> uheap" where
  "set_prev b v h = wr (at_prev b) v h"

text \<open>\<open>arena\<close>: the address given, \<open>None\<close> for NULL; the arena's bytes are the memory from there on.\<close>

definition uheap_init :: "nat option \<Rightarrow> nat \<Rightarrow> uheap option \<Rightarrow> bool \<times> uheap option" where
  "uheap_init arena nbytes hp =
     (case (hp, arena) of
        (Some h, Some a) \<Rightarrow>
          if a mod 8 \<noteq> 0 \<or> nbytes < 64 then (False, Some h)
          else
            (let sz = 8 * (nbytes div 8); first = sz - HDR;
                 h1 = h\<lparr>uh_free_head := replicate UHEAP_CLASSES 0, uh_size := sz, uh_used_bytes := 0, uh_used_blocks := 0,
                        uh_high_water := 0, uh_fail_count := 0\<rparr>;
                 h2 = set_prev 0 0 (set_size 0 first h1);
                 h3 = set_prev first first (set_size first USED h2)
             in (True, Some (list_insert 0 h3)))
      | _ \<Rightarrow> (False, hp))"

text \<open>\<open>(n + HDR + 7) & ~7\<close> in 32 bits.\<close>

definition need :: "nat \<Rightarrow> nat" where
  "need n = (let t = 8 * (wrap32 (n + HDR + 7) div 8) in if t < MIN_BLOCK then MIN_BLOCK else t)"

section \<open>Allocation\<close>

text \<open>
  The scan of the class that \<open>want\<close> falls in, from the link \<open>o\<close> on.  The list is walked while links are not
  0; a damaged list could make the walk endless.
\<close>

partial_function (option) scan_class :: "uheap \<Rightarrow> nat \<Rightarrow> nat \<Rightarrow> nat option option" where
  "scan_class h want lnk =
     (if lnk = 0 then Some None
      else if want \<le> bsize h (lnk - 1) then Some (Some (lnk - 1))
      else scan_class h want (rd h (at_next (lnk - 1))))"

definition find_fit :: "uheap \<Rightarrow> nat \<Rightarrow> nat option option" where
  "find_fit h want =
     (case scan_class h want (free_head h (cls want)) of
        None \<Rightarrow> None
      | Some (Some b) \<Rightarrow> Some (Some b)
      | Some None \<Rightarrow> Some (map_option (\<lambda>c. free_head h c - 1) (find (\<lambda>c. free_head h c \<noteq> 0) [cls want + 1..<UHEAP_CLASSES])))"

text \<open>The tail of block \<open>b\<close> beyond \<open>want\<close> bytes becomes a free block; \<open>have\<close> is its old size.\<close>

definition split_tail :: "nat \<Rightarrow> nat \<Rightarrow> nat \<Rightarrow> uheap \<Rightarrow> uheap" where
  "split_tail b have want h =
     (let t = b + want; h1 = set_prev t want (set_size t (sub32 have want) h)
      in set_prev (next_blk h1 t) (bsize h1 t) h1)"

definition note_use :: "uheap \<Rightarrow> uheap" where
  "note_use h = (if uh_high_water h < uh_used_bytes h then h\<lparr>uh_high_water := uh_used_bytes h\<rparr> else h)"

text \<open>The result is the payload's offset, \<open>None\<close> inside for NULL.\<close>

definition uheap_alloc :: "nat \<Rightarrow> uheap \<Rightarrow> (nat option \<times> uheap) option" where
  "uheap_alloc n h =
     (if n = 0 then Some (None, h)
      else if uh_size h < n then Some (None, h\<lparr>uh_fail_count := wrap32 (uh_fail_count h + 1)\<rparr>)
      else
        (case find_fit h (need n) of
           None \<Rightarrow> None
         | Some None \<Rightarrow> Some (None, h\<lparr>uh_fail_count := wrap32 (uh_fail_count h + 1)\<rparr>)
         | Some (Some b) \<Rightarrow>
             let want = need n; h1 = list_remove b h; have = bsize h1 b;
                 h2 = (if MIN_BLOCK \<le> sub32 have want
                       then list_insert (b + want) (set_size b want (split_tail b have want h1)) else h1);
                 h3 = set_size b (bsize h2 b + USED) h2;
                 h4 = h3\<lparr>uh_used_bytes := wrap32 (uh_used_bytes h3 + sub32 (bsize h3 b) HDR), uh_used_blocks := wrap32 (uh_used_blocks h3 + 1)\<rparr>
             in Some (Some (b + HDR), note_use h4)))"

section \<open>Release\<close>

definition owns :: "uheap \<Rightarrow> nat \<Rightarrow> bool" where
  "owns h p \<longleftrightarrow> HDR \<le> p \<and> p < uh_size h \<and> p mod 8 = 0"

definition merge_next :: "nat \<Rightarrow> uheap \<Rightarrow> uheap" where
  "merge_next b h =
     (let n = next_blk h b
      in if bused h n then h
         else
           (let h1 = list_remove n h; h2 = set_size b (bsize h1 b + bsize h1 n) h1
            in set_prev (next_blk h2 b) (bsize h2 b) h2))"

definition merge_prev :: "nat \<Rightarrow> uheap \<Rightarrow> nat \<times> uheap" where
  "merge_prev b h =
     (let pv = b - rd h (at_prev b)
      in if rd h (at_prev b) = 0 \<or> bused h pv then (b, h)
         else
           (let h1 = list_remove pv h; h2 = set_size pv (bsize h1 pv + bsize h1 b) h1
            in (pv, set_prev (next_blk h2 pv) (bsize h2 pv) h2)))"

definition uheap_free :: "nat option \<Rightarrow> uheap \<Rightarrow> uheap" where
  "uheap_free ptr h =
     (case ptr of
        None \<Rightarrow> h
      | Some p \<Rightarrow>
          if \<not> owns h p then h
          else if \<not> bused h (p - HDR) then h
          else
            (let b = p - HDR;
                 h1 = h\<lparr>uh_used_bytes := sub32 (uh_used_bytes h) (sub32 (bsize h b) HDR), uh_used_blocks := sub32 (uh_used_blocks h) 1\<rparr>;
                 h2 = set_size b (bsize h1 b) h1;
                 (b', h3) = merge_prev b (merge_next b h2)
             in list_insert b' h3))"

section \<open>The other entries\<close>

definition zero_bytes :: "nat \<Rightarrow> nat \<Rightarrow> uheap \<Rightarrow> uheap" where
  "zero_bytes p n h = h\<lparr>uh_mem := fold (\<lambda>i m. m(p + i := 0)) [0..<n] (uh_mem h)\<rparr>"

definition uheap_calloc :: "nat \<Rightarrow> nat \<Rightarrow> uheap \<Rightarrow> (nat option \<times> uheap) option" where
  "uheap_calloc n sz h =
     (if n \<noteq> 0 \<and> 0xffffffff div n < sz then Some (None, h\<lparr>uh_fail_count := wrap32 (uh_fail_count h + 1)\<rparr>)
      else
        (case uheap_alloc (wrap32 (n * sz)) h of
           None \<Rightarrow> None
         | Some (None, h') \<Rightarrow> Some (None, h')
         | Some (Some p, h') \<Rightarrow> Some (Some p, zero_bytes p (wrap32 (n * sz)) h')))"

definition copy_bytes :: "nat \<Rightarrow> nat \<Rightarrow> nat \<Rightarrow> uheap \<Rightarrow> uheap" where
  "copy_bytes q p n h = h\<lparr>uh_mem := fold (\<lambda>i m. m(q + i := m (p + i))) [0..<n] (uh_mem h)\<rparr>"

text \<open>The block \<open>b\<close> grows into its free successor.\<close>

definition grow :: "nat \<Rightarrow> nat \<Rightarrow> uheap \<Rightarrow> uheap" where
  "grow b want h =
     (let nx = next_blk h b; h1 = list_remove nx h; total = bsize h1 b + bsize h1 nx;
          h2 = h1\<lparr>uh_used_bytes := wrap32 (uh_used_bytes h1 + sub32 total (bsize h1 b))\<rparr>;
          (total', h3) =
            (if MIN_BLOCK \<le> sub32 total want
             then
               (let t = b + want; h4 = list_insert t (split_tail b total want h2)
                in (want, h4\<lparr>uh_used_bytes := sub32 (uh_used_bytes h4) (bsize h4 t)\<rparr>))
             else (total, h2));
          h5 = set_size b (total' + USED) h3;
          h6 = set_prev (next_blk h5 b) total' h5
      in note_use h6)"

definition uheap_realloc :: "nat option \<Rightarrow> nat \<Rightarrow> uheap \<Rightarrow> (nat option \<times> uheap) option" where
  "uheap_realloc ptr n h =
     (case ptr of
        None \<Rightarrow> uheap_alloc n h
      | Some p \<Rightarrow>
          if n = 0 then Some (None, uheap_free ptr h)
          else if \<not> owns h p then Some (None, h)
          else if \<not> bused h (p - HDR) then Some (None, h)
          else
            (let b = p - HDR; now = sub32 (bsize h b) HDR; want = need n
             in if want \<le> bsize h b then Some (Some p, h)
                else if \<not> bused h (next_blk h b) \<and> want \<le> bsize h b + bsize h (next_blk h b) then Some (Some p, grow b want h)
                else
                  (case uheap_alloc n h of
                     None \<Rightarrow> None
                   | Some (None, h') \<Rightarrow> Some (None, h')
                   | Some (Some q, h') \<Rightarrow> Some (Some q, uheap_free ptr (copy_bytes q p now h')))))"

section \<open>Statistics\<close>

partial_function (option) largest_in :: "uheap \<Rightarrow> nat \<Rightarrow> nat \<Rightarrow> nat option" where
  "largest_in h lnk best =
     (if lnk = 0 then Some best
      else
        (let s = bsize h (lnk - 1); best' = (if best < s then s else best)
         in if uh_size h \<le> lnk then Some best' else largest_in h (rd h (at_next (lnk - 1))) best'))"

fun largest_from :: "uheap \<Rightarrow> nat list \<Rightarrow> nat \<Rightarrow> nat option" where
  "largest_from h [] best = Some best"
| "largest_from h (c # cs) best =
     (case largest_in h (free_head h c) best of None \<Rightarrow> None | Some best' \<Rightarrow> largest_from h cs best')"

definition uheap_largest_free :: "uheap \<Rightarrow> nat option" where
  "uheap_largest_free h =
     map_option (\<lambda>best. if HDR < best then best - HDR else 0) (largest_from h [0..<UHEAP_CLASSES] 0)"

partial_function (option) free_walk :: "uheap \<Rightarrow> nat \<Rightarrow> nat \<Rightarrow> nat option" where
  "free_walk h off acc =
     (if uh_size h < wrap32 (off + HDR) then Some acc
      else
        (let s = bsize h off
         in if s = 0 then Some acc
            else free_walk h (wrap32 (off + s)) (if bused h off then acc else wrap32 (acc + sub32 s HDR))))"

definition uheap_free_bytes :: "uheap \<Rightarrow> nat option" where
  "uheap_free_bytes h = free_walk h 0 0"

section \<open>The check\<close>

text \<open>
  The walk over the blocks: the state is \<open>off\<close>, \<open>prev\<close> and the counters; the result is the number of errors,
  the free blocks seen, the used blocks and the used bytes.
\<close>

partial_function (option) check_walk ::
  "uheap \<Rightarrow> nat \<Rightarrow> nat \<Rightarrow> nat \<Rightarrow> nat \<Rightarrow> nat \<Rightarrow> nat \<Rightarrow> (nat \<times> nat \<times> nat \<times> nat) option" where
  "check_walk h off prev errors free_in_walk block_list nbytes =
     (if uh_size h < wrap32 (off + HDR) then Some (errors + 1, free_in_walk, block_list, nbytes)
      else
        (let s = bsize h off; errors1 = (if rd h (at_prev off) \<noteq> prev then errors + 1 else errors)
         in if s = 0 then Some (if off \<noteq> uh_size h - HDR \<or> \<not> bused h off then errors1 + 1 else errors1, free_in_walk, block_list, nbytes)
            else if s mod 8 \<noteq> 0 \<or> s < MIN_BLOCK \<or> uh_size h - HDR < wrap32 (off + s) then Some (errors1 + 1, free_in_walk, block_list, nbytes)
            else if bused h off then check_walk h (wrap32 (off + s)) s errors1 free_in_walk (block_list + 1) (wrap32 (nbytes + sub32 s HDR))
            else
              check_walk h (wrap32 (off + s)) s
                (if \<not> bused h (wrap32 (off + s)) \<and> bsize h (wrap32 (off + s)) \<noteq> 0 then errors1 + 1 else errors1)
                (free_in_walk + 1) block_list nbytes))"

function check_list :: "uheap \<Rightarrow> nat \<Rightarrow> nat \<Rightarrow> nat \<Rightarrow> nat \<Rightarrow> nat \<times> nat \<Rightarrow> nat \<times> nat" where
  "check_list h c lnk prior guard st =
     (case st of (errors, in_lists) \<Rightarrow>
        if lnk = 0 then (errors, in_lists)
        else if uh_size h < lnk \<or> uh_size h div MIN_BLOCK + 1 < guard + 1 then (errors + 1, in_lists)
        else
          (let b = lnk - 1;
               errors1 = (if bused h b \<or> cls (bsize h b) \<noteq> c then errors + 1 else errors);
               errors2 = (if rd h (at_prevfree b) \<noteq> prior then errors1 + 1 else errors1)
           in check_list h c (rd h (at_next b)) lnk (guard + 1) (errors2, in_lists + 1)))"
  by pat_completeness auto
termination
  by (relation "measure (\<lambda>(h, c, lnk, prior, guard, st). uh_size h div MIN_BLOCK + 1 - guard)") auto

declare check_list.simps [simp del]

definition uheap_check :: "uheap \<Rightarrow> nat option" where
  "uheap_check h =
     (case check_walk h 0 0 0 0 0 0 of
        None \<Rightarrow> None
      | Some (errors, free_in_walk, block_list, nbytes) \<Rightarrow>
          (case fold (\<lambda>c. check_list h c (free_head h c) 0 0) [0..<UHEAP_CLASSES] (errors, 0) of
             (errors1, in_lists) \<Rightarrow>
               let errors2 = (if in_lists \<noteq> free_in_walk then errors1 + 1 else errors1)
               in Some (if block_list \<noteq> uh_used_blocks h \<or> nbytes \<noteq> uh_used_bytes h then errors2 + 1 else errors2)))"

end
