(* ===== verification/Uheap_Lists.thy ===== *)
theory Uheap_Lists
  imports Uheap
begin

text \<open>
  The words of the arena, the class of a size and the free lists: each class's list is doubly linked through
  the free blocks, and inserting or removing a block keeps the lists of all classes.
\<close>

section \<open>Words\<close>

lemma rd_wr:
  assumes "4 dvd a" and "4 dvd x"
  shows "rd (wr a v h) x = (if x = a then wrap32 v else rd h x)"
proof (cases "x = a")
  case True
  then show ?thesis by (simp add: rd_def wr_def wrap32_def unat_of_nat)
next
  case False
  then have "x + 4 \<le> a \<or> a + 4 \<le> x" using assms by (auto elim!: dvdE)
  then show ?thesis using False by (simp add: rd_def wr_def load32_store32_apart)
qed

lemma wr_bytes: "x < a \<or> a + 4 \<le> x \<Longrightarrow> uh_mem (wr a v h) x = uh_mem h x"
  by (simp add: wr_def store32_outside)

lemma wr_fields [simp]:
  "uh_size (wr a v h) = uh_size h" "uh_free_head (wr a v h) = uh_free_head h" "uh_used_bytes (wr a v h) = uh_used_bytes h"
  "uh_used_blocks (wr a v h) = uh_used_blocks h" "uh_high_water (wr a v h) = uh_high_water h" "uh_fail_count (wr a v h) = uh_fail_count h"
  by (simp_all add: wr_def)

lemma set_head_fields [simp]:
  "uh_size (set_head c v h) = uh_size h" "uh_mem (set_head c v h) = uh_mem h" "uh_used_bytes (set_head c v h) = uh_used_bytes h"
  "uh_used_blocks (set_head c v h) = uh_used_blocks h" "uh_high_water (set_head c v h) = uh_high_water h"
  "uh_fail_count (set_head c v h) = uh_fail_count h" "rd (set_head c v h) x = rd h x" "length (uh_free_head (set_head c v h)) = length (uh_free_head h)"
  by (simp_all add: set_head_def rd_def)

lemma free_head_wr [simp]: "free_head (wr a v h) c = free_head h c"
  by (simp add: free_head_def)

lemma free_head_set: "c < length (uh_free_head h) \<Longrightarrow> free_head (set_head c v h) d = (if d = c then v else free_head h d)"
  by (simp add: free_head_def set_head_def)

lemma bsize_cong: "rd h' b = rd h b \<Longrightarrow> bsize h' b = bsize h b"
  by (simp add: bsize_def at_size_def)

lemma bused_cong: "rd h' b = rd h b \<Longrightarrow> bused h' b = bused h b"
  by (simp add: bused_def at_size_def)

section \<open>Size classes\<close>

lemma cls_loop_add: "cls_loop n (c + k) = cls_loop n c + k"
proof (induction n c arbitrary: k rule: cls_loop.induct)
  case (1 n c)
  then show ?case by (subst (1 2) cls_loop.simps) (simp add: add.assoc add.commute [of k])
qed

lemma cls_rec: "cls n = (if n < 2 then 0 else Suc (cls (n div 2)))"
  using cls_loop_add [of "n div 2" 0 1] by (subst cls_def, subst cls_loop.simps) (auto simp: cls_def)

lemma cls_bounds: "0 < n \<Longrightarrow> 2 ^ cls n \<le> n \<and> n < 2 ^ Suc (cls n)"
proof (induction n rule: less_induct)
  case (less n)
  show ?case
  proof (cases "n < 2")
    case True
    with less.prems have "n = 1" by simp
    then show ?thesis by (simp add: cls_rec)
  next
    case False
    then have "2 ^ cls (n div 2) \<le> n div 2 \<and> n div 2 < 2 ^ Suc (cls (n div 2))" using less.IH [of "n div 2"] by simp
    then show ?thesis using False by (subst (1 2) cls_rec) auto
  qed
qed

lemma cls_mono_size: "0 < a \<Longrightarrow> 0 < b \<Longrightarrow> cls a < cls b \<Longrightarrow> a < b"
proof -
  assume a: "0 < a" "0 < b" "cls a < cls b"
  have "a < 2 ^ Suc (cls a)" using cls_bounds [OF a(1)] by simp
  also have "\<dots> \<le> 2 ^ cls b" using a(3) by (intro power_increasing) simp_all
  also have "\<dots> \<le> b" using cls_bounds [OF a(2)] by simp
  finally show ?thesis .
qed

lemma cls_less_32: "0 < n \<Longrightarrow> n < 4294967296 \<Longrightarrow> cls n < 32"
proof (rule ccontr)
  assume n: "0 < n" "n < 4294967296" "\<not> cls n < 32"
  have "(2 :: nat) ^ 32 \<le> 2 ^ cls n" using n(3) by (intro power_increasing) simp_all
  also have "\<dots> \<le> n" using cls_bounds [OF n(1)] by simp
  finally show False using n(2) by simp
qed

section \<open>A doubly linked list\<close>

fun dll :: "uheap \<Rightarrow> nat \<Rightarrow> nat \<Rightarrow> nat list \<Rightarrow> bool" where
  "dll h lnk prv [] \<longleftrightarrow> lnk = 0"
| "dll h lnk prv (x # xs) \<longleftrightarrow> lnk = x + 1 \<and> rd h (at_prevfree x) = prv \<and> dll h (rd h (at_next x)) (x + 1) xs"

text \<open>The link words of a set of blocks lie apart from each other.\<close>

definition spaced :: "nat set \<Rightarrow> bool" where
  "spaced F \<longleftrightarrow> (\<forall>x \<in> F. 8 dvd x \<and> x + 16 < 4294967296) \<and> (\<forall>x \<in> F. \<forall>y \<in> F. x < y \<longrightarrow> x + 16 \<le> y)"

lemma spacedD: "spaced F \<Longrightarrow> x \<in> F \<Longrightarrow> 8 dvd x \<and> x + 16 < 4294967296"
  by (simp add: spaced_def)

lemma spaced_subset: "spaced F \<Longrightarrow> G \<subseteq> F \<Longrightarrow> spaced G"
  unfolding spaced_def by blast

lemma at_words:
  assumes "8 dvd x"
  shows "4 dvd at_size x" "4 dvd at_prev x" "4 dvd at_next x" "4 dvd at_prevfree x"
proof -
  have "4 dvd x" using assms by (rule dvd_trans [rotated]) simp
  then show "4 dvd at_size x" "4 dvd at_prev x" "4 dvd at_next x" "4 dvd at_prevfree x"
    by (simp_all add: at_size_def at_prev_def at_next_def at_prevfree_def HDR_def)
qed

lemma links_apart:
  assumes "spaced F" and "x \<in> F" and "y \<in> F"
  shows "at_next x = at_next y \<longleftrightarrow> x = y" "at_prevfree x = at_prevfree y \<longleftrightarrow> x = y" "at_next x \<noteq> at_prevfree y" "at_prevfree x \<noteq> at_next y"
proof -
  have d: "8 dvd x" "8 dvd y" using assms spacedD by blast+
  show "at_next x = at_next y \<longleftrightarrow> x = y" "at_prevfree x = at_prevfree y \<longleftrightarrow> x = y" by (simp_all add: at_next_def at_prevfree_def)
  show "at_next x \<noteq> at_prevfree y" "at_prevfree x \<noteq> at_next y"
    using d by (auto simp: at_next_def at_prevfree_def elim!: dvdE) presburger+
qed

lemma dll_cong:
  "(\<And>x. x \<in> set xs \<Longrightarrow> rd h' (at_next x) = rd h (at_next x) \<and> rd h' (at_prevfree x) = rd h (at_prevfree x)) \<Longrightarrow> dll h' l p xs = dll h l p xs"
  by (induction xs arbitrary: l p) auto

lemma dll_nonzero: "dll h l p xs \<Longrightarrow> l \<noteq> 0 \<longleftrightarrow> xs \<noteq> []"
  by (cases xs) auto

text \<open>A new head.\<close>

lemma dll_push:
  assumes "dll h l 0 xs" and "spaced (insert b (set xs))" and "b \<notin> set xs" and "distinct xs"
    and "rd h' (at_next b) = l" and "rd h' (at_prevfree b) = 0"
    and "xs \<noteq> [] \<Longrightarrow> rd h' (at_prevfree (hd xs)) = b + 1" and "xs \<noteq> [] \<Longrightarrow> rd h' (at_next (hd xs)) = rd h (at_next (hd xs))"
    and "\<And>x. x \<in> set (tl xs) \<Longrightarrow> rd h' (at_next x) = rd h (at_next x) \<and> rd h' (at_prevfree x) = rd h (at_prevfree x)"
  shows "dll h' (b + 1) 0 (b # xs)"
proof (cases xs)
  case Nil
  then show ?thesis using assms by simp
next
  case (Cons y ys)
  have "dll h' (rd h (at_next y)) (y + 1) ys" using dll_cong [of ys h' h] assms(1,9) Cons by simp
  then show ?thesis using assms Cons by simp
qed

text \<open>The links around a member, and the list without it.\<close>

definition prv_of :: "nat \<Rightarrow> nat list \<Rightarrow> nat" where
  "prv_of p as = (if as = [] then p else last as + 1)"

lemma dll_append:
  "dll h l p (as @ b # cs) \<Longrightarrow> rd h (at_prevfree b) = prv_of p as \<and> dll h (rd h (at_next b)) (b + 1) cs"
  by (induction as arbitrary: l p) (auto simp: prv_of_def split: if_splits)

lemma dll_unlink:
  assumes "dll h l p (as @ b # cs)" and "distinct (as @ b # cs)"
    and "as \<noteq> [] \<Longrightarrow> rd h' (at_next (last as)) = rd h (at_next b)"
    and "as = [] \<Longrightarrow> l' = rd h (at_next b)" and "as \<noteq> [] \<Longrightarrow> l' = l"
    and "cs \<noteq> [] \<Longrightarrow> rd h' (at_prevfree (hd cs)) = prv_of p as"
    and "\<And>x. x \<in> set as \<Longrightarrow> x \<noteq> last as \<Longrightarrow> rd h' (at_next x) = rd h (at_next x)"
    and "\<And>x. x \<in> set as \<Longrightarrow> rd h' (at_prevfree x) = rd h (at_prevfree x)"
    and "\<And>x. x \<in> set cs \<Longrightarrow> rd h' (at_next x) = rd h (at_next x)"
    and "\<And>x. x \<in> set (tl cs) \<Longrightarrow> rd h' (at_prevfree x) = rd h (at_prevfree x)"
  shows "dll h' l' p (as @ cs)"
  using assms
proof (induction as arbitrary: l p l')
  case Nil
  show ?case
  proof (cases cs)
    case Nil
    then show ?thesis using Nil.prems by simp
  next
    case (Cons c ds)
    have "dll h (rd h (at_next b)) (b + 1) cs" using dll_append [of h l p "[]" b cs] Nil.prems(1) by simp
    then have "dll h (rd h (at_next c)) (c + 1) ds" "rd h (at_next b) = c + 1" using Cons by simp_all
    moreover have "dll h' (rd h (at_next c)) (c + 1) ds = dll h (rd h (at_next c)) (c + 1) ds"
      using Nil.prems(9,10) Cons by (intro dll_cong) simp
    ultimately show ?thesis using Nil.prems(4,6,9) Cons by (simp add: prv_of_def)
  qed
next
  case (Cons a as)
  show ?case
  proof (cases "as = []")
    case True
    have "dll h' (rd h (at_next b)) (a + 1) ([] @ cs)"
      using Cons.prems True by (intro Cons.IH [of "rd h (at_next a)" "a + 1" "rd h (at_next b)", unfolded True]) (simp_all add: prv_of_def)
    then show ?thesis using Cons.prems True by simp
  next
    case False
    have "dll h' (rd h (at_next a)) (a + 1) (as @ cs)"
      using Cons.prems False by (intro Cons.IH [of "rd h (at_next a)" "a + 1"]) (auto simp: prv_of_def)
    moreover have "a \<noteq> last (a # as)"
      using Cons.prems(2) False last_in_set [OF False] by auto
    then have "rd h' (at_next a) = rd h (at_next a)" using Cons.prems(7) [of a] by simp
    ultimately show ?thesis using Cons.prems False by simp
  qed
qed

section \<open>What changes in memory\<close>

definition same_outside :: "nat set \<Rightarrow> uheap \<Rightarrow> uheap \<Rightarrow> bool" where
  "same_outside S h h' \<longleftrightarrow> (\<forall>x. x \<notin> S \<longrightarrow> uh_mem h' x = uh_mem h x)"

lemma same_outsideD: "same_outside S h h' \<Longrightarrow> x \<notin> S \<Longrightarrow> uh_mem h' x = uh_mem h x"
  by (simp add: same_outside_def)

lemma same_outside_refl [simp]: "same_outside S h h"
  by (simp add: same_outside_def)

lemma same_outside_trans: "same_outside S h h1 \<Longrightarrow> same_outside T h1 h2 \<Longrightarrow> S \<union> T \<subseteq> V \<Longrightarrow> same_outside V h h2"
  unfolding same_outside_def by (metis UnCI subsetD)

lemma same_outside_mono: "same_outside S h h1 \<Longrightarrow> S \<subseteq> V \<Longrightarrow> same_outside V h h1"
  unfolding same_outside_def by auto

lemma rd_cong: "(\<And>i. i < 4 \<Longrightarrow> uh_mem h' (a + i) = uh_mem h (a + i)) \<Longrightarrow> rd h' a = rd h a"
proof -
  assume a: "\<And>i. i < 4 \<Longrightarrow> uh_mem h' (a + i) = uh_mem h (a + i)"
  show ?thesis using a [of 0] a [of 1] a [of 2] a [of 3] by (simp add: rd_def load32_def)
qed

lemma rd_same: "same_outside S h h' \<Longrightarrow> {a..<a + 4} \<inter> S = {} \<Longrightarrow> rd h' a = rd h a"
proof (rule rd_cong)
  fix i :: nat
  assume "same_outside S h h'" "{a..<a + 4} \<inter> S = {}" "i < 4"
  then have "a + i \<in> {a..<a + 4}" by simp
  then have "a + i \<notin> S" using \<open>{a..<a + 4} \<inter> S = {}\<close> by blast
  then show "uh_mem h' (a + i) = uh_mem h (a + i)" using \<open>same_outside S h h'\<close> by (simp add: same_outsideD)
qed

lemma same_outside_wr: "{a..<a + 4} \<subseteq> S \<Longrightarrow> same_outside S h (wr a v h)"
proof -
  assume a: "{a..<a + 4} \<subseteq> S"
  have "x < a \<or> a + 4 \<le> x" if "x \<notin> S" for x
  proof (rule ccontr)
    assume "\<not> (x < a \<or> a + 4 \<le> x)"
    then have "x \<in> {a..<a + 4}" by simp
    then show False using a that by blast
  qed
  then show ?thesis by (simp add: same_outside_def wr_bytes)
qed

lemma same_outside_mem: "uh_mem h' = uh_mem h \<Longrightarrow> same_outside S h h'"
  by (simp add: same_outside_def)

section \<open>The lists of all classes\<close>

text \<open>\<open>L c\<close> is the list of class \<open>c\<close>.\<close>

definition linked :: "uheap \<Rightarrow> (nat \<Rightarrow> nat list) \<Rightarrow> bool" where
  "linked h L \<longleftrightarrow>
     length (uh_free_head h) = UHEAP_CLASSES \<and>
     (\<forall>c < UHEAP_CLASSES. dll h (free_head h c) 0 (L c) \<and> distinct (L c) \<and> (\<forall>b \<in> set (L c). cls (bsize h b) = c))"

definition listed :: "(nat \<Rightarrow> nat list) \<Rightarrow> nat set" where
  "listed L = (\<Union>c \<in> {..<UHEAP_CLASSES}. set (L c))"

text \<open>The bytes of the links of a set of blocks.\<close>

definition link_bytes :: "nat set \<Rightarrow> nat set" where
  "link_bytes F = (\<Union>x \<in> F. {x + 8..<x + 16})"

lemma link_bytesI: "x \<in> F \<Longrightarrow> {at_next x..<at_next x + 4} \<subseteq> link_bytes F" "x \<in> F \<Longrightarrow> {at_prevfree x..<at_prevfree x + 4} \<subseteq> link_bytes F"
  by (force simp: link_bytes_def at_next_def at_prevfree_def HDR_def)+

lemma link_bytes_header:
  assumes "spaced F" and "b \<in> F" and "G \<subseteq> F"
  shows "{b..<b + 8} \<inter> link_bytes G = {}"
proof -
  have "y \<notin> {x + 8..<x + 16}" if x: "x \<in> G" and y: "y \<in> {b..<b + 8}" for x y
  proof -
    have "x \<in> F" using x assms(3) by blast
    then have "x < b \<longrightarrow> x + 16 \<le> b" "b < x \<longrightarrow> b + 16 \<le> x" using assms(1,2) by (simp_all add: spaced_def)
    then show ?thesis using y by (cases x b rule: linorder_cases) auto
  qed
  then show ?thesis by (auto simp: link_bytes_def)
qed

lemma bsize_same:
  "spaced F \<Longrightarrow> b \<in> F \<Longrightarrow> G \<subseteq> F \<Longrightarrow> same_outside (link_bytes G) h h' \<Longrightarrow> rd h' (at_size b) = rd h (at_size b)"
  by (rule rd_same, assumption) (use link_bytes_header [of F b G] in \<open>force simp: at_size_def\<close>)

lemma linkedD:
  "linked h L \<Longrightarrow> c < UHEAP_CLASSES \<Longrightarrow> dll h (free_head h c) 0 (L c) \<and> distinct (L c) \<and> (\<forall>b \<in> set (L c). cls (bsize h b) = c)"
  by (simp add: linked_def)

lemma listedI: "c < UHEAP_CLASSES \<Longrightarrow> x \<in> set (L c) \<Longrightarrow> x \<in> listed L"
  by (auto simp: listed_def)

lemma other_class: "linked h L \<Longrightarrow> c < UHEAP_CLASSES \<Longrightarrow> d < UHEAP_CLASSES \<Longrightarrow> x \<in> set (L c) \<Longrightarrow> y \<in> set (L d) \<Longrightarrow> c \<noteq> d \<Longrightarrow> x \<noteq> y"
  by (metis linkedD)

lemma list_insert_frame [simp]:
  "uh_size (list_insert b h) = uh_size h" "uh_used_bytes (list_insert b h) = uh_used_bytes h"
  "uh_used_blocks (list_insert b h) = uh_used_blocks h" "uh_high_water (list_insert b h) = uh_high_water h"
  "uh_fail_count (list_insert b h) = uh_fail_count h"
  by (simp_all add: list_insert_def Let_def)

lemma list_remove_frame [simp]:
  "uh_size (list_remove b h) = uh_size h" "uh_used_bytes (list_remove b h) = uh_used_bytes h"
  "uh_used_blocks (list_remove b h) = uh_used_blocks h" "uh_high_water (list_remove b h) = uh_high_water h"
  "uh_fail_count (list_remove b h) = uh_fail_count h"
  by (simp_all add: list_remove_def Let_def)

text \<open>The memory words after an insertion and a removal.\<close>

lemma list_insert_words:
  assumes "8 dvd b" and "4 dvd x" and "\<And>y. free_head h (cls (bsize h b)) = y + 1 \<Longrightarrow> 8 dvd y" and "b + 1 < 4294967296"
    and "free_head h (cls (bsize h b)) < 4294967296"
  shows "rd (list_insert b h) x =
    (if free_head h (cls (bsize h b)) \<noteq> 0 \<and> x = at_prevfree (free_head h (cls (bsize h b)) - 1) then b + 1
     else if x = at_prevfree b then 0
     else if x = at_next b then free_head h (cls (bsize h b)) else rd h x)"
proof -
  have "8 dvd free_head h (cls (bsize h b)) - 1" if "free_head h (cls (bsize h b)) \<noteq> 0" using assms(3) [of "free_head h (cls (bsize h b)) - 1"] that by simp
  then show ?thesis using assms at_words [OF assms(1)] by (simp add: list_insert_def Let_def rd_wr wrap32_def at_words)
qed

lemma rd_less: "rd h x < 4294967296"
  using unsigned_less [of "load32 x (uh_mem h)", where ?'a = nat] by (simp add: rd_def)

lemma list_remove_words:
  assumes "8 dvd b" and "4 dvd x" and "rd h (at_next b) \<noteq> 0 \<Longrightarrow> 8 dvd rd h (at_next b) - 1"
    and "rd h (at_prevfree b) \<noteq> 0 \<Longrightarrow> 8 dvd rd h (at_prevfree b) - 1 \<and> rd h (at_prevfree b) - 1 \<noteq> b"
  shows "rd (list_remove b h) x =
    (if rd h (at_next b) \<noteq> 0 \<and> x = at_prevfree (rd h (at_next b) - 1) then rd h (at_prevfree b)
     else if rd h (at_prevfree b) \<noteq> 0 \<and> x = at_next (rd h (at_prevfree b) - 1) then rd h (at_next b) else rd h x)"
proof (cases "rd h (at_prevfree b) = 0")
  case True
  then show ?thesis using assms at_words [OF assms(1)] by (auto simp: list_remove_def Let_def rd_wr wrap32_def at_words rd_less)
next
  case False
  define p where "p = rd h (at_prevfree b) - 1"
  have p: "8 dvd p" "p \<noteq> b" "rd h (at_prevfree b) = Suc p" using assms(4) False by (simp_all add: p_def)
  have ne: "at_next p \<noteq> at_next b" using p(2) by (simp add: at_next_def)
  have ne': "at_next p \<noteq> at_prevfree b" using p(1) assms(1) by (auto simp: at_next_def at_prevfree_def elim!: dvdE) presburger
  have l: "Suc p < 4294967296" using rd_less [of h "at_prevfree b"] p(3) by simp
  show ?thesis
    using assms at_words [OF assms(1)] at_words [OF p(1)] ne ne' p(3) l
    by (auto simp: list_remove_def Let_def rd_wr wrap32_def at_words rd_less)
qed

lemma list_insert_heads:
  "cls (bsize h b) < length (uh_free_head h) \<Longrightarrow> free_head (list_insert b h) c = (if c = cls (bsize h b) then b + 1 else free_head h c)"
  "length (uh_free_head (list_insert b h)) = length (uh_free_head h)"
  by (simp_all add: list_insert_def Let_def free_head_set)

lemma list_remove_heads:
  "cls (bsize h b) < length (uh_free_head h) \<Longrightarrow>
    free_head (list_remove b h) c = (if rd h (at_prevfree b) = 0 \<and> c = cls (bsize h b) then rd h (at_next b) else free_head h c)"
  "length (uh_free_head (list_remove b h)) = length (uh_free_head h)"
  by (simp_all add: list_remove_def Let_def free_head_set)

text \<open>What the head and the links of a listed block are.\<close>

lemma head_listed:
  assumes "linked h L" and "c < UHEAP_CLASSES"
  shows "free_head h c = (case L c of [] \<Rightarrow> 0 | x # _ \<Rightarrow> x + 1)"
  using linkedD [OF assms] by (cases "L c") auto

lemma links_listed:
  assumes "linked h L" and "c < UHEAP_CLASSES" and "L c = as @ b # cs"
  shows "rd h (at_prevfree b) = prv_of 0 as" "rd h (at_next b) = (case cs of [] \<Rightarrow> 0 | x # _ \<Rightarrow> x + 1)"
proof -
  have "dll h (free_head h c) 0 (as @ b # cs)" using linkedD [OF assms(1,2)] assms(3) by simp
  from dll_append [OF this] show "rd h (at_prevfree b) = prv_of 0 as" "rd h (at_next b) = (case cs of [] \<Rightarrow> 0 | x # _ \<Rightarrow> x + 1)"
    by (auto split: list.splits)
qed

lemma list_insert_same:
  assumes "linked h L" and "spaced (insert b (listed L))" and "cls (bsize h b) < UHEAP_CLASSES"
  shows "same_outside (link_bytes (insert b (listed L))) h (list_insert b h)"
proof -
  define c where "c = cls (bsize h b)"
  have hd: "free_head h c - 1 \<in> listed L" if "free_head h c \<noteq> 0"
    using head_listed [OF assms(1), of c] that assms(3) by (auto simp: c_def intro!: listedI [of "cls (bsize h b)"] split: list.splits)
  let ?S = "link_bytes (insert b (listed L))"
  let ?h1 = "wr (at_prevfree b) 0 (wr (at_next b) (free_head h c) h)"
  have 1: "same_outside ?S h ?h1"
    by (rule same_outside_trans [OF same_outside_wr same_outside_wr, of _ ?S _ ?S]) (use link_bytesI in blast)+
  have 2: "same_outside ?S h (if free_head h c \<noteq> 0 then wr (at_prevfree (free_head h c - 1)) (b + 1) ?h1 else ?h1)"
  proof (cases "free_head h c = 0")
    case False
    have "{at_prevfree (free_head h c - 1)..<at_prevfree (free_head h c - 1) + 4} \<subseteq> ?S"
      using hd [OF False] link_bytesI by blast
    then show ?thesis using False by (simp add: same_outside_trans [OF 1 same_outside_wr])
  qed (use 1 in simp)
  have "uh_mem (list_insert b h) = uh_mem (if free_head h c \<noteq> 0 then wr (at_prevfree (free_head h c - 1)) (b + 1) ?h1 else ?h1)"
    by (simp add: list_insert_def Let_def c_def)
  then show ?thesis using 2 by (simp add: same_outside_def)
qed

lemma linked_insert:
  assumes "linked h L" and "spaced (insert b (listed L))" and "b \<notin> listed L" and "cls (bsize h b) = c" and "c < UHEAP_CLASSES"
  shows "linked (list_insert b h) (L(c := b # L c))"
proof -
  let ?h = "list_insert b h"
  note same = list_insert_same [OF assms(1,2)]
  have sz: "bsize ?h x = bsize h x" if "x \<in> insert b (listed L)" for x
    using bsize_same [OF assms(2) that _ same] assms(4,5) by (intro bsize_cong) (auto simp: at_size_def)
  have hd: "free_head h c = (case L c of [] \<Rightarrow> 0 | x # _ \<Rightarrow> x + 1)" by (rule head_listed [OF assms(1,5)])
  have al: "8 dvd x \<and> x + 16 < 4294967296" if "x \<in> insert b (listed L)" for x using assms(2) that spacedD by blast
  have lst: "x \<in> insert b (listed L)" if "x \<in> set (L d)" "d < UHEAP_CLASSES" for x d using that listedI by blast
  have w: "rd ?h x = (if L c \<noteq> [] \<and> x = at_prevfree (hd (L c)) then b + 1 else if x = at_prevfree b then 0
      else if x = at_next b then free_head h c else rd h x)" if "4 dvd x" for x
  proof -
    have b: "8 dvd b" "b + 1 < 4294967296" using al [of b] by simp_all
    have y: "8 dvd y" "free_head h c < 4294967296" if "free_head h c = y + 1" for y
    proof -
      have "y \<in> set (L c)" using that hd by (cases "L c") auto
      then have "8 dvd y \<and> y + 16 < 4294967296" using al lst assms(5) by blast
      then show "8 dvd y" "free_head h c < 4294967296" using that by simp_all
    qed
    have lt: "free_head h c < 4294967296" using y(2) [of "free_head h c - 1"] by (cases "free_head h c") auto
    show ?thesis
      using list_insert_words [of b x h, OF b(1) that] y(1) b(2) lt hd assms(4) by (cases "L c") auto
  qed
  have keep: "rd ?h (at_next x) = rd h (at_next x)" "L c = [] \<or> x \<noteq> hd (L c) \<Longrightarrow> rd ?h (at_prevfree x) = rd h (at_prevfree x)"
    if "x \<in> listed L" for x
  proof -
    have ne: "x \<noteq> b" using that assms(3) by blast
    have x: "x \<in> insert b (listed L)" "b \<in> insert b (listed L)" using that by simp_all
    have y: "L c \<noteq> [] \<Longrightarrow> hd (L c) \<in> insert b (listed L)" using lst [OF hd_in_set assms(5)] .
    note d = links_apart [OF assms(2) x] links_apart [OF assms(2) x(1) y]
    have x8: "8 dvd x" using al [OF x(1)] by simp
    show "rd ?h (at_next x) = rd h (at_next x)" using w [OF at_words(3) [OF x8]] d ne by (cases "L c = []") simp_all
    show "rd ?h (at_prevfree x) = rd h (at_prevfree x)" if "L c = [] \<or> x \<noteq> hd (L c)"
      using w [OF at_words(4) [OF x8]] d ne that by (cases "L c = []") simp_all
  qed
  have own: "dll ?h (b + 1) 0 (b # L c)"
  proof (rule dll_push [where h = h and l = "free_head h c"])
    show "dll h (free_head h c) 0 (L c)" "distinct (L c)" using linkedD [OF assms(1,5)] by simp_all
    show "spaced (insert b (set (L c)))" using assms(2) by (rule spaced_subset) (use lst assms(5) in blast)
    show "b \<notin> set (L c)" using assms(3,5) listedI by blast
    have b: "b \<in> insert b (listed L)" by simp
    have y: "L c \<noteq> [] \<Longrightarrow> hd (L c) \<in> insert b (listed L) \<and> hd (L c) \<noteq> b" using lst assms(3,5) listedI by (metis list.set_sel(1))
    have b8: "8 dvd b" using al [OF b] by simp
    have d: "L c \<noteq> [] \<Longrightarrow> at_prevfree b \<noteq> at_prevfree (hd (L c))" "L c \<noteq> [] \<Longrightarrow> at_next b \<noteq> at_prevfree (hd (L c))" "at_next b \<noteq> at_prevfree b"
      using links_apart [OF assms(2) b, of "hd (L c)"] links_apart(3) [OF assms(2) b b] y by blast+
    show "rd ?h (at_next b) = free_head h c" using w [OF at_words(3) [OF b8]] d by (cases "L c = []") simp_all
    show "rd ?h (at_prevfree b) = 0" using w [OF at_words(4) [OF b8]] d by (cases "L c = []") simp_all
    show "rd ?h (at_prevfree (hd (L c))) = b + 1" if "L c \<noteq> []"
    proof -
      have "8 dvd hd (L c)" using al y that by blast
      then show ?thesis using w [OF at_words(4)] that by simp
    qed
    show "rd ?h (at_next (hd (L c))) = rd h (at_next (hd (L c)))" if "L c \<noteq> []"
      using keep(1) that assms(5) listedI by (metis list.set_sel(1))
    show "rd ?h (at_next x) = rd h (at_next x) \<and> rd ?h (at_prevfree x) = rd h (at_prevfree x)" if "x \<in> set (tl (L c))" for x
    proof -
      have "x \<in> set (L c)" using that by (metis list.set_sel(2) list.sel(2) list.set_cases neq_Nil_conv)
      then have x: "x \<in> listed L" using assms(5) listedI by blast
      moreover have "x \<noteq> hd (L c)" using that linkedD [OF assms(1,5)] by (cases "L c") auto
      ultimately show ?thesis using keep by simp
    qed
  qed
  have c: "cls (bsize h b) < length (uh_free_head h)" using assms(1,4,5) by (simp add: linked_def)
  have "dll ?h (free_head ?h d) 0 ((L(c := b # L c)) d) \<and> distinct ((L(c := b # L c)) d) \<and> (\<forall>x \<in> set ((L(c := b # L c)) d). cls (bsize ?h x) = d)"
    if d: "d < UHEAP_CLASSES" for d
  proof (cases "d = c")
    case True
    then show ?thesis
      using own linkedD [OF assms(1,5)] sz lst [OF _ assms(5)] assms(3-5) listedI [where L = L, OF assms(5)] by (auto simp: list_insert_heads(1) [OF c])
  next
    case False
    have "dll ?h (free_head h d) 0 (L d) = dll h (free_head h d) 0 (L d)"
    proof (rule dll_cong)
      fix x
      assume x: "x \<in> set (L d)"
      have "L c = [] \<or> x \<noteq> hd (L c)" using other_class [OF assms(1) d assms(5) x] False by (metis list.set_sel(1))
      then show "rd ?h (at_next x) = rd h (at_next x) \<and> rd ?h (at_prevfree x) = rd h (at_prevfree x)"
        using keep listedI [where L = L, OF d x] by blast
    qed
    then show ?thesis using linkedD [OF assms(1) d] sz lst [OF _ d] False assms(4) by (auto simp: list_insert_heads(1) [OF c])
  qed
  then show ?thesis using assms(1) by (simp add: linked_def list_insert_heads(2))
qed

text \<open>The neighbours in a list.\<close>

lemma neighbours:
  assumes "linked h L" and "c < UHEAP_CLASSES" and "L c = as @ b # cs"
  shows "rd h (at_prevfree b) = (if as = [] then 0 else last as + 1)" "rd h (at_next b) = (if cs = [] then 0 else hd cs + 1)"
    and "as \<noteq> [] \<Longrightarrow> last as \<in> listed L \<and> last as \<noteq> b \<and> last as \<notin> set cs" "cs \<noteq> [] \<Longrightarrow> hd cs \<in> listed L \<and> hd cs \<noteq> b \<and> hd cs \<notin> set as"
    and "b \<in> listed L" "set as \<subseteq> listed L" "set cs \<subseteq> listed L"
proof -
  show "rd h (at_prevfree b) = (if as = [] then 0 else last as + 1)" "rd h (at_next b) = (if cs = [] then 0 else hd cs + 1)"
    using links_listed [OF assms] by (auto simp: prv_of_def split: list.splits)
  have s: "set (L c) \<subseteq> listed L" using assms(2) listedI by blast
  have "distinct (as @ b # cs)" using linkedD [OF assms(1,2)] assms(3) by simp
  then have d: "\<And>x. x \<in> set as \<Longrightarrow> x \<noteq> b \<and> x \<notin> set cs" "\<And>x. x \<in> set cs \<Longrightarrow> x \<noteq> b \<and> x \<notin> set as" by auto
  show "as \<noteq> [] \<Longrightarrow> last as \<in> listed L \<and> last as \<noteq> b \<and> last as \<notin> set cs"
    using s d(1) [OF last_in_set] last_in_set [of as] assms(3) by auto
  show "cs \<noteq> [] \<Longrightarrow> hd cs \<in> listed L \<and> hd cs \<noteq> b \<and> hd cs \<notin> set as"
    using s d(2) [OF hd_in_set] hd_in_set [of cs] assms(3) by auto
  show "b \<in> listed L" "set as \<subseteq> listed L" "set cs \<subseteq> listed L" using s assms(3) by auto
qed

lemma list_remove_same:
  assumes "linked h L" and "spaced (listed L)" and "c < UHEAP_CLASSES" and "L c = as @ b # cs"
  shows "same_outside (link_bytes (listed L)) h (list_remove b h)"
proof -
  note n = neighbours [OF assms(1,3,4)]
  have al: "8 dvd x" if "x \<in> listed L" for x using spacedD [OF assms(2) that] by simp
  let ?S = "link_bytes (listed L)"
  let ?h1 = "if rd h (at_prevfree b) \<noteq> 0 then wr (at_next (rd h (at_prevfree b) - 1)) (rd h (at_next b)) h
                else set_head (cls (bsize h b)) (rd h (at_next b)) h"
  have 1: "same_outside ?S h ?h1"
    using n(1,3) link_bytesI(1) [of "last as" "listed L"] by (auto intro: same_outside_wr simp: same_outside_mem)
  have nx: "rd ?h1 (at_next b) = rd h (at_next b)"
  proof (cases "as = []")
    case False
    then have "at_next (last as) \<noteq> at_next b" using n(3) by (simp add: at_next_def)
    then show ?thesis using False n(1,3,5) al by (simp add: rd_wr at_words)
  qed (use n(1) in simp)
  have 2: "same_outside ?S h (wr (at_prevfree (hd cs)) v ?h1)" if "cs \<noteq> []" for v
    by (rule same_outside_trans [OF 1 same_outside_wr, of _ ?S]) (use link_bytesI(2) [of "hd cs" "listed L"] n(4) that in auto)
  have "same_outside ?S h (if rd h (at_next b) \<noteq> 0 then wr (at_prevfree (rd h (at_next b) - 1)) (rd ?h1 (at_prevfree b)) ?h1 else ?h1)"
    using n(2) 1 2 by (cases "cs = []") simp_all
  then show ?thesis using nx by (simp add: list_remove_def Let_def cong: if_cong)
qed

lemma linked_remove:
  assumes "linked h L" and "spaced (listed L)" and "b \<in> listed L" and "cls (bsize h b) = c"
  shows "linked (list_remove b h) (L(c := remove1 b (L c)))" "same_outside (link_bytes (listed L)) h (list_remove b h)"
proof -
  let ?h = "list_remove b h"
  obtain d where d: "d < UHEAP_CLASSES" "b \<in> set (L d)" using assms(3) by (auto simp: listed_def)
  have "d = c" using linkedD [OF assms(1) d(1)] d(2) assms(4) by simp
  with d have c: "c < UHEAP_CLASSES" "b \<in> set (L c)" by simp_all
  obtain as cs where L: "L c = as @ b # cs" using split_list [OF c(2)] by blast
  note n = neighbours [OF assms(1) c(1) L]
  note same = list_remove_same [OF assms(1,2) c(1) L]
  show "same_outside (link_bytes (listed L)) h ?h" by (rule same)
  have dist: "distinct (as @ b # cs)" and chain: "dll h (free_head h c) 0 (as @ b # cs)" using linkedD [OF assms(1) c(1)] L by simp_all
  have al: "8 dvd x" if "x \<in> listed L" for x using spacedD [OF assms(2) that] by simp
  have sz: "bsize ?h x = bsize h x" if "x \<in> listed L" for x
    using bsize_same [OF assms(2) that order_refl same] by (intro bsize_cong) (simp add: at_size_def)
  have w: "rd ?h x = (if cs \<noteq> [] \<and> x = at_prevfree (hd cs) then rd h (at_prevfree b)
      else if as \<noteq> [] \<and> x = at_next (last as) then rd h (at_next b) else rd h x)" if "4 dvd x" for x
  proof -
    have "rd h (at_next b) \<noteq> 0 \<Longrightarrow> 8 dvd rd h (at_next b) - 1" using n(2,4) al by (cases "cs = []") simp_all
    moreover have "rd h (at_prevfree b) \<noteq> 0 \<Longrightarrow> 8 dvd rd h (at_prevfree b) - 1 \<and> rd h (at_prevfree b) - 1 \<noteq> b"
      using n(1,3) al by (cases "as = []") simp_all
    ultimately show ?thesis using list_remove_words [of b x h, OF al [OF n(5)] that] n(1,2) by (cases "as = []"; cases "cs = []") simp_all
  qed
  have nx: "rd ?h (at_next x) = rd h (at_next x)" if "x \<in> listed L" "as = [] \<or> x \<noteq> last as" for x
    using w [OF at_words(3) [OF al [OF that(1)]]] that(2) links_apart [OF assms(2) that(1), of "last as"]
      links_apart [OF assms(2) that(1), of "hd cs"] n(3,4) by (cases "as = []"; cases "cs = []") simp_all
  have pv: "rd ?h (at_prevfree x) = rd h (at_prevfree x)" if "x \<in> listed L" "cs = [] \<or> x \<noteq> hd cs" for x
    using w [OF at_words(4) [OF al [OF that(1)]]] that(2) links_apart [OF assms(2) that(1), of "last as"]
      links_apart [OF assms(2) that(1), of "hd cs"] n(3,4) by (cases "as = []"; cases "cs = []") simp_all
  have len: "cls (bsize h b) < length (uh_free_head h)" using assms(1,4) c(1) by (simp add: linked_def)
  have head: "free_head ?h d = (if as = [] \<and> d = c then rd h (at_next b) else free_head h d)" for d
    using list_remove_heads(1) [OF len, of d] assms(4) n(1) by simp
  have own: "dll ?h (free_head ?h c) 0 (as @ cs)"
  proof (rule dll_unlink [OF chain dist])
    show "rd ?h (at_next (last as)) = rd h (at_next b)" if "as \<noteq> []"
      using w [OF at_words(3) [OF al]] n(3) [OF that] that links_apart(3) [OF assms(2), of "last as" "hd cs"] n(4) by (cases "cs = []") simp_all
    show "as = [] \<Longrightarrow> free_head ?h c = rd h (at_next b)" "as \<noteq> [] \<Longrightarrow> free_head ?h c = free_head h c" by (simp_all add: head)
    show "rd ?h (at_prevfree (hd cs)) = prv_of 0 as" if "cs \<noteq> []"
      using w [OF at_words(4) [OF al]] n(4) [OF that] that n(1) by (simp add: prv_of_def)
    show "rd ?h (at_next x) = rd h (at_next x)" if "x \<in> set as" "x \<noteq> last as" for x using nx that n(6) by blast
    show "rd ?h (at_prevfree x) = rd h (at_prevfree x)" if "x \<in> set as" for x
      using pv [of x] that n(4,6) by blast
    show "rd ?h (at_next x) = rd h (at_next x)" if "x \<in> set cs" for x using nx [of x] that n(3,7) by blast
    show "rd ?h (at_prevfree x) = rd h (at_prevfree x)" if "x \<in> set (tl cs)" for x
      using pv [of x] that n(7) dist by (cases cs) auto
  qed
  have rest: "dll ?h (free_head ?h e) 0 (L e)" if e: "e < UHEAP_CLASSES" "e \<noteq> c" for e
  proof -
    have "dll ?h (free_head h e) 0 (L e) = dll h (free_head h e) 0 (L e)"
    proof (rule dll_cong)
      fix x
      assume x: "x \<in> set (L e)"
      have ne: "x \<noteq> y" if "y \<in> set (L c)" for y using other_class [OF assms(1) e(1) c(1) x that e(2)] .
      have "as = [] \<or> x \<noteq> last as" "cs = [] \<or> x \<noteq> hd cs" using ne [of "last as"] ne [of "hd cs"] L by auto
      then show "rd ?h (at_next x) = rd h (at_next x) \<and> rd ?h (at_prevfree x) = rd h (at_prevfree x)"
        using nx pv listedI [where L = L, OF e(1) x] by blast
    qed
    then show ?thesis using linkedD [OF assms(1) e(1)] e(2) by (simp add: head)
  qed
  have rm: "remove1 b (L c) = as @ cs" using dist L by (simp add: remove1_append)
  have "dll ?h (free_head ?h e) 0 ((L(c := remove1 b (L c))) e) \<and> distinct ((L(c := remove1 b (L c))) e) \<and> (\<forall>x \<in> set ((L(c := remove1 b (L c))) e). cls (bsize ?h x) = e)"
    if e: "e < UHEAP_CLASSES" for e
  proof (cases "e = c")
    case True
    have "cls (bsize h x) = c" if "x \<in> set as \<union> set cs" for x using linkedD [OF assms(1) c(1)] that L by auto
    then show ?thesis using own dist True rm sz n(6,7) by auto
  next
    case False
    then show ?thesis using rest [OF e] linkedD [OF assms(1) e] sz listedI [where L = L, OF e] by simp
  qed
  then show "linked ?h (L(c := remove1 b (L c)))" using assms(1) by (simp add: linked_def list_remove_heads(2))
qed

end
