(* ===== verification/Uheap_Blocks.thy ===== *)
theory Uheap_Blocks
  imports Uheap_Lists
begin

text \<open>
  The arena as a sequence of blocks: sizes and used bits in physical order, with the sentinel behind them.
  \<open>heap_ok\<close> ties the headers in memory, the free lists and the counters to that sequence; the edits of the
  headers (mark, split, merge) and of the lists keep it.
\<close>

section \<open>Blocks in physical order\<close>

type_synonym block_list = "(nat \<times> bool) list"

text \<open>The headers from offset \<open>off\<close> on describe \<open>bs\<close>; \<open>p\<close> is the size of the block before.\<close>

fun hseg :: "uheap \<Rightarrow> nat \<Rightarrow> nat \<Rightarrow> block_list \<Rightarrow> bool" where
  "hseg h off p [] \<longleftrightarrow> True"
| "hseg h off p ((s, u) # bs) \<longleftrightarrow> rd h (at_size off) = s + of_bool u \<and> rd h (at_prev off) = p \<and> hseg h (off + s) s bs"

definition spans :: "block_list \<Rightarrow> nat" where
  "spans bs = sum_list (map fst bs)"

definition prior_size :: "nat \<Rightarrow> block_list \<Rightarrow> nat" where
  "prior_size p bs = (if bs = [] then p else fst (last bs))"

lemma spans_simps [simp]: "spans [] = 0" "spans ((s, u) # bs) = s + spans bs" "spans (as @ bs) = spans as + spans bs"
  by (simp_all add: spans_def)

lemma prior_size_simps [simp]: "prior_size p [] = p" "prior_size p ((s, u) # bs) = prior_size s bs"
  "prior_size p (as @ bs) = prior_size (prior_size p as) bs"
  by (simp_all add: prior_size_def)

lemma hseg_append: "hseg h off p (as @ bs) \<longleftrightarrow> hseg h off p as \<and> hseg h (off + spans as) (prior_size p as) bs"
  by (induction as arbitrary: off p) (auto simp: add.assoc)

text \<open>The blocks with their offsets.\<close>

fun placed :: "nat \<Rightarrow> block_list \<Rightarrow> (nat \<times> nat \<times> bool) list" where
  "placed off [] = []"
| "placed off ((s, u) # bs) = (off, s, u) # placed (off + s) bs"

lemma placed_append [simp]: "placed off (as @ bs) = placed off as @ placed (off + spans as) bs"
  by (induction as arbitrary: off) (auto simp: add.assoc)

definition starts :: "nat \<Rightarrow> block_list \<Rightarrow> nat set" where
  "starts off bs = fst ` set (placed off bs)"

definition frees :: "nat \<Rightarrow> block_list \<Rightarrow> nat set" where
  "frees off bs = {b. \<exists>s. (b, s, False) \<in> set (placed off bs)}"

definition in_use :: "nat \<Rightarrow> block_list \<Rightarrow> (nat \<times> nat) set" where
  "in_use off bs = {(b, s). (b, s, True) \<in> set (placed off bs)}"

lemma starts_simps [simp]: "starts off [] = {}" "starts off ((s, u) # bs) = insert off (starts (off + s) bs)"
  "starts off (as @ bs) = starts off as \<union> starts (off + spans as) bs"
  by (auto simp: starts_def)

lemma frees_simps [simp]: "frees off [] = {}" "frees off ((s, u) # bs) = (if u then {} else {off}) \<union> frees (off + s) bs"
  "frees off (as @ bs) = frees off as \<union> frees (off + spans as) bs"
  by (auto simp: frees_def)

lemma in_use_simps [simp]: "in_use off [] = {}" "in_use off ((s, u) # bs) = (if u then {(off, s)} else {}) \<union> in_use (off + s) bs"
  "in_use off (as @ bs) = in_use off as \<union> in_use (off + spans as) bs"
  by (auto simp: in_use_def)

definition sized :: "block_list \<Rightarrow> bool" where
  "sized bs \<longleftrightarrow> (\<forall>(s, u) \<in> set bs. 8 dvd s \<and> MIN_BLOCK \<le> s)"

lemma sized_simps [simp]: "sized []" "sized ((s, u) # bs) \<longleftrightarrow> 8 dvd s \<and> 16 \<le> s \<and> sized bs" "sized (as @ bs) \<longleftrightarrow> sized as \<and> sized bs"
  by (auto simp: sized_def MIN_BLOCK_def)

lemma spans_dvd: "sized bs \<Longrightarrow> 8 dvd spans bs"
  by (induction bs) auto

lemma placed_bounds:
  "sized bs \<Longrightarrow> (b, s, u) \<in> set (placed off bs) \<Longrightarrow> off \<le> b \<and> b + s \<le> off + spans bs \<and> 16 \<le> s \<and> 8 dvd s \<and> 8 dvd b - off"
proof (induction bs arbitrary: off)
  case (Cons x bs)
  obtain t v where x: "x = (t, v)" by (rule prod.exhaust)
  from Cons.prems(2) x consider "(b, s, u) = (off, t, v)" | "(b, s, u) \<in> set (placed (off + t) bs)" by auto
  then show ?case
  proof cases
    case 2
    then have ih: "off + t \<le> b" "b + s \<le> off + t + spans bs \<and> 16 \<le> s \<and> 8 dvd s" "8 dvd b - (off + t)" using Cons x by simp_all
    have "8 dvd t" using Cons.prems(1) x by simp
    moreover have "b - off = (b - (off + t)) + t" using ih(1) by simp
    ultimately have "8 dvd b - off" using ih(3) by (simp only: dvd_add)
    then show ?thesis using ih(1,2) x by simp
  qed (use Cons.prems x in simp)
qed simp

lemma starts_bounds: "sized bs \<Longrightarrow> b \<in> starts off bs \<Longrightarrow> off \<le> b \<and> b + 16 \<le> off + spans bs"
  using placed_bounds by (fastforce simp: starts_def)

lemma frees_starts: "b \<in> frees off bs \<Longrightarrow> b \<in> starts off bs"
  by (force simp: frees_def starts_def)

lemma placed_split: "(b, s, u) \<in> set (placed off bs) \<Longrightarrow> \<exists>as cs. bs = as @ (s, u) # cs \<and> b = off + spans as"
proof (induction bs arbitrary: off)
  case (Cons x bs)
  obtain t v where x: "x = (t, v)" by (rule prod.exhaust)
  from Cons.prems x consider "(b, s, u) = (off, t, v)" | "(b, s, u) \<in> set (placed (off + t) bs)" by auto
  then show ?case
  proof cases
    case 1
    then show ?thesis using x by (intro exI [of _ "[]"] exI [of _ bs]) simp
  next
    case 2
    then obtain as cs where "bs = as @ (s, u) # cs" "b = off + t + spans as" using Cons.IH by blast
    then show ?thesis using x by (intro exI [of _ "x # as"] exI [of _ cs]) simp
  qed
qed simp

text \<open>Two placed blocks lie apart.\<close>

lemma placed_apart:
  assumes "sized bs" and "(b, s, u) \<in> set (placed off bs)" and "(c, t, v) \<in> set (placed off bs)"
  shows "(b, s, u) = (c, t, v) \<or> b + s \<le> c \<or> c + t \<le> b"
  using assms
proof (induction bs arbitrary: off)
  case (Cons x bs)
  obtain y w where x: "x = (y, w)" by (rule prod.exhaust)
  have "off + y \<le> z" if "(z, r, k) \<in> set (placed (off + y) bs)" for z r k
    using placed_bounds [of bs z r k "off + y"] that Cons.prems(1) x by simp
  then show ?case using Cons x by fastforce
qed simp

lemma frees_spaced:
  assumes "sized bs" and "spans bs < 4294967296"
  shows "spaced (frees 0 bs)"
  unfolding spaced_def
proof (intro conjI ballI impI)
  fix x
  assume "x \<in> frees 0 bs"
  then obtain s where s: "(x, s, False) \<in> set (placed 0 bs)" by (auto simp: frees_def)
  show "8 dvd x" "x + 16 < 4294967296" using placed_bounds [OF assms(1) s] assms(2) by simp_all
next
  fix x y
  assume "x \<in> frees 0 bs" "y \<in> frees 0 bs" and lt: "x < y"
  then obtain s t where s: "(x, s, False) \<in> set (placed 0 bs)" "(y, t, False) \<in> set (placed 0 bs)" by (auto simp: frees_def)
  show "x + 16 \<le> y" using placed_apart [OF assms(1) s] placed_bounds [OF assms(1) s(1)] placed_bounds [OF assms(1) s(2)] lt by auto
qed

section \<open>The arena laid out\<close>

definition laid :: "uheap \<Rightarrow> block_list \<Rightarrow> bool" where
  "laid h bs \<longleftrightarrow> hseg h 0 0 (bs @ [(0, True)]) \<and> sized bs \<and> spans bs + HDR = uh_size h \<and> uh_size h < 4294967296"

lemma hseg_cong:
  "(\<And>y. y \<in> starts off bs \<Longrightarrow> rd h' (at_size y) = rd h (at_size y) \<and> rd h' (at_prev y) = rd h (at_prev y)) \<Longrightarrow> hseg h off p bs \<Longrightarrow> hseg h' off p bs"
  by (induction bs arbitrary: off p) auto

text \<open>A stretch \<open>old\<close> of blocks is replaced by \<open>new\<close>; behind it the first block's \<open>prev\<close> follows.\<close>

lemma laid_change:
  assumes "laid h (as @ old @ cs)" and "sized new" and "spans new = spans old" and "new \<noteq> []" and "uh_size h' = uh_size h"
    and before: "\<And>y. y \<in> starts 0 as \<Longrightarrow> y + 16 \<le> spans as \<Longrightarrow> rd h' (at_size y) = rd h (at_size y) \<and> rd h' (at_prev y) = rd h (at_prev y)"
    and new: "hseg h' (spans as) (prior_size 0 as) new"
    and after: "\<And>y. y \<in> starts (spans as + spans old) (cs @ [(0, True)]) \<Longrightarrow> spans as + spans old \<le> y \<Longrightarrow>
      rd h' (at_size y) = rd h (at_size y) \<and> (spans as + spans old + 16 \<le> y \<longrightarrow> rd h' (at_prev y) = rd h (at_prev y))"
    and prev: "rd h' (at_prev (spans as + spans old)) = prior_size 0 new"
  shows "laid h' (as @ new @ cs)"
proof -
  have hseg: "hseg h 0 0 as" "hseg h (spans as) (prior_size 0 as) old"
      "hseg h (spans as + spans old) (prior_size (prior_size 0 as) old) (cs @ [(0, True)])" and sz: "sized as" "sized cs"
    using assms(1) by (simp_all add: laid_def hseg_append add.assoc)
  have 1: "hseg h' 0 0 as"
    using hseg(1) by (rule hseg_cong [rotated]) (use before starts_bounds [OF sz(1), of _ 0] in auto)
  have p: "prior_size (prior_size 0 as) new = prior_size 0 new" using assms(4) by (simp add: prior_size_def)
  define e where "e = spans as + spans old"
  have "hseg h' e (prior_size 0 new) (cs @ [(0, True)])"
  proof (cases cs)
    case Nil
    then show ?thesis using hseg(3) after [of e] prev by (simp add: e_def)
  next
    case (Cons x ds)
    obtain t v where x: "x = (t, v)" by (rule prod.exhaust)
    have t: "16 \<le> t" and sd: "sized ds" using sz(2) Cons x by simp_all
    have "hseg h (e + t) t (ds @ [(0, True)])" using hseg(3) Cons x by (simp add: e_def)
    then have "hseg h' (e + t) t (ds @ [(0, True)])"
    proof (rule hseg_cong [rotated])
      fix y
      assume y: "y \<in> starts (e + t) (ds @ [(0, True)])"
      then have "e + 16 \<le> y" using starts_bounds [OF sd, of y "e + t"] t by auto
      moreover have "y \<in> starts e (cs @ [(0, True)])" using y Cons x by simp
      ultimately show "rd h' (at_size y) = rd h (at_size y) \<and> rd h' (at_prev y) = rd h (at_prev y)" using after [of y] by (simp add: e_def)
    qed
    moreover have "rd h' (at_size e) = t + of_bool v" using after [of e] hseg(3) Cons x by (simp add: e_def)
    ultimately show ?thesis using prev Cons x by (simp add: e_def)
  qed
  then show ?thesis using assms 1 new sz p by (simp add: laid_def hseg_append e_def add.assoc)
qed

lemma laid_same:
  assumes "laid h bs" and "uh_size h' = uh_size h"
    and "\<And>y. y \<in> starts 0 bs \<Longrightarrow> rd h' (at_size y) = rd h (at_size y) \<and> rd h' (at_prev y) = rd h (at_prev y)"
    and "rd h' (at_size (spans bs)) = rd h (at_size (spans bs))" and "rd h' (at_prev (spans bs)) = rd h (at_prev (spans bs))"
  shows "laid h' bs"
proof -
  have "hseg h' 0 0 (bs @ [(0, True)])" by (rule hseg_cong [where h = h]) (use assms in \<open>auto simp: laid_def\<close>)
  then show ?thesis using assms(1,2) by (simp add: laid_def)
qed

lemma laid_bounds:
  assumes "laid h bs" and "(b, s, u) \<in> set (placed 0 bs)"
  shows "b + s + 8 \<le> uh_size h" "16 \<le> s" "8 dvd s" "8 dvd b" "b + s + 8 < 4294967296"
  using placed_bounds [of bs b s u 0] assms by (auto simp: laid_def HDR_def)

lemma laid_header:
  assumes "laid h bs" and "(b, s, u) \<in> set (placed 0 bs)"
  shows "bsize h b = s" "bused h b = u"
proof -
  obtain as cs where bs: "bs = as @ (s, u) # cs" "b = spans as" using placed_split [OF assms(2)] by auto
  have "even s" using laid_bounds(3) [OF assms] by (auto elim!: dvdE)
  moreover have "rd h b = s + of_bool u" using assms(1) bs by (simp add: laid_def hseg_append at_size_def)
  ultimately show "bsize h b = s" "bused h b = u" by (auto simp: bsize_def bused_def at_size_def)
qed

section \<open>Edits of the free lists\<close>

text \<open>No payload byte of the blocks in \<open>U\<close> changes.\<close>

definition calm :: "(nat \<times> nat) set \<Rightarrow> uheap \<Rightarrow> uheap \<Rightarrow> bool" where
  "calm U h h' \<longleftrightarrow> (\<forall>(b, s) \<in> U. \<forall>y. b + HDR \<le> y \<and> y < b + s \<longrightarrow> uh_mem h' y = uh_mem h y)"

lemma calmI: "(\<And>b s y. (b, s) \<in> U \<Longrightarrow> b + HDR \<le> y \<Longrightarrow> y < b + s \<Longrightarrow> uh_mem h' y = uh_mem h y) \<Longrightarrow> calm U h h'"
  by (auto simp: calm_def)

lemma calmD: "calm U h h' \<Longrightarrow> (b, s) \<in> U \<Longrightarrow> b + HDR \<le> y \<Longrightarrow> y < b + s \<Longrightarrow> uh_mem h' y = uh_mem h y"
  by (auto simp: calm_def)

lemma calm_refl [simp]: "calm U h h"
  by (auto simp: calm_def)

lemma calm_trans: "calm U h h1 \<Longrightarrow> calm U h1 h2 \<Longrightarrow> calm U h h2"
  by (force simp: calm_def)

lemma calm_subset: "calm U h h1 \<Longrightarrow> V \<subseteq> U \<Longrightarrow> calm V h h1"
  by (force simp: calm_def)

lemma calm_mem: "uh_mem h1 = uh_mem h \<Longrightarrow> calm U h h1"
  by (auto simp: calm_def)

lemma calm_mem_right: "calm U h h1 \<Longrightarrow> uh_mem h2 = uh_mem h1 \<Longrightarrow> calm U h h2"
  by (auto simp: calm_def)

definition core :: "uheap \<Rightarrow> block_list \<Rightarrow> (nat \<Rightarrow> nat list) \<Rightarrow> bool" where
  "core h bs L \<longleftrightarrow> laid h bs \<and> linked h L \<and> listed L \<subseteq> frees 0 bs"

lemma laid_spaced: "laid h bs \<Longrightarrow> spaced (frees 0 bs)"
  by (rule frees_spaced) (auto simp: laid_def HDR_def)

lemma links_frame:
  assumes "laid h bs" and "F \<subseteq> frees 0 bs" and "same_outside (link_bytes F) h h'" and "uh_size h' = uh_size h"
  shows "laid h' bs" "calm (in_use 0 bs) h h'"
proof -
  have sz: "sized bs" using assms(1) by (simp add: laid_def)
  have far: "y \<notin> link_bytes F" if "(b, s, u) \<in> set (placed 0 bs)" "b \<le> y" "y < b + 8 \<or> u \<and> y < b + s" for b s u y
  proof
    assume "y \<in> link_bytes F"
    then obtain x where x: "x \<in> F" "x + 8 \<le> y" "y < x + 16" by (auto simp: link_bytes_def)
    obtain t where t: "(x, t, False) \<in> set (placed 0 bs)" using x(1) assms(2) by (auto simp: frees_def)
    show False
      using placed_apart [OF sz that(1) t] placed_bounds [OF sz that(1)] placed_bounds [OF sz t] x that(2,3) by auto
  qed
  show "calm (in_use 0 bs) h h'"
    unfolding calm_def
  proof (clarify)
    fix b s y
    assume "(b, s) \<in> in_use 0 bs" and y: "b + HDR \<le> y" "y < b + s"
    then have "(b, s, True) \<in> set (placed 0 bs)" by (simp add: in_use_def)
    then show "uh_mem h' y = uh_mem h y" using far y assms(3) by (intro same_outsideD) (auto simp: HDR_def)
  qed
  show "laid h' bs"
  proof (rule laid_same [OF assms(1,4)])
    fix y
    assume "y \<in> starts 0 bs"
    then obtain s u where "(y, s, u) \<in> set (placed 0 bs)" by (auto simp: starts_def)
    then have "{y..<y + 8} \<inter> link_bytes F = {}" using far by fastforce
    moreover have "{at_size y..<at_size y + 4} \<subseteq> {y..<y + 8}" "{at_prev y..<at_prev y + 4} \<subseteq> {y..<y + 8}"
      by (auto simp: at_size_def at_prev_def)
    ultimately show "rd h' (at_size y) = rd h (at_size y) \<and> rd h' (at_prev y) = rd h (at_prev y)"
      by (intro conjI rd_same [OF assms(3)]) blast+
  next
    have "y \<notin> link_bytes F" if "spans bs \<le> y" for y
    proof
      assume "y \<in> link_bytes F"
      then obtain x where x: "x \<in> F" "y < x + 16" by (auto simp: link_bytes_def)
      then obtain t where "(x, t, False) \<in> set (placed 0 bs)" using assms(2) by (auto simp: frees_def)
      then show False using placed_bounds [OF sz, of x t False 0] x(2) that by simp
    qed
    then show "rd h' (at_size (spans bs)) = rd h (at_size (spans bs))" "rd h' (at_prev (spans bs)) = rd h (at_prev (spans bs))"
      by (intro rd_same [OF assms(3)]; force simp: at_size_def at_prev_def)+
  qed
qed

lemma free_cls: "laid h bs \<Longrightarrow> (b, s, u) \<in> set (placed 0 bs) \<Longrightarrow> cls (bsize h b) < UHEAP_CLASSES"
  using laid_header(1) [of h bs b s u] laid_bounds(2,5) [of h bs b s u] cls_less_32 [of s] by (simp add: UHEAP_CLASSES_def)

lemma core_insert:
  assumes "core h bs L" and "b \<in> frees 0 bs" and "b \<notin> listed L"
  shows "\<exists>L'. core (list_insert b h) bs L' \<and> listed L' = insert b (listed L)" "calm (in_use 0 bs) h (list_insert b h)"
proof -
  let ?c = "cls (bsize h b)" and ?F = "insert b (listed L)"
  have c: "laid h bs" "linked h L" "?F \<subseteq> frees 0 bs" using assms by (simp_all add: core_def)
  have sp: "spaced ?F" using laid_spaced [OF c(1)] c(3) by (rule spaced_subset)
  obtain s where s: "(b, s, False) \<in> set (placed 0 bs)" using assms(2) by (auto simp: frees_def)
  have k: "?c < UHEAP_CLASSES" by (rule free_cls [OF c(1) s])
  have "same_outside (link_bytes ?F) h (list_insert b h)" by (rule list_insert_same [OF c(2) sp k])
  from links_frame [OF c(1,3) this]
  have l: "laid (list_insert b h) bs" and q: "calm (in_use 0 bs) h (list_insert b h)" by simp_all
  show "calm (in_use 0 bs) h (list_insert b h)" by (rule q)
  have "listed (L(?c := b # L ?c)) = ?F" using k by (auto simp: listed_def split: if_splits)
  then show "\<exists>L'. core (list_insert b h) bs L' \<and> listed L' = ?F"
    using linked_insert [OF c(2) sp assms(3) refl k] l c(3) by (intro exI [of _ "L(?c := b # L ?c)"]) (simp add: core_def)
qed

lemma core_remove:
  assumes "core h bs L" and "b \<in> listed L"
  shows "\<exists>L'. core (list_remove b h) bs L' \<and> listed L' = listed L - {b}" "calm (in_use 0 bs) h (list_remove b h)"
proof -
  let ?c = "cls (bsize h b)"
  have c: "laid h bs" "linked h L" "listed L \<subseteq> frees 0 bs" using assms by (simp_all add: core_def)
  have sp: "spaced (listed L)" using laid_spaced [OF c(1)] c(3) by (rule spaced_subset)
  note r = linked_remove [OF c(2) sp assms(2) refl]
  from links_frame [OF c(1,3) r(2)]
  have l: "laid (list_remove b h) bs" and q: "calm (in_use 0 bs) h (list_remove b h)" by simp_all
  show "calm (in_use 0 bs) h (list_remove b h)" by (rule q)
  have "set (remove1 b (L ?c)) = set (L ?c) - {b}" if "?c < UHEAP_CLASSES"
    using linkedD [OF c(2) that] by (simp add: set_remove1_eq)
  moreover have "b \<notin> set (L d)" if "d < UHEAP_CLASSES" "d \<noteq> ?c" for d
    using linkedD [OF c(2) that(1)] that(2) by auto
  ultimately have "listed (L(?c := remove1 b (L ?c))) = listed L - {b}" by (auto simp: listed_def split: if_splits)
  then show "\<exists>L'. core (list_remove b h) bs L' \<and> listed L' = listed L - {b}"
    using r(1) l c(3) by (intro exI [of _ "L(?c := remove1 b (L ?c))"]) (auto simp: core_def)
qed

lemma linked_cong:
  assumes "linked h L" and "uh_free_head h' = uh_free_head h"
    and "\<And>x. x \<in> listed L \<Longrightarrow> rd h' (at_size x) = rd h (at_size x) \<and> rd h' (at_next x) = rd h (at_next x) \<and> rd h' (at_prevfree x) = rd h (at_prevfree x)"
  shows "linked h' L"
proof -
  have "dll h' (free_head h' c) 0 (L c) \<and> distinct (L c) \<and> (\<forall>b \<in> set (L c). cls (bsize h' b) = c)" if c: "c < UHEAP_CLASSES" for c
  proof -
    have l: "x \<in> listed L" if "x \<in> set (L c)" for x using c that by (rule listedI)
    have "dll h' (free_head h c) 0 (L c) = dll h (free_head h c) 0 (L c)" by (rule dll_cong) (use l assms(3) in blast)
    moreover have "bsize h' x = bsize h x" if "x \<in> set (L c)" for x using assms(3) [OF l [OF that]] by (simp add: bsize_def)
    ultimately show ?thesis using linkedD [OF assms(1) c] assms(2) by (simp add: free_head_def)
  qed
  then show ?thesis using assms(1,2) by (simp add: linked_def)
qed

section \<open>Edits of the headers\<close>

text \<open>
  A stretch of blocks off the lists is rewritten: the words changed lie in the stretch or are the \<open>prev\<close>
  field behind it.
\<close>

lemma not_four: "8 dvd (y :: nat) \<Longrightarrow> 8 dvd e \<Longrightarrow> y \<noteq> e + 4" "8 dvd (y :: nat) \<Longrightarrow> 8 dvd e \<Longrightarrow> y + 8 \<noteq> e + 4"
  by presburger+

lemma core_edit:
  assumes "core h (as @ old @ cs) L" and "sized new" and "spans new = spans old" and "new \<noteq> []" and "old \<noteq> []"
    and same: "\<And>x. 4 dvd x \<Longrightarrow> x \<notin> A \<Longrightarrow> rd h' x = rd h x"
    and within: "\<And>x. x \<in> A \<Longrightarrow> spans as \<le> x \<and> x < spans as + spans old \<or> x = at_prev (spans as + spans old)"
    and off_list: "listed L \<inter> starts (spans as) old = {}"
    and new: "hseg h' (spans as) (prior_size 0 as) new" "rd h' (at_prev (spans as + spans old)) = prior_size 0 new"
    and fields: "uh_size h' = uh_size h" "uh_free_head h' = uh_free_head h"
    and bytes: "same_outside {spans as..<spans as + spans old + 8} h h'"
  shows "core h' (as @ new @ cs) L \<and> calm (in_use 0 as \<union> in_use (spans as + spans old) cs) h h'"
proof -
  have l: "laid h (as @ old @ cs)" and lk: "linked h L" and sub: "listed L \<subseteq> frees 0 (as @ old @ cs)" using assms(1) by (simp_all add: core_def)
  define e where "e = spans as + spans old"
  have sz: "sized as" "sized old" "sized cs" using l by (simp_all add: laid_def)
  have e: "spans as + 16 \<le> e" using sz(2) assms(5) by (cases old) (auto simp: e_def)
  have b8: "8 dvd spans as" "8 dvd e" using spans_dvd [OF sz(1)] spans_dvd [OF sz(2)] by (simp_all add: e_def)
  have fa: "frees 0 as \<subseteq> {x. x + 16 \<le> spans as}" and fc: "frees e cs \<subseteq> {x. e \<le> x}"
    using starts_bounds [OF sz(1), of _ 0] starts_bounds [OF sz(3), of _ e] frees_starts by fastforce+
  have lst: "listed L \<subseteq> frees 0 as \<union> frees e cs"
    using sub off_list frees_starts [of _ "spans as" old] by (auto simp: e_def add.assoc)
  have keep: "rd h' x = rd h x" if "4 dvd x" "x < spans as \<or> e \<le> x" "x \<noteq> at_prev e" for x
  proof (rule same [OF that(1)])
    show "x \<notin> A" using within [of x] that(2,3) by (auto simp: e_def)
  qed
  have al: "4 dvd at_size y" "4 dvd at_prev y" "4 dvd at_next y" "4 dvd at_prevfree y" if "8 dvd y" for y by (rule at_words [OF that])+
  have d8: "8 dvd y" if y: "y \<in> starts k xs" "sized xs" "8 dvd k" for y k xs
  proof -
    obtain s u where "(y, s, u) \<in> set (placed k xs)" using y(1) by (auto simp: starts_def)
    then have "8 dvd y - k" "k \<le> y" using placed_bounds [OF y(2)] by blast+
    then have "8 dvd (y - k) + k" using y(3) by (intro dvd_add)
    then show ?thesis using \<open>k \<le> y\<close> by simp
  qed
  have "laid h' (as @ new @ cs)"
  proof (rule laid_change [OF l assms(2,3,4) fields(1) _ new(1) _ new(2)])
    fix y
    assume y: "y \<in> starts 0 as" "y + 16 \<le> spans as"
    have "8 dvd y" using d8 [OF y(1) sz(1)] by simp
    then show "rd h' (at_size y) = rd h (at_size y) \<and> rd h' (at_prev y) = rd h (at_prev y)"
      using keep [OF al(1)] keep [OF al(2)] y(2) e by (simp add: at_size_def at_prev_def)
  next
    fix y
    assume y: "y \<in> starts (spans as + spans old) (cs @ [(0, True)])" "spans as + spans old \<le> y"
    have "8 dvd e + spans cs" using spans_dvd [OF sz(3)] b8(2) by (intro dvd_add)
    then have "8 dvd y" using d8 [OF _ sz(3) b8(2), of y] y(1) by (auto simp: e_def)
    then have "rd h' (at_size y) = rd h (at_size y)" "e + 16 \<le> y \<Longrightarrow> rd h' (at_prev y) = rd h (at_prev y)"
      using keep [OF al(1)] keep [OF al(2)] y(2) not_four(1) [OF _ b8(2), of y] by (simp_all add: at_size_def at_prev_def e_def)
    then show "rd h' (at_size y) = rd h (at_size y) \<and> (spans as + spans old + 16 \<le> y \<longrightarrow> rd h' (at_prev y) = rd h (at_prev y))"
      by (simp add: e_def)
  qed
  moreover have "linked h' L"
  proof (rule linked_cong [OF lk fields(2)])
    fix x
    assume x: "x \<in> listed L"
    have x8: "8 dvd x" using x sub laid_spaced [OF l] spacedD by blast
    have "x \<in> frees 0 as \<or> x \<in> frees e cs" using x lst by blast
    then have "x + 16 \<le> spans as \<or> e \<le> x" using fa fc by blast
    then have "at_size x < spans as \<or> e \<le> at_size x" "at_next x < spans as \<or> e \<le> at_next x" "at_prevfree x < spans as \<or> e \<le> at_prevfree x"
      by (auto simp: at_size_def at_next_def at_prevfree_def HDR_def)
    moreover have "at_size x \<noteq> at_prev e" "at_next x \<noteq> at_prev e" "at_prevfree x \<noteq> at_prev e"
    proof -
      show "at_size x \<noteq> at_prev e" "at_next x \<noteq> at_prev e"
        using not_four [OF x8 b8(2)] by (simp_all add: at_size_def at_next_def at_prev_def HDR_def)
      have "x + 8 \<noteq> e" using \<open>x + 16 \<le> spans as \<or> e \<le> x\<close> e by auto
      then show "at_prevfree x \<noteq> at_prev e" by (simp add: at_prevfree_def at_prev_def HDR_def)
    qed
    ultimately show "rd h' (at_size x) = rd h (at_size x) \<and> rd h' (at_next x) = rd h (at_next x) \<and> rd h' (at_prevfree x) = rd h (at_prevfree x)"
      using keep al [OF x8] by simp
  qed
  moreover have "listed L \<subseteq> frees 0 (as @ new @ cs)" using lst assms(3) by (auto simp: e_def add.assoc)
  ultimately have ok: "core h' (as @ new @ cs) L" by (simp add: core_def)
  have "calm (in_use 0 as \<union> in_use (spans as + spans old) cs) h h'"
    unfolding calm_def
  proof (clarify)
    fix b s y
    assume u: "(b, s) \<in> in_use 0 as \<union> in_use (spans as + spans old) cs" and y: "b + HDR \<le> y" "y < b + s"
    have "y \<notin> {spans as..<e + 8}"
      using u y placed_bounds [OF sz(1), of b s True 0] placed_bounds [OF sz(3), of b s True e] by (auto simp: in_use_def HDR_def e_def)
    then show "uh_mem h' y = uh_mem h y" using bytes by (intro same_outsideD) (auto simp: e_def)
  qed
  with ok show ?thesis by blast
qed

lemma sub32_le: "b \<le> a \<Longrightarrow> a < 4294967296 \<Longrightarrow> sub32 a b = a - b"
proof -
  assume a: "b \<le> a" "a < 4294967296"
  then have "a + 4294967296 - b = (a - b) + 4294967296" by simp
  then have "(a + 4294967296 - b) mod 4294967296 = (a - b + 4294967296) mod 4294967296" by (rule arg_cong)
  also have "\<dots> = (a - b) mod 4294967296" by (rule mod_add_self2)
  also have "\<dots> = a - b" using a(2) by (intro mod_less) linarith
  finally show ?thesis by (simp add: sub32_def wrap32_def)
qed

lemma set_fields [simp]:
  "uh_size (set_size b v h) = uh_size h" "uh_free_head (set_size b v h) = uh_free_head h" "uh_used_bytes (set_size b v h) = uh_used_bytes h"
  "uh_used_blocks (set_size b v h) = uh_used_blocks h" "uh_high_water (set_size b v h) = uh_high_water h" "uh_fail_count (set_size b v h) = uh_fail_count h"
  "uh_size (set_prev b v h) = uh_size h" "uh_free_head (set_prev b v h) = uh_free_head h" "uh_used_bytes (set_prev b v h) = uh_used_bytes h"
  "uh_used_blocks (set_prev b v h) = uh_used_blocks h" "uh_high_water (set_prev b v h) = uh_high_water h" "uh_fail_count (set_prev b v h) = uh_fail_count h"
  by (simp_all add: set_size_def set_prev_def)

lemma split_tail_fields [simp]:
  "uh_size (split_tail b s w h) = uh_size h" "uh_free_head (split_tail b s w h) = uh_free_head h" "uh_used_bytes (split_tail b s w h) = uh_used_bytes h"
  "uh_used_blocks (split_tail b s w h) = uh_used_blocks h" "uh_high_water (split_tail b s w h) = uh_high_water h" "uh_fail_count (split_tail b s w h) = uh_fail_count h"
  by (simp_all add: split_tail_def Let_def)

lemma set_size_words: "8 dvd b \<Longrightarrow> 4 dvd x \<Longrightarrow> v < 4294967296 \<Longrightarrow> rd (set_size b v h) x = (if x = b then v else rd h x)"
  using at_words [of b] by (simp add: set_size_def rd_wr wrap32_def at_size_def)

lemma set_prev_words: "8 dvd b \<Longrightarrow> 4 dvd x \<Longrightarrow> v < 4294967296 \<Longrightarrow> rd (set_prev b v h) x = (if x = b + 4 then v else rd h x)"
  using at_words [of b] by (simp add: set_prev_def rd_wr wrap32_def at_prev_def)

lemma bsize_even: "8 dvd s \<Longrightarrow> rd h b = s + of_bool u \<Longrightarrow> bsize h b = s \<and> bused h b = u"
  by (auto simp: bsize_def bused_def at_size_def elim!: dvdE)

lemma hseg_head: "hseg h off p (cs @ [x]) \<Longrightarrow> rd h (at_prev off) = p"
  by (cases cs; cases x) auto

lemma core_at:
  assumes "core h (as @ (s, u) # cs) L"
  shows "8 dvd spans as" "8 dvd s" "16 \<le> s" "bsize h (spans as) = s" "bused h (spans as) = u" "spans as + s + 8 \<le> uh_size h" "uh_size h < 4294967296"
    and "rd h (at_prev (spans as)) = prior_size 0 as" "rd h (at_prev (spans as + s)) = s" "rd h (spans as) = s + of_bool u"
proof -
  have l: "laid h (as @ (s, u) # cs)" using assms by (simp add: core_def)
  have p: "(spans as, s, u) \<in> set (placed 0 (as @ (s, u) # cs))" by simp
  show "8 dvd spans as" "8 dvd s" "16 \<le> s" "bsize h (spans as) = s" "bused h (spans as) = u" "spans as + s + 8 \<le> uh_size h" "uh_size h < 4294967296"
    using laid_bounds [OF l p] laid_header [OF l p] l by (simp_all add: laid_def)
  show "rd h (at_prev (spans as)) = prior_size 0 as" "rd h (at_prev (spans as + s)) = s" "rd h (spans as) = s + of_bool u"
    using l hseg_head [of h "spans as + s" s cs "(0, True)"] by (simp_all add: laid_def hseg_append at_size_def)
qed

lemma same_outside_set:
  "{b..<b + 4} \<subseteq> S \<Longrightarrow> same_outside S h h1 \<Longrightarrow> same_outside S h (set_size b v h1)"
  "{b + 4..<b + 8} \<subseteq> S \<Longrightarrow> same_outside S h h1 \<Longrightarrow> same_outside S h (set_prev b v h1)"
proof -
  have t: "same_outside S h h1 \<Longrightarrow> same_outside S h1 h2 \<Longrightarrow> same_outside S h h2" for h2 by (erule (1) same_outside_trans) blast
  show "{b..<b + 4} \<subseteq> S \<Longrightarrow> same_outside S h h1 \<Longrightarrow> same_outside S h (set_size b v h1)"
    unfolding set_size_def at_size_def by (erule t) (rule same_outside_wr, simp)
  show "{b + 4..<b + 8} \<subseteq> S \<Longrightarrow> same_outside S h h1 \<Longrightarrow> same_outside S h (set_prev b v h1)"
    unfolding set_prev_def at_prev_def by (erule t) (rule same_outside_wr, simp add: add.assoc)
qed

lemma core_mark:
  assumes "core h (as @ (s, u) # cs) L" and "spans as \<notin> listed L"
  shows "core (set_size (spans as) (s + of_bool v) h) (as @ (s, v) # cs) L"
    and "calm (in_use 0 as \<union> in_use (spans as + s) cs) h (set_size (spans as) (s + of_bool v) h)"
proof -
  let ?b = "spans as" and ?h = "set_size (spans as) (s + of_bool v) h"
  note c = core_at [OF assms(1)]
  have lt: "s + of_bool v < 4294967296" using c(6,7) by (cases v) simp_all
  have w: "rd ?h x = (if x = ?b then s + of_bool v else rd h x)" if "4 dvd x" for x by (rule set_size_words [OF c(1) that lt])
  have e8: "8 dvd ?b + s" using c(1,2) by (rule dvd_add)
  have 1: "core h (as @ [(s, u)] @ cs) L" using assms(1) by simp
  have "core ?h (as @ [(s, v)] @ cs) L \<and> calm (in_use 0 as \<union> in_use (?b + spans [(s, u)]) cs) h ?h"
  proof (rule core_edit [OF 1, where A = "{?b}"]; (simp add: c(2,3); fail)?)
    show "rd ?h x = rd h x" if "4 dvd x" "x \<notin> {?b}" for x using w [OF that(1)] that(2) by simp
    show "?b \<le> x \<and> x < ?b + spans [(s, u)] \<or> x = at_prev (?b + spans [(s, u)])" if "x \<in> {?b}" for x using that c(3) by simp
    show "listed L \<inter> starts ?b [(s, u)] = {}" using assms(2) by simp
    show "hseg ?h ?b (prior_size 0 as) [(s, v)]" using w [OF at_words(1) [OF c(1)]] w [OF at_words(2) [OF c(1)]] c(8) by (simp add: at_size_def at_prev_def)
    show "rd ?h (at_prev (?b + spans [(s, u)])) = prior_size 0 [(s, v)]"
      using w [OF at_words(2) [OF e8]] c(3,9) by (simp add: at_prev_def)
    show "same_outside {?b..<?b + spans [(s, u)] + 8} h ?h" using c(3) by (intro same_outside_set) auto
  qed
  then show "core ?h (as @ (s, v) # cs) L" "calm (in_use 0 as \<union> in_use (?b + s) cs) h ?h" by simp_all
qed

text \<open>The tail beyond \<open>w\<close> bytes of a free block off the lists becomes a block of its own.\<close>

lemma split_tail_words:
  assumes "8 dvd b" and "8 dvd w" and "8 dvd s" and "w + 8 \<le> s" and "b + s + 8 < 4294967296" and "4 dvd x"
  shows "rd (split_tail b s w h) x = (if x = b + s + 4 then s - w else if x = b + w then s - w else if x = b + w + 4 then w else rd h x)"
proof -
  have d: "8 dvd b + w" "8 dvd s - w" "8 dvd b + s" using assms(1-3) by (simp_all add: dvd_diff_nat)
  have sub: "sub32 s w = s - w" using assms(4,5) by (simp add: sub32_le)
  let ?h1 = "set_prev (b + w) w (set_size (b + w) (sub32 s w) h)"
  have lt: "w < 4294967296" "s - w < 4294967296" using assms(4,5) by simp_all
  have "rd ?h1 (b + w) = s - w" using set_prev_words [OF d(1)] set_size_words [OF d(1)] at_words(1) [OF d(1)] lt sub by (simp add: at_size_def)
  then have sz: "bsize ?h1 (b + w) = s - w" using bsize_even [OF d(2), of ?h1 "b + w" False] by simp
  then have "split_tail b s w h = set_prev (b + s) (s - w) ?h1" using assms(4) by (simp add: split_tail_def Let_def next_blk_def)
  then have 1: "rd (split_tail b s w h) x = (if x = b + s + 4 then s - w else rd ?h1 x)"
    using set_prev_words [OF d(3) assms(6) lt(2)] by (simp only:)
  have 2: "rd ?h1 x = (if x = b + w + 4 then w else if x = b + w then s - w else rd h x)"
    unfolding sub set_prev_words [OF d(1) assms(6) lt(1)] set_size_words [OF d(1) assms(6) lt(2)] by (rule refl)
  show ?thesis unfolding 1 2 by simp
qed

lemma split_tail_bytes:
  assumes "8 dvd b" and "8 dvd w" and "8 dvd s" and "w + 8 \<le> s" and "b + s + 8 < 4294967296"
  shows "same_outside ({b + w..<b + w + 8} \<union> {b + s..<b + s + 8}) h (split_tail b s w h)"
proof -
  have d: "8 dvd b + w" "8 dvd s - w" using assms(1-3) by (simp_all add: dvd_diff_nat)
  have sub: "sub32 s w = s - w" using assms(4,5) by (simp add: sub32_le)
  let ?h1 = "set_prev (b + w) w (set_size (b + w) (sub32 s w) h)"
  have lt: "w < 4294967296" "s - w < 4294967296" using assms(4,5) by simp_all
  have "rd ?h1 (b + w) = s - w" using set_prev_words [OF d(1)] set_size_words [OF d(1)] at_words(1) [OF d(1)] lt sub by (simp add: at_size_def)
  then have "bsize ?h1 (b + w) = s - w" using bsize_even [OF d(2), of ?h1 "b + w" False] by simp
  then have "split_tail b s w h = set_prev (b + s) (s - w) ?h1" using assms(4) by (simp add: split_tail_def Let_def next_blk_def)
  then show ?thesis by (auto intro!: same_outside_set)
qed

lemma core_split:
  assumes "core h (as @ (s, False) # cs) L" and "spans as \<notin> listed L" and "8 dvd w" and "16 \<le> w" and "w + 16 \<le> s"
  defines "h' \<equiv> set_size (spans as) w (split_tail (spans as) s w h)"
  shows "core h' (as @ (w, False) # (s - w, False) # cs) L" and "calm (in_use 0 as \<union> in_use (spans as + s) cs) h h'"
proof -
  let ?b = "spans as"
  note c = core_at [OF assms(1)]
  have top: "?b + s + 8 < 4294967296" "w < 4294967296" "w + 8 \<le> s" using c(6,7) assms(5) by simp_all
  have d: "8 dvd ?b + w" "8 dvd s - w" "8 dvd ?b + s" using c(1,2) assms(3) by (simp_all add: dvd_diff_nat)
  note sw = split_tail_words [OF c(1) assms(3) c(2) top(3) top(1)]
  have w: "rd h' x = (if x = ?b then w else if x = ?b + s + 4 then s - w else if x = ?b + w then s - w else if x = ?b + w + 4 then w else rd h x)"
    if "4 dvd x" for x
    using set_size_words [OF c(1) that top(2)] sw [OF that] by (simp add: h'_def)
  have 1: "core h (as @ [(s, False)] @ cs) L" using assms(1) by simp
  let ?A = "{?b, ?b + s + 4, ?b + w, ?b + w + 4}"
  have "core h' (as @ [(w, False), (s - w, False)] @ cs) L \<and> calm (in_use 0 as \<union> in_use (?b + spans [(s, False)]) cs) h h'"
  proof (rule core_edit [OF 1, where A = ?A]; (simp add: h'_def; fail)?)
    show "sized [(w, False), (s - w, False)]" using assms(3-5) d(2) by simp
    show "spans [(w, False), (s - w, False)] = spans [(s, False)]" using assms(5) by simp
    show "rd h' x = rd h x" if "4 dvd x" "x \<notin> ?A" for x using w [OF that(1)] that(2) by simp
    show "?b \<le> x \<and> x < ?b + spans [(s, False)] \<or> x = at_prev (?b + spans [(s, False)])" if "x \<in> ?A" for x
      using that assms(4,5) by (auto simp: at_prev_def)
    show "listed L \<inter> starts ?b [(s, False)] = {}" using assms(2) by simp
    show "hseg h' ?b (prior_size 0 as) [(w, False), (s - w, False)]"
      using w [OF at_words(1) [OF c(1)]] w [OF at_words(2) [OF c(1)]] w [OF at_words(1) [OF d(1)]] w [OF at_words(2) [OF d(1)]] c(8) assms(4,5)
      by (simp add: at_size_def at_prev_def)
    show "rd h' (at_prev (?b + spans [(s, False)])) = prior_size 0 [(w, False), (s - w, False)]"
      using w [OF at_words(2) [OF d(3)]] assms(4,5) by (simp add: at_prev_def)
    show "same_outside {?b..<?b + spans [(s, False)] + 8} h h'"
      unfolding h'_def using assms(5) by (intro same_outside_set(1) same_outside_mono [OF split_tail_bytes [OF c(1) assms(3) c(2) top(3) top(1)]]) auto
  qed
  then show "core h' (as @ (w, False) # (s - w, False) # cs) L" "calm (in_use 0 as \<union> in_use (?b + s) cs) h h'" by simp_all
qed

text \<open>Two free blocks off the lists become one.\<close>

definition uh_join :: "nat \<Rightarrow> nat \<Rightarrow> uheap \<Rightarrow> uheap" where
  "uh_join b n h = (let h2 = set_size b (bsize h b + bsize h n) h in set_prev (next_blk h2 b) (bsize h2 b) h2)"

lemma core_join:
  assumes "core h (as @ (s, False) # (t, False) # cs) L" and "spans as \<notin> listed L" and "spans as + s \<notin> listed L"
  defines "h' \<equiv> uh_join (spans as) (spans as + s) h"
  shows "core h' (as @ (s + t, False) # cs) L" and "calm (in_use 0 as \<union> in_use (spans as + s + t) cs) h h'"
proof -
  let ?b = "spans as"
  note c = core_at [OF assms(1)]
  have 2: "core h ((as @ [(s, False)]) @ (t, False) # cs) L" using assms(1) by simp
  note n = core_at [OF 2]
  have d: "8 dvd s + t" "8 dvd ?b + (s + t)" using c(1,2) n(2) by (simp_all add: dvd_add)
  have lt: "s + t < 4294967296" using n(6,7) by simp
  let ?h2 = "set_size ?b (s + t) h"
  have "rd ?h2 ?b = s + t" using set_size_words [OF c(1) _ lt, of ?b] at_words(1) [OF c(1)] by (simp add: at_size_def)
  then have "bsize ?h2 ?b = s + t" using bsize_even [OF d(1), of ?h2 ?b False] by simp
  then have h': "h' = set_prev (?b + (s + t)) (s + t) ?h2" using c(4) n(4) by (simp add: h'_def uh_join_def Let_def next_blk_def)
  have w: "rd h' x = (if x = ?b + (s + t) + 4 then s + t else if x = ?b then s + t else rd h x)" if "4 dvd x" for x
    using set_prev_words [OF d(2) that lt] set_size_words [OF c(1) that lt] by (simp add: h')
  have 1: "core h (as @ [(s, False), (t, False)] @ cs) L" using assms(1) by simp
  let ?A = "{?b, ?b + (s + t) + 4}"
  have "core h' (as @ [(s + t, False)] @ cs) L \<and> calm (in_use 0 as \<union> in_use (?b + spans [(s, False), (t, False)]) cs) h h'"
  proof (rule core_edit [OF 1, where A = ?A]; (simp add: h'; fail)?)
    show "sized [(s + t, False)]" using c(2,3) n(2) by simp
    show "rd h' x = rd h x" if "4 dvd x" "x \<notin> ?A" for x using w [OF that(1)] that(2) by simp
    show "?b \<le> x \<and> x < ?b + spans [(s, False), (t, False)] \<or> x = at_prev (?b + spans [(s, False), (t, False)])" if "x \<in> ?A" for x
      using that c(3) by (auto simp: at_prev_def)
    show "listed L \<inter> starts ?b [(s, False), (t, False)] = {}" using assms(2,3) by simp
    show "hseg h' ?b (prior_size 0 as) [(s + t, False)]"
      using w [OF at_words(1) [OF c(1)]] w [OF at_words(2) [OF c(1)]] c(3,8) by (simp add: at_size_def at_prev_def)
    show "rd h' (at_prev (?b + spans [(s, False), (t, False)])) = prior_size 0 [(s + t, False)]"
      using w [OF at_words(2) [OF d(2)]] by (simp add: at_prev_def)
    show "same_outside {?b..<?b + spans [(s, False), (t, False)] + 8} h h'"
      unfolding h' using c(3) by (intro same_outside_set) auto
  qed
  then show "core h' (as @ (s + t, False) # cs) L" "calm (in_use 0 as \<union> in_use (?b + s + t) cs) h h'" by (simp_all add: add.assoc)
qed

text \<open>A used block takes over its free successor, all of it or its first bytes.\<close>

lemma core_grow_all:
  assumes "core h (as @ (s, True) # (t, False) # cs) L" and "spans as \<notin> listed L" and "spans as + s \<notin> listed L"
  defines "h' \<equiv> set_prev (spans as + (s + t)) (s + t) (set_size (spans as) (s + t + USED) h)"
  shows "core h' (as @ (s + t, True) # cs) L" and "calm (in_use 0 as \<union> in_use (spans as + s + t) cs \<union> {(spans as, s)}) h h'"
proof -
  let ?b = "spans as"
  note c = core_at [OF assms(1)]
  have 2: "core h ((as @ [(s, True)]) @ (t, False) # cs) L" using assms(1) by simp
  note n = core_at [OF 2]
  have d: "8 dvd ?b + (s + t)" using c(1,2) n(2) by (simp add: dvd_add)
  have lt: "s + t < 4294967296" "s + t + USED < 4294967296" using n(6,7) by (simp_all add: USED_def)
  have w: "rd h' x = (if x = ?b + (s + t) + 4 then s + t else if x = ?b then s + t + 1 else rd h x)" if "4 dvd x" for x
    using set_prev_words [OF d that lt(1)] set_size_words [OF c(1) that lt(2)] by (simp add: h'_def USED_def)
  have 1: "core h (as @ [(s, True), (t, False)] @ cs) L" using assms(1) by simp
  let ?A = "{?b, ?b + (s + t) + 4}"
  have "core h' (as @ [(s + t, True)] @ cs) L \<and> calm (in_use 0 as \<union> in_use (?b + spans [(s, True), (t, False)]) cs) h h'"
  proof (rule core_edit [OF 1, where A = ?A]; (simp add: h'_def; fail)?)
    show "sized [(s + t, True)]" using c(2,3) n(2) by simp
    show "rd h' x = rd h x" if "4 dvd x" "x \<notin> ?A" for x using w [OF that(1)] that(2) by simp
    show "?b \<le> x \<and> x < ?b + spans [(s, True), (t, False)] \<or> x = at_prev (?b + spans [(s, True), (t, False)])" if "x \<in> ?A" for x
      using that c(3) by (auto simp: at_prev_def)
    show "listed L \<inter> starts ?b [(s, True), (t, False)] = {}" using assms(2,3) by simp
    show "hseg h' ?b (prior_size 0 as) [(s + t, True)]"
      using w [OF at_words(1) [OF c(1)]] w [OF at_words(2) [OF c(1)]] c(3,8) by (simp add: at_size_def at_prev_def)
    show "rd h' (at_prev (?b + spans [(s, True), (t, False)])) = prior_size 0 [(s + t, True)]"
      using w [OF at_words(2) [OF d]] by (simp add: at_prev_def)
    show "same_outside {?b..<?b + spans [(s, True), (t, False)] + 8} h h'"
      unfolding h'_def using c(3) by (intro same_outside_set) auto
  qed
  moreover have "same_outside ({?b..<?b + 8} \<union> {?b + (s + t)..<?b + (s + t) + 8}) h h'" unfolding h'_def by (intro same_outside_set) auto
  then have "calm {(?b, s)} h h'" by (auto simp: calm_def same_outside_def HDR_def)
  ultimately show "core h' (as @ (s + t, True) # cs) L" "calm (in_use 0 as \<union> in_use (?b + s + t) cs \<union> {(?b, s)}) h h'"
    by (simp_all add: add.assoc calm_def)
qed

lemma core_grow_split:
  assumes "core h (as @ (s, True) # (t, False) # cs) L" and "spans as \<notin> listed L" and "spans as + s \<notin> listed L"
    and "8 dvd w" and "s < w" and "w + 16 \<le> s + t"
  defines "h' \<equiv> set_prev (spans as + w) w (set_size (spans as) (w + USED) (split_tail (spans as) (s + t) w h))"
  shows "core h' (as @ (w, True) # (s + t - w, False) # cs) L" and "calm (in_use 0 as \<union> in_use (spans as + s + t) cs \<union> {(spans as, s)}) h h'"
proof -
  let ?b = "spans as"
  note c = core_at [OF assms(1)]
  have 2: "core h ((as @ [(s, True)]) @ (t, False) # cs) L" using assms(1) by simp
  note n = core_at [OF 2]
  have d: "8 dvd ?b + (s + t)" "8 dvd ?b + w" "8 dvd s + t" "8 dvd s + t - w" using c(1,2) n(2) assms(4) by (simp_all add: dvd_add dvd_diff_nat)
  have lt: "w < 4294967296" "w + USED < 4294967296" "w + 8 \<le> s + t" "?b + (s + t) + 8 < 4294967296" using n(6,7) assms(6) by (simp_all add: USED_def)
  note sw = split_tail_words [OF c(1) assms(4) d(3) lt(3,4)]
  have w: "rd h' x = (if x = ?b then w + 1 else if x = ?b + (s + t) + 4 then s + t - w else if x = ?b + w then s + t - w
      else if x = ?b + w + 4 then w else rd h x)" if "4 dvd x" for x
  proof -
    have e: "rd h' x = (if x = ?b + w + 4 then w else if x = ?b then w + 1 else rd (split_tail ?b (s + t) w h) x)"
      using set_prev_words [OF d(2) that lt(1)] set_size_words [OF c(1) that lt(2)] by (simp add: h'_def USED_def)
    show ?thesis unfolding e sw [OF that] using assms(6) by auto
  qed
  have 1: "core h (as @ [(s, True), (t, False)] @ cs) L" using assms(1) by simp
  let ?A = "{?b, ?b + (s + t) + 4, ?b + w, ?b + w + 4}"
  have by1: "same_outside ({?b..<?b + 8} \<union> {?b + w..<?b + w + 8} \<union> {?b + (s + t)..<?b + (s + t) + 8}) h h'"
    unfolding h'_def by (intro same_outside_set same_outside_mono [OF split_tail_bytes [OF c(1) assms(4) d(3) lt(3,4)]]) auto
  have "core h' (as @ [(w, True), (s + t - w, False)] @ cs) L \<and> calm (in_use 0 as \<union> in_use (?b + spans [(s, True), (t, False)]) cs) h h'"
  proof (rule core_edit [OF 1, where A = ?A]; (simp add: h'_def; fail)?)
    show "sized [(w, True), (s + t - w, False)]" using c(3) assms(4-6) d(4) by simp
    show "spans [(w, True), (s + t - w, False)] = spans [(s, True), (t, False)]" using assms(6) by simp
    show "rd h' x = rd h x" if "4 dvd x" "x \<notin> ?A" for x using w [OF that(1)] that(2) by simp
    show "?b \<le> x \<and> x < ?b + spans [(s, True), (t, False)] \<or> x = at_prev (?b + spans [(s, True), (t, False)])" if "x \<in> ?A" for x
      using that c(3) assms(5,6) by (auto simp: at_prev_def)
    show "listed L \<inter> starts ?b [(s, True), (t, False)] = {}" using assms(2,3) by simp
    show "hseg h' ?b (prior_size 0 as) [(w, True), (s + t - w, False)]"
      using w [OF at_words(1) [OF c(1)]] w [OF at_words(2) [OF c(1)]] w [OF at_words(1) [OF d(2)]] w [OF at_words(2) [OF d(2)]] c(3,8) assms(5,6)
      by (simp add: at_size_def at_prev_def)
    show "rd h' (at_prev (?b + spans [(s, True), (t, False)])) = prior_size 0 [(w, True), (s + t - w, False)]"
      using w [OF at_words(2) [OF d(1)]] assms(6) by (simp add: at_prev_def)
    show "same_outside {?b..<?b + spans [(s, True), (t, False)] + 8} h h'"
      by (rule same_outside_mono [OF by1]) (use assms(5,6) in auto)
  qed
  moreover have "calm {(?b, s)} h h'" using by1 assms(5,6) by (auto simp: calm_def same_outside_def HDR_def)
  ultimately show "core h' (as @ (w, True) # (s + t - w, False) # cs) L" "calm (in_use 0 as \<union> in_use (?b + s + t) cs \<union> {(?b, s)}) h h'"
    by (simp_all add: add.assoc calm_def)
qed

text \<open>An insertion commutes with a store to a word it does not use.\<close>

lemma wr_commute: "4 dvd a \<Longrightarrow> 4 dvd x \<Longrightarrow> a \<noteq> x \<Longrightarrow> wr a v (wr x w h) = wr x w (wr a v h)"
proof -
  assume "4 dvd a" "4 dvd x" "a \<noteq> x"
  then have "a + 4 \<le> x \<or> x + 4 \<le> a" by (auto elim!: dvdE)
  then have "store32 a u (store32 x z m) = store32 x z (store32 a u m)" for u z m by (auto simp: store32_def fun_eq_iff)
  then show ?thesis by (simp add: wr_def)
qed

lemma wr_set_head: "wr a v (set_head c x h) = set_head c x (wr a v h)"
  by (simp add: wr_def set_head_def)

lemma list_insert_wr:
  assumes "8 dvd b" and "4 dvd a" and "a \<noteq> at_size b" and "a \<noteq> at_next b" and "a \<noteq> at_prevfree b"
    and "free_head h (cls (bsize h b)) \<noteq> 0 \<Longrightarrow> 8 dvd free_head h (cls (bsize h b)) - 1 \<and> a \<noteq> at_prevfree (free_head h (cls (bsize h b)) - 1)"
  shows "list_insert b (wr a v h) = wr a v (list_insert b h)"
proof -
  have "bsize (wr a v h) b = bsize h b" using assms(2,3) at_words(1) [OF assms(1)] by (simp add: bsize_def rd_wr)
  then show ?thesis
    using assms at_words [OF assms(1)] at_words(4) [of "free_head h (cls (bsize h b)) - 1"]
    by (auto simp: list_insert_def Let_def wr_set_head wr_commute [of a])
qed

end
