(* ===== verification/Uheap_Ops.thy ===== *)
theory Uheap_Ops
  imports Uheap_Blocks
begin

text \<open>
  Each entry of the heap on a well-formed arena: it returns, keeps the arena well formed, and changes the
  set of blocks in use as it says, no byte of the other blocks' payload being touched.
\<close>

section \<open>A well-formed heap\<close>

definition payload_total :: "block_list \<Rightarrow> nat" where
  "payload_total bs = sum_list (map (\<lambda>(s, u). if u then s - HDR else 0) bs)"

definition blocks_used :: "block_list \<Rightarrow> nat" where
  "blocks_used bs = length (filter snd bs)"

text \<open>No two free blocks are neighbours.\<close>

definition coalesced :: "block_list \<Rightarrow> bool" where
  "coalesced bs \<longleftrightarrow> successively (\<lambda>x y. snd x \<or> snd y) bs"

lemma payload_total_simps [simp]: "payload_total [] = 0" "payload_total ((s, u) # bs) = (if u then s - 8 else 0) + payload_total bs"
  "payload_total (as @ bs) = payload_total as + payload_total bs"
  by (simp_all add: payload_total_def HDR_def)

lemma blocks_used_simps [simp]: "blocks_used [] = 0" "blocks_used ((s, u) # bs) = of_bool u + blocks_used bs"
  "blocks_used (as @ bs) = blocks_used as + blocks_used bs"
  by (simp_all add: blocks_used_def)

lemma coalesced_simps [simp]: "coalesced []" "coalesced ((s, True) # bs) \<longleftrightarrow> coalesced bs"
  "coalesced ((s, False) # bs) \<longleftrightarrow> coalesced bs \<and> (bs = [] \<or> snd (hd bs))"
  "coalesced (as @ bs) \<longleftrightarrow> coalesced as \<and> coalesced bs \<and> (as = [] \<or> bs = [] \<or> snd (last as) \<or> snd (hd bs))"
  by (auto simp: coalesced_def successively_append_iff successively_Cons)

definition heap_ok :: "uheap \<Rightarrow> block_list \<Rightarrow> bool" where
  "heap_ok h bs \<longleftrightarrow>
     (\<exists>L. core h bs L \<and> listed L = frees 0 bs) \<and> coalesced bs \<and> uh_used_blocks h = blocks_used bs \<and> uh_used_bytes h = payload_total bs"

lemma payload_total_le: "sized bs \<Longrightarrow> payload_total bs \<le> spans bs"
  by (induction bs) auto

lemma blocks_used_le: "sized bs \<Longrightarrow> blocks_used bs \<le> spans bs"
  by (induction bs) auto

lemma not_free_start:
  assumes "sized (as @ (s, u) # cs)"
  shows "spans as \<notin> frees 0 as" "spans as \<notin> frees (spans as + s) cs"
  using assms starts_bounds [of as "spans as" 0] starts_bounds [of cs "spans as" "spans as + s"] frees_starts [of "spans as"] by auto

text \<open>Memory-preserving updates of the counters.\<close>

lemma core_counters: "core h bs L \<Longrightarrow> uh_mem h' = uh_mem h \<Longrightarrow> uh_size h' = uh_size h \<Longrightarrow> uh_free_head h' = uh_free_head h \<Longrightarrow> core h' bs L"
proof -
  assume a: "core h bs L" "uh_mem h' = uh_mem h" "uh_size h' = uh_size h" "uh_free_head h' = uh_free_head h"
  have r: "rd h' x = rd h x" for x using a(2) by (simp add: rd_def)
  have "laid h' bs" by (rule laid_same [where h = h]) (use a(1,3) in \<open>simp_all add: core_def r\<close>)
  moreover have "linked h' L" by (rule linked_cong [where h = h]) (use a(1,4) in \<open>simp_all add: core_def r\<close>)
  ultimately show ?thesis using a(1) by (simp add: core_def)
qed

section \<open>Finding a block\<close>

lemma scan_class_list: "dll h lnk p xs \<Longrightarrow> scan_class h want lnk = Some (find (\<lambda>b. want \<le> bsize h b) xs)"
proof (induction xs arbitrary: lnk p)
  case Nil
  then show ?case by (simp add: scan_class.simps)
next
  case (Cons x xs)
  then show ?case by (subst scan_class.simps) auto
qed

lemma find_fit_list:
  assumes "linked h L" and "cls want < UHEAP_CLASSES"
  shows "find_fit h want = Some (case find (\<lambda>b. want \<le> bsize h b) (L (cls want)) of
      Some b \<Rightarrow> Some b | None \<Rightarrow> map_option (\<lambda>c. hd (L c)) (find (\<lambda>c. L c \<noteq> []) [cls want + 1..<UHEAP_CLASSES]))"
proof -
  have s: "scan_class h want (free_head h (cls want)) = Some (find (\<lambda>b. want \<le> bsize h b) (L (cls want)))"
    using linkedD [OF assms] by (intro scan_class_list [where p = 0]) simp
  have h: "free_head h c = (case L c of [] \<Rightarrow> 0 | x # _ \<Rightarrow> x + 1)" if "c \<in> set [cls want + 1..<UHEAP_CLASSES]" for c
    using head_listed [OF assms(1)] that by simp
  have "find (\<lambda>c. free_head h c \<noteq> 0) cs = find (\<lambda>c. L c \<noteq> []) cs" if "set cs \<subseteq> set [cls want + 1..<UHEAP_CLASSES]" for cs
    using that by (induction cs) (auto simp: h split: list.splits)
  then have f: "find (\<lambda>c. free_head h c \<noteq> 0) [cls want + 1..<UHEAP_CLASSES] = find (\<lambda>c. L c \<noteq> []) [cls want + 1..<UHEAP_CLASSES]" by simp
  have "map_option (\<lambda>c. free_head h c - 1) (find (\<lambda>c. L c \<noteq> []) [cls want + 1..<UHEAP_CLASSES]) =
      map_option (\<lambda>c. hd (L c)) (find (\<lambda>c. L c \<noteq> []) [cls want + 1..<UHEAP_CLASSES])"
  proof (rule option.map_cong0)
    fix c
    assume "c \<in> set_option (find (\<lambda>c. L c \<noteq> []) [cls want + 1..<UHEAP_CLASSES])"
    then have "L c \<noteq> []" "c \<in> set [cls want + 1..<UHEAP_CLASSES]" by (auto simp: find_Some_iff)
    then show "free_head h c - 1 = hd (L c)" using h by (cases "L c") auto
  qed
  then show ?thesis unfolding find_fit_def s using f by (simp split: option.splits)
qed

lemma find_fit_spec:
  assumes "core h bs L" and "0 < want" and "want < 4294967296"
  obtains b where "find_fit h want = Some (Some b)" "b \<in> listed L" "want \<le> bsize h b"
  | "find_fit h want = Some None" "\<And>b. b \<in> listed L \<Longrightarrow> bsize h b < want"
proof -
  have lk: "linked h L" and l: "laid h bs" and sub: "listed L \<subseteq> frees 0 bs" using assms(1) by (simp_all add: core_def)
  have k: "cls want < UHEAP_CLASSES" using cls_less_32 [OF assms(2,3)] by (simp add: UHEAP_CLASSES_def)
  have pos: "0 < bsize h b" if "b \<in> listed L" for b
  proof -
    have "b \<in> frees 0 bs" using that sub by blast
    then obtain s where "(b, s, False) \<in> set (placed 0 bs)" by (auto simp: frees_def)
    then show ?thesis using laid_header(1) [OF l] laid_bounds(2) [OF l] by fastforce
  qed
  have above: "want \<le> bsize h b" if "c < UHEAP_CLASSES" "cls want < c" "b \<in> set (L c)" for b c
  proof -
    have "cls (bsize h b) = c" "b \<in> listed L" using linkedD [OF lk that(1)] that(3) listedI [OF that(1)] by auto
    then show ?thesis using cls_mono_size [OF assms(2) pos [of b]] that(2) by simp
  qed
  have below: "bsize h b < want" if "c < UHEAP_CLASSES" "c < cls want" "b \<in> set (L c)" for b c
  proof -
    have "cls (bsize h b) = c" "b \<in> listed L" using linkedD [OF lk that(1)] that(3) listedI [OF that(1)] by auto
    then show ?thesis using cls_mono_size [OF pos [of b] assms(2)] that(2) by simp
  qed
  note f = find_fit_list [OF lk k]
  show ?thesis
  proof (cases "find (\<lambda>b. want \<le> bsize h b) (L (cls want))")
    case (Some b)
    then have "b \<in> set (L (cls want))" "want \<le> bsize h b" by (auto simp: find_Some_iff)
    then show ?thesis using that(1) [of b] f Some listedI [OF k] by simp
  next
    case none: None
    show ?thesis
    proof (cases "find (\<lambda>c. L c \<noteq> []) [cls want + 1..<UHEAP_CLASSES]")
      case (Some c)
      then have c: "L c \<noteq> []" "c \<in> set [cls want + 1..<UHEAP_CLASSES]" by (auto simp: find_Some_iff)
      then have "hd (L c) \<in> set (L c)" "cls want < c" "c < UHEAP_CLASSES" by auto
      then show ?thesis using that(1) [of "hd (L c)"] f none Some listedI [of c "hd (L c)" L] above by simp
    next
      case None
      have "bsize h b < want" if "b \<in> listed L" for b
      proof -
        obtain c where c: "c < UHEAP_CLASSES" "b \<in> set (L c)" using \<open>b \<in> listed L\<close> by (auto simp: listed_def)
        have "c = cls want \<Longrightarrow> bsize h b < want" using none c(2) by (auto simp: find_None_iff)
        moreover have "\<not> cls want < c" using None c by (auto simp: find_None_iff)
        ultimately show ?thesis using below [OF c(1) _ c(2)] by (cases c "cls want" rule: linorder_cases) auto
      qed
      then show ?thesis using that(2) f none None by simp
    qed
  qed
qed

section \<open>Allocation\<close>

lemma need_props: "8 dvd need n" "16 \<le> need n" "need n < 4294967296" "n \<le> 0xFFFFFFF0 \<Longrightarrow> n + 8 \<le> need n"
proof -
  define t where "t = 8 * (wrap32 (n + HDR + 7) div 8)"
  have n: "need n = (if t < 16 then 16 else t)" by (simp add: need_def t_def Let_def MIN_BLOCK_def)
  have "wrap32 (n + HDR + 7) < 4294967296" by (simp add: wrap32_def)
  then have "8 * (wrap32 (n + HDR + 7) div 8) < 4294967296" using times_div_less_eq_dividend [of 8 "wrap32 (n + HDR + 7)"] by (rule le_less_trans [rotated])
  then have t: "8 dvd t" "t < 4294967296" by (simp_all add: t_def)
  show "8 dvd need n" "16 \<le> need n" "need n < 4294967296" using n t by auto
  show "n \<le> 0xFFFFFFF0 \<Longrightarrow> n + 8 \<le> need n"
  proof -
    assume "n \<le> 0xFFFFFFF0"
    then have "wrap32 (n + HDR + 7) = n + 15" by (simp add: wrap32_def HDR_def)
    then have "t = 8 * ((n + 15) div 8)" by (simp add: t_def)
    then show ?thesis using n by (auto split: if_splits)
  qed
qed

definition take_block :: "nat \<Rightarrow> uheap \<Rightarrow> uheap" where
  "take_block b h =
     (let h3 = set_size b (bsize h b + USED) h;
          h4 = h3\<lparr>uh_used_bytes := wrap32 (uh_used_bytes h3 + sub32 (bsize h3 b) HDR), uh_used_blocks := wrap32 (uh_used_blocks h3 + 1)\<rparr>
      in note_use h4)"

lemma note_use_fields [simp]:
  "uh_mem (note_use h) = uh_mem h" "uh_size (note_use h) = uh_size h" "uh_free_head (note_use h) = uh_free_head h"
  "uh_used_bytes (note_use h) = uh_used_bytes h" "uh_used_blocks (note_use h) = uh_used_blocks h"
  by (simp_all add: note_use_def)

lemma take_block_ok:
  assumes "core h (as @ (w, False) # cs) L" and "listed L = frees 0 as \<union> frees (spans as + w) cs" and "coalesced as" and "coalesced cs"
    and "uh_used_blocks h = blocks_used as + blocks_used cs" and "uh_used_bytes h = payload_total as + payload_total cs"
  shows "heap_ok (take_block (spans as) h) (as @ (w, True) # cs)" "calm (in_use 0 as \<union> in_use (spans as + w) cs) h (take_block (spans as) h)"
    and "uh_size (take_block (spans as) h) = uh_size h"
proof -
  let ?b = "spans as"
  have sz: "sized (as @ (w, False) # cs)" "spans as + w + spans cs + 8 = uh_size h" "uh_size h < 4294967296"
    using assms(1) by (simp_all add: core_def laid_def HDR_def)
  have nb: "?b \<notin> listed L" using not_free_start [OF sz(1)] assms(2) by simp
  note c = core_at [OF assms(1)]
  define h3 where "h3 = set_size ?b (w + of_bool True) h"
  have h3: "set_size ?b (bsize h ?b + USED) h = h3" by (simp add: h3_def c(4) USED_def)
  note m = core_mark [OF assms(1) nb, of True, folded h3_def]
  note c3 = core_at [OF m(1)]
  have "payload_total as + payload_total cs + (w - 8) < 4294967296"
    using payload_total_le [of as] payload_total_le [of cs] sz by simp
  then have ub: "wrap32 (uh_used_bytes h3 + sub32 (bsize h3 ?b) HDR) = payload_total as + payload_total cs + (w - 8)"
    using c3(3,4,6,7) assms(6) by (simp add: h3_def wrap32_def sub32_le HDR_def)
  have "blocks_used as + blocks_used cs + 1 < 4294967296"
    using blocks_used_le [of as] blocks_used_le [of cs] sz by simp
  then have bl: "wrap32 (uh_used_blocks h3 + 1) = blocks_used as + blocks_used cs + 1" using assms(5) by (simp add: h3_def wrap32_def)
  define h4 where "h4 = h3\<lparr>uh_used_bytes := payload_total as + payload_total cs + (w - 8), uh_used_blocks := blocks_used as + blocks_used cs + 1\<rparr>"
  have t: "take_block ?b h = note_use h4" unfolding take_block_def Let_def h3 ub bl h4_def by (rule refl)
  have "core (note_use h4) (as @ (w, True) # cs) L" by (rule core_counters [OF m(1)]) (simp_all add: h4_def)
  moreover have "listed L = frees 0 (as @ (w, True) # cs)" using assms(2) by simp
  moreover have "coalesced (as @ (w, True) # cs)" using assms(3,4) by simp
  ultimately show "heap_ok (take_block ?b h) (as @ (w, True) # cs)"
    unfolding heap_ok_def t using assms(5) by (auto simp: h4_def h3_def)
  show "calm (in_use 0 as \<union> in_use (?b + w) cs) h (take_block ?b h)"
    unfolding t by (rule calm_mem_right [OF m(2)]) (simp add: h4_def)
  show "uh_size (take_block ?b h) = uh_size h" unfolding t by (simp add: h4_def h3_def)
qed

text \<open>The blocks after \<open>w\<close> bytes are taken from a free block of size \<open>s\<close>.\<close>

definition carve :: "block_list \<Rightarrow> nat \<Rightarrow> block_list \<Rightarrow> nat \<Rightarrow> block_list" where
  "carve as s cs w = (if w + MIN_BLOCK \<le> s then as @ (w, True) # (s - w, False) # cs else as @ (s, True) # cs)"

lemma alloc_fits:
  assumes "heap_ok h (as @ (s, False) # cs)" and "0 < n" and "n \<le> uh_size h"
    and "find_fit h (need n) = Some (Some (spans as))" and "need n \<le> s"
  obtains h' where "uheap_alloc n h = Some (Some (spans as + HDR), h')" "heap_ok h' (carve as s cs (need n))"
    "calm (in_use 0 (as @ (s, False) # cs)) h h'" "uh_size h' = uh_size h"
proof -
  let ?b = "spans as" and ?bs = "as @ (s, False) # cs" and ?w = "need n"
  obtain L where L: "core h ?bs L" "listed L = frees 0 ?bs" using assms(1) by (auto simp: heap_ok_def)
  have sz: "sized ?bs" using L(1) by (simp add: core_def laid_def)
  have "?b \<in> listed L" using L(2) by simp
  from core_remove [OF L(1) this] obtain L1 where L1: "core (list_remove ?b h) ?bs L1" "listed L1 = listed L - {?b}"
    and q1: "calm (in_use 0 ?bs) h (list_remove ?b h)" by blast
  let ?h1 = "list_remove ?b h"
  note c = core_at [OF L1(1)]
  have l1: "listed L1 = frees 0 as \<union> frees (?b + s) cs" using L1(2) L(2) not_free_start [OF sz] by auto
  have nb: "?b \<notin> listed L1" using not_free_start [OF sz] l1 by simp
  have co: "coalesced as" "coalesced cs" "cs = [] \<or> snd (hd cs)" "as = [] \<or> snd (last as)"
    and cnt: "uh_used_blocks h = blocks_used as + blocks_used cs" "uh_used_bytes h = payload_total as + payload_total cs"
    using assms(1) by (simp_all add: heap_ok_def)
  have sub: "sub32 s ?w = s - ?w" using assms(5) c(6,7) by (intro sub32_le) simp_all
  define h2 where "h2 = (if MIN_BLOCK \<le> sub32 (bsize ?h1 ?b) ?w
      then list_insert (?b + ?w) (set_size ?b ?w (split_tail ?b (bsize ?h1 ?b) ?w ?h1)) else ?h1)"
  have run: "uheap_alloc n h = Some (Some (?b + HDR), take_block ?b h2)"
    using assms(2-4) by (simp add: uheap_alloc_def Let_def take_block_def h2_def)
  show ?thesis
  proof (cases "?w + MIN_BLOCK \<le> s")
    case False
    then have h2: "h2 = ?h1" using sub assms(5) c(4) by (simp add: h2_def MIN_BLOCK_def)
    have cnt1: "uh_used_blocks ?h1 = blocks_used as + blocks_used cs" "uh_used_bytes ?h1 = payload_total as + payload_total cs" using cnt by simp_all
    note t = take_block_ok [OF L1(1) l1 co(1,2) cnt1]
    have "calm (in_use 0 ?bs) h (take_block ?b h2)" unfolding h2 using t(2) by (intro calm_trans [OF q1]) simp
    then show ?thesis using that [OF run] t h2 False by (simp add: carve_def)
  next
    case True
    then have w: "?w + 16 \<le> s" by (simp add: MIN_BLOCK_def)
    define g where "g = set_size ?b ?w (split_tail ?b s ?w ?h1)"
    have h2: "h2 = list_insert (?b + ?w) g" using True sub c(4) by (simp add: h2_def g_def MIN_BLOCK_def)
    let ?cs = "(s - ?w, False) # cs"
    note sp = core_split [OF L1(1) nb need_props(1,2) w, folded g_def]
    have sz2: "sized (as @ (?w, False) # ?cs)" using sp(1) by (simp add: core_def laid_def)
    have ne: "?b + ?w \<notin> listed L1"
    proof
      assume "?b + ?w \<in> listed L1"
      then consider "?b + ?w \<in> starts 0 as" | "?b + ?w \<in> starts (?b + s) cs" using l1 frees_starts by blast
      then show False using starts_bounds [of as "?b + ?w" 0] starts_bounds [of cs "?b + ?w" "?b + s"] sz w need_props(2) [of n] by cases auto
    qed
    from core_insert [OF sp(1) _ ne] obtain L2 where L2: "core h2 (as @ (?w, False) # ?cs) L2" "listed L2 = insert (?b + ?w) (listed L1)"
      and q2: "calm (in_use 0 (as @ (?w, False) # ?cs)) g h2" unfolding h2 by auto
    have l2: "listed L2 = frees 0 as \<union> frees (?b + ?w) ?cs" using L2(2) l1 w by auto
    have cnt2: "uh_used_blocks h2 = blocks_used as + blocks_used ?cs" "uh_used_bytes h2 = payload_total as + payload_total ?cs" "uh_size h2 = uh_size h"
      using cnt by (simp_all add: h2 g_def)
    note t = take_block_ok [OF L2(1) l2 co(1) _ cnt2(1,2)]
    have co2: "coalesced ?cs" using co by simp
    have u: "in_use 0 ?bs = in_use 0 as \<union> in_use (?b + s) cs" "in_use 0 (as @ (?w, False) # ?cs) = in_use 0 ?bs"
        "in_use 0 as \<union> in_use (?b + ?w) ?cs = in_use 0 ?bs" using w by simp_all
    have "calm (in_use 0 ?bs) h (take_block ?b h2)"
      using calm_trans [OF calm_trans [OF calm_trans [OF q1]], of g h2] sp(2) q2 t(2) [OF co2] u by simp
    then show ?thesis using that [OF run] t(1,3) [OF co2] cnt2(3) True by (simp add: carve_def)
  qed
qed

section \<open>Release\<close>

lemma uh_join_fields [simp]: "uh_size (uh_join b n h) = uh_size h" "uh_used_bytes (uh_join b n h) = uh_used_bytes h" "uh_used_blocks (uh_join b n h) = uh_used_blocks h"
  by (simp_all add: uh_join_def Let_def)

lemma merge_next_join: "merge_next b h = (if bused h (next_blk h b) then h else uh_join b (next_blk h b) (list_remove (next_blk h b) h))"
  by (simp add: merge_next_def uh_join_def Let_def)

lemma merge_prev_join:
  "merge_prev b h = (if rd h (at_prev b) = 0 \<or> bused h (b - rd h (at_prev b)) then (b, h)
     else (b - rd h (at_prev b), uh_join (b - rd h (at_prev b)) b (list_remove (b - rd h (at_prev b)) h)))"
  by (simp add: merge_prev_def uh_join_def Let_def)

lemma merge_fields [simp]:
  "uh_size (merge_next b h) = uh_size h" "uh_used_bytes (merge_next b h) = uh_used_bytes h" "uh_used_blocks (merge_next b h) = uh_used_blocks h"
  "uh_size (snd (merge_prev b h)) = uh_size h" "uh_used_bytes (snd (merge_prev b h)) = uh_used_bytes h" "uh_used_blocks (snd (merge_prev b h)) = uh_used_blocks h"
  by (simp_all add: merge_next_join merge_prev_join)

lemma behind_last:
  assumes "core h (as @ [(s, u)]) L"
  shows "bused h (spans as + s)"
proof -
  have "rd h (at_size (spans as + s)) = 1" using assms by (simp add: core_def laid_def hseg_append)
  then show ?thesis by (simp add: bused_def)
qed

lemma merge_next_ok:
  assumes "core h (as @ (s, False) # cs) L" and "listed L = frees 0 as \<union> frees (spans as + s) cs" and "coalesced cs"
  obtains s' cs' L' where "core (merge_next (spans as) h) (as @ (s', False) # cs') L'" "listed L' = frees 0 as \<union> frees (spans as + s') cs'"
    "coalesced cs'" "cs' = [] \<or> snd (hd cs')" "in_use (spans as + s') cs' = in_use (spans as + s) cs"
    "blocks_used cs' = blocks_used cs" "payload_total cs' = payload_total cs"
    "calm (in_use 0 as \<union> in_use (spans as + s) cs) h (merge_next (spans as) h)"
proof -
  let ?b = "spans as"
  note c = core_at [OF assms(1)]
  have nx: "next_blk h ?b = ?b + s" by (simp add: next_blk_def c(4))
  show ?thesis
  proof (cases "bused h (?b + s)")
    case True
    have "cs = [] \<or> snd (hd cs)"
    proof (cases cs)
      case (Cons x ds)
      obtain t v where x: "x = (t, v)" by (rule prod.exhaust)
      have "core h ((as @ [(s, False)]) @ (t, v) # ds) L" using assms(1) Cons x by simp
      from core_at(5) [OF this] show ?thesis using True Cons x by simp
    qed simp
    then show ?thesis using that [of s cs L] assms True nx by (simp add: merge_next_join)
  next
    case False
    have "cs \<noteq> []" using behind_last [of h as s False L] assms(1) False by auto
    then obtain t v ds where cs: "cs = (t, v) # ds" by (cases cs) auto
    have at: "core h ((as @ [(s, False)]) @ (t, v) # ds) L" using assms(1) cs by simp
    have v: "v = False" using core_at(5) [OF at] False by simp
    have sz: "sized (as @ (s, False) # (t, v) # ds)" using assms(1) cs by (simp add: core_def laid_def)
    let ?n = "?b + s" and ?h1 = "list_remove (?b + s) h"
    have "?n \<in> listed L" using assms(2) cs v by simp
    from core_remove [OF assms(1) this] obtain L1 where L1: "core ?h1 (as @ (s, False) # (t, False) # ds) L1" "listed L1 = listed L - {?n}"
      and q1: "calm (in_use 0 (as @ (s, False) # cs)) h ?h1" unfolding cs v by blast
    have n: "?n \<notin> frees 0 as" "?n \<notin> frees (?n + t) ds"
      using sz not_free_start(2) [of "as @ [(s, False)]" t v ds] starts_bounds [of as ?n 0] frees_starts [of ?n 0 as] by auto
    have l1: "listed L1 = frees 0 as \<union> frees (?n + t) ds" using L1(2) assms(2) cs v n by auto
    have b: "?b \<notin> listed L1"
      using l1 sz not_free_start(1) [of as s False cs] starts_bounds [of ds ?b "?n + t"] frees_starts [of ?b "?n + t" ds] cs by auto
    have nl: "?n \<notin> listed L1" using l1 n by simp
    note j = core_join [OF L1(1) b nl]
    have m: "merge_next ?b h = uh_join ?b ?n ?h1" using False nx by (simp add: merge_next_join)
    have q: "calm (in_use 0 as \<union> in_use ?n cs) h (merge_next ?b h)"
      unfolding m using q1 j(2) cs v by (intro calm_trans [OF calm_subset [OF q1]]) simp_all
    show ?thesis
      by (rule that [of "s + t" ds L1]) (use j(1) l1 assms(3) cs v q in \<open>simp_all add: m add.assoc\<close>)
  qed
qed

lemma merge_prev_ok:
  assumes "core h (as @ (s, False) # cs) L" and "listed L = frees 0 as \<union> frees (spans as + s) cs" and "coalesced as"
  obtains s' as' L' where "core (snd (merge_prev (spans as) h)) (as' @ (s', False) # cs) L'" "listed L' = frees 0 as' \<union> frees (spans as' + s') cs"
    "fst (merge_prev (spans as) h) = spans as'" "spans as' + s' = spans as + s"
    "coalesced as'" "as' = [] \<or> snd (last as')" "in_use 0 as' = in_use 0 as"
    "blocks_used as' = blocks_used as" "payload_total as' = payload_total as"
    "calm (in_use 0 as \<union> in_use (spans as + s) cs) h (snd (merge_prev (spans as) h))"
proof -
  let ?b = "spans as"
  note c = core_at [OF assms(1)]
  have sz: "sized (as @ (s, False) # cs)" using assms(1) by (simp add: core_def laid_def)
  show ?thesis
  proof (cases as rule: rev_cases)
    case Nil
    then show ?thesis using that [of as s L] assms c(8) by (simp add: merge_prev_join)
  next
    case (snoc ds x)
    obtain t v where x: "x = (t, v)" by (rule prod.exhaust)
    have at: "core h (ds @ (t, v) # (s, False) # cs) L" using assms(1) snoc x by simp
    note d = core_at [OF at]
    have as: "as = ds @ [(t, v)]" using snoc x by simp
    have pv: "rd h (at_prev ?b) = t" using c(8) as by simp
    have t: "t \<noteq> 0" "?b - t = spans ds" "?b = spans ds + t" using d(3) as by simp_all
    show ?thesis
    proof (cases v)
      case True
      then have "merge_prev ?b h = (?b, h)" using d(5) t pv by (simp add: merge_prev_join)
      then show ?thesis using that [of as s L] assms as True by simp
    next
      case False
      let ?pv = "spans ds" and ?h1 = "list_remove (spans ds) h"
      have "?pv \<in> listed L" using assms(2) as False by simp
      from core_remove [OF assms(1) this] obtain L1 where L1: "core ?h1 (ds @ (t, False) # (s, False) # cs) L1" "listed L1 = listed L - {?pv}"
        and q1: "calm (in_use 0 (as @ (s, False) # cs)) h ?h1" using as False by auto
      have sd: "sized (ds @ (t, False) # (s, False) # cs)" using sz as by simp
      have n: "?pv \<notin> frees 0 ds" "?pv \<notin> frees (?b + s) cs"
        using sd not_free_start(1) [of ds t False "(s, False) # cs"] starts_bounds [of cs ?pv "?b + s"] frees_starts [of ?pv "?b + s" cs] t by auto
      have l1: "listed L1 = frees 0 ds \<union> frees (?b + s) cs" using L1(2) assms(2) as False n by auto
      have b: "?pv \<notin> listed L1" using l1 n by simp
      have nl: "?pv + t \<notin> listed L1"
        using l1 sd not_free_start(2) [of as s False cs] starts_bounds [of ds "?pv + t" 0] frees_starts [of "?pv + t" 0 ds] sz t by auto
      note j = core_join [OF L1(1) b nl]
      have m: "merge_prev ?b h = (?pv, uh_join ?pv (?pv + t) ?h1)" using d(5) t pv False by (simp add: merge_prev_join)
      have m2: "merge_prev (?pv + t) h = (?pv, uh_join ?pv (?pv + t) ?h1)" using m t(3) by simp
      have u: "in_use 0 as = in_use 0 ds" using as False by simp
      have q: "calm (in_use 0 as \<union> in_use (?b + s) cs) h (snd (merge_prev ?b h))"
        unfolding m using j(2) u t(3) by (intro calm_trans [OF calm_subset [OF q1]]) (simp_all add: add.assoc)
      show ?thesis
        by (rule that [of ds "t + s" L1]) (use j(1) l1 assms(3) as False q u t(3) in \<open>simp_all add: m2 add.assoc\<close>)
    qed
  qed
qed

lemma heap_ok_at:
  assumes "heap_ok h (as @ (s, u) # cs)"
  obtains L where "core h (as @ (s, u) # cs) L" "listed L = frees 0 as \<union> (if u then {} else {spans as}) \<union> frees (spans as + s) cs"
proof -
  obtain L where "core h (as @ (s, u) # cs) L" "listed L = frees 0 (as @ (s, u) # cs)" using assms by (auto simp: heap_ok_def)
  then show ?thesis by (intro that) (auto simp: Un_assoc)
qed

lemma free_ok:
  assumes "heap_ok h (as @ (s, True) # cs)"
  obtains bs' where "heap_ok (uheap_free (Some (spans as + HDR)) h) bs'" "in_use 0 bs' = in_use 0 as \<union> in_use (spans as + s) cs"
    "calm (in_use 0 as \<union> in_use (spans as + s) cs) h (uheap_free (Some (spans as + HDR)) h)"
    "uh_size (uheap_free (Some (spans as + HDR)) h) = uh_size h"
proof -
  let ?b = "spans as" and ?U = "in_use 0 as \<union> in_use (spans as + s) cs"
  obtain L where L: "core h (as @ (s, True) # cs) L" "listed L = frees 0 as \<union> frees (?b + s) cs"
    using heap_ok_at [OF assms] by auto
  have sz: "sized (as @ (s, True) # cs)" "?b + s + spans cs + 8 = uh_size h" "uh_size h < 4294967296"
    using L(1) by (simp_all add: core_def laid_def HDR_def)
  have nb: "?b \<notin> listed L" using L(2) not_free_start [OF sz(1)] by simp
  have co: "coalesced as" "coalesced cs" and cnt: "uh_used_blocks h = blocks_used as + 1 + blocks_used cs"
      "uh_used_bytes h = payload_total as + (s - 8) + payload_total cs"
    using assms by (simp_all add: heap_ok_def)
  note c = core_at [OF L(1)]
  have owns: "owns h (?b + HDR)" using c(1,3,6) by (auto simp: owns_def HDR_def dvd_eq_mod_eq_0 [symmetric])
  define h1 where "h1 = h\<lparr>uh_used_bytes := sub32 (uh_used_bytes h) (sub32 (bsize h ?b) HDR), uh_used_blocks := sub32 (uh_used_blocks h) 1\<rparr>"
  define h2 where "h2 = set_size ?b (bsize h1 ?b) h1"
  have "payload_total as + (s - 8) + payload_total cs < 4294967296" "blocks_used as + 1 + blocks_used cs < 4294967296"
    using payload_total_le [of as] payload_total_le [of cs] blocks_used_le [of as] blocks_used_le [of cs] sz c(3) by simp_all
  then have cnt1: "uh_used_blocks h1 = blocks_used as + blocks_used cs" "uh_used_bytes h1 = payload_total as + payload_total cs"
    using cnt c(3,4,6,7) by (simp_all add: h1_def sub32_le HDR_def)
  have "core h1 (as @ (s, True) # cs) L" by (rule core_counters [OF L(1)]) (simp_all add: h1_def)
  note m = core_mark [OF this nb, of False]
  have b1: "bsize h1 ?b = s" using c(4) by (simp add: h1_def bsize_def rd_def)
  have h2: "core h2 (as @ (s, False) # cs) L" "calm ?U h h2"
    using m b1 by (simp_all add: h2_def) (rule calm_trans [OF calm_mem [of h1]], simp_all add: h1_def)
  obtain s' cs' L1 where n: "core (merge_next ?b h2) (as @ (s', False) # cs') L1" "listed L1 = frees 0 as \<union> frees (?b + s') cs'"
    "coalesced cs'" "cs' = [] \<or> snd (hd cs')" "in_use (?b + s') cs' = in_use (?b + s) cs"
    "blocks_used cs' = blocks_used cs" "payload_total cs' = payload_total cs" "calm ?U h2 (merge_next ?b h2)"
    using merge_next_ok [OF h2(1) L(2) co(2)] by metis
  let ?h3 = "merge_next ?b h2"
  obtain s2 as' L2 where p: "core (snd (merge_prev ?b ?h3)) (as' @ (s2, False) # cs') L2" "listed L2 = frees 0 as' \<union> frees (spans as' + s2) cs'"
    "fst (merge_prev ?b ?h3) = spans as'" "spans as' + s2 = ?b + s'" "coalesced as'" "as' = [] \<or> snd (last as')" "in_use 0 as' = in_use 0 as"
    "blocks_used as' = blocks_used as" "payload_total as' = payload_total as"
    "calm (in_use 0 as \<union> in_use (?b + s') cs') ?h3 (snd (merge_prev ?b ?h3))"
    using merge_prev_ok [OF n(1,2) co(1)] by metis
  let ?h4 = "snd (merge_prev ?b ?h3)" and ?bs = "as' @ (s2, False) # cs'"
  have run: "uheap_free (Some (?b + HDR)) h = list_insert (spans as') ?h4"
    using owns c(5) p(3) by (simp add: uheap_free_def Let_def h1_def h2_def HDR_def split_beta)
  have sz2: "sized ?bs" using p(1) by (simp add: core_def laid_def)
  have ne: "spans as' \<notin> listed L2" using p(2) not_free_start [OF sz2] by simp
  from core_insert [OF p(1) _ ne] obtain L3 where f: "core (list_insert (spans as') ?h4) ?bs L3" "listed L3 = insert (spans as') (listed L2)"
    and q: "calm (in_use 0 ?bs) ?h4 (list_insert (spans as') ?h4)" by auto
  have u: "in_use 0 ?bs = ?U" using p(4,7) n(5) by simp
  show ?thesis
  proof (rule that [of ?bs])
    have "listed L3 = frees 0 ?bs" using f(2) p(2) by auto
    moreover have "coalesced ?bs" using p(5,6) n(3,4) by auto
    moreover have "uh_used_blocks (list_insert (spans as') ?h4) = blocks_used ?bs" "uh_used_bytes (list_insert (spans as') ?h4) = payload_total ?bs"
      using cnt1 p(8,9) n(6,7) by (simp_all add: h2_def)
    ultimately show "heap_ok (uheap_free (Some (?b + HDR)) h) ?bs" using f(1) by (auto simp: heap_ok_def run)
    show "in_use 0 ?bs = ?U" by (rule u)
    show "calm ?U h (uheap_free (Some (?b + HDR)) h)"
      unfolding run using calm_trans [OF calm_trans [OF calm_trans [OF h2(2) n(8)], of ?h4]] p(10) q n(5) u by simp
    show "uh_size (uheap_free (Some (?b + HDR)) h) = uh_size h" by (simp add: run h2_def h1_def)
  qed
qed

section \<open>Growing in place\<close>

lemma list_insert_counter: "list_insert b (h\<lparr>uh_used_bytes := x\<rparr>) = (list_insert b h)\<lparr>uh_used_bytes := x\<rparr>"
  by (simp add: list_insert_def Let_def wr_def set_head_def free_head_def bsize_def rd_def)

lemma set_counter:
  "set_size b v (h\<lparr>uh_used_bytes := x\<rparr>) = (set_size b v h)\<lparr>uh_used_bytes := x\<rparr>"
  "set_prev b v (h\<lparr>uh_used_bytes := x\<rparr>) = (set_prev b v h)\<lparr>uh_used_bytes := x\<rparr>"
  "bsize (h\<lparr>uh_used_bytes := x\<rparr>) b = bsize h b" "next_blk (h\<lparr>uh_used_bytes := x\<rparr>) b = next_blk h b"
  "split_tail b s w (h\<lparr>uh_used_bytes := x\<rparr>) = (split_tail b s w h)\<lparr>uh_used_bytes := x\<rparr>"
  by (simp_all add: set_size_def set_prev_def wr_def bsize_def rd_def next_blk_def split_tail_def Let_def)

text \<open>The tail may enter its list before the block in front of it gets its new header.\<close>

lemma insert_before_header:
  assumes "core G (as @ (w, True) # (r, False) # cs) L" and "spans as + w \<notin> listed L"
    and "G = set_prev (spans as + w) w (set_size (spans as) (w + USED) S)"
  shows "list_insert (spans as + w) G = set_prev (spans as + w) w (set_size (spans as) (w + USED) (list_insert (spans as + w) S))"
proof -
  let ?b = "spans as" and ?t = "spans as + w" and ?bs = "as @ (w, True) # (r, False) # cs"
  have at: "core G ((as @ [(w, True)]) @ (r, False) # cs) L" using assms(1) by simp
  note cb = core_at [OF assms(1)] and ct = core_at [OF at]
  have lk: "linked G L" and lG: "laid G ?bs" and sub: "listed L \<subseteq> frees 0 ?bs" using assms(1) by (simp_all add: core_def)
  have d: "8 dvd ?b" "8 dvd ?t" using cb(1) ct(1) by simp_all
  have fh: "free_head S c = free_head G c" for c by (simp add: assms(3) free_head_def)
  have lt: "w + USED < 4294967296" "w < 4294967296" using cb(6,7) by (simp_all add: USED_def)
  let ?S1 = "set_size ?b (w + USED) S"
  have s1: "bsize ?S1 ?t = r"
    using ct(4) set_prev_words [OF d(2) at_words(1) [OF d(2)] lt(2), of ?S1] by (simp add: assms(3) bsize_def at_size_def)
  then have s0: "bsize S ?t = r"
    using set_size_words [OF d(1) at_words(1) [OF d(2)] lt(1), of S] cb(3) by (simp add: bsize_def at_size_def)
  have sz: "sized ?bs" using lG by (simp add: laid_def)
  have head: "8 dvd free_head G c - 1 \<and> ?b \<noteq> at_prevfree (free_head G c - 1) \<and> ?t + 4 \<noteq> at_prevfree (free_head G c - 1)"
    if "free_head G c \<noteq> 0" "c < UHEAP_CLASSES" for c
  proof -
    define y where "y = free_head G c - 1"
    have y: "y \<in> listed L" using head_listed [OF lk that(2)] that listedI [OF that(2)] by (auto simp: y_def split: list.splits)
    have y8: "8 dvd y" using y sub laid_spaced [OF lG] spacedD by blast
    have "y \<in> frees 0 as \<or> y \<in> frees (?t + r) cs" using y sub assms(2) by auto
    then have "y + 16 \<le> ?b \<or> ?t + r \<le> y"
      using starts_bounds [of as y 0] starts_bounds [of cs y "?t + r"] frees_starts [of y] sz by auto
    then have "y + 8 \<noteq> ?t" using ct(3) cb(3) by auto
    moreover have "?b \<noteq> y + 12" using y8 d(1) by presburger
    ultimately show ?thesis using y8 by (simp add: y_def at_prevfree_def HDR_def)
  qed
  have k: "cls r < UHEAP_CLASSES" using free_cls [OF lG, of ?t r False] ct(4) by simp
  have "list_insert ?t G = wr (at_prev ?t) w (list_insert ?t ?S1)"
    unfolding assms(3) set_prev_def
  proof (rule list_insert_wr [OF d(2) at_words(2) [OF d(2)]])
    show "free_head ?S1 (cls (bsize ?S1 ?t)) \<noteq> 0 \<Longrightarrow>
        8 dvd free_head ?S1 (cls (bsize ?S1 ?t)) - 1 \<and> at_prev ?t \<noteq> at_prevfree (free_head ?S1 (cls (bsize ?S1 ?t)) - 1)"
      using head [OF _ k] fh s1 by (simp add: free_head_def at_prev_def)
  qed (simp_all add: at_prev_def at_size_def at_next_def at_prevfree_def HDR_def)
  also have "list_insert ?t ?S1 = wr (at_size ?b) (w + USED) (list_insert ?t S)"
    unfolding set_size_def
  proof (rule list_insert_wr [OF d(2) at_words(1) [OF d(1)]])
    show "free_head S (cls (bsize S ?t)) \<noteq> 0 \<Longrightarrow> 8 dvd free_head S (cls (bsize S ?t)) - 1 \<and> at_size ?b \<noteq> at_prevfree (free_head S (cls (bsize S ?t)) - 1)"
      using head [OF _ k] fh s0 by (simp add: at_size_def)
  qed (use cb(3) in \<open>simp_all add: at_size_def at_next_def at_prevfree_def HDR_def\<close>)
  finally show ?thesis by (simp add: set_prev_def set_size_def)
qed

lemma calm_within:
  assumes "calm V h h'" and "V = X \<union> {(b, w)} \<union> Y" and "s \<le> w"
  shows "calm (X \<union> Y \<union> {(b, s)}) h h'"
proof -
  have "calm {(b, w)} h h'" "calm (X \<union> Y) h h'" by (rule calm_subset [OF assms(1)]; use assms(2) in blast)+
  then show ?thesis using assms(3) by (auto simp: calm_def)
qed

lemma grow_ok:
  assumes "heap_ok h (as @ (s, True) # (t, False) # cs)" and "8 dvd w" and "s < w" and "w \<le> s + t"
  obtains bs' s' where "heap_ok (grow (spans as) w h) bs'" "in_use 0 bs' = in_use 0 as \<union> {(spans as, s')} \<union> in_use (spans as + s + t) cs" "w \<le> s'"
    "calm (in_use 0 as \<union> in_use (spans as + s + t) cs \<union> {(spans as, s)}) h (grow (spans as) w h)" "uh_size (grow (spans as) w h) = uh_size h"
proof -
  let ?b = "spans as" and ?bs = "as @ (s, True) # (t, False) # cs"
  let ?U = "in_use 0 as \<union> in_use (?b + s + t) cs \<union> {(?b, s)}"
  obtain L where L: "core h ?bs L" "listed L = frees 0 ?bs" using assms(1) by (auto simp: heap_ok_def)
  have sz: "sized ?bs" "?b + s + t + spans cs + 8 = uh_size h" "uh_size h < 4294967296"
    using L(1) by (simp_all add: core_def laid_def HDR_def)
  have co: "coalesced as" "coalesced cs" "cs = [] \<or> snd (hd cs)"
    and cnt: "uh_used_blocks h = blocks_used as + 1 + blocks_used cs" "uh_used_bytes h = payload_total as + (s - 8) + payload_total cs"
    using assms(1) by (simp_all add: heap_ok_def)
  let ?h1 = "list_remove (?b + s) h"
  have "?b + s \<in> listed L" using L(2) by simp
  from core_remove [OF L(1) this] obtain L1 where L1: "core ?h1 ?bs L1" "listed L1 = listed L - {?b + s}"
    and q1: "calm (in_use 0 ?bs) h ?h1" by blast
  have L1': "core ?h1 ((as @ [(s, True)]) @ (t, False) # cs) L1" using L1(1) by simp
  note c = core_at [OF L1(1)] and n = core_at [OF L1']
  have nf: "?b + s \<notin> frees 0 as" "?b + s \<notin> frees (?b + s + t) cs" "?b \<notin> frees (?b + s + t) cs" "?b \<notin> frees 0 as"
    using sz(1) not_free_start [of "as @ [(s, True)]" t False cs] not_free_start [of as s True "(t, False) # cs"] by auto
  have l1: "listed L1 = frees 0 as \<union> frees (?b + s + t) cs" using L1(2) L(2) nf by auto
  have nl: "?b \<notin> listed L1" "?b + s \<notin> listed L1" using l1 nf by simp_all
  have "core h ((as @ [(s, True)]) @ (t, False) # cs) L" using L(1) by simp
  note nx = core_at(4) [OF L(1)]
  have nxt: "next_blk h ?b = ?b + s" using nx by (simp add: next_blk_def)
  have tot: "bsize ?h1 ?b + bsize ?h1 (?b + s) = s + t" using c(4) n(4) by simp
  have le: "payload_total as + payload_total cs + s + t < 4294967296" using payload_total_le [of as] payload_total_le [of cs] sz by simp
  have ub: "wrap32 (uh_used_bytes ?h1 + sub32 (s + t) (bsize ?h1 ?b)) = payload_total as + (s + t - 8) + payload_total cs"
    using le cnt(2) c(3,4) by (simp add: sub32_le wrap32_def)
  have sub: "sub32 (s + t) w = s + t - w" using assms(4) le by (intro sub32_le) simp_all
  have q1': "calm ?U h ?h1" using q1 by (rule calm_subset) auto
  show ?thesis
  proof (cases "w + MIN_BLOCK \<le> s + t")
    case False
    then have ns: "\<not> MIN_BLOCK \<le> sub32 (s + t) w" using sub assms(4) by (simp add: MIN_BLOCK_def)
    define G where "G = set_prev (?b + (s + t)) (s + t) (set_size ?b (s + t + USED) ?h1)"
    note g = core_grow_all [OF L1(1) nl, folded G_def]
    have d8: "8 dvd s + t" using c(2) n(2) by (rule dvd_add)
    have "rd (set_size ?b (s + t + USED) ?h1) ?b = s + t + of_bool True"
      using set_size_words [OF c(1), of ?b "s + t + USED" ?h1] at_words(1) [OF c(1)] n(6,7) by (simp add: at_size_def USED_def)
    from bsize_even [OF d8 this] have nb: "next_blk (set_size ?b (s + t + USED) ?h1) ?b = ?b + (s + t)" by (simp add: next_blk_def)
    have run: "grow ?b w h = note_use (G\<lparr>uh_used_bytes := payload_total as + (s + t - 8) + payload_total cs\<rparr>)"
      unfolding grow_def Let_def nxt tot ub using ns by (simp add: set_counter nb G_def)
    let ?bs' = "as @ (s + t, True) # cs"
    have "core (grow ?b w h) ?bs' L1" unfolding run by (rule core_counters [OF g(1)]) simp_all
    moreover have "listed L1 = frees 0 ?bs'" using l1 by (simp add: add.assoc)
    moreover have "uh_used_blocks (grow ?b w h) = blocks_used ?bs'" "uh_used_bytes (grow ?b w h) = payload_total ?bs'"
      using cnt(1) by (simp_all add: run G_def)
    ultimately have "heap_ok (grow ?b w h) ?bs'" using co by (auto simp: heap_ok_def)
    moreover have "calm ?U h (grow ?b w h)"
      unfolding run by (rule calm_mem_right [OF calm_trans [OF q1' g(2)]]) simp
    ultimately show ?thesis using that [of ?bs' "s + t"] assms(4) by (simp add: run G_def Un_ac add.assoc)
  next
    case True
    then have w: "w + 16 \<le> s + t" and sp: "MIN_BLOCK \<le> sub32 (s + t) w" using sub by (simp_all add: MIN_BLOCK_def)
    define S where "S = split_tail ?b (s + t) w ?h1"
    define G where "G = set_prev (?b + w) w (set_size ?b (w + USED) S)"
    note g = core_grow_split [OF L1(1) nl assms(2,3) w, folded S_def, folded G_def]
    let ?t = "?b + w" and ?bs' = "as @ (w, True) # (s + t - w, False) # cs"
    have g': "core G ((as @ [(w, True)]) @ (s + t - w, False) # cs) L1" using g(1) by simp
    note ct = core_at [OF g'] and cb = core_at [OF g(1)]
    have sz2: "sized ?bs'" using g(1) by (simp add: core_def laid_def)
    have tf: "?t \<notin> listed L1"
      using l1 starts_bounds [of as ?t 0] starts_bounds [of cs ?t "?b + s + t"] frees_starts [of ?t 0 as] frees_starts [of ?t "?b + s + t" cs] sz(1) w c(3) assms(3) by auto
    from core_insert [OF g(1) _ tf] obtain L2 where L2: "core (list_insert ?t G) ?bs' L2" "listed L2 = insert ?t (listed L1)"
      and q2: "calm (in_use 0 ?bs') G (list_insert ?t G)" by auto
    have d: "8 dvd ?b" "8 dvd ?t" using c(1) ct(1) by simp_all
    have lt: "w + USED < 4294967296" "w < 4294967296" using le w by (simp_all add: USED_def)
    note comm = insert_before_header [OF g(1) tf G_def]
    have w8: "rd (set_size ?b (w + USED) (list_insert ?t S)) ?b = w + of_bool True"
      using set_size_words [OF d(1) at_words(1) [OF d(1)] lt(1)] by (simp add: at_size_def USED_def)
    from bsize_even [OF assms(2) w8] have nb: "next_blk (set_size ?b (w + USED) (list_insert ?t S)) ?b = ?t" by (simp add: next_blk_def)
    have l2: "core (list_insert ?t G) ((as @ [(w, True)]) @ (s + t - w, False) # cs) L2" using L2(1) by simp
    have bt: "bsize (list_insert ?t S) ?t = s + t - w"
      using core_at(4) [OF l2] set_prev_words [OF d(2) at_words(1) [OF d(2)] lt(2)] set_size_words [OF d(1) at_words(1) [OF d(2)] lt(1)] assms(3)
      by (simp add: comm bsize_def at_size_def)
    have ub2: "sub32 (payload_total as + (s + t - 8) + payload_total cs) (s + t - w) = payload_total as + (w - 8) + payload_total cs"
      using le w assms(3) c(3) by (subst sub32_le) simp_all
    have run: "grow ?b w h = note_use ((list_insert ?t G)\<lparr>uh_used_bytes := payload_total as + (w - 8) + payload_total cs\<rparr>)"
      unfolding grow_def Let_def nxt tot ub comm using sp
      by (simp add: set_counter list_insert_counter S_def [symmetric] bt ub2 nb)
    have "core (grow ?b w h) ?bs' L2" unfolding run by (rule core_counters [OF L2(1)]) simp_all
    moreover have "listed L2 = frees 0 ?bs'" using L2(2) l1 w by (auto simp: add.assoc)
    moreover have "uh_used_blocks (grow ?b w h) = blocks_used ?bs'" "uh_used_bytes (grow ?b w h) = payload_total ?bs'"
      using cnt(1) by (simp_all add: run G_def S_def)
    ultimately have "heap_ok (grow ?b w h) ?bs'" using co by (auto simp: heap_ok_def)
    moreover have "calm ?U h (grow ?b w h)"
      unfolding run
    proof (rule calm_mem_right [OF calm_trans [OF calm_trans [OF q1' g(2)], of "list_insert ?t G"]])
      show "calm ?U G (list_insert ?t G)"
        by (rule calm_within [OF q2]) (use w less_imp_le [OF assms(3)] in \<open>simp_all add: Un_ac add.assoc\<close>)
    qed simp
    moreover have "in_use 0 ?bs' = in_use 0 as \<union> {(?b, w)} \<union> in_use (?b + s + t) cs" using w by (simp add: add.assoc)
    ultimately show ?thesis using that [of ?bs' w] by (simp add: run G_def S_def)
  qed
qed

end
