(* ===== verification/Uheap_Client.thy ===== *)
theory Uheap_Client
  imports Uheap_Ops
begin

text \<open>
  A client of the heap: it holds the allocations it was given, each with the size it asked for, writes into
  them and frees or resizes them.  Every state it can reach is a well-formed heap whose blocks in use are
  exactly the client's allocations.
\<close>

section \<open>Writes into a payload\<close>

lemma payload_write:
  assumes "heap_ok h bs" and "(b, s) \<in> in_use 0 bs" and "same_outside {b + HDR..<b + s} h h'"
    and "uh_size h' = uh_size h" "uh_free_head h' = uh_free_head h" "uh_used_bytes h' = uh_used_bytes h" "uh_used_blocks h' = uh_used_blocks h"
  shows "heap_ok h' bs"
proof -
  obtain L where L: "core h bs L" "listed L = frees 0 bs" using assms(1) by (auto simp: heap_ok_def)
  have lb: "laid h bs" "linked h L" and sz: "sized bs" using L(1) by (simp_all add: core_def laid_def)
  have b: "(b, s, True) \<in> set (placed 0 bs)" using assms(2) by (simp add: in_use_def)
  have far: "{y..<y + k} \<inter> {b + HDR..<b + s} = {}" if y: "(y, t, u) \<in> set (placed 0 bs)" "k \<le> 8 \<or> \<not> u \<and> k \<le> t" for y t u k
    using placed_apart [OF sz y(1) b] placed_bounds [OF sz y(1)] y(2) by (auto simp: HDR_def)
  have keep: "rd h' x = rd h x" if "{x..<x + 4} \<inter> {b + HDR..<b + s} = {}" for x by (rule rd_same [OF assms(3) that])
  have hd: "rd h' (at_size y) = rd h (at_size y) \<and> rd h' (at_prev y) = rd h (at_prev y)" if y: "(y, t, u) \<in> set (placed 0 bs)" for y t u
  proof -
    have "{y..<y + 8} \<inter> {b + HDR..<b + s} = {}" by (rule far [OF y]) simp
    moreover have "{at_size y..<at_size y + 4} \<subseteq> {y..<y + 8}" "{at_prev y..<at_prev y + 4} \<subseteq> {y..<y + 8}" by (auto simp: at_size_def at_prev_def)
    ultimately show ?thesis by (intro conjI keep) blast+
  qed
  have "laid h' bs"
  proof (rule laid_same [OF lb(1) assms(4)])
    fix y
    assume "y \<in> starts 0 bs"
    then show "rd h' (at_size y) = rd h (at_size y) \<and> rd h' (at_prev y) = rd h (at_prev y)" using hd by (auto simp: starts_def)
  next
    have "b + s \<le> spans bs" using placed_bounds [OF sz b] by simp
    then show "rd h' (at_size (spans bs)) = rd h (at_size (spans bs))" "rd h' (at_prev (spans bs)) = rd h (at_prev (spans bs))"
      by (intro keep; auto simp: at_size_def at_prev_def)+
  qed
  moreover have "linked h' L"
  proof (rule linked_cong [OF lb(2) assms(5)])
    fix x
    assume "x \<in> listed L"
    then obtain t where x: "(x, t, False) \<in> set (placed 0 bs)" using L(2) by (auto simp: frees_def)
    have "{x..<x + 16} \<inter> {b + HDR..<b + s} = {}" by (rule far [OF x]) (use placed_bounds [OF sz x] in simp)
    moreover have "{at_next x..<at_next x + 4} \<subseteq> {x..<x + 16}" "{at_prevfree x..<at_prevfree x + 4} \<subseteq> {x..<x + 16}"
      by (auto simp: at_next_def at_prevfree_def HDR_def)
    ultimately have "rd h' (at_next x) = rd h (at_next x)" "rd h' (at_prevfree x) = rd h (at_prevfree x)" by (intro keep; blast)+
    then show "rd h' (at_size x) = rd h (at_size x) \<and> rd h' (at_next x) = rd h (at_next x) \<and> rd h' (at_prevfree x) = rd h (at_prevfree x)"
      using hd [OF x] by simp
  qed
  ultimately have "core h' bs L" using L(1) by (simp add: core_def)
  then show ?thesis using L(2) assms(1,6,7) by (auto simp: heap_ok_def)
qed

lemma heap_ok_counters:
  assumes "heap_ok h bs" and "uh_mem h' = uh_mem h" "uh_size h' = uh_size h" "uh_free_head h' = uh_free_head h"
    "uh_used_bytes h' = uh_used_bytes h" "uh_used_blocks h' = uh_used_blocks h"
  shows "heap_ok h' bs"
  using assms core_counters [of h bs _ h'] by (auto simp: heap_ok_def)

section \<open>Set-up\<close>

lemma init_ok:
  assumes "a mod 8 = 0" and "64 \<le> n" and "n < 4294967296"
  obtains h where "uheap_init (Some a) n (Some h0) = (True, Some h)" "heap_ok h [(8 * (n div 8) - 8, False)]" "uh_size h = 8 * (n div 8)"
proof -
  define sz where "sz = 8 * (n div 8)"
  define f where "f = sz - HDR"
  have sz: "64 \<le> sz" "sz < 4294967296" "8 dvd f" "f + 8 = sz" "8 dvd (0 :: nat)"
    using assms(2,3) by (auto simp: sz_def f_def HDR_def)
  define h1 where "h1 = h0\<lparr>uh_free_head := replicate UHEAP_CLASSES 0, uh_size := sz, uh_used_bytes := 0, uh_used_blocks := 0,
                        uh_high_water := 0, uh_fail_count := 0\<rparr>"
  define h3 where "h3 = set_prev f f (set_size f USED (set_prev 0 0 (set_size 0 f h1)))"
  have run: "uheap_init (Some a) n (Some h0) = (True, Some (list_insert 0 h3))"
    using assms(1,2) by (simp add: uheap_init_def h1_def h3_def f_def sz_def Let_def)
  have lt: "f < 4294967296" "USED < 4294967296" "0 < (4294967296 :: nat)" using sz by (simp_all add: USED_def)
  have w: "rd h3 x = (if x = f + 4 then f else if x = f then 1 else if x = 4 then 0 else if x = 0 then f else rd h1 x)" if "4 dvd x" for x
    unfolding h3_def set_prev_words [OF sz(3) that lt(1)] set_size_words [OF sz(3) that lt(2)] set_prev_words [OF sz(5) that lt(3)] set_size_words [OF sz(5) that lt(1)]
    by (simp add: USED_def)
  have f4: "4 dvd f" "4 dvd f + 4" using at_words [OF sz(3)] by (simp_all add: at_size_def at_prev_def)
  have "laid h3 [(f, False)]"
    using sz w [of 0] w [of 4] w [OF f4(1)] w [OF f4(2)] by (simp add: laid_def at_size_def at_prev_def HDR_def h3_def h1_def)
  moreover have "linked h3 (\<lambda>_. [])"
    by (auto simp: linked_def h3_def h1_def free_head_def UHEAP_CLASSES_def)
  ultimately have c: "core h3 [(f, False)] (\<lambda>_. [])" by (auto simp: core_def listed_def)
  have "0 \<in> frees 0 [(f, False)]" "0 \<notin> listed (\<lambda>_. [] :: nat list)" by (simp_all add: listed_def)
  from core_insert [OF c this] obtain L where "core (list_insert 0 h3) [(f, False)] L" "listed L = insert 0 (listed (\<lambda>_. []))" by blast
  then have "heap_ok (list_insert 0 h3) [(f, False)]" by (auto simp: heap_ok_def listed_def h3_def h1_def)
  then show ?thesis using that [OF run] by (simp add: f_def sz_def HDR_def h3_def h1_def)
qed

section \<open>The client\<close>

datatype heap_op =
    Alloc nat "nat option"
  | Calloc nat nat "nat option"
  | Free "nat option"
  | Realloc "nat option" nat "nat option"
  | Store nat u8

type_synonym holdings = "nat \<rightharpoonup> nat"

definition gain :: "nat option \<Rightarrow> nat \<Rightarrow> holdings \<Rightarrow> holdings" where
  "gain r n U = (case r of None \<Rightarrow> U | Some p \<Rightarrow> U(p \<mapsto> n))"

definition lose :: "nat option \<Rightarrow> holdings \<Rightarrow> holdings" where
  "lose ptr U = (case ptr of None \<Rightarrow> U | Some p \<Rightarrow> U(p := None))"

definition held :: "nat option \<Rightarrow> holdings \<Rightarrow> bool" where
  "held ptr U \<longleftrightarrow> (case ptr of None \<Rightarrow> True | Some p \<Rightarrow> U p \<noteq> None)"

text \<open>
  A client passes pointers it holds (or NULL), asks for at most 0xFFFFFFF0 bytes, and stores inside what it
  asked for.
\<close>

inductive heap_step :: "uheap \<times> holdings \<Rightarrow> heap_op \<Rightarrow> uheap \<times> holdings \<Rightarrow> bool" where
  step_alloc: "n < 2 ^ 32 \<Longrightarrow> uheap_alloc n h = Some (r, h') \<Longrightarrow> heap_step (h, U) (Alloc n r) (h', gain r n U)"
| step_calloc: "n < 2 ^ 32 \<Longrightarrow> m < 2 ^ 32 \<Longrightarrow> uheap_calloc n m h = Some (r, h') \<Longrightarrow> heap_step (h, U) (Calloc n m r) (h', gain r (n * m) U)"
| step_free: "held ptr U \<Longrightarrow> heap_step (h, U) (Free ptr) (uheap_free ptr h, lose ptr U)"
| step_realloc: "held ptr U \<Longrightarrow> n \<le> 0xFFFFFFF0 \<Longrightarrow> uheap_realloc ptr n h = Some (r, h') \<Longrightarrow>
    heap_step (h, U) (Realloc ptr n r) (h', if r = None \<and> n \<noteq> 0 then U else gain r n (lose ptr U))"
| step_store: "U p = Some n \<Longrightarrow> p \<le> a \<Longrightarrow> a < p + n \<Longrightarrow> heap_step (h, U) (Store a v) (h\<lparr>uh_mem := (uh_mem h)(a := v)\<rparr>, U)"

inductive heap_reach :: "uheap \<times> holdings \<Rightarrow> bool" where
  reach_init: "n \<le> 0xFFFFFFF0 \<Longrightarrow> uheap_init (Some a) n (Some h0) = (True, Some h) \<Longrightarrow> heap_reach (h, Map.empty)"
| reach_step: "heap_reach c \<Longrightarrow> heap_step c act c' \<Longrightarrow> heap_reach c'"

inductive_cases heap_stepE: "heap_step (h, U) act (h', U')"

text \<open>Holdings and blocks in use match.\<close>

definition matches :: "holdings \<Rightarrow> (nat \<times> nat) set \<Rightarrow> bool" where
  "matches U B \<longleftrightarrow> (\<forall>p n. U p = Some n \<longrightarrow> HDR \<le> p \<and> (\<exists>s. (p - HDR, s) \<in> B \<and> n + HDR \<le> s)) \<and> (\<forall>b s. (b, s) \<in> B \<longrightarrow> U (b + HDR) \<noteq> None)"

definition heap_inv :: "uheap \<times> holdings \<Rightarrow> bool" where
  "heap_inv c \<longleftrightarrow> (\<exists>bs. heap_ok (fst c) bs \<and> matches (snd c) (in_use 0 bs)) \<and> uh_size (fst c) \<le> 0xFFFFFFF0"

end
