(* ===== verification/Uheap_Inv.thy ===== *)
theory Uheap_Inv
  imports Uheap_Client
begin

text \<open>
  Each step of a client keeps the match between its holdings and the blocks in use, and leaves the bytes of
  what it goes on holding alone.
\<close>

section \<open>The operations over blocks in use\<close>

lemma in_use_split:
  assumes "(b, s) \<in> in_use 0 bs"
  obtains as cs where "bs = as @ (s, True) # cs" "b = spans as"
  using placed_split [of b s True 0 bs] assms by (auto simp: in_use_def)

lemma in_use_unique: "sized bs \<Longrightarrow> (b, s) \<in> in_use 0 bs \<Longrightarrow> (b, t) \<in> in_use 0 bs \<Longrightarrow> s = t"
  using placed_apart [of bs b s True 0 b t True] placed_bounds [of bs b s True 0] placed_bounds [of bs b t True 0] by (auto simp: in_use_def)

lemma heap_ok_sized: "heap_ok h bs \<Longrightarrow> sized bs"
  by (auto simp: heap_ok_def core_def laid_def)

lemma heap_ok_laid: "heap_ok h bs \<Longrightarrow> laid h bs"
  by (auto simp: heap_ok_def core_def)

lemma free_not_used:
  assumes "sized bs" and "(b, s, False) \<in> set (placed 0 bs)"
  shows "(b, t) \<notin> in_use 0 bs"
proof
  assume "(b, t) \<in> in_use 0 bs"
  then have t: "(b, t, True) \<in> set (placed 0 bs)" by (simp add: in_use_def)
  show False using placed_apart [OF assms(1,2) t] placed_bounds [OF assms] placed_bounds [OF assms(1) t] by simp
qed

lemma used_split_in_use:
  assumes "sized (as @ (s, True) # cs)"
  shows "in_use 0 (as @ (s, True) # cs) - {(spans as, s)} = in_use 0 as \<union> in_use (spans as + s) cs"
proof -
  have "(spans as, s) \<notin> in_use 0 as" "(spans as, s) \<notin> in_use (spans as + s) cs"
    using assms placed_bounds [of as "spans as" s True 0] placed_bounds [of cs "spans as" s True "spans as + s"] by (auto simp: in_use_def)
  then show ?thesis by auto
qed

lemma alloc_cases:
  assumes "heap_ok h bs" and "uh_size h \<le> 0xFFFFFFF0"
  obtains (none) h' where "uheap_alloc n h = Some (None, h')" "heap_ok h' bs" "uh_mem h' = uh_mem h" "uh_size h' = uh_size h"
    "n = 0 \<or> uh_size h < n \<or> (\<forall>b s. (b, s, False) \<in> set (placed 0 bs) \<longrightarrow> s < need n)"
  | (some) b s h' bs' where "uheap_alloc n h = Some (Some (b + HDR), h')" "heap_ok h' bs'" "calm (in_use 0 bs) h h'" "uh_size h' = uh_size h"
    "in_use 0 bs' = insert (b, s) (in_use 0 bs)" "n + HDR \<le> s" "need n \<le> s" "\<And>t. (b, t) \<notin> in_use 0 bs" "0 < n"
    "\<exists>t. (b, t, False) \<in> set (placed 0 bs) \<and> need n \<le> t"
proof (cases "n = 0 \<or> uh_size h < n")
  case True
  show ?thesis
  proof (cases "n = 0")
    case True
    then show ?thesis using assms(1) by (intro none [of h]) (simp_all add: uheap_alloc_def)
  next
    case False
    then show ?thesis using True assms(1)
      by (intro none [of "h\<lparr>uh_fail_count := wrap32 (uh_fail_count h + 1)\<rparr>"]) (auto simp: uheap_alloc_def intro: heap_ok_counters)
  qed
next
  case False
  obtain L where L: "core h bs L" "listed L = frees 0 bs" using assms(1) by (auto simp: heap_ok_def)
  have sz: "sized bs" and l: "laid h bs" using L(1) by (simp_all add: core_def laid_def)
  consider b where "find_fit h (need n) = Some (Some b)" "b \<in> listed L" "need n \<le> bsize h b"
    | "find_fit h (need n) = Some None" "\<And>b. b \<in> listed L \<Longrightarrow> bsize h b < need n"
    using find_fit_spec [OF L(1), of "need n"] need_props(2,3) [of n] by (metis less_le_trans zero_less_numeral)
  then show ?thesis
  proof cases
    case 1
    then obtain s where s: "(b, s, False) \<in> set (placed 0 bs)" using L(2) by (auto simp: frees_def)
    obtain as cs where bs: "bs = as @ (s, False) # cs" "b = spans as" using placed_split [OF s] by auto
    have fit: "need n \<le> s" using laid_header(1) [OF l s] 1(3) by simp
    have n8: "n + 8 \<le> need n" using False assms(2) by (intro need_props(4)) simp
    obtain h' where h': "uheap_alloc n h = Some (Some (b + HDR), h')" "heap_ok h' (carve as s cs (need n))" "calm (in_use 0 bs) h h'" "uh_size h' = uh_size h"
      using alloc_fits [of h as s cs n] assms(1) False 1(1) bs fit by auto
    define t where "t = (if need n + MIN_BLOCK \<le> s then need n else s)"
    have "in_use 0 (carve as s cs (need n)) = insert (b, t) (in_use 0 bs)" using bs by (auto simp: carve_def t_def MIN_BLOCK_def)
    moreover have "n + HDR \<le> t" "need n \<le> t" using n8 fit by (auto simp: t_def HDR_def)
    moreover have "(b, t') \<notin> in_use 0 bs" for t' by (rule free_not_used [OF sz s])
    ultimately show ?thesis using h' False s fit by (intro some [of b h' "carve as s cs (need n)" t]) auto
  next
    case 2
    have "s < need n" if "(b, s, False) \<in> set (placed 0 bs)" for b s
      using 2(2) [of b] laid_header(1) [OF l that] that L(2) by (auto simp: frees_def)
    moreover have "heap_ok (h\<lparr>uh_fail_count := wrap32 (uh_fail_count h + 1)\<rparr>) bs" by (rule heap_ok_counters [OF assms(1)]) simp_all
    ultimately show ?thesis using 2(1) False by (intro none [of "h\<lparr>uh_fail_count := wrap32 (uh_fail_count h + 1)\<rparr>"]) (simp_all add: uheap_alloc_def)
  qed
qed

lemma free_cases:
  assumes "heap_ok h bs" and "(b, s) \<in> in_use 0 bs"
  obtains bs' where "heap_ok (uheap_free (Some (b + HDR)) h) bs'" "in_use 0 bs' = in_use 0 bs - {(b, s)}"
    "calm (in_use 0 bs') h (uheap_free (Some (b + HDR)) h)" "uh_size (uheap_free (Some (b + HDR)) h) = uh_size h"
proof -
  obtain as cs where bs: "bs = as @ (s, True) # cs" "b = spans as" using in_use_split [OF assms(2)] .
  have u: "in_use 0 bs - {(b, s)} = in_use 0 as \<union> in_use (b + s) cs"
    using used_split_in_use [of as s cs] heap_ok_sized [OF assms(1)] bs by simp
  show ?thesis
    using free_ok [of h as s cs] assms(1) that u unfolding bs by metis
qed

text \<open>What \<open>uheap_realloc\<close> does with a block in use, one case per exit.\<close>

lemma used_header: "heap_ok h bs \<Longrightarrow> (b, s) \<in> in_use 0 bs \<Longrightarrow> bsize h b = s \<and> bused h b \<and> owns h (b + HDR) \<and> 16 \<le> s"
  using laid_header [of h bs b s True] laid_bounds [of h bs b s True] heap_ok_laid [of h bs]
  by (auto simp: in_use_def owns_def HDR_def dvd_eq_mod_eq_0)

lemma grow_cases:
  assumes "heap_ok h bs" and "(b, s) \<in> in_use 0 bs" and "\<not> bused h (next_blk h b)" and "8 dvd w" and "s < w" and "w \<le> s + bsize h (next_blk h b)"
  obtains bs' s' where "heap_ok (grow b w h) bs'" "in_use 0 bs' = insert (b, s') (in_use 0 bs - {(b, s)})" "w \<le> s'"
    "calm (in_use 0 bs) h (grow b w h)" "uh_size (grow b w h) = uh_size h"
proof -
  obtain as cs where bs: "bs = as @ (s, True) # cs" "b = spans as" using in_use_split [OF assms(2)] .
  obtain L where L: "core h (as @ (s, True) # cs) L" using assms(1) bs by (auto simp: heap_ok_def)
  have nx: "next_blk h b = b + s" using core_at(4) [OF L] bs(2) by (simp add: next_blk_def)
  have "cs \<noteq> []" using behind_last [of h as s True L] L assms(3) nx bs(2) by auto
  then obtain t v ds where cs: "cs = (t, v) # ds" by (cases cs) auto
  have "core h ((as @ [(s, True)]) @ (t, v) # ds) L" using L cs by simp
  from core_at(4,5) [OF this] have t: "bsize h (b + s) = t" "v = False" using assms(3) nx bs(2) by simp_all
  have ok: "heap_ok h (as @ (s, True) # (t, False) # ds)" using assms(1) bs cs t by simp
  have le: "w \<le> s + t" using assms(6) nx t by simp
  obtain bs' s' where g: "heap_ok (grow b w h) bs'" "in_use 0 bs' = in_use 0 as \<union> {(b, s')} \<union> in_use (b + s + t) ds" "w \<le> s'"
    "calm (in_use 0 as \<union> in_use (b + s + t) ds \<union> {(b, s)}) h (grow b w h)" "uh_size (grow b w h) = uh_size h"
    using grow_ok [OF ok assms(4,5) le] unfolding bs(2) by metis
  have u: "in_use 0 bs - {(b, s)} = in_use 0 as \<union> in_use (b + s + t) ds"
    using used_split_in_use [of as s cs] heap_ok_sized [OF assms(1)] bs cs t(2) by simp
  then have "in_use 0 bs = in_use 0 as \<union> in_use (b + s + t) ds \<union> {(b, s)}" using assms(2) by auto
  then show ?thesis using that [OF g(1) _ g(3) _ g(5)] g(2,4) u by simp
qed

section \<open>Bytes moved and cleared\<close>

lemma zero_bytes_mem: "uh_mem (zero_bytes p n h) y = (if p \<le> y \<and> y < p + n then 0 else uh_mem h y)"
proof -
  have "fold (\<lambda>i m. m(p + i := 0)) [0..<n] m y = (if p \<le> y \<and> y < p + n then 0 else m y)" for m :: "nat \<Rightarrow> u8"
    by (induction n) auto
  then show ?thesis by (simp add: zero_bytes_def)
qed

lemma copy_bytes_mem:
  assumes "p + n \<le> q \<or> q + n \<le> p"
  shows "uh_mem (copy_bytes q p n h) y = (if q \<le> y \<and> y < q + n then uh_mem h (p + (y - q)) else uh_mem h y)"
proof -
  have "fold (\<lambda>i m. m(q + i := m (p + i))) [0..<k] m y = (if q \<le> y \<and> y < q + k then m (p + (y - q)) else m y)" if "k \<le> n" for m :: "nat \<Rightarrow> u8" and k y
    using that
  proof (induction k arbitrary: y)
    case (Suc k)
    have "\<not> (q \<le> p + k \<and> p + k < q + k)" using assms Suc.prems by auto
    then show ?case using Suc by auto
  qed auto
  then show ?thesis by (simp add: copy_bytes_def)
qed

lemma bytes_fields [simp]:
  "uh_size (zero_bytes p n h) = uh_size h" "uh_free_head (zero_bytes p n h) = uh_free_head h" "uh_used_bytes (zero_bytes p n h) = uh_used_bytes h"
  "uh_used_blocks (zero_bytes p n h) = uh_used_blocks h"
  "uh_size (copy_bytes q p n h) = uh_size h" "uh_free_head (copy_bytes q p n h) = uh_free_head h" "uh_used_bytes (copy_bytes q p n h) = uh_used_bytes h"
  "uh_used_blocks (copy_bytes q p n h) = uh_used_blocks h"
  by (simp_all add: zero_bytes_def copy_bytes_def)

lemma used_apart: "sized bs \<Longrightarrow> (b, s) \<in> in_use 0 bs \<Longrightarrow> (c, t) \<in> in_use 0 bs \<Longrightarrow> b \<noteq> c \<Longrightarrow> b + s \<le> c \<or> c + t \<le> b"
  using placed_apart [of bs b s True 0 c t True] by (auto simp: in_use_def)

lemma move_ok:
  assumes "heap_ok h bs" and "(b, s) \<in> in_use 0 bs" and "(c, t) \<in> in_use 0 bs" and "b \<noteq> c" and "s \<le> t"
  obtains bs' where "heap_ok (uheap_free (Some (b + HDR)) (copy_bytes (c + HDR) (b + HDR) (s - HDR) h)) bs'" "in_use 0 bs' = in_use 0 bs - {(b, s)}"
    "\<And>i. i < s - HDR \<Longrightarrow> uh_mem (uheap_free (Some (b + HDR)) (copy_bytes (c + HDR) (b + HDR) (s - HDR) h)) (c + HDR + i) = uh_mem h (b + HDR + i)"
    "calm (in_use 0 bs - {(b, s), (c, t)}) h (uheap_free (Some (b + HDR)) (copy_bytes (c + HDR) (b + HDR) (s - HDR) h))"
    "uh_size (uheap_free (Some (b + HDR)) (copy_bytes (c + HDR) (b + HDR) (s - HDR) h)) = uh_size h"
proof -
  let ?h1 = "copy_bytes (c + HDR) (b + HDR) (s - HDR) h"
  have sz: "sized bs" by (rule heap_ok_sized [OF assms(1)])
  have ap: "b + s \<le> c \<or> c + t \<le> b" using used_apart [OF sz assms(2-4)] .
  have s16: "16 \<le> s" using used_header [OF assms(1,2)] by simp
  have mem: "uh_mem ?h1 y = (if c + HDR \<le> y \<and> y < c + s then uh_mem h (b + HDR + (y - (c + HDR))) else uh_mem h y)" for y
    using copy_bytes_mem [of "b + HDR" "s - HDR" "c + HDR" h y] ap assms(5) s16 by (auto simp: HDR_def)
  have ok1: "heap_ok ?h1 bs"
    by (rule payload_write [OF assms(1,3)]) (use mem assms(5) in \<open>auto simp: same_outside_def\<close>)
  obtain bs' where f: "heap_ok (uheap_free (Some (b + HDR)) ?h1) bs'" "in_use 0 bs' = in_use 0 bs - {(b, s)}"
    "calm (in_use 0 bs') ?h1 (uheap_free (Some (b + HDR)) ?h1)" "uh_size (uheap_free (Some (b + HDR)) ?h1) = uh_size ?h1"
    using free_cases [OF ok1 assms(2)] .
  have c': "(c, t) \<in> in_use 0 bs'" using f(2) assms(3,4) by simp
  show ?thesis
  proof (rule that [OF f(1,2)])
    show "uh_mem (uheap_free (Some (b + HDR)) ?h1) (c + HDR + i) = uh_mem h (b + HDR + i)" if i: "i < s - HDR" for i
    proof -
      have "uh_mem (uheap_free (Some (b + HDR)) ?h1) (c + HDR + i) = uh_mem ?h1 (c + HDR + i)"
        by (rule calmD [OF f(3) c']) (use i assms(5) in simp_all)
      moreover have "c + HDR \<le> c + HDR + i" "c + HDR + i < c + s" using i by simp_all
      ultimately show ?thesis using mem [of "c + HDR + i"] by simp
    qed
    show "uh_size (uheap_free (Some (b + HDR)) ?h1) = uh_size h" using f(4) by simp
    have "calm (in_use 0 bs - {(b, s), (c, t)}) ?h1 (uheap_free (Some (b + HDR)) ?h1)" by (rule calm_subset [OF f(3)]) (use f(2) in auto)
    moreover have "calm (in_use 0 bs - {(b, s), (c, t)}) h ?h1"
    proof (rule calmI)
      fix x z y
      assume d: "(x, z) \<in> in_use 0 bs - {(b, s), (c, t)}" and y: "x + HDR \<le> y" "y < x + z"
      then have x: "(x, z) \<in> in_use 0 bs" "(x, z) \<noteq> (c, t)" by blast+
      have "x \<noteq> c" using x in_use_unique [OF sz x(1), of t] assms(3) by auto
      then have "x + z \<le> c \<or> c + t \<le> x" by (rule used_apart [OF sz x(1) assms(3)])
      then show "uh_mem ?h1 y = uh_mem h y" using mem [of y] y assms(5) by (auto simp: HDR_def)
    qed
    ultimately show "calm (in_use 0 bs - {(b, s), (c, t)}) h (uheap_free (Some (b + HDR)) ?h1)" by (rule calm_trans [rotated])
  qed
qed

section \<open>Holdings\<close>

lemma matches_gain:
  "matches U B \<Longrightarrow> n + HDR \<le> s \<Longrightarrow> (\<And>t. (b, t) \<notin> B) \<Longrightarrow> matches (U(b + HDR \<mapsto> n)) (insert (b, s) B)"
  unfolding matches_def by (auto simp: HDR_def; fastforce)

lemma matches_lose:
  assumes "matches U B" and "(b, s) \<in> B" and "\<And>t. (b, t) \<in> B \<Longrightarrow> t = s"
  shows "matches (U(b + HDR := None)) (B - {(b, s)})"
  unfolding matches_def
proof (intro conjI allI impI)
  fix p n
  assume p: "(U(b + HDR := None)) p = Some n"
  then have u: "U p = Some n" "p \<noteq> b + HDR" by (auto split: if_splits)
  then have "HDR \<le> p \<and> (\<exists>t. (p - HDR, t) \<in> B \<and> n + HDR \<le> t)" using assms(1) unfolding matches_def by blast
  then obtain t where t: "HDR \<le> p" "(p - HDR, t) \<in> B" "n + HDR \<le> t" by blast
  then have "(p - HDR, t) \<noteq> (b, s)" using u(2) by auto
  then show "HDR \<le> p" "\<exists>s'. (p - HDR, s') \<in> B - {(b, s)} \<and> n + HDR \<le> s'" using t by blast+
next
  fix c t
  assume "(c, t) \<in> B - {(b, s)}"
  then show "(U(b + HDR := None)) (c + HDR) \<noteq> None" using assms(1,3) by (auto simp: matches_def)
qed

lemma matches_held:
  assumes "matches U B" and "U p = Some n"
  obtains b s where "p = b + HDR" "(b, s) \<in> B" "n + HDR \<le> s"
  using assms unfolding matches_def by (metis le_add_diff_inverse2)

text \<open>The bytes of what is held before and after are the same.\<close>

definition kept :: "holdings \<Rightarrow> holdings \<Rightarrow> uheap \<Rightarrow> uheap \<Rightarrow> bool" where
  "kept U U' h h' \<longleftrightarrow> (\<forall>p n n' i. U p = Some n \<longrightarrow> U' p = Some n' \<longrightarrow> i < n \<longrightarrow> i < n' \<longrightarrow> uh_mem h' (p + i) = uh_mem h (p + i))"

lemma kept_calm:
  assumes "matches U B" and "calm V h h'" and "\<And>b s n'. (b, s) \<in> B \<Longrightarrow> U' (b + HDR) = Some n' \<Longrightarrow> (b, s) \<in> V"
  shows "kept U U' h h'"
  unfolding kept_def
proof (intro allI impI)
  fix p n n' i
  assume a: "U p = Some n" "U' p = Some n'" "i < n" "i < n'"
  obtain b s where b: "p = b + HDR" "(b, s) \<in> B" "n + HDR \<le> s" using matches_held [OF assms(1) a(1)] .
  have "(b, s) \<in> V" using assms(3) [OF b(2)] a(2) b(1) by simp
  moreover have "b + HDR \<le> p + i" "p + i < b + s" using a(3) b(1,3) by simp_all
  ultimately show "uh_mem h' (p + i) = uh_mem h (p + i)" by (rule calmD [OF assms(2)])
qed

lemma kept_mem: "uh_mem h' = uh_mem h \<Longrightarrow> kept U U' h h'"
  by (simp add: kept_def)

end
