(* ===== verification/Uheap_Steps.thy ===== *)
theory Uheap_Steps
  imports Uheap_Inv
begin

text \<open>The invariant of a client's runs: each step returns, keeps the match and the bytes held.\<close>

lemma heap_invI: "heap_ok h bs \<Longrightarrow> matches U (in_use 0 bs) \<Longrightarrow> uh_size h \<le> 0xFFFFFFF0 \<Longrightarrow> heap_inv (h, U)"
  by (auto simp: heap_inv_def)

lemma heap_invE:
  assumes "heap_inv (h, U)"
  obtains bs where "heap_ok h bs" "matches U (in_use 0 bs)" "uh_size h \<le> 0xFFFFFFF0"
  using assms by (auto simp: heap_inv_def)

section \<open>Allocation\<close>

lemma new_key: "matches U B \<Longrightarrow> (\<And>t. (b, t) \<notin> B) \<Longrightarrow> U (b + HDR) = None"
proof (cases "U (b + HDR)")
  case (Some n)
  assume a: "matches U B" "\<And>t. (b, t) \<notin> B"
  have "\<exists>s. (b + HDR - HDR, s) \<in> B" using a(1) Some unfolding matches_def by blast
  then show ?thesis using a(2) by simp
qed

lemma alloc_step:
  assumes "heap_inv (h, U)"
  obtains r h' where "uheap_alloc n h = Some (r, h')" "heap_inv (h', gain r n U)" "kept U (gain r n U) h h'"
    "\<And>p. r = Some p \<Longrightarrow> U p = None"
proof -
  obtain bs where bs: "heap_ok h bs" "matches U (in_use 0 bs)" "uh_size h \<le> 0xFFFFFFF0" using heap_invE [OF assms] .
  show ?thesis
  proof (cases rule: alloc_cases [OF bs(1,3), of n])
    case (1 h')
    show ?thesis
      by (rule that [OF 1(1)]) (use 1 bs in \<open>auto simp: gain_def intro: heap_invI kept_mem\<close>)
  next
    case (2 b s h' bs')
    have m: "matches (U(b + HDR \<mapsto> n)) (in_use 0 bs')" unfolding 2(5) by (rule matches_gain [OF bs(2) 2(6) 2(8)])
    have k: "kept U (U(b + HDR \<mapsto> n)) h h'" by (rule kept_calm [OF bs(2) 2(3)])
    show ?thesis
      by (rule that [OF 2(1)]) (use 2(2,4) m k bs(3) new_key [OF bs(2) 2(8)] in \<open>auto simp: gain_def intro: heap_invI\<close>)
  qed
qed

lemma store_within:
  assumes "heap_inv (h, U)" and "U p = Some n" and "same_outside {p..<p + n} h h'"
    and "uh_size h' = uh_size h" "uh_free_head h' = uh_free_head h" "uh_used_bytes h' = uh_used_bytes h" "uh_used_blocks h' = uh_used_blocks h"
  shows "heap_inv (h', U)"
proof -
  obtain bs where bs: "heap_ok h bs" "matches U (in_use 0 bs)" "uh_size h \<le> 0xFFFFFFF0" using heap_invE [OF assms(1)] .
  obtain b s where b: "p = b + HDR" "(b, s) \<in> in_use 0 bs" "n + HDR \<le> s" using matches_held [OF bs(2) assms(2)] .
  have "same_outside {b + HDR..<b + s} h h'" by (rule same_outside_mono [OF assms(3)]) (use b in auto)
  from payload_write [OF bs(1) b(2) this assms(4-7)] show ?thesis using bs(2,3) assms(4) by (intro heap_invI) simp_all
qed

text \<open>Two allocations held never share a byte.\<close>

lemma held_apart:
  assumes "heap_inv (h, U)" and "U p = Some n" and "U q = Some m" and "p \<noteq> q"
  shows "p + n \<le> q \<or> q + m \<le> p"
proof -
  obtain bs where bs: "heap_ok h bs" "matches U (in_use 0 bs)" using heap_invE [OF assms(1)] .
  obtain b s where b: "p = b + HDR" "(b, s) \<in> in_use 0 bs" "n + HDR \<le> s" using matches_held [OF bs(2) assms(2)] .
  obtain c t where c: "q = c + HDR" "(c, t) \<in> in_use 0 bs" "m + HDR \<le> t" using matches_held [OF bs(2) assms(3)] .
  show ?thesis using used_apart [OF heap_ok_sized [OF bs(1)] b(2) c(2)] b c assms(4) by auto
qed

lemma calloc_step:
  assumes "heap_inv (h, U)" and "n < 2 ^ 32" and "m < 2 ^ 32"
  obtains r h' where "uheap_calloc n m h = Some (r, h')" "heap_inv (h', gain r (n * m) U)" "kept U (gain r (n * m) U) h h'"
    "\<And>p. r = Some p \<Longrightarrow> U p = None \<and> (\<forall>i < n * m. uh_mem h' (p + i) = 0)"
proof (cases "n \<noteq> 0 \<and> 0xffffffff div n < m")
  case True
  obtain bs where bs: "heap_ok h bs" "matches U (in_use 0 bs)" "uh_size h \<le> 0xFFFFFFF0" using heap_invE [OF assms(1)] .
  have "heap_ok (h\<lparr>uh_fail_count := wrap32 (uh_fail_count h + 1)\<rparr>) bs" by (rule heap_ok_counters [OF bs(1)]) simp_all
  then show ?thesis using True bs
    by (intro that [of None "h\<lparr>uh_fail_count := wrap32 (uh_fail_count h + 1)\<rparr>"]) (auto simp: uheap_calloc_def gain_def intro: heap_invI kept_mem)
next
  case False
  have "n * m < 2 ^ 32"
  proof (cases "n = 0")
    case False
    then have "m \<le> 0xffffffff div n" using \<open>\<not> (n \<noteq> 0 \<and> _)\<close> by simp
    then have "n * m \<le> n * (0xffffffff div n)" by simp
    also have "\<dots> \<le> 0xffffffff" by (rule times_div_less_eq_dividend)
    finally show ?thesis by simp
  qed simp
  then have w: "wrap32 (n * m) = n * m" by (simp add: wrap32_def)
  obtain r h1 where a: "uheap_alloc (n * m) h = Some (r, h1)" "heap_inv (h1, gain r (n * m) U)" "kept U (gain r (n * m) U) h h1"
    "\<And>p. r = Some p \<Longrightarrow> U p = None"
    using alloc_step [OF assms(1)] by metis
  show ?thesis
  proof (cases r)
    case None
    have "uheap_calloc n m h = Some (None, h1)" using a(1) w False None by (auto simp: uheap_calloc_def)
    then show ?thesis using that [of None h1] a None by simp
  next
    case (Some p)
    let ?U = "U(p \<mapsto> n * m)" and ?h = "zero_bytes p (n * m) h1"
    have g: "gain r (n * m) U = ?U" using Some by (simp add: gain_def)
    have run: "uheap_calloc n m h = Some (r, ?h)" using a(1) w False Some by (auto simp: uheap_calloc_def)
    have inv: "heap_inv (?h, ?U)"
      by (rule store_within [OF a(2) [unfolded g], of p "n * m"]) (simp_all add: same_outside_def zero_bytes_mem)
    have "kept U ?U h ?h"
      unfolding kept_def
    proof (intro allI impI)
      fix q k k' i
      assume q: "U q = Some k" "?U q = Some k'" "i < k" "i < k'"
      have qp: "q \<noteq> p" using q(1) a(4) [OF Some] by auto
      then have "p + n * m \<le> q \<or> q + k \<le> p" using held_apart [OF a(2) [unfolded g], of p "n * m" q k] q(1) by simp
      moreover have "uh_mem h1 (q + i) = uh_mem h (q + i)" using a(3) q g unfolding kept_def by metis
      ultimately show "uh_mem ?h (q + i) = uh_mem h (q + i)" using q(3) by (auto simp: zero_bytes_mem)
    qed
    then show ?thesis using that [OF run] inv g a(4) [OF Some] Some by (simp add: zero_bytes_mem)
  qed
qed

section \<open>Release\<close>

lemma free_step:
  assumes "heap_inv (h, U)" and "held ptr U"
  shows "heap_inv (uheap_free ptr h, lose ptr U)" "kept U (lose ptr U) h (uheap_free ptr h)"
proof -
  have "heap_inv (uheap_free ptr h, lose ptr U) \<and> kept U (lose ptr U) h (uheap_free ptr h)"
  proof (cases ptr)
    case None
    then show ?thesis using assms(1) by (simp add: uheap_free_def lose_def kept_mem)
  next
    case (Some p)
    obtain n where n: "U p = Some n" using assms(2) Some by (auto simp: held_def)
    obtain bs where bs: "heap_ok h bs" "matches U (in_use 0 bs)" "uh_size h \<le> 0xFFFFFFF0" using heap_invE [OF assms(1)] .
    obtain b s where b: "p = b + HDR" "(b, s) \<in> in_use 0 bs" "n + HDR \<le> s" using matches_held [OF bs(2) n] .
    have un: "t = s" if "(b, t) \<in> in_use 0 bs" for t using in_use_unique [OF heap_ok_sized [OF bs(1)] that b(2)] .
    obtain bs' where f: "heap_ok (uheap_free (Some p) h) bs'" "in_use 0 bs' = in_use 0 bs - {(b, s)}"
      "calm (in_use 0 bs') h (uheap_free (Some p) h)" "uh_size (uheap_free (Some p) h) = uh_size h"
      using free_cases [OF bs(1) b(2)] unfolding b(1) .
    have "matches (U(p := None)) (in_use 0 bs')" unfolding b(1) f(2) by (rule matches_lose [OF bs(2) b(2) un])
    moreover have "kept U (U(p := None)) h (uheap_free (Some p) h)"
      by (rule kept_calm [OF bs(2) f(3)]) (use f(2) b(1) in \<open>auto split: if_splits\<close>)
    ultimately show ?thesis using f(1,4) bs(3) Some by (auto simp: lose_def intro: heap_invI)
  qed
  then show "heap_inv (uheap_free ptr h, lose ptr U)" "kept U (lose ptr U) h (uheap_free ptr h)" by simp_all
qed

section \<open>Resizing\<close>

lemma realloc_used:
  assumes "heap_ok h bs" and "(b, s) \<in> in_use 0 bs" and "n \<noteq> 0"
  shows "uheap_realloc (Some (b + HDR)) n h =
    (if need n \<le> s then Some (Some (b + HDR), h)
     else if \<not> bused h (next_blk h b) \<and> need n \<le> s + bsize h (next_blk h b) then Some (Some (b + HDR), grow b (need n) h)
     else (case uheap_alloc n h of
         None \<Rightarrow> None
       | Some (None, h') \<Rightarrow> Some (None, h')
       | Some (Some q, h') \<Rightarrow> Some (Some q, uheap_free (Some (b + HDR)) (copy_bytes q (b + HDR) (s - HDR) h'))))"
proof -
  have u: "bsize h b = s" "bused h b" "owns h (b + HDR)" "16 \<le> s" using used_header [OF assms(1,2)] by simp_all
  have "b + s + 8 < 4294967296" using laid_bounds(5) [OF heap_ok_laid [OF assms(1)]] assms(2) by (auto simp: in_use_def)
  then have "sub32 s HDR = s - HDR" using u(4) by (intro sub32_le) (simp_all add: HDR_def)
  then show ?thesis using u assms(3) by (simp add: uheap_realloc_def Let_def split: option.split)
qed

text \<open>Taking one holding for another, in place or moved.\<close>

lemma matches_resize:
  assumes "matches U B" and "(b, s) \<in> B" and "\<And>t. (b, t) \<in> B \<Longrightarrow> t = s" and "n + HDR \<le> s'"
  shows "matches (U(b + HDR \<mapsto> n)) (insert (b, s') (B - {(b, s)}))"
proof -
  have 1: "matches (U(b + HDR := None)) (B - {(b, s)})" by (rule matches_lose [OF assms(1-3)])
  have "(b, t) \<notin> B - {(b, s)}" for t using assms(3) by auto
  from matches_gain [OF 1 assms(4) this] show ?thesis by simp
qed

lemma realloc_step:
  assumes "heap_inv (h, U)" and "U p = Some m" and "n \<le> 0xFFFFFFF0" and "n \<noteq> 0"
  obtains (failed) h' where "uheap_realloc (Some p) n h = Some (None, h')" "heap_inv (h', U)" "uh_mem h' = uh_mem h"
  | (resized) q h' where "uheap_realloc (Some p) n h = Some (Some q, h')" "heap_inv (h', U(p := None, q \<mapsto> n))" "kept U (U(p := None, q \<mapsto> n)) h h'"
    "\<And>i. i < m \<Longrightarrow> i < n \<Longrightarrow> uh_mem h' (q + i) = uh_mem h (p + i)"
proof -
  obtain bs where bs: "heap_ok h bs" "matches U (in_use 0 bs)" "uh_size h \<le> 0xFFFFFFF0" using heap_invE [OF assms(1)] .
  obtain b s where b: "p = b + HDR" "(b, s) \<in> in_use 0 bs" "m + HDR \<le> s" using matches_held [OF bs(2) assms(2)] .
  have un: "t = s" if "(b, t) \<in> in_use 0 bs" for t using in_use_unique [OF heap_ok_sized [OF bs(1)] that b(2)] .
  have n8: "n + HDR \<le> need n" using need_props(4) [OF assms(3)] by (simp add: HDR_def)
  note run = realloc_used [OF bs(1) b(2) assms(4)]
  show ?thesis
  proof (cases "need n \<le> s")
    case True
    have "matches (U(b + HDR \<mapsto> n)) (insert (b, s) (in_use 0 bs - {(b, s)}))"
      by (rule matches_resize [OF bs(2) b(2) un]) (use n8 True in simp_all)
    then have "matches (U(p := None, p \<mapsto> n)) (in_use 0 bs)" using b(1,2) by (simp add: insert_absorb)
    then show ?thesis using run True b(1) bs(1,3) by (intro resized [of p h]) (auto intro: heap_invI kept_mem)
  next
    case False
    show ?thesis
    proof (cases "\<not> bused h (next_blk h b) \<and> need n \<le> s + bsize h (next_blk h b)")
      case True
      have "s < need n" using False by simp
      obtain bs' s' where g: "heap_ok (grow b (need n) h) bs'" "in_use 0 bs' = insert (b, s') (in_use 0 bs - {(b, s)})" "need n \<le> s'"
        "calm (in_use 0 bs) h (grow b (need n) h)" "uh_size (grow b (need n) h) = uh_size h"
        using grow_cases [OF bs(1) b(2) _ need_props(1) \<open>s < need n\<close>] True by blast
      have "matches (U(b + HDR \<mapsto> n)) (in_use 0 bs')"
        unfolding g(2) by (rule matches_resize [OF bs(2) b(2) un]) (use n8 g(3) in simp_all)
      then have inv: "heap_inv (grow b (need n) h, U(p := None, p \<mapsto> n))" using g(1,5) bs(3) b(1) by (intro heap_invI) simp_all
      show ?thesis
      proof (rule resized [of p "grow b (need n) h"])
        show "uheap_realloc (Some p) n h = Some (Some p, grow b (need n) h)" using run False True b(1) by simp
        show "heap_inv (grow b (need n) h, U(p := None, p \<mapsto> n))" by (rule inv)
        show "kept U (U(p := None, p \<mapsto> n)) h (grow b (need n) h)" by (rule kept_calm [OF bs(2) g(4)])
        show "uh_mem (grow b (need n) h) (p + i) = uh_mem h (p + i)" if "i < m" for i
          by (rule calmD [OF g(4) b(2)]) (use that b(1,3) in simp_all)
      qed
    next
      case no_room: False
      show ?thesis
      proof (cases rule: alloc_cases [OF bs(1,3), of n])
        case (1 h')
        have "uheap_realloc (Some p) n h = Some (None, h')" using run False no_room 1(1) b(1) by auto
        then show ?thesis using 1(2-4) bs(2,3) by (intro failed [of h']) (auto intro: heap_invI)
      next
        case (2 c t h1 bs1)
        have cb: "c \<noteq> b" using 2(8) b(2) by auto
        have in1: "(b, s) \<in> in_use 0 bs1" "(c, t) \<in> in_use 0 bs1" using 2(5) b(2) by simp_all
        have st: "s \<le> t" using 2(7) False by simp
        let ?h = "uheap_free (Some (b + HDR)) (copy_bytes (c + HDR) (b + HDR) (s - HDR) h1)"
        obtain bs' where f: "heap_ok ?h bs'" "in_use 0 bs' = in_use 0 bs1 - {(b, s)}"
          "\<And>i. i < s - HDR \<Longrightarrow> uh_mem ?h (c + HDR + i) = uh_mem h1 (b + HDR + i)"
          "calm (in_use 0 bs1 - {(b, s), (c, t)}) h1 ?h" "uh_size ?h = uh_size h1"
          using move_ok [OF 2(2) in1 cb [symmetric] st] by metis
        let ?U = "U(p := None, c + HDR \<mapsto> n)"
        have r: "uheap_realloc (Some p) n h = Some (Some (c + HDR), ?h)" using run False no_room 2(1) b(1) by auto
        have B: "in_use 0 bs' = insert (c, t) (in_use 0 bs - {(b, s)})" using f(2) 2(5) cb by auto
        have "matches ?U (in_use 0 bs')"
          unfolding B b(1) by (rule matches_gain [OF matches_lose [OF bs(2) b(2) un] 2(6)]) (use 2(8) in auto)
        then have inv: "heap_inv (?h, ?U)" using f(1,5) 2(4) bs(3) by (intro heap_invI) simp_all
        have "calm (in_use 0 bs - {(b, s)}) h ?h"
          by (rule calm_trans [OF calm_subset [OF 2(3)] calm_subset [OF f(4)]]) (use 2(5,8) in auto)
        then have k: "kept U ?U h ?h"
        proof (rule kept_calm [OF bs(2)])
          show "(x, z) \<in> in_use 0 bs - {(b, s)}" if "(x, z) \<in> in_use 0 bs" "?U (x + HDR) = Some n'" for x z n'
            using that cb b(1) by (auto split: if_splits)
        qed
        show ?thesis
        proof (rule resized [OF r inv k])
          fix i
          assume "i < m"
          then have i: "i < s - HDR" "b + HDR \<le> p + i" "p + i < b + s" using b(1,3) by simp_all
          have "uh_mem h1 (p + i) = uh_mem h (p + i)" by (rule calmD [OF 2(3) b(2) i(2,3)])
          then show "uh_mem ?h (c + HDR + i) = uh_mem h (p + i)" using f(3) [OF i(1)] b(1) by simp
        qed
      qed
    qed
  qed
qed

section \<open>Every run\<close>

lemma step_inv:
  assumes "heap_step c act c'" and "heap_inv c"
  shows "heap_inv c'"
  using assms
proof cases
  case (step_alloc n h r h' U)
  then show ?thesis using alloc_step [of h U n] assms(2) by (metis option.inject prod.inject)
next
  case (step_calloc n m h r h' U)
  then show ?thesis using calloc_step [of h U n m] assms(2) by (metis option.inject prod.inject)
next
  case (step_free ptr U h)
  then show ?thesis using free_step(1) [of h U ptr] assms(2) by simp
next
  case (step_realloc ptr U n h r h')
  show ?thesis
  proof (cases ptr)
    case None
    then have "uheap_alloc n h = Some (r, h')" using step_realloc(6) by (simp add: uheap_realloc_def)
    then have "heap_inv (h', gain r n U)" using alloc_step [of h U n] assms(2) step_realloc(1) by (metis option.inject prod.inject)
    then show ?thesis using step_realloc None by (auto simp: lose_def gain_def)
  next
    case (Some p)
    obtain m where m: "U p = Some m" using step_realloc(4) Some by (auto simp: held_def)
    show ?thesis
    proof (cases "n = 0")
      case True
      then have "r = None" "h' = uheap_free ptr h" using step_realloc(6) Some by (simp_all add: uheap_realloc_def)
      then show ?thesis using free_step(1) [of h U ptr] assms(2) step_realloc(1-4) True by (simp add: gain_def)
    next
      case False
      have inv: "heap_inv (h, U)" using assms(2) step_realloc(1) by simp
      show ?thesis
        using realloc_step [OF inv m step_realloc(5) False] step_realloc(3,6) Some False
        by cases (auto simp: gain_def lose_def)
    qed
  qed
next
  case (step_store U p n a h v)
  have "same_outside {p..<p + n} h (h\<lparr>uh_mem := (uh_mem h)(a := v)\<rparr>)" using step_store by (auto simp: same_outside_def)
  then show ?thesis using store_within [of h U p n "h\<lparr>uh_mem := (uh_mem h)(a := v)\<rparr>"] step_store assms(2) by simp
qed

lemma step_kept:
  assumes "heap_step c act c'" and "heap_inv c" and "\<And>a v. act \<noteq> Store a v"
  shows "kept (snd c) (snd c') (fst c) (fst c')"
  using assms(1)
proof cases
  case (step_alloc n h r h' U)
  then show ?thesis using alloc_step [of h U n] assms(2) by (metis fst_conv snd_conv option.inject prod.inject)
next
  case (step_calloc n m h r h' U)
  then show ?thesis using calloc_step [of h U n m] assms(2) by (metis fst_conv snd_conv option.inject prod.inject)
next
  case (step_free ptr U h)
  then show ?thesis using free_step(2) [of h U ptr] assms(2) by simp
next
  case (step_realloc ptr U n h r h')
  have inv: "heap_inv (h, U)" using assms(2) step_realloc(1) by simp
  show ?thesis
  proof (cases ptr)
    case None
    then have "uheap_alloc n h = Some (r, h')" using step_realloc(6) by (simp add: uheap_realloc_def)
    then have k: "kept U (gain r n U) h h'" using alloc_step [OF inv, of n] by (metis option.inject prod.inject)
    show ?thesis using k step_realloc None by (cases r) (simp_all add: lose_def gain_def)
  next
    case (Some p)
    obtain m where m: "U p = Some m" using step_realloc(4) Some by (auto simp: held_def)
    show ?thesis
    proof (cases "n = 0")
      case True
      then have "r = None" "h' = uheap_free ptr h" using step_realloc(6) Some by (simp_all add: uheap_realloc_def)
      then show ?thesis using free_step(2) [OF inv step_realloc(4)] step_realloc(1,3) True by (simp add: gain_def)
    next
      case False
      show ?thesis
        using realloc_step [OF inv m step_realloc(5) False] step_realloc(1,3,6) Some False
        by cases (auto simp: gain_def lose_def kept_mem)
    qed
  qed
next
  case (step_store U p n a h v)
  then show ?thesis using assms(3) by simp
qed

lemma reach_inv: "heap_reach c \<Longrightarrow> heap_inv c"
proof (induction rule: heap_reach.induct)
  case (reach_init n a h0 h)
  have p: "a mod 8 = 0" "64 \<le> n" using reach_init(2) by (auto simp: uheap_init_def split: if_splits)
  obtain h1 where "uheap_init (Some a) n (Some h0) = (True, Some h1)" "heap_ok h1 [(8 * (n div 8) - 8, False)]" "uh_size h1 = 8 * (n div 8)"
    using init_ok [OF p, of h0] reach_init(1) by auto
  then show ?case using reach_init by (intro heap_invI) (auto simp: matches_def)
next
  case (reach_step c act c')
  then show ?case using step_inv by blast
qed

end
