(* ===== verification/Uheap_Check.thy ===== *)
theory Uheap_Check
  imports Uheap_Steps
begin

text \<open>
  The readers of the arena on a well-formed heap: the check finds no error, the statistics return the
  largest and the sum of the free blocks.
\<close>

section \<open>The walk over the blocks\<close>

definition blocks_free :: "block_list \<Rightarrow> nat" where
  "blocks_free bs = length (filter (Not \<circ> snd) bs)"

definition free_total :: "block_list \<Rightarrow> nat" where
  "free_total bs = sum_list (map (\<lambda>(s, u). if u then 0 else s - HDR) bs)"

lemma blocks_free_simps [simp]: "blocks_free [] = 0" "blocks_free ((s, u) # bs) = of_bool (\<not> u) + blocks_free bs"
  by (simp_all add: blocks_free_def)

lemma free_total_simps [simp]: "free_total [] = 0" "free_total ((s, u) # bs) = (if u then 0 else s - 8) + free_total bs"
  by (simp_all add: free_total_def HDR_def)

text \<open>The sentinel ends every walk.\<close>

lemma at_end:
  assumes "laid h bs"
  shows "bsize h (spans bs) = 0" "bused h (spans bs)" "rd h (at_prev (spans bs)) = prior_size 0 bs" "spans bs + HDR = uh_size h" "uh_size h < 4294967296"
proof -
  have "rd h (spans bs) = 0 + of_bool True" "rd h (at_prev (spans bs)) = prior_size 0 bs"
    using assms by (simp_all add: laid_def hseg_append at_size_def)
  then show "bsize h (spans bs) = 0" "bused h (spans bs)" "rd h (at_prev (spans bs)) = prior_size 0 bs" "spans bs + HDR = uh_size h" "uh_size h < 4294967296"
    using bsize_even [of 0 h "spans bs" True] assms by (simp_all add: laid_def)
qed

lemma at_block:
  assumes "laid h (as @ (s, u) # cs)"
  shows "bsize h (spans as) = s" "bused h (spans as) = u" "rd h (at_prev (spans as)) = prior_size 0 as" "16 \<le> s" "8 dvd s"
    "spans as + s + 8 \<le> uh_size h" "uh_size h < 4294967296"
  using laid_header [OF assms, of "spans as" s u] laid_bounds [OF assms, of "spans as" s u] assms
  by (simp_all add: laid_def hseg_append at_size_def)

lemma payload_fits: "laid h (as @ cs) \<Longrightarrow> payload_total as + payload_total cs < 4294967296"
  using payload_total_le [of as] payload_total_le [of cs] by (simp add: laid_def)

lemma check_walk_ok:
  assumes "laid h (as @ cs)" and "coalesced cs" and "y + payload_total cs < 4294967296"
  shows "check_walk h (spans as) (prior_size 0 as) e f b y = Some (e, f + blocks_free cs, b + blocks_used cs, y + payload_total cs)"
  using assms
proof (induction cs arbitrary: as f b y)
  case Nil
  then have l: "laid h as" by simp
  note n = at_end [OF l]
  show ?case using n by (subst check_walk.simps) (simp add: wrap32_def)
next
  case (Cons x cs)
  obtain s u where x: "x = (s, u)" by (rule prod.exhaust)
  have l: "laid h (as @ (s, u) # cs)" using Cons.prems(1) x by simp
  note a = at_block [OF l]
  have s8: "s mod 8 = 0" using a(5) by (simp add: dvd_eq_mod_eq_0)
  have sp: "wrap32 (spans as + s) = spans (as @ [(s, u)])" "wrap32 (spans as + HDR) = spans as + HDR" "\<not> uh_size h < spans as + HDR"
      "\<not> uh_size h - HDR < spans as + s"
    using a(4,6,7) by (simp_all add: wrap32_def HDR_def)
  have ih: "check_walk h (spans (as @ [(s, u)])) s e f' b' y' = Some (e, f' + blocks_free cs, b' + blocks_used cs, y' + payload_total cs)"
    if "y' + payload_total cs < 4294967296" for f' b' y'
    using Cons.IH [of "as @ [(s, u)]" y' f' b'] Cons.prems x that by (cases u) simp_all
  have nx: "\<not> (\<not> bused h (spans as + s) \<and> bsize h (spans as + s) \<noteq> 0)" if "\<not> u"
  proof (cases cs)
    case Nil
    then have "bused h (spans (as @ [(s, u)]))" using at_end(2) [of h "as @ [(s, u)]"] l by simp
    then show ?thesis by simp
  next
    case (Cons z ds)
    obtain t v where z: "z = (t, v)" by (rule prod.exhaust)
    have "laid h ((as @ [(s, u)]) @ (t, v) # ds)" using l Cons z by simp
    from at_block(2) [OF this] show ?thesis using Cons.prems(2) x that Cons z by simp
  qed
  have sub: "sub32 s HDR = s - 8" using a(4,6,7) by (subst sub32_le) (simp_all add: HDR_def)
  show ?case
  proof (cases u)
    case True
    have "y + (s - 8) + payload_total cs < 4294967296" "wrap32 (y + (s - 8)) = y + (s - 8)"
      using Cons.prems(3) x True by (simp_all add: wrap32_def)
    then show ?thesis
      using a ih sp s8 sub x True by (subst check_walk.simps) (simp add: Let_def MIN_BLOCK_def HDR_def)
  next
    case False
    then show ?thesis
      using a ih [of y] sp s8 nx x Cons.prems(3) by (subst check_walk.simps) (auto simp: Let_def MIN_BLOCK_def HDR_def)
  qed
qed

lemma free_walk_ok:
  assumes "laid h (as @ cs)" and "y + free_total cs < 4294967296"
  shows "free_walk h (spans as) y = Some (y + free_total cs)"
  using assms
proof (induction cs arbitrary: as y)
  case Nil
  then have l: "laid h as" by simp
  note n = at_end [OF l]
  show ?case using n by (subst free_walk.simps) (simp add: wrap32_def)
next
  case (Cons x cs)
  obtain s u where x: "x = (s, u)" by (rule prod.exhaust)
  have l: "laid h (as @ (s, u) # cs)" using Cons.prems(1) x by simp
  note a = at_block [OF l]
  have sp: "wrap32 (spans as + s) = spans (as @ [(s, u)])" "wrap32 (spans as + HDR) = spans as + HDR" "\<not> uh_size h < spans as + HDR"
    using a(4,6,7) by (simp_all add: wrap32_def HDR_def)
  have ih: "free_walk h (spans (as @ [(s, u)])) y' = Some (y' + free_total cs)" if "y' + free_total cs < 4294967296" for y'
    using Cons.IH [of "as @ [(s, u)]" y'] Cons.prems x that by simp
  have sub: "sub32 s HDR = s - 8" using a(4,6,7) by (subst sub32_le) (simp_all add: HDR_def)
  have w: "\<not> u \<Longrightarrow> wrap32 (y + (s - 8)) = y + (s - 8)" using Cons.prems(2) x by (simp add: wrap32_def)
  show ?case using a ih sp sub x w Cons.prems(2) by (subst free_walk.simps) (cases u; simp add: Let_def)
qed

section \<open>The lists\<close>

lemma check_list_ok:
  assumes "dll h lnk p xs" and "\<And>b. b \<in> set xs \<Longrightarrow> \<not> bused h b \<and> cls (bsize h b) = c \<and> b < uh_size h"
    and "guard + length xs \<le> uh_size h div MIN_BLOCK + 1"
  shows "check_list h c lnk p guard (e, k) = (e, k + length xs)"
  using assms
proof (induction xs arbitrary: lnk p guard k)
  case Nil
  then show ?case by (subst check_list.simps) simp
next
  case (Cons x xs)
  have ih: "check_list h c (rd h (at_next x)) (x + 1) (guard + 1) (e, k + 1) = (e, k + 1 + length xs)"
    using Cons by simp
  have g: "\<not> (uh_size h < x + 1 \<or> uh_size h div MIN_BLOCK + 1 < guard + 1)" using Cons.prems(2) [of x] Cons.prems(3) by simp
  show ?case using Cons.prems(1) Cons.prems(2) [of x] ih g by (subst check_list.simps) (simp add: Let_def)
qed

lemma frees_card: "sized bs \<Longrightarrow> finite (frees off bs) \<and> card (frees off bs) = blocks_free bs"
proof (induction bs arbitrary: off)
  case (Cons x bs)
  obtain s u where x: "x = (s, u)" by (rule prod.exhaust)
  have "off \<notin> frees (off + s) bs" using Cons.prems x starts_bounds [of bs off "off + s"] frees_starts by auto
  then show ?case using Cons x by (cases u) auto
qed simp

lemma blocks_free_le: "sized bs \<Longrightarrow> 16 * blocks_free bs \<le> spans bs"
  by (induction bs) auto

lemma lists_total:
  assumes "linked h L" and "finite (listed L)"
  shows "(\<Sum>c < UHEAP_CLASSES. length (L c)) = card (listed L)"
proof -
  have "card (listed L) = (\<Sum>c < UHEAP_CLASSES. card (set (L c)))"
    unfolding listed_def
  proof (rule card_UN_disjoint)
    show "\<forall>c \<in> {..<UHEAP_CLASSES}. \<forall>d \<in> {..<UHEAP_CLASSES}. c \<noteq> d \<longrightarrow> set (L c) \<inter> set (L d) = {}"
      by (auto dest: other_class [OF assms(1)])
  qed auto
  also have "\<dots> = (\<Sum>c < UHEAP_CLASSES. length (L c))" using linkedD [OF assms(1)] by (intro sum.cong) (auto simp: distinct_card)
  finally show ?thesis by simp
qed

lemma check_ok:
  assumes "heap_ok h bs"
  shows "uheap_check h = Some 0"
proof -
  obtain L where L: "core h bs L" "listed L = frees 0 bs" using assms by (auto simp: heap_ok_def)
  have lb: "laid h bs" and lk: "linked h L" and sz: "sized bs" and tot: "spans bs + 8 = uh_size h"
    using L(1) by (simp_all add: core_def laid_def HDR_def)
  have cnt: "coalesced bs" "uh_used_blocks h = blocks_used bs" "uh_used_bytes h = payload_total bs" using assms by (simp_all add: heap_ok_def)
  have walk: "check_walk h 0 0 0 0 0 0 = Some (0, blocks_free bs, blocks_used bs, payload_total bs)"
    using check_walk_ok [of h "[]" bs 0 0 0 0] lb cnt(1) payload_fits [of h "[]" bs] by simp
  have fin: "finite (listed L)" "card (listed L) = blocks_free bs" using frees_card [OF sz] L(2) by simp_all
  have blk: "\<not> bused h b \<and> b < uh_size h" if "b \<in> listed L" for b
  proof -
    obtain s where s: "(b, s, False) \<in> set (placed 0 bs)" using \<open>b \<in> listed L\<close> L(2) by (auto simp: frees_def)
    show ?thesis using laid_header(2) [OF lb s] laid_bounds(1) [OF lb s] by simp
  qed
  have one: "check_list h c (free_head h c) 0 0 (e, k) = (e, k + length (L c))" if c: "c < UHEAP_CLASSES" for c e k
  proof (rule check_list_ok)
    show "dll h (free_head h c) 0 (L c)" using linkedD [OF lk c] by simp
    show "\<not> bused h b \<and> cls (bsize h b) = c \<and> b < uh_size h" if "b \<in> set (L c)" for b
      using linkedD [OF lk c] that blk [OF listedI [where L = L, OF c that]] by simp
    have "length (L c) = card (set (L c))" using linkedD [OF lk c] by (simp add: distinct_card)
    also have "\<dots> \<le> card (listed L)" using listedI [where L = L, OF c] by (intro card_mono fin(1)) blast
    also have "\<dots> \<le> uh_size h div MIN_BLOCK"
      using blocks_free_le [OF sz] tot fin(2) by (simp add: MIN_BLOCK_def)
    finally show "0 + length (L c) \<le> uh_size h div MIN_BLOCK + 1" by simp
  qed
  have "fold (\<lambda>c. check_list h c (free_head h c) 0 0) cs (0, k) = (0, k + sum_list (map (\<lambda>c. length (L c)) cs))" if "set cs \<subseteq> {..<UHEAP_CLASSES}" for cs k
    using that by (induction cs arbitrary: k) (simp_all add: one add.assoc)
  then have "fold (\<lambda>c. check_list h c (free_head h c) 0 0) [0..<UHEAP_CLASSES] (0, 0) = (0, sum_list (map (\<lambda>c. length (L c)) [0..<UHEAP_CLASSES]))"
    by (simp add: atLeast_upt [symmetric] lessThan_atLeast0)
  also have "sum_list (map (\<lambda>c. length (L c)) [0..<UHEAP_CLASSES]) = blocks_free bs"
    using lists_total [OF lk fin(1)] fin(2) by (simp add: interv_sum_list_conv_sum_set_nat atLeast0LessThan)
  finally show ?thesis using walk cnt by (simp add: uheap_check_def Let_def)
qed

section \<open>The largest free block\<close>

lemma largest_in_ok:
  "dll h lnk p xs \<Longrightarrow> (\<And>b. b \<in> set xs \<Longrightarrow> b + 1 < uh_size h) \<Longrightarrow> largest_in h lnk best = Some (fold (\<lambda>b. max (bsize h b)) xs best)"
proof (induction xs arbitrary: lnk p best)
  case Nil
  then show ?case by (subst largest_in.simps) simp
next
  case (Cons x xs)
  have ih: "largest_in h (rd h (at_next x)) b = Some (fold (\<lambda>b. max (bsize h b)) xs b)" for b
    using Cons.IH [of "rd h (at_next x)" "x + 1" b] Cons.prems by simp
  have "\<not> uh_size h \<le> x + 1" using Cons.prems(2) [of x] by simp
  moreover have "(if best < bsize h x then bsize h x else best) = max (bsize h x) best" by auto
  ultimately show ?case using Cons.prems(1) ih by (subst largest_in.simps) (simp add: Let_def)
qed

lemma fold_max_Max: "fold (\<lambda>b. max (f b)) xs (k :: nat) = Max (insert k (f ` set xs))"
proof (induction xs arbitrary: k)
  case (Cons x xs)
  have "fold (\<lambda>b. max (f b)) (x # xs) k = Max (insert (max (f x) k) (f ` set xs))" using Cons by simp
  also have "\<dots> = Max (insert k (f ` set (x # xs)))" by (cases "set xs = {}") (simp_all add: max.assoc max.left_commute max.commute)
  finally show ?case .
qed simp

lemma largest_ok:
  assumes "heap_ok h bs"
  obtains m where "uheap_largest_free h = Some m" "m = 0 \<or> 8 \<le> m" "\<And>w. 16 \<le> w \<Longrightarrow> m + HDR < w \<longleftrightarrow> (\<forall>b s. (b, s, False) \<in> set (placed 0 bs) \<longrightarrow> s < w)"
proof -
  obtain L where L: "core h bs L" "listed L = frees 0 bs" using assms by (auto simp: heap_ok_def)
  have lb: "laid h bs" and lk: "linked h L" and sz: "sized bs" using L(1) by (simp_all add: core_def laid_def)
  have blk: "b + 1 < uh_size h \<and> 16 \<le> bsize h b" if "b \<in> listed L" for b
  proof -
    obtain s where s: "(b, s, False) \<in> set (placed 0 bs)" using \<open>b \<in> listed L\<close> L(2) by (auto simp: frees_def)
    show ?thesis using laid_header(1) [OF lb s] laid_bounds(1,2) [OF lb s] by simp
  qed
  have one: "largest_in h (free_head h c) best = Some (fold (\<lambda>b. max (bsize h b)) (L c) best)" if c: "c < UHEAP_CLASSES" for c best
    using linkedD [OF lk c] blk listedI [where L = L, OF c] by (intro largest_in_ok [where p = 0]) blast+
  have "largest_from h cs best = Some (fold (\<lambda>b. max (bsize h b)) (concat (map L cs)) best)" if "set cs \<subseteq> {..<UHEAP_CLASSES}" for cs best
    using that by (induction cs arbitrary: best) (simp_all add: one)
  then have "largest_from h [0..<UHEAP_CLASSES] 0 = Some (fold (\<lambda>b. max (bsize h b)) (concat (map L [0..<UHEAP_CLASSES])) 0)"
    by (simp add: atLeast_upt [symmetric] lessThan_atLeast0)
  also have "\<dots> = Some (Max (insert 0 (bsize h ` listed L)))"
    by (simp add: fold_max_Max listed_def lessThan_atLeast0)
  finally have lf: "largest_from h [0..<UHEAP_CLASSES] 0 = Some (Max (insert 0 (bsize h ` listed L)))" .
  define x where "x = Max (insert 0 (bsize h ` listed L))"
  have fin: "finite (insert 0 (bsize h ` listed L))" using frees_card [OF sz] L(2) by simp
  have x: "x < w \<longleftrightarrow> (\<forall>b \<in> listed L. bsize h b < w)" if "16 \<le> w" for w using fin that by (auto simp: x_def)
  have x16: "x = 0 \<or> 16 \<le> x" using Max_in [OF fin] blk by (auto simp: x_def)
  define m where "m = (if HDR < x then x - HDR else 0)"
  have "uheap_largest_free h = Some m" using lf by (simp add: uheap_largest_free_def m_def x_def)
  moreover have "m = 0 \<or> 8 \<le> m" using x16 by (auto simp: m_def HDR_def)
  moreover have "m + HDR < w \<longleftrightarrow> (\<forall>b s. (b, s, False) \<in> set (placed 0 bs) \<longrightarrow> s < w)" if w: "16 \<le> w" for w
  proof -
    have "m + HDR < w \<longleftrightarrow> x < w" using x16 w by (auto simp: m_def HDR_def)
    also have "\<dots> \<longleftrightarrow> (\<forall>b s. (b, s, False) \<in> set (placed 0 bs) \<longrightarrow> bsize h b < w)" using x [OF w] L(2) by (auto simp: frees_def)
    also have "\<dots> \<longleftrightarrow> (\<forall>b s. (b, s, False) \<in> set (placed 0 bs) \<longrightarrow> s < w)" using laid_header(1) [OF lb] by simp
    finally show ?thesis .
  qed
  ultimately show ?thesis by (rule that)
qed

end
