(* ===== verification/Uheap_Correct.thy ===== *)
theory Uheap_Correct
  imports Uheap_Check
begin

text \<open>
  What the heap promises its client in every state it can reach, and two calls that break the promise:
  a resize to nearly the whole address space, and the check of an arena with one damaged header.
\<close>

section \<open>A run of a client\<close>

text \<open>An arena of 128 bytes, then allocations of 24 and of 9 bytes.\<close>

definition blank_heap :: uheap where
  "blank_heap = \<lparr>uh_mem = (\<lambda>_. 0), uh_size = 0, uh_free_head = [], uh_used_bytes = 0, uh_used_blocks = 0, uh_high_water = 0, uh_fail_count = 0\<rparr>"

definition heap0 :: uheap where "heap0 = the (snd (uheap_init (Some 0) 128 (Some blank_heap)))"
definition heap1 :: uheap where "heap1 = snd (the (uheap_alloc 24 heap0))"
definition heap2 :: uheap where "heap2 = snd (the (uheap_alloc 9 heap1))"

lemma alloc_from_tail:
  assumes "heap_ok h (as @ [(s, False)])" and "frees 0 as = {}" and "0 < n" and "n \<le> uh_size h" and "need n \<le> s"
  obtains h' where "uheap_alloc n h = Some (Some (spans as + HDR), h')" "heap_ok h' (carve as s [] (need n))" "uh_size h' = uh_size h"
proof -
  obtain L where L: "core h (as @ [(s, False)]) L" "listed L = {spans as}" using heap_ok_at [OF assms(1)] assms(2) by auto
  have "bsize h (spans as) = s" by (rule core_at(4) [OF L(1)])
  then have f: "find_fit h (need n) = Some (Some (spans as))"
    using find_fit_spec [OF L(1), of "need n"] need_props(2,3) [of n] assms(5) L(2)
    by (metis insertI1 leD less_le_trans singletonD zero_less_numeral)
  show ?thesis using alloc_fits [OF assms(1,3,4) f assms(5)] that by metis
qed

lemma need_values: "need 24 = 32" "need 9 = 24"
  by (simp_all add: need_def wrap32_def HDR_def MIN_BLOCK_def)

lemma heap_demo_states:
  "heap_ok heap0 [(120, False)]" "heap_reach (heap0, Map.empty)" "uh_size heap0 = 128"
  "uheap_alloc 24 heap0 = Some (Some 8, heap1)" "heap_ok heap1 [(32, True), (88, False)]"
  "uheap_alloc 9 heap1 = Some (Some 40, heap2)" "heap_ok heap2 [(32, True), (24, True), (64, False)]" "uh_size heap2 = 128"
proof -
  obtain h where h: "uheap_init (Some 0) 128 (Some blank_heap) = (True, Some h)" "heap_ok h [(8 * (128 div 8) - 8, False)]" "uh_size h = 8 * (128 div 8)"
    using init_ok [of 0 128 blank_heap] by auto
  have d0: "heap0 = h" by (simp add: heap0_def h(1))
  show ok0: "heap_ok heap0 [(120, False)]" and s0: "uh_size heap0 = 128" using h(2,3) d0 by simp_all
  show "heap_reach (heap0, Map.empty)" by (rule reach_init [of 128 0 blank_heap]) (simp_all add: h(1) d0)
  obtain h1 where h1: "uheap_alloc 24 heap0 = Some (Some 8, h1)" "heap_ok h1 [(32, True), (88, False)]" "uh_size h1 = 128"
    using alloc_from_tail [of heap0 "[]" 120 24] ok0 s0 by (auto simp: need_values carve_def MIN_BLOCK_def HDR_def)
  have d1: "heap1 = h1" by (simp add: heap1_def h1(1))
  show "uheap_alloc 24 heap0 = Some (Some 8, heap1)" and ok1: "heap_ok heap1 [(32, True), (88, False)]" using h1 d1 by simp_all
  obtain h2 where h2: "uheap_alloc 9 heap1 = Some (Some 40, h2)" "heap_ok h2 [(32, True), (24, True), (64, False)]" "uh_size h2 = 128"
    using alloc_from_tail [of heap1 "[(32, True)]" 88 9] ok1 h1(3) d1 by (auto simp: need_values carve_def MIN_BLOCK_def HDR_def)
  have "heap2 = h2" by (simp add: heap2_def h2(1))
  then show "uheap_alloc 9 heap1 = Some (Some 40, heap2)" "heap_ok heap2 [(32, True), (24, True), (64, False)]" "uh_size heap2 = 128"
    using h2 by simp_all
qed

lemma heap_demo_reach: "heap_reach (heap1, [8 \<mapsto> 24])" "heap_reach (heap2, [8 \<mapsto> 24, 40 \<mapsto> 9])"
proof -
  have "heap_step (heap0, Map.empty) (Alloc 24 (Some 8)) (heap1, gain (Some 8) 24 Map.empty)"
    by (rule step_alloc) (simp_all add: heap_demo_states(4))
  then show 1: "heap_reach (heap1, [8 \<mapsto> 24])" using reach_step [OF heap_demo_states(2)] by (simp add: gain_def)
  have "heap_step (heap1, [8 \<mapsto> 24]) (Alloc 9 (Some 40)) (heap2, gain (Some 40) 9 [8 \<mapsto> 24])"
    by (rule step_alloc) (simp_all add: heap_demo_states(6))
  then show "heap_reach (heap2, [8 \<mapsto> 24, 40 \<mapsto> 9])" using reach_step [OF 1] by (simp add: gain_def)
qed

section \<open>Properties\<close>

lemma reach_ok:
  assumes "heap_reach (h, U)"
  obtains bs where "heap_ok h bs" "matches U (in_use 0 bs)" "uh_size h \<le> 0xFFFFFFF0"
  using heap_invE [OF reach_inv [OF assms]] .

text \<open>
  C13: \<open>uheap_check\<close> finds nothing wrong in any state a client can reach: whatever it allocates, frees,
  resizes and stores in its own allocations, headers, free lists and counters stay consistent.
\<close>
theorem heap_stays_consistent:
  assumes "heap_reach (h, U)"
  shows "uheap_check h = Some 0"
  using reach_ok [OF assms] check_ok by metis

theorem heap_stays_consistent_witness: "uheap_check heap2 = Some 0"
  by (rule heap_stays_consistent [OF heap_demo_reach(2)])

text \<open>
  C14: Allocations held at the same time share no byte, are aligned to 8 and lie between the first header
  and the sentinel.
\<close>
theorem heap_allocations_apart:
  assumes "heap_reach (h, U)" and "U p = Some n" and "U q = Some m" and "p \<noteq> q"
  shows "8 dvd p \<and> HDR \<le> p \<and> p + n + HDR \<le> uh_size h \<and> (p + n \<le> q \<or> q + m \<le> p)"
proof -
  obtain bs where bs: "heap_ok h bs" "matches U (in_use 0 bs)" using reach_ok [OF assms(1)] .
  obtain b s where b: "p = b + HDR" "(b, s) \<in> in_use 0 bs" "n + HDR \<le> s" using matches_held [OF bs(2) assms(2)] .
  have "b + s + 8 \<le> uh_size h" "8 dvd b" using laid_bounds(1,4) [OF heap_ok_laid [OF bs(1)]] b(2) by (auto simp: in_use_def)
  then show ?thesis using held_apart [OF reach_inv [OF assms(1)] assms(2-4)] b(1,3) by (simp add: HDR_def)
qed

theorem heap_allocations_apart_witness: "8 dvd (8 :: nat) \<and> HDR \<le> 8 \<and> 8 + 24 + HDR \<le> uh_size heap2 \<and> (8 + 24 \<le> (40 :: nat) \<or> 40 + 9 \<le> (8 :: nat))"
  by (rule heap_allocations_apart [OF heap_demo_reach(2)]) simp_all

text \<open>
  C15: No call to the heap changes a byte of an allocation the client holds before and after it, apart from
  its own stores.
\<close>
theorem heap_bytes_kept:
  assumes "heap_reach (h, U)" and "heap_step (h, U) act (h', U')" and "\<And>a v. act \<noteq> Store a v"
    and "U p = Some n" and "U' p = Some n'" and "i < n" and "i < n'"
  shows "uh_mem h' (p + i) = uh_mem h (p + i)"
proof -
  have inv: "heap_inv (h, U)" by (rule reach_inv [OF assms(1)])
  have "kept U U' h h'" using step_kept [OF assms(2) inv assms(3)] by simp
  then show ?thesis using assms(4-7) by (simp add: kept_def)
qed

theorem heap_bytes_kept_witness: "uh_mem heap2 (8 + 23) = uh_mem heap1 (8 + 23)"
proof (rule heap_bytes_kept [OF heap_demo_reach(1), where n = 24 and n' = 24])
  show "heap_step (heap1, [8 \<mapsto> 24]) (Alloc 9 (Some 40)) (heap2, gain (Some 40) 9 [8 \<mapsto> 24])"
    by (rule step_alloc) (simp_all add: heap_demo_states(6))
qed (simp_all add: gain_def)

text \<open>
  C16: A resize that succeeds hands back the old contents up to the smaller of the two sizes, whether the
  block stayed, grew into its neighbour or moved.
\<close>
theorem realloc_keeps_bytes:
  assumes "heap_reach (h, U)" and "U p = Some m" and "n \<le> 0xFFFFFFF0"
    and "uheap_realloc (Some p) n h = Some (Some q, h')" and "i < m" and "i < n"
  shows "uh_mem h' (q + i) = uh_mem h (p + i)"
  using realloc_step [OF reach_inv [OF assms(1)] assms(2,3)] assms(4-6) by (metis option.inject option.distinct(1) prod.inject not_less_zero)

theorem realloc_keeps_bytes_witness:
  "\<exists>q h'. uheap_realloc (Some 8) 40 heap2 = Some (Some q, h') \<and> q \<noteq> 8 \<and> uh_mem h' (q + 5) = uh_mem heap2 (8 + 5)"
proof -
  let ?bs = "[(32, True), (24, True), (64, False)]"
  have u: "(0, 32) \<in> in_use 0 ?bs" by simp
  have nd: "need 40 = 48" by (simp add: need_def wrap32_def HDR_def MIN_BLOCK_def)
  have "bused heap2 32" "bsize heap2 0 = 32"
    using laid_header [OF heap_ok_laid [OF heap_demo_states(7)]] by simp_all
  then have nx: "bused heap2 (next_blk heap2 0)" by (simp add: next_blk_def)
  have ok: "heap_ok heap2 ([(32, True), (24, True)] @ [(64, False)])" using heap_demo_states(7) by simp
  obtain h1 where a: "uheap_alloc 40 heap2 = Some (Some 64, h1)"
    using alloc_from_tail [OF ok, of 40] heap_demo_states(8) nd by (auto simp: HDR_def)
  have "\<exists>h'. uheap_realloc (Some 8) 40 heap2 = Some (Some 64, h')"
    using realloc_used [OF heap_demo_states(7) u, of 40] nx a nd by (simp add: HDR_def)
  then obtain h' where r: "uheap_realloc (Some 8) 40 heap2 = Some (Some 64, h')" by blast
  have "uh_mem h' (64 + 5) = uh_mem heap2 (8 + 5)"
    by (rule realloc_keeps_bytes [OF heap_demo_reach(2), where m = 24 and n = 40]) (simp_all add: r)
  then show ?thesis using r by (intro exI [of _ 64] exI [of _ h']) simp
qed

text \<open>
  C17: A request that fits the arena is refused exactly when no free block is large enough for it and its
  header, as \<open>uheap_largest_free\<close> reports.
\<close>
theorem heap_alloc_complete:
  assumes "heap_reach (h, U)" and "0 < n" and "n \<le> uh_size h"
  shows "(\<exists>h'. uheap_alloc n h = Some (None, h')) \<longleftrightarrow> (\<exists>m. uheap_largest_free h = Some m \<and> m + HDR < need n)"
proof -
  obtain bs where bs: "heap_ok h bs" "uh_size h \<le> 0xFFFFFFF0" using reach_ok [OF assms(1)] by metis
  obtain m where m: "uheap_largest_free h = Some m"
    "m + HDR < need n \<longleftrightarrow> (\<forall>b s. (b, s, False) \<in> set (placed 0 bs) \<longrightarrow> s < need n)"
    using largest_ok [OF bs(1)] need_props(2) [of n] by metis
  show ?thesis
  proof (cases rule: alloc_cases [OF bs, of n])
    case (1 h')
    then show ?thesis using m assms(2,3) by auto
  next
    case (2 b s h' bs')
    then have "\<not> m + HDR < need n" using m(2) by (meson leD)
    then show ?thesis using m(1) 2(1) by simp
  qed
qed

theorem heap_alloc_complete_witness:
  "(\<exists>h'. uheap_alloc 57 heap2 = Some (None, h')) \<longleftrightarrow> (\<exists>m. uheap_largest_free heap2 = Some m \<and> m + HDR < need 57)"
  by (rule heap_alloc_complete [OF heap_demo_reach(2)]) (simp_all add: heap_demo_states(8))

text \<open>
  C18: Nothing is lost: when the client holds nothing, the arena is one free block again, whatever was
  allocated, resized and freed in whatever order.
\<close>
theorem all_freed_whole_arena:
  assumes "heap_reach (h, Map.empty)"
  shows "uheap_largest_free h = Some (uh_size h - 2 * HDR)"
proof -
  obtain bs where bs: "heap_ok h bs" "matches Map.empty (in_use 0 bs)" using reach_ok [OF assms] .
  have l: "laid h bs" by (rule heap_ok_laid [OF bs(1)])
  have co: "coalesced bs" using bs(1) by (simp add: heap_ok_def)
  have free: "u = False" if su: "(s, u) \<in> set bs" for s u
  proof (rule ccontr)
    assume "u \<noteq> False"
    then obtain as cs where "bs = as @ (s, True) # cs" using split_list [OF su] by auto
    then have "(spans as, s) \<in> in_use 0 bs" by simp
    then show False using bs(2) by (auto simp: matches_def)
  qed
  have sz: "spans bs + 8 = uh_size h" "sized bs" using l by (simp_all add: laid_def HDR_def)
  obtain m where m: "uheap_largest_free h = Some m" "m = 0 \<or> 8 \<le> m"
    "\<And>w. 16 \<le> w \<Longrightarrow> m + HDR < w \<longleftrightarrow> (\<forall>b s. (b, s, False) \<in> set (placed 0 bs) \<longrightarrow> s < w)"
    using largest_ok [OF bs(1)] by metis
  show ?thesis
  proof (cases bs)
    case Nil
    then show ?thesis using m(1,2) m(3) [of 16] sz(1) by (auto simp: HDR_def)
  next
    case (Cons x cs)
    obtain s u where x: "x = (s, u)" by (rule prod.exhaust)
    have "cs = []"
    proof (rule ccontr)
      assume "cs \<noteq> []"
      then obtain t v ds where "cs = (t, v) # ds" by (cases cs) auto
      then show False using co Cons x free [of s u] free [of t v] by simp
    qed
    then have b: "bs = [(s, False)]" using Cons x free [of s u] by simp
    have "16 \<le> s" using sz(2) b by simp
    then have "\<not> m + 8 < s" "m + 8 < s + 1" using m(3) [of s] m(3) [of "s + 1"] b by (simp_all add: HDR_def)
    then show ?thesis using m(1) sz(1) b by (simp add: HDR_def)
  qed
qed

theorem all_freed_whole_arena_witness: "uheap_largest_free (uheap_free (Some 8) heap1) = Some (uh_size (uheap_free (Some 8) heap1) - 2 * HDR)"
proof (rule all_freed_whole_arena)
  have "heap_step (heap1, [8 \<mapsto> 24]) (Free (Some 8)) (uheap_free (Some 8) heap1, lose (Some 8) [8 \<mapsto> 24])"
    by (rule step_free) (simp add: held_def)
  then show "heap_reach (uheap_free (Some 8) heap1, Map.empty)" using reach_step [OF heap_demo_reach(1)] by (simp add: lose_def)
qed

text \<open>
  C19: Every call returns: from a reachable state the scans of the free lists and the walks over the blocks
  all come to an end.
\<close>
theorem heap_calls_return:
  assumes "heap_reach (h, U)" and "n \<le> 0xFFFFFFF0" and "m < 2 ^ 32" and "held ptr U"
  shows "uheap_alloc n h \<noteq> None \<and> uheap_calloc n m h \<noteq> None \<and> uheap_realloc ptr n h \<noteq> None \<and>
    uheap_largest_free h \<noteq> None \<and> uheap_free_bytes h \<noteq> None"
proof (intro conjI)
  have inv: "heap_inv (h, U)" by (rule reach_inv [OF assms(1)])
  obtain bs where bs: "heap_ok h bs" using reach_ok [OF assms(1)] by metis
  show a: "uheap_alloc n h \<noteq> None" using alloc_step [OF inv, of n] by (metis option.distinct(1))
  have "n < 2 ^ 32" using assms(2) by simp
  then show "uheap_calloc n m h \<noteq> None" using calloc_step [OF inv _ assms(3)] by (metis option.distinct(1))
  show "uheap_realloc ptr n h \<noteq> None"
  proof (cases "ptr = None \<or> n = 0")
    case True
    then show ?thesis using a by (auto simp: uheap_realloc_def split: option.split)
  next
    case False
    then obtain p k where "ptr = Some p" "U p = Some k" using assms(4) by (auto simp: held_def)
    then show ?thesis using realloc_step [OF inv _ assms(2)] False by (metis option.distinct(1))
  qed
  show "uheap_largest_free h \<noteq> None" using largest_ok [OF bs] by (metis option.distinct(1))
  have l: "laid h ([] @ bs)" using heap_ok_laid [OF bs] by simp
  have "free_total bs \<le> spans bs" by (induction bs) auto
  then have "free_total bs < 4294967296" using l by (simp add: laid_def)
  then show "uheap_free_bytes h \<noteq> None" using free_walk_ok [OF l, of 0] by (simp add: uheap_free_bytes_def)
qed

theorem heap_calls_return_witness:
  "uheap_alloc 70 heap2 \<noteq> None \<and> uheap_calloc 70 3 heap2 \<noteq> None \<and> uheap_realloc (Some 40) 70 heap2 \<noteq> None \<and>
    uheap_largest_free heap2 \<noteq> None \<and> uheap_free_bytes heap2 \<noteq> None"
  by (rule heap_calls_return [OF heap_demo_reach(2)]) (simp_all add: held_def)

section \<open>Where it goes wrong\<close>

text \<open>
  A resize to more than 0xFFFFFFF0 bytes succeeds without giving a byte more: the size with its header
  wraps to the smallest block, so the block already held passes for big enough.
\<close>
theorem realloc_wraps:
  assumes "heap_reach (h, U)" and "U p = Some m" and "0xFFFFFFF0 < n" and "n < 2 ^ 32"
  shows "uheap_realloc (Some p) n h = Some (Some p, h)"
proof -
  obtain bs where bs: "heap_ok h bs" "matches U (in_use 0 bs)" using reach_ok [OF assms(1)] .
  obtain b s where b: "p = b + HDR" "(b, s) \<in> in_use 0 bs" using matches_held [OF bs(2) assms(2)] .
  obtain k where k: "n + HDR + 7 = 4294967296 + k" "k < 15" using assms(3,4) le_Suc_ex [of 4294967296 "n + HDR + 7"] by (auto simp: HDR_def)
  have "wrap32 (n + HDR + 7) = k" unfolding k(1) using k(2) by (simp add: wrap32_def)
  then have "need n = 16" using k(2) by (simp add: need_def MIN_BLOCK_def Let_def)
  then show ?thesis using realloc_used [OF bs(1) b(2)] used_header [OF bs(1) b(2)] assms(3) b(1) by simp
qed

theorem realloc_wraps_witness: "uheap_realloc (Some 8) 0xFFFFFFF8 heap2 = Some (Some 8, heap2)"
  by (rule realloc_wraps [OF heap_demo_reach(2), where m = 24]) simp_all

text \<open>The walk of the check between two headers that lead to each other.\<close>

lemma walk_circles:
  assumes "check_walk h off prev e f b y = Some r"
    and "64 \<le> uh_size h" "uh_size h < 4294967296" "bsize h 0 = 16" "bsize h 16 = 0xFFFFFFF0"
  shows "off \<noteq> 0 \<and> off \<noteq> 16"
proof -
  have "h = h \<longrightarrow> off \<noteq> 0 \<and> off \<noteq> 16"
  proof (rule check_walk.raw_induct [where P = "\<lambda>h' off _ _ _ _ _ _. h' = h \<longrightarrow> off \<noteq> 0 \<and> off \<noteq> 16", OF _ assms(1)])
    fix walk h' off prev errors free_in_walk block_list nbytes r
    assume ih: "\<And>h' off prev errors free_in_walk block_list nbytes r. walk h' off prev errors free_in_walk block_list nbytes = Some r \<Longrightarrow>
        h' = h \<longrightarrow> off \<noteq> 0 \<and> off \<noteq> 16"
      and run: "(if uh_size h' < wrap32 (off + HDR) then Some (errors + 1, free_in_walk, block_list, nbytes)
        else let s = bsize h' off; errors1 = if rd h' (at_prev off) \<noteq> prev then errors + 1 else errors
          in if s = 0 then Some (if off \<noteq> uh_size h' - HDR \<or> \<not> bused h' off then errors1 + 1 else errors1, free_in_walk, block_list, nbytes)
            else if s mod 8 \<noteq> 0 \<or> s < MIN_BLOCK \<or> uh_size h' - HDR < wrap32 (off + s) then Some (errors1 + 1, free_in_walk, block_list, nbytes)
            else if bused h' off then walk h' (wrap32 (off + s)) s errors1 free_in_walk (block_list + 1) (wrap32 (nbytes + sub32 s HDR))
            else walk h' (wrap32 (off + s)) s
              (if \<not> bused h' (wrap32 (off + s)) \<and> bsize h' (wrap32 (off + s)) \<noteq> 0 then errors1 + 1 else errors1)
              (free_in_walk + 1) block_list nbytes) = Some r"
    show "h' = h \<longrightarrow> off \<noteq> 0 \<and> off \<noteq> 16"
    proof (intro impI conjI notI)
      have no: "walk h 16 p e f b y \<noteq> Some r" "walk h 0 p e f b y \<noteq> Some r" for p e f b y using ih by blast+
      show False if "h' = h" "off = 0"
        using run that assms(2-4) no by (auto simp: wrap32_def HDR_def MIN_BLOCK_def Let_def split: if_splits)
      show False if "h' = h" "off = 16"
        using run that assms(2,3,5) no by (auto simp: wrap32_def HDR_def MIN_BLOCK_def Let_def split: if_splits)
    qed
  qed
  then show ?thesis by simp
qed

text \<open>
  \<open>uheap_check\<close> does not come back from an arena in which the second header was overwritten with
  0xFFFFFFF0: offset and size wrap in 32 bits, the bound lets the sum pass and the walk starts over.
\<close>
theorem check_runs_away:
  assumes "64 \<le> uh_size h" and "uh_size h < 2 ^ 32" and "bsize h 0 = 16" and "bsize h 16 = 0xFFFFFFF0"
  shows "uheap_check h = None"
proof (cases "check_walk h 0 0 0 0 0 0")
  case None
  then show ?thesis by (simp add: uheap_check_def)
next
  case (Some r)
  then show ?thesis using walk_circles [OF Some assms(1) _ assms(3,4)] assms(2) by simp
qed

text \<open>An allocation of 8 bytes from the 128-byte arena, and a store of one word just past it.\<close>

theorem check_runs_away_witness:
  "\<exists>h. uheap_alloc 8 heap0 = Some (Some 8, h) \<and> uheap_check h = Some 0 \<and> uheap_check (wr (8 + 8) 0xFFFFFFF0 h) = None"
proof -
  have "need 8 = 16" by (simp add: need_def wrap32_def HDR_def MIN_BLOCK_def)
  then obtain h where h: "uheap_alloc 8 heap0 = Some (Some 8, h)" "heap_ok h [(16, True), (104, False)]" "uh_size h = 128"
    using alloc_from_tail [of heap0 "[]" 120 8] heap_demo_states(1,3) by (auto simp: carve_def MIN_BLOCK_def HDR_def)
  have b: "bsize h 0 = 16" using laid_header(1) [OF heap_ok_laid [OF h(2)], of 0 16 True] by simp
  let ?h = "wr (8 + 8) 0xFFFFFFF0 h"
  have "bsize ?h 0 = 16" "bsize ?h 16 = 0xFFFFFFF0" using b by (simp_all add: bsize_def at_size_def rd_wr wrap32_def)
  then have "uheap_check ?h = None" using h(3) by (intro check_runs_away) simp_all
  then show ?thesis using h(1) check_ok [OF h(2)] by blast
qed

end
