(* ===== verification/Der.thy ===== *)
theory Der
  imports Prelude
begin

text \<open>
  ASN.1 DER, base64 and PEM (\<open>kernel/der.c\<close>).  The writer's buffer is a list of bytes written by index, its
  \<open>len\<close> the bytes used so far; a span of the reader is the list of its bytes; text is a string.
\<close>

section \<open>The writer\<close>

definition DER_INTEGER :: u8 where "DER_INTEGER = 0x02"
definition DER_MAX_DEPTH :: nat where "DER_MAX_DEPTH = 10"

record der_writer =
  dw_buf :: bytes
  dw_cap :: nat
  dw_len :: nat
  dw_open :: "nat list"
  dw_depth :: nat
  dw_err :: bool

definition der_writer_init :: "bytes \<Rightarrow> nat \<Rightarrow> der_writer \<Rightarrow> der_writer" where
  "der_writer_init buf cap w = w\<lparr>dw_buf := buf, dw_cap := cap, dw_len := 0, dw_depth := 0, dw_err := False\<rparr>"

definition set_err :: "der_writer \<Rightarrow> der_writer" where
  "set_err w = w\<lparr>dw_err := True\<rparr>"

definition put_byte :: "u8 \<Rightarrow> der_writer \<Rightarrow> der_writer" where
  "put_byte b w =
     (if dw_err w then w
      else if dw_cap w \<le> dw_len w then set_err w
      else w\<lparr>dw_buf := (dw_buf w)[dw_len w := b], dw_len := dw_len w + 1\<rparr>)"

definition put_header :: "u8 \<Rightarrow> nat \<Rightarrow> der_writer \<Rightarrow> der_writer" where
  "put_header tag n w =
     (let w1 = put_byte tag w
      in if n < 0x80 then put_byte (word_of_nat n) w1
         else if n < 0x100 then put_byte (word_of_nat n) (put_byte 0x81 w1)
         else if n < 0x10000 then put_byte (word_of_nat n) (put_byte (word_of_nat (n div 256)) (put_byte 0x82 w1))
         else set_err w1)"

definition der_begin :: "u8 \<Rightarrow> der_writer \<Rightarrow> der_writer" where
  "der_begin tag w =
     (if dw_err w then w
      else if DER_MAX_DEPTH \<le> dw_depth w then set_err w
      else
        (let w1 = put_byte tag w;
             w2 = w1\<lparr>dw_open := (dw_open w1)[dw_depth w1 := dw_len w1], dw_depth := dw_depth w1 + 1\<rparr>
         in put_byte 0 w2))"

text \<open>\<open>memmove(&buf[start + extra], &buf[start], len)\<close> and the length bytes.\<close>

definition der_end :: "der_writer \<Rightarrow> der_writer" where
  "der_end w =
     (if dw_err w then w
      else if dw_depth w = 0 then set_err w
      else
        (let d = dw_depth w - 1; at = dw_open w ! d; start = at + 1; n = wrap32 (dw_len w + 4294967296 - start);
             w1 = w\<lparr>dw_depth := d\<rparr>
         in if n < 0x80 then w1\<lparr>dw_buf := (dw_buf w1)[at := word_of_nat n]\<rparr>
            else
              (let extra = (if n < 0x100 then 1 else if n < 0x10000 then 2 else 0)
               in if extra = 0 \<or> dw_cap w1 < dw_len w1 + extra then set_err w1
                  else
                    (let buf1 = blit (start + extra) (take n (drop start (dw_buf w1))) (dw_buf w1);
                         buf2 = buf1[at := 0x80 OR word_of_nat extra];
                         buf3 = (if extra = 2 then (buf2[start := word_of_nat (n div 256)])[start + 1 := word_of_nat n]
                                 else buf2[start := word_of_nat n])
                     in w1\<lparr>dw_buf := buf3, dw_len := dw_len w1 + extra\<rparr>))))"

text \<open>The bytes at the end of an element.  \<open>w->len + len\<close> is computed in 32 bits.\<close>

definition put_content :: "bytes \<Rightarrow> der_writer \<Rightarrow> der_writer" where
  "put_content vs w =
     (if dw_err w then w
      else if dw_cap w < wrap32 (dw_len w + length vs) then set_err w
      else w\<lparr>dw_buf := blit (dw_len w) vs (dw_buf w), dw_len := wrap32 (dw_len w + length vs)\<rparr>)"

definition der_put :: "u8 \<Rightarrow> bytes \<Rightarrow> der_writer \<Rightarrow> der_writer" where
  "der_put tag vs w = put_content vs (put_header tag (length vs) w)"

fun drop_zeros :: "bytes \<Rightarrow> bytes" where
  "drop_zeros (x # y # xs) = (if x = 0 then drop_zeros (y # xs) else x # y # xs)"
| "drop_zeros xs = xs"

definition der_put_uint :: "bytes \<Rightarrow> der_writer \<Rightarrow> der_writer" where
  "der_put_uint be w =
     (let ds = drop_zeros be; pad = (ds = [] \<or> hd ds AND 0x80 \<noteq> 0);
          w1 = put_header DER_INTEGER (wrap32 (length ds + of_bool pad)) w;
          w2 = (if pad then put_byte 0 w1 else w1)
      in put_content ds w2)"

definition der_put_small :: "u32 \<Rightarrow> der_writer \<Rightarrow> der_writer" where
  "der_put_small v = der_put_uint [ucast (drop_bit 24 v), ucast (drop_bit 16 v), ucast (drop_bit 8 v), ucast v]"

definition der_put_raw :: "bytes \<Rightarrow> der_writer \<Rightarrow> der_writer" where
  "der_put_raw vs w = put_content vs w"

section \<open>The reader\<close>

text \<open>Tag, header length and content length of the first element of a span.\<close>

definition read_header :: "bytes \<Rightarrow> (u8 \<times> nat \<times> nat) option" where
  "read_header p =
     (if length p < 2 then None
      else if p ! 0 AND 0x1f = 0x1f then None
      else
        (let l0 = p ! 1
         in case (if l0 < 0x80 then Some (2, unat l0)
                  else if l0 = 0x81 \<and> 3 \<le> length p \<and> 0x80 \<le> p ! 2 then Some (3, unat (p ! 2))
                  else if l0 = 0x82 \<and> 4 \<le> length p \<and> p ! 2 \<noteq> 0 then Some (4, unat (p ! 2) * 256 + unat (p ! 3))
                  else None) of
              None \<Rightarrow> None
            | Some (hdr, n) \<Rightarrow> if n \<le> length p - hdr then Some (p ! 0, hdr, n) else None))"

text \<open>Tag, content and the span after the element.\<close>

definition der_next :: "bytes \<Rightarrow> (u8 \<times> bytes \<times> bytes) option" where
  "der_next p =
     (case read_header p of
        None \<Rightarrow> None
      | Some (t, hdr, n) \<Rightarrow> Some (t, take n (drop hdr p), drop (hdr + n) p))"

definition der_expect :: "u8 \<Rightarrow> bytes \<Rightarrow> (bytes \<times> bytes) option" where
  "der_expect tag p =
     (case der_next p of
        None \<Rightarrow> None
      | Some (t, v, rest) \<Rightarrow> if t \<noteq> tag then None else Some (v, rest))"

definition der_next_raw :: "bytes \<Rightarrow> (bytes \<times> bytes) option" where
  "der_next_raw p =
     (case read_header p of
        None \<Rightarrow> None
      | Some (t, hdr, n) \<Rightarrow> Some (take (hdr + n) p, drop (hdr + n) p))"

section \<open>base64\<close>

definition B64 :: string where
  "B64 = ''ABCDEFGHIJKLMNOPQRSTUVWXYZabcdefghijklmnopqrstuvwxyz0123456789+/''"

definition b64_char :: "u32 \<Rightarrow> char" where
  "b64_char v = B64 ! unat (v AND 63)"

text \<open>The groups of three bytes, the last one padded.\<close>

fun b64_groups :: "bytes \<Rightarrow> string" where
  "b64_groups [] = []"
| "b64_groups [a] =
     (let v = push_bit 16 (ucast a) :: u32
      in [b64_char (drop_bit 18 v), b64_char (drop_bit 12 v), CHR ''='', CHR ''=''])"
| "b64_groups [a, b] =
     (let v = push_bit 16 (ucast a) OR push_bit 8 (ucast b) :: u32
      in [b64_char (drop_bit 18 v), b64_char (drop_bit 12 v), b64_char (drop_bit 6 v), CHR ''=''])"
| "b64_groups (a # b # c # xs) =
     (let v = push_bit 16 (ucast a) OR push_bit 8 (ucast b) OR ucast c :: u32
      in [b64_char (drop_bit 18 v), b64_char (drop_bit 12 v), b64_char (drop_bit 6 v), b64_char v] @ b64_groups xs)"

text \<open>The characters written; none when they do not fit, the count 0 of the code.\<close>

definition base64_encode :: "bytes \<Rightarrow> nat \<Rightarrow> string" where
  "base64_encode xs cap =
     (if cap < wrap32 (wrap32 (length xs + 2) div 3 * 4) then [] else b64_groups xs)"

definition b64_value :: "char \<Rightarrow> int" where
  "b64_value c =
     (let k = of_char c :: int
      in if 65 \<le> k \<and> k \<le> 90 then k - 65
         else if 97 \<le> k \<and> k \<le> 122 then k - 97 + 26
         else if 48 \<le> k \<and> k \<le> 57 then k - 48 + 52
         else if c = CHR ''+'' then 62
         else if c = CHR ''/'' then 63
         else -1)"

definition is_space :: "char \<Rightarrow> bool" where
  "is_space c \<longleftrightarrow> c = CHR '' '' \<or> c = CHR 0x09 \<or> c = CHR 0x0D \<or> c = CHR 0x0A"

text \<open>The state is \<open>acc\<close>, \<open>bits\<close>, \<open>ended\<close> and the bytes written; \<open>None\<close> is the -1 of the code.\<close>

fun b64_loop :: "string \<Rightarrow> nat \<Rightarrow> u32 \<Rightarrow> nat \<Rightarrow> bool \<Rightarrow> bytes \<Rightarrow> bytes option" where
  "b64_loop [] cap acc bits ended out = Some out"
| "b64_loop (c # cs) cap acc bits ended out =
     (if is_space c then b64_loop cs cap acc bits ended out
      else if c = CHR ''='' then b64_loop cs cap acc bits True out
      else
        (let v = b64_value c
         in if v < 0 \<or> ended then None
            else
              (let acc1 = push_bit 6 acc OR word_of_int v; bits1 = bits + 6
               in if 8 \<le> bits1
                  then (if cap \<le> length out then None
                        else b64_loop cs cap acc1 (bits1 - 8) ended (out @ [ucast (drop_bit (bits1 - 8) acc1)]))
                  else b64_loop cs cap acc1 bits1 ended out)))"

definition base64_decode :: "string \<Rightarrow> nat \<Rightarrow> bytes option" where
  "base64_decode cs cap = b64_loop cs cap 0 0 False []"

section \<open>PEM\<close>

text \<open>The text so far, \<open>None\<close> once it did not fit (the offset \<open>UINT32_MAX\<close>).\<close>

definition put_str :: "string option \<Rightarrow> nat \<Rightarrow> string \<Rightarrow> string option" where
  "put_str out cap s =
     (case out of
        None \<Rightarrow> None
      | Some t \<Rightarrow> if cap < wrap32 (length t + length s) then None else Some (t @ s))"

definition pem_line :: nat where "pem_line = 48"

text \<open>The body: lines of 48 bytes.  The outer \<open>None\<close> is the \<open>return 0\<close> inside the loop.\<close>

function pem_body :: "bytes \<Rightarrow> nat \<Rightarrow> string option \<Rightarrow> string option option" where
  "pem_body der cap out =
     (if der = [] \<or> out = None then Some out
      else
        (let t = the out; line = base64_encode (take pem_line der) (cap - length t)
         in if line = [] then None
            else pem_body (drop pem_line der) cap (put_str (Some (t @ line)) cap [CHR 0x0A])))"
  by pat_completeness auto
termination
  by (relation "measure (\<lambda>(der, _, _). length der)") (auto simp: pem_line_def)

declare pem_body.simps [simp del]

definition pem_begin_line :: "string \<Rightarrow> string" where
  "pem_begin_line label = ''-----BEGIN '' @ label @ ''-----''"

definition pem_end_line :: "string \<Rightarrow> string" where
  "pem_end_line label = ''-----END '' @ label @ ''-----''"

definition pem_encode :: "string \<Rightarrow> bytes \<Rightarrow> nat \<Rightarrow> string option" where
  "pem_encode label der cap =
     (let o1 = put_str (Some []) cap ''-----BEGIN ''; o2 = put_str o1 cap label; o3 = put_str o2 cap (''-----'' @ [CHR 0x0A])
      in case pem_body der cap o3 of
           None \<Rightarrow> None
         | Some o4 \<Rightarrow> put_str (put_str (put_str o4 cap ''-----END '') cap label) cap (''-----'' @ [CHR 0x0A]))"

text \<open>The offset of \<open>needle\<close> in \<open>hay\<close> from \<open>i\<close> on.\<close>

function find_text :: "string \<Rightarrow> nat \<Rightarrow> string \<Rightarrow> nat option" where
  "find_text hay i needle =
     (if i + length needle \<le> length hay
      then (if take (length needle) (drop i hay) = needle then Some i else find_text hay (i + 1) needle)
      else None)"
  by pat_completeness auto
termination
  by (relation "measure (\<lambda>(hay, i, needle). length hay + 1 - i)") auto

declare find_text.simps [simp del]

text \<open>The decoded bytes, or \<open>None\<close>, and the value of \<open>*end\<close> where it is set.\<close>

definition pem_decode :: "string \<Rightarrow> string \<Rightarrow> nat \<Rightarrow> bytes option \<times> nat option" where
  "pem_decode text label cap =
     (if 48 < length label + 17 then (None, None)
      else
        (let begin_line = pem_begin_line label; fin = pem_end_line label
         in case find_text text 0 begin_line of
              None \<Rightarrow> (None, None)
            | Some b \<Rightarrow>
                let body = b + length begin_line
                in case find_text text body fin of
                     None \<Rightarrow> (None, None)
                   | Some e \<Rightarrow> (base64_decode (take (e - body) (drop body text)) cap, Some (e + length fin))))"

end
