(* ===== verification/Der_Text.thy ===== *)
theory Der_Text
  imports Der
begin

text \<open>
  base64 and PEM: what is written is read back, whatever white space the PEM lines add.
\<close>

section \<open>The alphabet\<close>

lemma b64_alphabet: "list_all (\<lambda>k. b64_value (B64 ! k) = int k \<and> \<not> is_space (B64 ! k) \<and> B64 ! k \<noteq> CHR ''='' \<and> B64 ! k \<noteq> CHR ''-'') [0..<64]"
  by code_simp

lemma b64_char_ok:
  "b64_value (b64_char v) = uint (v AND 63)" "\<not> is_space (b64_char v)" "b64_char v \<noteq> CHR ''=''" "b64_char v \<noteq> CHR ''-''"
proof -
  have "v AND 63 \<le> 63" by (rule word_and_le1)
  then have "unat (v AND 63) < 64" by (simp add: word_le_nat_alt)
  then have "unat (v AND 63) \<in> set [0..<64]" by simp
  then have *: "b64_value (B64 ! unat (v AND 63)) = int (unat (v AND 63)) \<and> \<not> is_space (B64 ! unat (v AND 63)) \<and>
      B64 ! unat (v AND 63) \<noteq> CHR ''='' \<and> B64 ! unat (v AND 63) \<noteq> CHR ''-''"
    using b64_alphabet unfolding list_all_iff by blast
  show "b64_value (b64_char v) = uint (v AND 63)" "\<not> is_space (b64_char v)" "b64_char v \<noteq> CHR ''=''" "b64_char v \<noteq> CHR ''-''"
    using * by (simp_all add: b64_char_def)
qed

lemma mask_6: "v AND 63 = take_bit 6 (v :: u32)"
  by (simp add: take_bit_eq_mask mask_eq_exp_minus_1)

definition b64_word :: "u8 \<Rightarrow> u8 \<Rightarrow> u8 \<Rightarrow> u32" where
  "b64_word a b c = push_bit 16 (ucast a) OR push_bit 8 (ucast b) OR ucast c"

definition b64_acc :: "u32 \<Rightarrow> u32 \<Rightarrow> nat \<Rightarrow> u32" where
  "b64_acc acc v k = push_bit 6 acc OR (drop_bit k v AND 63)"

lemma bit_b64_acc: "bit (b64_acc acc v k) n \<longleftrightarrow> n < 32 \<and> (if n < 6 then bit v (k + n) else bit acc (n - 6))"
  by (auto simp: b64_acc_def mask_6 bit_simps)

lemma bit_b64_word:
  "bit (b64_word a b c) n \<longleftrightarrow> (if n < 8 then bit c n else if n < 16 then bit b (n - 8) else n < 24 \<and> bit a (n - 16))"
  by (auto simp: b64_word_def bit_simps dest: bit_imp_le_length)

lemma b64_bytes:
  "ucast (drop_bit 4 (b64_acc (b64_acc acc (b64_word a b c) 18) (b64_word a b c) 12)) = a"
  "ucast (drop_bit 2 (b64_acc (b64_acc x (b64_word a b c) 12) (b64_word a b c) 6)) = b"
  "ucast (drop_bit 0 (b64_acc (b64_acc x (b64_word a b c) 6) (b64_word a b c) 0)) = c"
proof -
  note bits = bit_simps bit_b64_acc bit_b64_word
  show "ucast (drop_bit 4 (b64_acc (b64_acc acc (b64_word a b c) 18) (b64_word a b c) 12)) = a"
    by (rule bit_word_eqI) (auto simp: bits add.commute)
  show "ucast (drop_bit 2 (b64_acc (b64_acc x (b64_word a b c) 12) (b64_word a b c) 6)) = b"
    by (rule bit_word_eqI) (auto simp: bits add.commute)
  show "ucast (drop_bit 0 (b64_acc (b64_acc x (b64_word a b c) 6) (b64_word a b c) 0)) = c"
    by (rule bit_word_eqI) (auto simp: bits add.commute)
qed

text \<open>One character of the alphabet takes six bits in.\<close>

lemma b64_step:
  "b64_loop (b64_char (drop_bit k v) # cs) cap acc bits False out =
     (if bits < 2 then b64_loop cs cap (b64_acc acc v k) (bits + 6) False out
      else if cap \<le> length out then None
      else b64_loop cs cap (b64_acc acc v k) (bits - 2) False (out @ [ucast (drop_bit (bits - 2) (b64_acc acc v k))]))"
  by (auto simp: b64_char_ok Let_def b64_acc_def)

declare b64_loop.simps(2) [simp del]

lemma b64_blank: "is_space c \<Longrightarrow> b64_loop (c # cs) cap acc bits ended out = b64_loop cs cap acc bits ended out"
  by (simp add: b64_loop.simps)

lemma b64_pad: "b64_loop (CHR ''='' # cs) cap acc bits ended out = b64_loop cs cap acc bits True out"
  by (simp add: b64_loop.simps is_space_def)

lemma b64_blanks: "list_all is_space cs \<Longrightarrow> b64_loop cs cap acc bits ended out = Some out"
  by (induction cs) (simp_all add: b64_blank)

lemma b64_groups_word:
  "b64_groups [a] = [b64_char (drop_bit 18 (b64_word a 0 0)), b64_char (drop_bit 12 (b64_word a 0 0)), CHR ''='', CHR ''='']"
  "b64_groups [a, b] = [b64_char (drop_bit 18 (b64_word a b 0)), b64_char (drop_bit 12 (b64_word a b 0)), b64_char (drop_bit 6 (b64_word a b 0)), CHR ''='']"
  "b64_groups (a # b # c # xs) = b64_char (drop_bit 18 (b64_word a b c)) # b64_char (drop_bit 12 (b64_word a b c)) #
     b64_char (drop_bit 6 (b64_word a b c)) # b64_char (drop_bit 0 (b64_word a b c)) # b64_groups xs"
  by (simp_all add: b64_word_def Let_def)

declare b64_groups.simps [simp del] b64_groups.simps(1) [simp] drop_bit_0 [simp del]

lemma b64_group:
  assumes "length out + 3 \<le> cap"
  shows "\<exists>acc'. b64_loop (b64_groups (a # b # c # xs) @ cs) cap acc 0 False out =
    b64_loop (b64_groups xs @ cs) cap acc' 0 False (out @ [a, b, c])"
  using assms by (auto simp: b64_groups_word b64_step b64_bytes)

lemma three_dvd: "3 dvd length (a # b # c # xs) \<longleftrightarrow> 3 dvd length xs"
proof -
  have "length (a # b # c # xs) = length xs + 3" by simp
  then show ?thesis by (simp only: dvd_add_triv_right_iff)
qed

lemma b64_full:
  "3 dvd length xs \<Longrightarrow> length out + length xs \<le> cap \<Longrightarrow>
    \<exists>acc'. b64_loop (b64_groups xs @ cs) cap acc 0 False out = b64_loop cs cap acc' 0 False (out @ xs)"
proof (induction xs arbitrary: acc out rule: b64_groups.induct)
  case (4 a b c xs)
  obtain acc1 where 1: "b64_loop (b64_groups (a # b # c # xs) @ cs) cap acc 0 False out =
      b64_loop (b64_groups xs @ cs) cap acc1 0 False (out @ [a, b, c])"
    using b64_group [of out cap a b c xs cs acc] 4(3) by auto
  have "3 dvd length xs" using 4(2) by (simp only: three_dvd)
  moreover have "length (out @ [a, b, c]) + length xs \<le> cap" using 4(3) by simp
  ultimately show ?case using 4(1) [of _ "out @ [a, b, c]" acc1] 1 by auto
qed (auto dest: dvd_imp_le)

lemma b64_loop_groups:
  "list_all is_space cs \<Longrightarrow> length out + length xs \<le> cap \<Longrightarrow> b64_loop (b64_groups xs @ cs) cap acc 0 False out = Some (out @ xs)"
proof (induction xs arbitrary: acc out rule: b64_groups.induct)
  case 1
  then show ?case by (simp add: b64_blanks)
next
  case (2 a)
  then show ?case by (simp add: b64_groups_word b64_step b64_pad b64_blanks b64_bytes)
next
  case (3 a b)
  then show ?case by (simp add: b64_groups_word b64_step b64_pad b64_blanks b64_bytes)
next
  case (4 a b c xs)
  obtain acc1 where 1: "b64_loop (b64_groups (a # b # c # xs) @ cs) cap acc 0 False out =
      b64_loop (b64_groups xs @ cs) cap acc1 0 False (out @ [a, b, c])"
    using b64_group [of out cap a b c xs cs acc] 4(3) by auto
  show ?case using 4(1) [of _ "out @ [a, b, c]" acc1] 4(2,3) 1 by auto
qed

lemma length_b64_groups: "length (b64_groups xs) = (length xs + 2) div 3 * 4"
proof (induction xs rule: b64_groups.induct)
  case (4 a b c xs)
  have "(length (a # b # c # xs) + 2) div 3 = Suc ((length xs + 2) div 3)" by simp
  then show ?case using 4 by (simp add: b64_groups_word)
qed (simp_all add: b64_groups_word)

lemma b64_groups_no_dash: "CHR ''-'' \<notin> set (b64_groups xs)"
  by (induction xs rule: b64_groups.induct) (simp_all add: b64_groups_word b64_char_ok(4) [symmetric])

lemma base64_encode_small:
  assumes "length xs < 1073741824"
  shows "base64_encode xs cap = (if cap < (length xs + 2) div 3 * 4 then [] else b64_groups xs)"
  using assms by (simp add: base64_encode_def wrap32_def)

lemma base64_read_back:
  assumes "length xs < 1073741824" and "(length xs + 2) div 3 * 4 \<le> cap" and "length xs \<le> n" and "list_all is_space cs"
  shows "base64_decode (base64_encode xs cap @ cs) n = Some xs"
  using assms b64_loop_groups [of cs "[]" xs n 0] by (simp add: base64_encode_small base64_decode_def)

declare drop_bit_0 [simp]

section \<open>PEM\<close>

text \<open>The lines of the body, and the whole text of a block.\<close>

function pem_chars :: "bytes \<Rightarrow> string" where
  "pem_chars der = (if der = [] then [] else b64_groups (take pem_line der) @ CHR 0x0A # pem_chars (drop pem_line der))"
  by auto
termination
  by (relation "measure length") (auto simp: pem_line_def)

declare pem_chars.simps [simp del]

definition pem_text :: "string \<Rightarrow> bytes \<Rightarrow> string" where
  "pem_text label der = pem_begin_line label @ CHR 0x0A # pem_chars der @ pem_end_line label @ [CHR 0x0A]"

lemma put_str_ok:
  assumes "length t \<le> cap" and "cap < 2147483648" and "length s < 2147483648"
  shows "put_str (Some t) cap s = (if length t + length s \<le> cap then Some (t @ s) else None)"
proof -
  have "wrap32 (length t + length s) = length t + length s" using assms by (simp add: wrap32_def)
  then show ?thesis by (auto simp: put_str_def)
qed

lemma put_str_None [simp]: "put_str None cap s = None"
  by (simp add: put_str_def)

lemma pem_body_None: "pem_body der cap None = Some None"
  by (simp add: pem_body.simps)

lemma pem_body_ok:
  "length t \<le> cap \<Longrightarrow> cap < 2147483648 \<Longrightarrow>
    (if length t + length (pem_chars der) \<le> cap then pem_body der cap (Some t) = Some (Some (t @ pem_chars der))
     else pem_body der cap (Some t) = None \<or> pem_body der cap (Some t) = Some None)"
proof (induction der arbitrary: t rule: pem_chars.induct)
  case (1 der)
  show ?case
  proof (cases "der = []")
    case True
    then show ?thesis using 1(2) by (simp add: pem_body.simps pem_chars.simps)
  next
    case False
    define L where "L = b64_groups (take pem_line der)"
    have ne: "take pem_line der \<noteq> []" using False by (simp add: pem_line_def)
    have L: "L \<noteq> []" "length L = (length (take pem_line der) + 2) div 3 * 4"
      using ne length_b64_groups [of "take pem_line der"] unfolding L_def
      by (cases "take pem_line der" rule: b64_groups.cases; simp add: b64_groups_word)+
    have chars: "pem_chars der = L @ CHR 0x0A # pem_chars (drop pem_line der)"
      using False pem_chars.simps [of der] by (simp add: L_def)
    have enc: "base64_encode (take pem_line der) (cap - length t) = (if cap - length t < length L then [] else L)"
      using base64_encode_small [of "take pem_line der" "cap - length t"] L(2) by (simp add: L_def pem_line_def)
    show ?thesis
    proof (cases "cap - length t < length L")
      case True
      then have "pem_body der cap (Some t) = None"
        by (simp only: pem_body.simps [of der] Let_def option.sel option.simps(3) enc False simp_thms if_True if_False)
      moreover have "\<not> length t + length (pem_chars der) \<le> cap" using True 1(2) by (simp add: chars)
      ultimately show ?thesis by simp
    next
      case fits: False
      have step: "pem_body der cap (Some t) = pem_body (drop pem_line der) cap (put_str (Some (t @ L)) cap [CHR 0x0A])"
        using False fits L(1) by (simp add: pem_body.simps [of der] Let_def enc)
      have tl: "length (t @ L) \<le> cap" using fits 1(2) by simp
      show ?thesis
      proof (cases "length (t @ L) + 1 \<le> cap")
        case True
        then have "put_str (Some (t @ L)) cap [CHR 0x0A] = Some ((t @ L) @ [CHR 0x0A])"
          using put_str_ok [OF tl 1(3), of "[CHR 0x0A]"] by simp
        moreover have "length ((t @ L) @ [CHR 0x0A]) \<le> cap" using True by simp
        ultimately show ?thesis using 1(1) [OF False _ 1(3), of "(t @ L) @ [CHR 0x0A]"]
          unfolding step chars by (simp split: if_splits)
      next
        case no: False
        then have "put_str (Some (t @ L)) cap [CHR 0x0A] = None"
          using put_str_ok [OF tl 1(3), of "[CHR 0x0A]"] by simp
        then have "pem_body der cap (Some t) = Some None" unfolding step by (simp add: pem_body_None)
        then show ?thesis using no unfolding chars by simp
      qed
    qed
  qed
qed

lemma pem_encode_eq:
  assumes "cap < 2147483648" and "length label < 2147480000"
  shows "pem_encode label der cap = (if length (pem_text label der) \<le> cap then Some (pem_text label der) else None)"
proof -
  define hd1 where "hd1 = pem_begin_line label @ [CHR 0x0A]"
  have o3: "put_str (put_str (put_str (Some []) cap ''-----BEGIN '') cap label) cap (''-----'' @ [CHR 0x0A]) =
      (if length hd1 \<le> cap then Some hd1 else None)"
    using assms by (auto simp: put_str_ok hd1_def pem_begin_line_def)
  have fin: "put_str (put_str (put_str (Some s) cap ''-----END '') cap label) cap (''-----'' @ [CHR 0x0A]) =
      (if length s + length (pem_end_line label) + 1 \<le> cap then Some (s @ pem_end_line label @ [CHR 0x0A]) else None)" if "length s \<le> cap" for s
    using assms that by (auto simp: put_str_ok pem_end_line_def)
  have pt: "pem_text label der = hd1 @ pem_chars der @ pem_end_line label @ [CHR 0x0A]" by (simp add: pem_text_def hd1_def)
  show ?thesis
  proof (cases "length hd1 \<le> cap")
    case True
    note b = pem_body_ok [OF True assms(1), of der]
    show ?thesis
    proof (cases "length hd1 + length (pem_chars der) \<le> cap")
      case True
      then have "pem_body der cap (Some hd1) = Some (Some (hd1 @ pem_chars der))" using b by simp
      then show ?thesis using True \<open>length hd1 \<le> cap\<close> fin [of "hd1 @ pem_chars der"]
        by (simp only: pem_encode_def Let_def o3 pt option.case if_True) (simp add: add.assoc)
    next
      case False
      then have no: "\<not> length (hd1 @ pem_chars der @ pem_end_line label @ [CHR 0x0A]) \<le> cap" by simp
      have "pem_body der cap (Some hd1) = None \<or> pem_body der cap (Some hd1) = Some None" using b False by simp
      then show ?thesis using True no by (auto simp only: pem_encode_def Let_def o3 pt option.case if_True if_False put_str_None)
    qed
  next
    case False
    then have no: "\<not> length (hd1 @ pem_chars der @ pem_end_line label @ [CHR 0x0A]) \<le> cap" by simp
    show ?thesis using False no by (auto simp only: pem_encode_def Let_def o3 pt pem_body_None option.case if_True if_False put_str_None)
  qed
qed

lemma find_text_first:
  "i \<le> k \<Longrightarrow> k + length needle \<le> length hay \<Longrightarrow> take (length needle) (drop k hay) = needle \<Longrightarrow>
    (\<And>j. i \<le> j \<Longrightarrow> j < k \<Longrightarrow> take (length needle) (drop j hay) \<noteq> needle) \<Longrightarrow> find_text hay i needle = Some k"
proof (induction "k - i" arbitrary: i)
  case 0
  then show ?case by (simp add: find_text.simps [of hay i])
next
  case (Suc n)
  then have "find_text hay (Suc i) needle = Some k" by simp
  then show ?case using Suc.hyps(2) Suc.prems by (simp add: find_text.simps [of hay i])
qed

lemma pem_chars_no_dash: "CHR ''-'' \<notin> set (pem_chars der)"
proof (induction der rule: pem_chars.induct)
  case (1 der)
  then show ?case using b64_groups_no_dash [of "take pem_line der"] by (subst pem_chars.simps) auto
qed

lemma pem_chars_read: "length out + length der \<le> cap \<Longrightarrow> b64_loop (pem_chars der) cap acc 0 False out = Some (out @ der)"
proof (induction der arbitrary: out acc rule: pem_chars.induct)
  case (1 der)
  have nl: "is_space (CHR 0x0A)" by (simp add: is_space_def)
  show ?case
  proof (cases "length der \<le> pem_line")
    case True
    then have "pem_chars der = (if der = [] then [] else b64_groups der @ [CHR 0x0A])"
      using pem_chars.simps [of der] pem_chars.simps [of "[]"] by simp
    then show ?thesis using 1(2) b64_loop_groups [of "[CHR 0x0A]" out der cap acc] nl by auto
  next
    case False
    have e: "pem_chars der = b64_groups (take pem_line der) @ CHR 0x0A # pem_chars (drop pem_line der)"
      using False pem_chars.simps [of der] by auto
    have l: "length (take pem_line der) = 48" using False by (simp add: pem_line_def)
    have "3 dvd length (take pem_line der)" unfolding l by simp
    moreover have "length out + length (take pem_line der) \<le> cap" using 1(2) by simp
    ultimately obtain acc' where "b64_loop (pem_chars der) cap acc 0 False out =
        b64_loop (CHR 0x0A # pem_chars (drop pem_line der)) cap acc' 0 False (out @ take pem_line der)"
      using b64_full [of "take pem_line der" out cap "CHR 0x0A # pem_chars (drop pem_line der)" acc] unfolding e by blast
    also have "\<dots> = Some ((out @ take pem_line der) @ drop pem_line der)"
      unfolding b64_blank [OF nl] by (rule 1(1)) (use False 1(2) in auto)
    finally show ?thesis by simp
  qed
qed

lemma pem_decode_text:
  assumes "length label \<le> 31" and "length der \<le> n"
  shows "pem_decode (pem_text label der @ rest) label n = (Some der, Some (length (pem_text label der) - 1))"
proof -
  define B where "B = pem_begin_line label"
  define C where "C = CHR 0x0A # pem_chars der"
  define F where "F = pem_end_line label"
  define T where "T = pem_text label der @ rest"
  have T: "T = B @ C @ F @ CHR 0x0A # rest" by (simp add: T_def pem_text_def B_def C_def F_def)
  have C: "CHR ''-'' \<notin> set C" using pem_chars_no_dash by (simp add: C_def)
  have F: "F \<noteq> []" "hd F = CHR ''-''" by (simp_all add: F_def pem_end_line_def)
  have b: "find_text T 0 B = Some 0" by (rule find_text_first) (simp_all add: T)
  have e: "find_text T (length B) F = Some (length B + length C)"
  proof (rule find_text_first)
    fix j assume j: "length B \<le> j" "j < length B + length C"
    then have "hd (drop j T) = C ! (j - length B)" "drop j T \<noteq> []" by (auto simp: T hd_drop_conv_nth nth_append)
    moreover have "C ! (j - length B) \<in> set C" using j by simp
    ultimately have "hd (drop j T) \<noteq> CHR ''-''" using C by metis
    then have "hd (take (length F) (drop j T)) \<noteq> hd F" using F \<open>drop j T \<noteq> []\<close> by simp
    then show "take (length F) (drop j T) \<noteq> F" by metis
  qed (simp_all add: T)
  have nl: "is_space (CHR 0x0A)" by (simp add: is_space_def)
  have body: "take (length C) (drop (length B) T) = C" by (simp add: T)
  have d: "base64_decode C n = Some der"
    using pem_chars_read [of "[]" der n 0] assms(2) by (simp add: base64_decode_def C_def b64_blank [OF nl])
  have "pem_decode T label n = (base64_decode (take (length C) (drop (length B) T)) n, Some (length B + length C + length F))"
    using assms(1) b e by (simp add: pem_decode_def Let_def B_def [symmetric] F_def [symmetric])
  then show ?thesis unfolding body d T_def [symmetric] by (simp add: pem_text_def B_def C_def F_def)
qed

end
