(* ===== verification/Der_Correct.thy ===== *)
theory Der_Correct
  imports Der_Text
begin

text \<open>
  What the writer appends for a tree of elements and when it gives up; that the reader takes exactly the
  minimal encoding; the round trips of elements, integers, base64 and PEM.
\<close>

section \<open>The encoding\<close>

text \<open>An element is a tag with content bytes, or a tag with elements inside.\<close>

datatype der = Prim u8 bytes | Node u8 "der list"

definition len_bytes :: "nat \<Rightarrow> bytes" where
  "len_bytes n =
     (if n < 0x80 then [word_of_nat n]
      else if n < 0x100 then [0x81, word_of_nat n]
      else [0x82, word_of_nat (n div 256), word_of_nat n])"

fun der_bytes :: "der \<Rightarrow> bytes" where
  "der_bytes (Prim t vs) = t # len_bytes (length vs) @ vs"
| "der_bytes (Node t ds) = t # len_bytes (length (concat (map der_bytes ds))) @ concat (map der_bytes ds)"

fun der_tag :: "der \<Rightarrow> u8" where
  "der_tag (Prim t vs) = t"
| "der_tag (Node t ds) = t"

fun der_content :: "der \<Rightarrow> bytes" where
  "der_content (Prim t vs) = vs"
| "der_content (Node t ds) = concat (map der_bytes ds)"

lemma der_bytes_eq: "der_bytes d = der_tag d # len_bytes (length (der_content d)) @ der_content d"
  by (cases d) simp_all

text \<open>How deep it nests, and whether all lengths are below 65536.\<close>

fun der_height :: "der \<Rightarrow> nat" where
  "der_height (Prim t vs) = 0"
| "der_height (Node t ds) = Suc (fold max (map der_height ds) 0)"

fun der_short :: "der \<Rightarrow> bool" where
  "der_short (Prim t vs) \<longleftrightarrow> length vs < 0x10000"
| "der_short (Node t ds) \<longleftrightarrow> list_all der_short ds \<and> length (concat (map der_bytes ds)) < 0x10000"

text \<open>A client that writes a tree.\<close>

fun write_der :: "der \<Rightarrow> der_writer \<Rightarrow> der_writer" where
  "write_der (Prim t vs) w = der_put t vs w"
| "write_der (Node t ds) w = der_end (fold write_der ds (der_begin t w))"

section \<open>The writer's buffer\<close>

definition written :: "der_writer \<Rightarrow> bytes" where
  "written w = take (dw_len w) (dw_buf w)"

definition writer_ok :: "der_writer \<Rightarrow> bool" where
  "writer_ok w \<longleftrightarrow> dw_len w \<le> dw_cap w \<and> dw_cap w \<le> length (dw_buf w) \<and> dw_cap w < 2147483648 \<and>
     length (dw_open w) = DER_MAX_DEPTH \<and> dw_depth w \<le> DER_MAX_DEPTH"

text \<open>Nothing but the bytes appended changes between two states of the writer.\<close>

definition appends :: "der_writer \<Rightarrow> bytes \<Rightarrow> der_writer \<Rightarrow> bool" where
  "appends w vs w' \<longleftrightarrow> writer_ok w' \<and> \<not> dw_err w' \<and> written w' = written w @ vs \<and> dw_len w' = dw_len w + length vs \<and>
     dw_cap w' = dw_cap w \<and> dw_depth w' = dw_depth w \<and> (\<forall>i < dw_depth w. dw_open w' ! i = dw_open w ! i)"

lemma length_written: "writer_ok w \<Longrightarrow> length (written w) = dw_len w"
  by (simp add: written_def writer_ok_def)

lemma appends_refl: "writer_ok w \<Longrightarrow> \<not> dw_err w \<Longrightarrow> appends w [] w"
  by (simp add: appends_def)

lemma appends_trans: "appends w vs w1 \<Longrightarrow> appends w1 us w2 \<Longrightarrow> appends w (vs @ us) w2"
  by (simp add: appends_def)

lemma set_err_simps [simp]: "dw_err (set_err w)" "dw_cap (set_err w) = dw_cap w" "dw_len (set_err w) = dw_len w"
  by (simp_all add: set_err_def)

text \<open>Once it has failed the writer stays as it is.\<close>

lemma err_stays:
  "dw_err w \<Longrightarrow> put_byte b w = w" "dw_err w \<Longrightarrow> dw_err (put_header t n w)" "dw_err w \<Longrightarrow> put_content vs w = w"
  "dw_err w \<Longrightarrow> der_begin t w = w" "dw_err w \<Longrightarrow> der_end w = w" "dw_err w \<Longrightarrow> dw_err (der_put t vs w)"
  by (simp_all add: put_byte_def put_header_def put_content_def der_begin_def der_end_def der_put_def Let_def)

lemma write_err: "dw_err w \<Longrightarrow> dw_err (write_der d w)"
proof (induction d arbitrary: w)
  case (Prim t vs)
  then show ?case by (simp add: err_stays)
next
  case (Node t ds)
  have "dw_err (fold write_der es w)" if "set es \<subseteq> set ds" "dw_err w" for es w
    using that by (induction es arbitrary: w) (simp_all add: Node.IH)
  then show ?case using Node.prems by (simp add: err_stays)
qed

lemma writes_err: "dw_err w \<Longrightarrow> dw_err (fold write_der ds w)"
  by (induction ds arbitrary: w) (simp_all add: write_err)

text \<open>An operation appends \<open>vs\<close> when \<open>P\<close> holds and there is room, and fails otherwise.\<close>

definition outcome :: "bool \<Rightarrow> der_writer \<Rightarrow> bytes \<Rightarrow> der_writer \<Rightarrow> bool" where
  "outcome P w vs w' \<longleftrightarrow> (if P \<and> dw_len w + length vs \<le> dw_cap w then appends w vs w' else dw_err w')"

lemma outcome_then:
  assumes "outcome P w us w1" and "appends w us w1 \<Longrightarrow> outcome Q w1 vs w2" and "dw_err w1 \<Longrightarrow> dw_err w2"
  shows "outcome (P \<and> Q) w (us @ vs) w2"
proof (cases "P \<and> dw_len w + length us \<le> dw_cap w")
  case True
  then have a: "appends w us w1" using assms(1) by (simp add: outcome_def)
  then have l: "dw_len w1 = dw_len w + length us" "dw_cap w1 = dw_cap w" by (simp_all add: appends_def)
  show ?thesis using assms(2) [OF a] True l appends_trans [OF a] by (auto simp: outcome_def add.assoc)
next
  case False
  then have "dw_err w2" using assms(1,3) unfolding outcome_def by presburger
  then show ?thesis using False by (auto simp: outcome_def)
qed

lemma take_update_append: "n < length xs \<Longrightarrow> take (Suc n) (xs[n := v]) = take n xs @ [v]"
  by (simp add: take_Suc_conv_app_nth)

lemma put_byte_outcome:
  assumes "writer_ok w" and "\<not> dw_err w"
  shows "outcome True w [b] (put_byte b w)"
proof (cases "dw_len w < dw_cap w")
  case True
  then have "dw_len w < length (dw_buf w)" using assms(1) by (simp add: writer_ok_def)
  then show ?thesis
    using assms True by (simp add: outcome_def appends_def put_byte_def written_def writer_ok_def take_update_append)
qed (use assms in \<open>simp add: outcome_def put_byte_def\<close>)

lemma appendsD: "appends w vs w' \<Longrightarrow> writer_ok w' \<and> \<not> dw_err w'"
  by (simp add: appends_def)

lemma put_header_outcome:
  assumes "writer_ok w" and "\<not> dw_err w"
  shows "outcome (n < 0x10000) w (t # len_bytes n) (put_header t n w)"
proof -
  note b = put_byte_outcome
  have then_byte: "outcome True w (us @ [c]) (put_byte c w1)" if "outcome True w us w1" for us w1 c
    using outcome_then [OF that b, of c] err_stays(1) [of w1 c] appendsD by (metis (full_types))
  have 1: "outcome True w [t] (put_byte t w)" by (rule b [OF assms])
  show ?thesis
  proof (cases "n < 0x10000")
    case True
    have 2: "outcome True w ([t] @ [c]) (put_byte c (put_byte t w))" for c by (rule then_byte [OF 1])
    have 3: "outcome True w (([t] @ [c]) @ [d]) (put_byte d (put_byte c (put_byte t w)))" for c d by (rule then_byte [OF 2])
    have 4: "outcome True w ((([t] @ [c]) @ [d]) @ [e]) (put_byte e (put_byte d (put_byte c (put_byte t w))))" for c d e by (rule then_byte [OF 3])
    show ?thesis using 2 3 4 True by (auto simp: put_header_def Let_def len_bytes_def)
  qed (simp add: outcome_def put_header_def Let_def)
qed

lemma put_content_outcome:
  assumes "writer_ok w" and "\<not> dw_err w" and "length vs \<le> 0x10000"
  shows "outcome True w vs (put_content vs w)"
proof -
  have cap: "dw_len w + length vs < 4294967296" using assms(1,3) by (simp add: writer_ok_def)
  show ?thesis
  proof (cases "dw_len w + length vs \<le> dw_cap w")
    case True
    then have le: "dw_len w + length vs \<le> length (dw_buf w)" using assms(1) by (simp add: writer_ok_def)
    then show ?thesis
      using assms True cap by (simp add: outcome_def appends_def put_content_def blit_def written_def writer_ok_def)
  qed (use assms cap in \<open>simp add: outcome_def put_content_def\<close>)
qed

lemma der_put_outcome:
  assumes "writer_ok w" and "\<not> dw_err w"
  shows "outcome (length vs < 0x10000) w (der_bytes (Prim t vs)) (der_put t vs w)"
proof (cases "length vs < 0x10000")
  case True
  have "outcome (length vs < 0x10000 \<and> True) w ((t # len_bytes (length vs)) @ vs) (der_put t vs w)"
    unfolding der_put_def
    by (rule outcome_then [OF put_header_outcome [OF assms]]) (use True appendsD err_stays(3) put_content_outcome in \<open>auto dest: appendsD\<close>)
  then show ?thesis by simp
next
  case False
  then have "dw_err (put_header t (length vs) w)" using put_header_outcome [OF assms, of "length vs" t] by (simp add: outcome_def)
  then show ?thesis using False by (simp add: outcome_def der_put_def err_stays(3))
qed

section \<open>Constructed elements\<close>

lemma der_begin_ok:
  assumes "writer_ok w" and "\<not> dw_err w"
  shows "if dw_depth w < DER_MAX_DEPTH \<and> dw_len w + 2 \<le> dw_cap w
    then writer_ok (der_begin t w) \<and> \<not> dw_err (der_begin t w) \<and> written (der_begin t w) = written w @ [t, 0] \<and> dw_cap (der_begin t w) = dw_cap w \<and>
      dw_len (der_begin t w) = dw_len w + 2 \<and> dw_depth (der_begin t w) = Suc (dw_depth w) \<and> dw_open (der_begin t w) ! dw_depth w = dw_len w + 1 \<and>
      (\<forall>i < dw_depth w. dw_open (der_begin t w) ! i = dw_open w ! i)
    else dw_err (der_begin t w)"
proof (cases "dw_depth w < DER_MAX_DEPTH \<and> dw_len w < dw_cap w")
  case True
  then have a: "appends w [t] (put_byte t w)" using put_byte_outcome [OF assms, of t] by (simp add: outcome_def)
  define w2 where "w2 = (put_byte t w)\<lparr>dw_open := (dw_open (put_byte t w))[dw_depth (put_byte t w) := dw_len (put_byte t w)],
      dw_depth := dw_depth (put_byte t w) + 1\<rparr>"
  have w2: "writer_ok w2" "\<not> dw_err w2" "written w2 = written w @ [t]" "dw_len w2 = dw_len w + 1" "dw_cap w2 = dw_cap w"
    "dw_depth w2 = Suc (dw_depth w)" "dw_open w2 ! dw_depth w = dw_len w + 1" "\<And>i. i < dw_depth w \<Longrightarrow> dw_open w2 ! i = dw_open w ! i"
    using a True by (auto simp: w2_def appends_def writer_ok_def written_def)
  have e: "der_begin t w = put_byte 0 w2" using assms(2) True by (simp add: der_begin_def Let_def w2_def)
  have "outcome True w2 [0] (put_byte 0 w2)" by (rule put_byte_outcome [OF w2(1,2)])
  then show ?thesis using w2 True unfolding e by (auto simp: outcome_def appends_def)
next
  case False
  have "dw_err (der_begin t w)"
  proof (cases "dw_depth w < DER_MAX_DEPTH")
    case True
    then have "dw_err (put_byte t w)" using False put_byte_outcome [OF assms, of t] by (simp add: outcome_def)
    then show ?thesis using True assms(2) by (simp add: der_begin_def Let_def err_stays(1))
  qed (use assms(2) in \<open>simp add: der_begin_def\<close>)
  then show ?thesis using False by auto
qed

lemma drop_tail:
  "drop (4 + length xs) (a # b # c # xs @ d # ys) = ys"
  "drop (5 + length xs) (a # b # c # xs @ d # e # ys) = ys"
  "take (3 + length xs) (a # b # c # xs @ ys) = a # b # c # xs"
  by (simp_all add: numeral_eq_Suc)

lemma der_end_ok:
  assumes "writer_ok w" and "\<not> dw_err w" and "dw_depth w = Suc d" and "written w = pre @ 0 # C" and "dw_open w ! d = length pre"
  shows "if length C < 0x10000 \<and> length pre + length (len_bytes (length C)) + length C \<le> dw_cap w
    then writer_ok (der_end w) \<and> \<not> dw_err (der_end w) \<and> written (der_end w) = pre @ len_bytes (length C) @ C \<and> dw_cap (der_end w) = dw_cap w \<and>
      dw_len (der_end w) = length pre + length (len_bytes (length C)) + length C \<and> dw_depth (der_end w) = d \<and> dw_open (der_end w) = dw_open w
    else dw_err (der_end w)"
proof -
  define R where "R = drop (dw_len w) (dw_buf w)"
  have buf: "dw_buf w = pre @ 0 # C @ R" using assms(4) append_take_drop_id [of "dw_len w" "dw_buf w"] by (simp add: written_def R_def)
  have len: "dw_len w = length pre + 1 + length C" using length_written [OF assms(1)] assms(4) by simp
  have ok: "dw_len w \<le> dw_cap w" "dw_cap w \<le> length (dw_buf w)" "dw_cap w < 2147483648" "length (dw_open w) = DER_MAX_DEPTH" "Suc d \<le> DER_MAX_DEPTH"
    using assms(1,3) by (simp_all add: writer_ok_def)
  have n: "wrap32 (dw_len w + 4294967296 - (length pre + 1)) = length C"
  proof -
    have "dw_len w + 4294967296 - (length pre + 1) = length C + 4294967296" using len by simp
    then show ?thesis using ok(1,3) len by (simp add: wrap32_def)
  qed
  show ?thesis
  proof (cases "length C < 0x80")
    case True
    have e: "der_end w = w\<lparr>dw_depth := d, dw_buf := pre @ word_of_nat (length C) # C @ R\<rparr>"
      using assms(2,3,5) n True by (simp add: der_end_def Let_def buf)
    show ?thesis using True ok len assms(2) by (simp add: e len_bytes_def written_def writer_ok_def buf)
  next
    case False
    define extra where "extra = (if length C < 0x100 then 1 else if length C < 0x10000 then 2 else 0 :: nat)"
    show ?thesis
    proof (cases "extra = 0 \<or> dw_cap w < dw_len w + extra")
      case True
      have "der_end w = set_err (w\<lparr>dw_depth := d\<rparr>)"
        using assms(2,3,5) n False True by (auto simp: der_end_def Let_def extra_def)
      then have "dw_err (der_end w)" by simp
      moreover have "\<not> (length C < 0x10000 \<and> length pre + length (len_bytes (length C)) + length C \<le> dw_cap w)"
        using True False len by (auto simp: extra_def len_bytes_def split: if_splits)
      ultimately show ?thesis by simp
    next
      case room: False
      have big: "length C < 0x10000" using room by (auto simp: extra_def split: if_splits)
      have rl: "extra \<le> length R" using room ok(2) buf len by simp
      obtain c0 c1 C2 where C: "C = c0 # c1 # C2" using False by (cases C rule: remdups_adj.cases) auto
      obtain r0 R1 where R: "R = r0 # R1" using rl room by (cases R) auto
      show ?thesis
      proof (cases "length C < 0x100")
        case True
        then have x: "extra = 1" by (simp add: extra_def)
        have e: "der_end w = w\<lparr>dw_depth := d, dw_buf := pre @ 0x81 # word_of_nat (length C) # C @ R1, dw_len := dw_len w + 1\<rparr>"
          using assms(2,3,5) n False True room x
          by (simp add: der_end_def Let_def buf blit_def C R nth_append list_update_append drop_tail)
        have l: "length (word_of_nat (length C) # C) = dw_len w - length pre" using len by simp
        show ?thesis
          using True False ok len assms(2) room x R l by (simp add: e len_bytes_def written_def writer_ok_def buf)
      next
        case big2: False
        then have x: "extra = 2" using big by (simp add: extra_def)
        obtain r1 R2 where R1: "R1 = r1 # R2" using rl x R by (cases R1) auto
        have e: "der_end w = w\<lparr>dw_depth := d, dw_buf := pre @ 0x82 # word_of_nat (length C div 256) # word_of_nat (length C) # C @ R2, dw_len := dw_len w + 2\<rparr>"
          using assms(2,3,5) n False big2 big room x
          by (simp add: der_end_def Let_def buf blit_def C R R1 nth_append list_update_append drop_tail)
        show ?thesis using big2 big False ok len assms(2) room x R R1 by (simp add: e len_bytes_def written_def writer_ok_def buf drop_tail)
      qed
    qed
  qed
qed

lemma fold_max_le: "fold max xs a \<le> (n :: nat) \<longleftrightarrow> a \<le> n \<and> (\<forall>x \<in> set xs. x \<le> n)"
  by (induction xs arbitrary: a) auto

text \<open>The nesting allowed, and the lengths the writer can encode.\<close>

definition der_fits :: "nat \<Rightarrow> der \<Rightarrow> bool" where
  "der_fits depth d \<longleftrightarrow> der_short d \<and> depth + der_height d \<le> DER_MAX_DEPTH"

lemma der_fits_simps:
  "depth \<le> DER_MAX_DEPTH \<Longrightarrow> der_fits depth (Prim t vs) \<longleftrightarrow> length vs < 0x10000"
  "der_fits depth (Node t ds) \<longleftrightarrow> depth < DER_MAX_DEPTH \<and> list_all (der_fits (Suc depth)) ds \<and> length (concat (map der_bytes ds)) < 0x10000"
proof -
  show "depth \<le> DER_MAX_DEPTH \<Longrightarrow> der_fits depth (Prim t vs) \<longleftrightarrow> length vs < 0x10000"
    by (simp add: der_fits_def)
  have "depth + der_height (Node t ds) \<le> DER_MAX_DEPTH \<longleftrightarrow>
      depth < DER_MAX_DEPTH \<and> fold max (map der_height ds) 0 \<le> DER_MAX_DEPTH - Suc depth" by auto
  also have "\<dots> \<longleftrightarrow> depth < DER_MAX_DEPTH \<and> (\<forall>d \<in> set ds. Suc depth + der_height d \<le> DER_MAX_DEPTH)"
    by (auto simp: fold_max_le)
  finally show "der_fits depth (Node t ds) \<longleftrightarrow> depth < DER_MAX_DEPTH \<and> list_all (der_fits (Suc depth)) ds \<and> length (concat (map der_bytes ds)) < 0x10000"
    by (auto simp: der_fits_def list_all_iff)
qed

lemma writes_outcome:
  assumes "\<And>d w. d \<in> set ds \<Longrightarrow> writer_ok w \<Longrightarrow> \<not> dw_err w \<Longrightarrow> outcome (der_fits (dw_depth w) d) w (der_bytes d) (write_der d w)"
    and "writer_ok w" and "\<not> dw_err w"
  shows "outcome (list_all (der_fits (dw_depth w)) ds) w (concat (map der_bytes ds)) (fold write_der ds w)"
  using assms
proof (induction ds arbitrary: w)
  case Nil
  then show ?case by (simp add: outcome_def appends_refl writer_ok_def)
next
  case (Cons d ds)
  have 1: "outcome (der_fits (dw_depth w) d) w (der_bytes d) (write_der d w)" using Cons.prems by simp
  have "outcome (der_fits (dw_depth w) d \<and> list_all (der_fits (dw_depth w)) ds) w (der_bytes d @ concat (map der_bytes ds)) (fold write_der ds (write_der d w))"
  proof (rule outcome_then [OF 1])
    assume a: "appends w (der_bytes d) (write_der d w)"
    then have "dw_depth (write_der d w) = dw_depth w" by (simp add: appends_def)
    then show "outcome (list_all (der_fits (dw_depth w)) ds) (write_der d w) (concat (map der_bytes ds)) (fold write_der ds (write_der d w))"
      using Cons.IH [of "write_der d w"] Cons.prems(1) appendsD [OF a] by simp
  qed (rule writes_err)
  then show ?case by simp
qed

lemma write_der_outcome:
  "writer_ok w \<Longrightarrow> \<not> dw_err w \<Longrightarrow> outcome (der_fits (dw_depth w) d) w (der_bytes d) (write_der d w)"
proof (induction d arbitrary: w)
  case (Prim t vs)
  have "dw_depth w \<le> DER_MAX_DEPTH" using Prim.prems by (simp add: writer_ok_def)
  then show ?case using der_put_outcome [OF Prim.prems, of vs t] by (simp add: der_fits_simps)
next
  case (Node t ds)
  define C where "C = concat (map der_bytes ds)"
  define w1 where "w1 = der_begin t w"
  define w2 where "w2 = fold write_der ds w1"
  have e: "write_der (Node t ds) w = der_end w2" by (simp add: w1_def w2_def)
  have f: "der_fits (dw_depth w) (Node t ds) \<longleftrightarrow> dw_depth w < DER_MAX_DEPTH \<and> list_all (der_fits (Suc (dw_depth w))) ds \<and> length C < 0x10000"
    by (simp add: der_fits_simps C_def)
  have lb: "1 \<le> length (len_bytes n)" for n by (simp add: len_bytes_def)
  have len: "length (der_bytes (Node t ds)) = 1 + length (len_bytes (length C)) + length C" by (simp add: C_def)
  show ?case
  proof (cases "dw_depth w < DER_MAX_DEPTH \<and> dw_len w + 2 \<le> dw_cap w")
    case False
    then have "dw_err w2" using der_begin_ok [OF Node.prems, of t] writes_err by (simp only: if_False w2_def w1_def)
    then have err: "dw_err (der_end w2)" by (simp add: err_stays)
    have "\<not> (der_fits (dw_depth w) (Node t ds) \<and> dw_len w + length (der_bytes (Node t ds)) \<le> dw_cap w)"
      using False lb [of "length C"] unfolding f len by linarith
    then show ?thesis unfolding e outcome_def using err by presburger
  next
    case True
    then have w1: "writer_ok w1" "\<not> dw_err w1" "written w1 = written w @ [t, 0]" "dw_cap w1 = dw_cap w" "dw_len w1 = dw_len w + 2"
      "dw_depth w1 = Suc (dw_depth w)" "dw_open w1 ! dw_depth w = dw_len w + 1" "\<forall>i < dw_depth w. dw_open w1 ! i = dw_open w ! i"
      using der_begin_ok [OF Node.prems, of t] by (simp_all add: w1_def)
    have o2: "outcome (list_all (der_fits (Suc (dw_depth w))) ds) w1 C w2"
      using writes_outcome [OF Node.IH w1(1,2)] by (simp add: w1(6) C_def w2_def)
    show ?thesis
    proof (cases "list_all (der_fits (Suc (dw_depth w))) ds \<and> dw_len w1 + length C \<le> dw_cap w1")
      case False
      then have "dw_err w2" using o2 by (simp only: outcome_def if_False)
      then have err: "dw_err (der_end w2)" by (simp add: err_stays)
      have "\<not> (der_fits (dw_depth w) (Node t ds) \<and> dw_len w + length (der_bytes (Node t ds)) \<le> dw_cap w)"
        using False lb [of "length C"] w1(4,5) unfolding f len by linarith
      then show ?thesis unfolding e outcome_def using err by presburger
    next
      case fit: True
      then have a: "appends w1 C w2" using o2 by (simp add: outcome_def)
      then have w2: "writer_ok w2" "\<not> dw_err w2" "dw_depth w2 = Suc (dw_depth w)" "dw_cap w2 = dw_cap w" "\<forall>i \<le> dw_depth w. dw_open w2 ! i = dw_open w1 ! i"
        "written w2 = (written w @ [t]) @ 0 # C" using w1 by (auto simp: appends_def)
      have at: "dw_open w2 ! dw_depth w = length (written w @ [t])"
        using w2(5) w1(7) length_written [OF Node.prems(1)] by simp
      note E = der_end_ok [OF w2(1,2,3,6) at]
      have cond: "der_fits (dw_depth w) (Node t ds) \<and> dw_len w + length (der_bytes (Node t ds)) \<le> dw_cap w \<longleftrightarrow>
          length C < 0x10000 \<and> length (written w @ [t]) + length (len_bytes (length C)) + length C \<le> dw_cap w2"
        using fit True w2(4) length_written [OF Node.prems(1)] unfolding f len by auto
      show ?thesis
        using E w1(8) w2(4,5) length_written [OF Node.prems(1)] unfolding e outcome_def cond
        by (auto simp: appends_def C_def split: if_splits)
    qed
  qed
qed

section \<open>Reading\<close>

text \<open>The tag of one byte: not one of the high tag numbers.\<close>

definition low_tag :: "u8 \<Rightarrow> bool" where
  "low_tag t \<longleftrightarrow> t AND 0x1f \<noteq> 0x1f"

lemma byte_lt: "unat (b :: u8) < 256"
  using unsigned_less [of b] by simp

lemma byte_of_small: "n < 256 \<Longrightarrow> unat (word_of_nat n :: u8) = n"
  by (simp add: unat_of_nat take_bit_eq_mod)

lemma two_bytes: "n < 65536 \<Longrightarrow> unat (word_of_nat (n div 256) :: u8) * 256 + unat (word_of_nat n :: u8) = n"
  by (simp add: unat_of_nat take_bit_eq_mod)

lemma read_header_bytes:
  assumes "low_tag t" and "length v < 0x10000"
  shows "read_header (t # len_bytes (length v) @ v @ rest) = Some (t, 1 + length (len_bytes (length v)), length v)"
proof -
  consider "length v < 0x80" | "0x80 \<le> length v" "length v < 0x100" | "0x100 \<le> length v" "length v < 0x10000"
    using assms(2) by linarith
  then show ?thesis
  proof cases
    case 1
    then show ?thesis using assms(1)
      by (simp add: read_header_def len_bytes_def low_tag_def word_less_nat_alt byte_of_small)
  next
    case 2
    then show ?thesis using assms(1)
      by (simp add: read_header_def len_bytes_def low_tag_def word_le_nat_alt byte_of_small)
  next
    case 3
    have "(word_of_nat (length v div 256) :: u8) \<noteq> 0"
    proof
      assume "(word_of_nat (length v div 256) :: u8) = 0"
      then have "unat (word_of_nat (length v div 256) :: u8) = 0" by simp
      then show False using 3 byte_of_small [of "length v div 256"] by simp
    qed
    then show ?thesis using assms(1) 3 two_bytes [of "length v"]
      by (simp add: read_header_def len_bytes_def low_tag_def)
  qed
qed

lemma der_next_bytes:
  assumes "low_tag t" and "length v < 0x10000"
  shows "der_next (t # len_bytes (length v) @ v @ rest) = Some (t, v, rest)"
  by (simp add: der_next_def read_header_bytes [OF assms])

text \<open>The minimal encoding is the only one accepted.\<close>

lemma drop_head:
  "drop (2 + n) (a # b # xs) = drop n xs" "drop (3 + n) (a # b # c # xs) = drop n xs" "drop (4 + n) (a # b # c # d # xs) = drop n xs"
  by (simp_all add: numeral_eq_Suc)

lemma der_next_only:
  assumes "der_next p = Some (t, v, rest)"
  shows "low_tag t \<and> length v < 0x10000 \<and> p = t # len_bytes (length v) @ v @ rest"
proof -
  obtain hdr n where r: "read_header p = Some (t, hdr, n)" and v: "v = take n (drop hdr p)" and rest: "rest = drop (hdr + n) p"
    using assms by (auto simp: der_next_def split: option.splits)
  have two: "2 \<le> length p" and n: "n \<le> length p - hdr" using r by (auto simp: read_header_def Let_def split: if_splits option.splits)
  obtain l0 q where p: "p = t # l0 # q"
    using r two by (cases p rule: remdups_adj.cases) (auto simp: read_header_def Let_def split: if_splits option.splits)
  have low: "low_tag t" using r by (auto simp: p low_tag_def read_header_def split: if_splits)
  consider "l0 < 0x80" "hdr = 2" "n = unat l0"
    | b q1 where "l0 = 0x81" "q = b # q1" "0x80 \<le> b" "hdr = 3" "n = unat b"
    | b c q1 where "l0 = 0x82" "q = b # c # q1" "b \<noteq> 0" "hdr = 4" "n = unat b * 256 + unat c"
    using r by (cases q rule: remdups_adj.cases) (auto simp: p read_header_def Let_def split: if_splits)
  then show ?thesis
  proof cases
    case 1
    then have "n < 128" by (simp add: word_less_nat_alt)
    then show ?thesis using 1 low n v rest p by (simp add: len_bytes_def drop_head add.assoc)
  next
    case 2
    then have "128 \<le> n" "n < 256" using byte_lt [of b] by (simp_all add: word_le_nat_alt)
    then show ?thesis using 2 low n v rest p by (simp add: len_bytes_def drop_head add.assoc)
  next
    case 3
    have "0 < unat b" using 3(3) by (simp add: word_neq_0_conv [symmetric] unat_gt_0)
    then have "256 \<le> n" "n < 65536" using 3(5) byte_lt [of b] byte_lt [of c] by simp_all
    moreover have "word_of_nat (n div 256) = b"
    proof -
      have "n div 256 = unat b" using 3(5) byte_lt [of c] by simp
      then show ?thesis by simp
    qed
    moreover have "word_of_nat n = c"
      unfolding word_unat_eq_iff using 3(5) byte_lt [of c] by (simp add: unat_of_nat take_bit_eq_mod del: of_nat_add of_nat_mult)
    ultimately show ?thesis using 3 low n v rest p by (simp add: len_bytes_def drop_head add.assoc)
  qed
qed

text \<open>A client that reads all elements of a span, and those inside the constructed ones (bit 6 of the tag).\<close>

definition constructed :: "u8 \<Rightarrow> bool" where
  "constructed t \<longleftrightarrow> t AND 0x20 \<noteq> 0"

function read_ders :: "bytes \<Rightarrow> der list option" where
  "read_ders p =
     (if p = [] then Some []
      else (case der_next p of
              None \<Rightarrow> None
            | Some (t, v, rest) \<Rightarrow>
                (case read_ders rest of
                   None \<Rightarrow> None
                 | Some ds \<Rightarrow>
                     (if constructed t
                      then (case read_ders v of None \<Rightarrow> None | Some es \<Rightarrow> Some (Node t es # ds))
                      else Some (Prim t v # ds)))))"
  by pat_completeness auto
termination
  by (relation "measure length") (auto dest!: der_next_only)

declare read_ders.simps [simp del]

text \<open>The trees that can be read: tags of one byte, lengths below 65536, elements only inside constructed tags.\<close>

fun der_wf :: "der \<Rightarrow> bool" where
  "der_wf (Prim t vs) \<longleftrightarrow> low_tag t \<and> \<not> constructed t \<and> length vs < 0x10000"
| "der_wf (Node t ds) \<longleftrightarrow> low_tag t \<and> constructed t \<and> list_all der_wf ds \<and> length (concat (map der_bytes ds)) < 0x10000"

lemma der_wf_short: "der_wf d \<Longrightarrow> der_short d"
  by (induction d) (auto simp: list_all_iff)

lemma der_next_element: "der_wf d \<Longrightarrow> der_next (der_bytes d @ rest) = Some (der_tag d, der_content d, rest)"
  using der_next_bytes [of "der_tag d" "der_content d" rest] by (cases d) simp_all

lemma read_ders_only: "read_ders p = Some ds \<Longrightarrow> list_all der_wf ds \<and> p = concat (map der_bytes ds)"
proof (induction p arbitrary: ds rule: read_ders.induct)
  case (1 p)
  show ?case
  proof (cases "p = []")
    case True
    then show ?thesis using 1(3) by (simp add: read_ders.simps)
  next
    case False
    then obtain t v rest where n: "der_next p = Some (t, v, rest)"
      using 1(3) by (auto simp: read_ders.simps [of p] split: option.splits)
    obtain ds' where r: "read_ders rest = Some ds'" using 1(3) n False by (auto simp: read_ders.simps [of p] split: option.splits)
    have rest: "list_all der_wf ds' \<and> rest = concat (map der_bytes ds')" using 1(1) [OF False n _ _ r] by simp
    note only = der_next_only [OF n]
    show ?thesis
    proof (cases "constructed t")
      case True
      then obtain es where e: "read_ders v = Some es" "ds = Node t es # ds'"
        using 1(3) n r False by (auto simp: read_ders.simps [of p] split: option.splits)
      have "list_all der_wf es \<and> v = concat (map der_bytes es)" using 1(2) [OF False n _ _ r True e(1)] by simp
      then show ?thesis using rest only True e(2) by auto
    next
      case prim: False
      then have "ds = Prim t v # ds'" using 1(3) n r False by (simp add: read_ders.simps [of p])
      then show ?thesis using rest only prim by simp
    qed
  qed
qed

lemma read_ders_cons:
  assumes "der_wf d" and "read_ders rest = Some ds" and "\<And>t es. d = Node t es \<Longrightarrow> read_ders (der_content d) = Some es"
  shows "read_ders (der_bytes d @ rest) = Some (d # ds)"
proof -
  have ne: "der_bytes d @ rest \<noteq> []" by (cases d) simp_all
  have "read_ders (der_bytes d @ rest) =
      (if constructed (der_tag d)
       then (case read_ders (der_content d) of None \<Rightarrow> None | Some es \<Rightarrow> Some (Node (der_tag d) es # ds))
       else Some (Prim (der_tag d) (der_content d) # ds))"
    by (subst read_ders.simps) (simp only: ne der_next_element [OF assms(1)] assms(2) if_False option.case prod.case)
  then show ?thesis using assms(1,3) by (cases d) simp_all
qed

lemma read_ders_list:
  assumes "\<And>d rest ds. d \<in> set es \<Longrightarrow> der_wf d \<Longrightarrow> read_ders rest = Some ds \<Longrightarrow> read_ders (der_bytes d @ rest) = Some (d # ds)"
  shows "list_all der_wf es \<Longrightarrow> read_ders (concat (map der_bytes es)) = Some es"
  using assms by (induction es) (simp_all add: read_ders.simps [of "[]"])

lemma read_ders_element: "der_wf d \<Longrightarrow> read_ders rest = Some ds \<Longrightarrow> read_ders (der_bytes d @ rest) = Some (d # ds)"
proof (induction d arbitrary: rest ds)
  case (Prim t vs)
  then show ?case using read_ders_cons [of "Prim t vs"] by simp
next
  case (Node t es)
  have "read_ders (der_content (Node t es)) = Some es" using read_ders_list [of es] Node.IH Node.prems(1) by simp
  then show ?case using Node.prems by (intro read_ders_cons) simp_all
qed

lemma read_ders_iff: "read_ders p = Some ds \<longleftrightarrow> list_all der_wf ds \<and> p = concat (map der_bytes ds)"
  using read_ders_only read_ders_list [of ds] read_ders_element by blast

section \<open>Integers\<close>

text \<open>A big-endian number, the number a content stands for in two's complement, and the minimal contents.\<close>

fun be_value :: "bytes \<Rightarrow> nat" where
  "be_value [] = 0"
| "be_value (x # xs) = unat x * 256 ^ length xs + be_value xs"

definition twos_value :: "bytes \<Rightarrow> int" where
  "twos_value v = (if 0x80 \<le> hd v then int (be_value v) - 256 ^ length v else int (be_value v))"

definition twos_minimal :: "bytes \<Rightarrow> bool" where
  "twos_minimal v \<longleftrightarrow> v \<noteq> [] \<and> (2 \<le> length v \<longrightarrow> \<not> (hd v = 0 \<and> v ! 1 < 0x80) \<and> \<not> (hd v = 0xff \<and> 0x80 \<le> v ! 1))"

lemma top_bit: "(x :: u8) AND 0x80 \<noteq> 0 \<longleftrightarrow> 0x80 \<le> x"
proof -
  have "list_all (\<lambda>k. ((word_of_nat k :: u8) AND 0x80 \<noteq> 0) = (0x80 \<le> (word_of_nat k :: u8))) [0..<256]" by code_simp
  then have "((word_of_nat (unat x) :: u8) AND 0x80 \<noteq> 0) = (0x80 \<le> (word_of_nat (unat x) :: u8))"
    unfolding list_all_iff using byte_lt [of x] by (metis atLeastLessThan_iff set_upt zero_le)
  then show ?thesis by simp
qed

lemma be_value_drop_zeros: "be_value (drop_zeros xs) = be_value xs"
  by (induction xs rule: drop_zeros.induct) simp_all

lemma drop_zeros_head: "2 \<le> length (drop_zeros xs) \<Longrightarrow> hd (drop_zeros xs) \<noteq> 0"
  by (induction xs rule: drop_zeros.induct) (simp_all split: if_splits)

lemma length_drop_zeros: "length (drop_zeros xs) \<le> length xs"
  by (induction xs rule: drop_zeros.induct) auto

definition uint_content :: "bytes \<Rightarrow> bytes" where
  "uint_content be = (if drop_zeros be = [] \<or> 0x80 \<le> hd (drop_zeros be) then 0 # drop_zeros be else drop_zeros be)"

lemma uint_content_value: "twos_value (uint_content be) = int (be_value be)"
  by (simp add: uint_content_def twos_value_def be_value_drop_zeros)

lemma uint_content_minimal: "twos_minimal (uint_content be)"
proof (cases "drop_zeros be = [] \<or> 0x80 \<le> hd (drop_zeros be)")
  case True
  then show ?thesis by (cases "drop_zeros be") (auto simp: uint_content_def twos_minimal_def)
next
  case False
  then have "hd (drop_zeros be) \<noteq> 0xff" by auto
  then show ?thesis using False drop_zeros_head [of be] by (simp add: uint_content_def twos_minimal_def)
qed

lemma der_put_uint_outcome:
  assumes "writer_ok w" and "\<not> dw_err w" and "length be < 2147483648"
  shows "outcome (length (uint_content be) < 0x10000) w (der_bytes (Prim DER_INTEGER (uint_content be))) (der_put_uint be w)"
proof -
  define ds where "ds = drop_zeros be"
  define pad where "pad = (ds = [] \<or> 0x80 \<le> hd ds)"
  define w1 where "w1 = put_header DER_INTEGER (length (uint_content be)) w"
  have c: "uint_content be = (if pad then [0] else []) @ ds" by (simp add: uint_content_def pad_def ds_def)
  have len: "length ds + of_bool pad = length (uint_content be)" "length ds + of_bool pad < 4294967296"
    using length_drop_zeros [of be] assms(3) by (simp_all add: c ds_def)
  have e: "der_put_uint be w = put_content ds (if pad then put_byte 0 w1 else w1)"
    unfolding der_put_uint_def Let_def ds_def [symmetric] top_bit pad_def [symmetric] w1_def len(1) [symmetric]
    by (simp only: wrap32_id [OF len(2)])
  note h = put_header_outcome [OF assms(1,2), of "length (uint_content be)" DER_INTEGER, folded w1_def]
  show ?thesis
  proof (cases "length (uint_content be) < 0x10000")
    case True
    have small: "length ds \<le> 0x10000" using True by (simp add: c)
    have p: "outcome True w1 (if pad then [0] else []) (if pad then put_byte 0 w1 else w1)" if "appends w (DER_INTEGER # len_bytes (length (uint_content be))) w1"
      using put_byte_outcome [of w1 0] appendsD [OF that] by (auto simp: outcome_def appends_refl writer_ok_def)
    have 2: "outcome (length (uint_content be) < 0x10000 \<and> True) w ((DER_INTEGER # len_bytes (length (uint_content be))) @ (if pad then [0] else []))
        (if pad then put_byte 0 w1 else w1)"
      by (rule outcome_then [OF h p]) (simp_all add: err_stays)
    have "outcome ((length (uint_content be) < 0x10000 \<and> True) \<and> True) w
        (((DER_INTEGER # len_bytes (length (uint_content be))) @ (if pad then [0] else [])) @ ds) (der_put_uint be w)"
      unfolding e
    proof (rule outcome_then [OF 2])
      assume a: "appends w ((DER_INTEGER # len_bytes (length (uint_content be))) @ (if pad then [0] else [])) (if pad then put_byte 0 w1 else w1)"
      show "outcome True (if pad then put_byte 0 w1 else w1) ds (put_content ds (if pad then put_byte 0 w1 else w1))"
        by (rule put_content_outcome) (use appendsD [OF a] small in simp_all)
    qed (simp add: err_stays)
    then show ?thesis by (simp add: c)
  next
    case False
    then have "dw_err w1" using h by (simp add: outcome_def)
    then show ?thesis using False unfolding e by (simp add: outcome_def err_stays)
  qed
qed

section \<open>Properties\<close>

text \<open>What a client finds when it looks at \<open>err\<close> at the end.\<close>

definition writer_result :: "der_writer \<Rightarrow> bytes option" where
  "writer_result w = (if dw_err w then None else Some (written w))"

lemma writer_init_ok:
  assumes "cap \<le> length buf" and "cap < 2147483648" and "length (dw_open w0) = DER_MAX_DEPTH"
  shows "writer_ok (der_writer_init buf cap w0) \<and> \<not> dw_err (der_writer_init buf cap w0) \<and> written (der_writer_init buf cap w0) = [] \<and>
    dw_len (der_writer_init buf cap w0) = 0 \<and> dw_cap (der_writer_init buf cap w0) = cap \<and> dw_depth (der_writer_init buf cap w0) = 0"
  using assms by (simp add: writer_ok_def der_writer_init_def written_def)

definition any_writer :: der_writer where
  "any_writer = \<lparr>dw_buf = [], dw_cap = 0, dw_len = 7, dw_open = replicate 10 3, dw_depth = 4, dw_err = True\<rparr>"

definition any_tree :: der where
  "any_tree = Node 0x30 [Prim 0x02 [5], Node 0x31 [Prim 0x04 (replicate 130 9), Node 0x30 []]]"

lemma write_der_result:
  assumes "cap \<le> length buf" and "cap < 2147483648" and "length (dw_open w0) = DER_MAX_DEPTH"
  shows "writer_result (write_der d (der_writer_init buf cap w0)) =
    (if der_fits 0 d \<and> length (der_bytes d) \<le> cap then Some (der_bytes d) else None)"
  using write_der_outcome [of "der_writer_init buf cap w0" d] writer_init_ok [OF assms]
  by (auto simp: outcome_def appends_def writer_result_def split: if_splits)

lemma any_writer_open: "length (dw_open any_writer) = DER_MAX_DEPTH"
  by (simp add: any_writer_def DER_MAX_DEPTH_def)

lemma any_tree_facts: "der_short any_tree" "der_height any_tree \<le> DER_MAX_DEPTH" "length (der_bytes any_tree) = 144" "der_wf any_tree"
  by (simp_all add: any_tree_def DER_MAX_DEPTH_def len_bytes_def low_tag_def constructed_def)

text \<open>
  C26: Writing a tree of elements into a buffer of \<open>cap\<close> bytes leaves exactly its DER encoding, all lengths fixed, if every
  length is below 65536, the nesting at most 10 and the encoding fits; in every other case \<open>err\<close> is set.
\<close>

theorem der_write_exact:
  assumes "cap \<le> length buf" and "cap < 2147483648" and "length (dw_open w0) = DER_MAX_DEPTH"
  shows "writer_result (write_der d (der_writer_init buf cap w0)) =
    (if der_short d \<and> der_height d \<le> DER_MAX_DEPTH \<and> length (der_bytes d) \<le> cap then Some (der_bytes d) else None)"
  by (simp add: write_der_result [OF assms] der_fits_def)

theorem der_write_exact_witness:
  "writer_result (write_der any_tree (der_writer_init (replicate 200 1) 148 any_writer)) = Some (der_bytes any_tree) \<and>
   writer_result (write_der any_tree (der_writer_init (replicate 200 1) 140 any_writer)) = None"
  using der_write_exact [of 148 "replicate 200 1" any_writer any_tree] der_write_exact [of 140 "replicate 200 1" any_writer any_tree]
  by (simp add: any_writer_open any_tree_facts)

text \<open>
  C27: What the writer left in the buffer for a well-formed tree is read back as that tree, by a reader that takes the
  elements apart with \<open>der_next\<close>.
\<close>

theorem der_write_read_back:
  assumes "cap \<le> length buf" and "cap < 2147483648" and "length (dw_open w0) = DER_MAX_DEPTH"
    and "der_wf d" and "writer_result (write_der d (der_writer_init buf cap w0)) = Some p"
  shows "read_ders p = Some [d]"
  using assms(4,5) by (simp add: write_der_result [OF assms(1-3)] read_ders_iff split: if_splits)

theorem der_write_read_back_witness:
  "read_ders (der_bytes any_tree) = Some [any_tree]"
proof (rule der_write_read_back [of 148 "replicate 200 1" any_writer any_tree])
  show "writer_result (write_der any_tree (der_writer_init (replicate 200 1) 148 any_writer)) = Some (der_bytes any_tree)"
    by (simp add: write_der_result any_writer_open der_fits_def any_tree_facts)
qed (simp_all add: any_writer_open any_tree_facts)

text \<open>
  C28: \<open>der_next\<close> takes an element exactly when the span starts with a one-byte tag and the shortest encoding of a
  length below 65536 with that many bytes after it; indefinite, over-long and truncated lengths are refused.
\<close>

theorem der_next_canonical:
  "der_next p = Some (t, v, rest) \<longleftrightarrow> t AND 0x1f \<noteq> 0x1f \<and> length v < 0x10000 \<and> p = t # len_bytes (length v) @ v @ rest"
  using der_next_bytes [of t v rest] der_next_only [of p t v rest] unfolding low_tag_def by blast

text \<open>
  C29: An INTEGER written from an unsigned big-endian number is read back as a two's complement content of the same
  value, never negative, with no byte more than needed.
\<close>

theorem der_put_uint_minimal:
  assumes "writer_ok w" and "length be < 2147483648" and "\<not> dw_err (der_put_uint be w)" and "\<not> dw_err w"
  shows "\<exists>v. der_next (drop (dw_len w) (written (der_put_uint be w))) = Some (DER_INTEGER, v, []) \<and>
    twos_value v = int (be_value be) \<and> twos_minimal v"
proof -
  have o: "appends w (der_bytes (Prim DER_INTEGER (uint_content be))) (der_put_uint be w)" "length (uint_content be) < 0x10000"
    using der_put_uint_outcome [OF assms(1,4,2)] assms(3) by (auto simp: outcome_def split: if_splits)
  have "drop (dw_len w) (written (der_put_uint be w)) = der_bytes (Prim DER_INTEGER (uint_content be))"
    using o(1) length_written [OF assms(1)] by (simp add: appends_def)
  moreover have "low_tag DER_INTEGER" by code_simp
  ultimately have "der_next (drop (dw_len w) (written (der_put_uint be w))) = Some (DER_INTEGER, uint_content be, [])"
    using der_next_bytes [OF _ o(2), of DER_INTEGER "[]"] by simp
  then show ?thesis using uint_content_value uint_content_minimal by blast
qed

theorem der_put_uint_minimal_witness:
  "\<exists>v. der_next (drop 0 (written (der_put_uint [0, 0, 200, 1] (der_writer_init (replicate 9 0) 9 any_writer)))) = Some (DER_INTEGER, v, []) \<and>
    twos_value v = int (be_value [0, 0, 200, 1]) \<and> twos_minimal v"
proof -
  note i = writer_init_ok [of 9 "replicate 9 0" any_writer]
  have "writer_ok (der_writer_init (replicate 9 0) 9 any_writer)" using i any_writer_open by simp
  moreover have "\<not> dw_err (der_put_uint [0, 0, 200, 1] (der_writer_init (replicate 9 0) 9 any_writer))"
    using der_put_uint_outcome [of "der_writer_init (replicate 9 0) 9 any_writer" "[0, 0, 200, 1]"] i any_writer_open
    by (simp add: outcome_def appends_def uint_content_def len_bytes_def)
  moreover have "dw_len (der_writer_init (replicate 9 0) 9 any_writer) = 0" "\<not> dw_err (der_writer_init (replicate 9 0) 9 any_writer)"
    by (simp_all add: der_writer_init_def)
  ultimately show ?thesis
    using der_put_uint_minimal [of "der_writer_init (replicate 9 0) 9 any_writer" "[0, 0, 200, 1]"] by simp
qed

text \<open>
  C30: A PEM block that \<open>pem_encode\<close> wrote decodes to the same bytes, with the offset behind its END line, whatever text
  follows it, for every label that \<open>pem_decode\<close> takes.
\<close>

theorem pem_round_trip:
  assumes "cap < 2147483648" and "length label \<le> 31" and "pem_encode label der cap = Some t" and "length der \<le> n"
  shows "pem_decode (t @ rest) label n = (Some der, Some (length t - 1))"
proof -
  have "t = pem_text label der" using assms(2,3) pem_encode_eq [OF assms(1), of label der] by (simp split: if_splits)
  then show ?thesis using pem_decode_text [OF assms(2,4)] by simp
qed

theorem pem_round_trip_witness:
  "pem_decode ((''-----BEGIN X-----'' @ CHR 0x0A # ''AQID/w=='' @ CHR 0x0A # ''-----END X-----'' @ [CHR 0x0A]) @ ''tail'') ''X'' 4 =
    (Some [1, 2, 3, 255], Some 42)"
proof -
  have e: "pem_encode ''X'' [1, 2, 3, 255] 60 = Some (''-----BEGIN X-----'' @ CHR 0x0A # ''AQID/w=='' @ CHR 0x0A # ''-----END X-----'' @ [CHR 0x0A])"
    by (simp add: pem_encode_eq pem_text_def pem_begin_line_def pem_end_line_def pem_chars.simps pem_line_def b64_groups_word b64_word_def b64_char_def B64_def)
  show ?thesis using pem_round_trip [OF _ _ e, of 4 "''tail''"] by simp
qed

end
