(* ===== verification/Sha256.thy ===== *)
theory Sha256
  imports Prelude
begin

text \<open>
  SHA-256 and HMAC-SHA-256 (\<open>kernel/sha256.c\<close>), as the code computes them: a context fed in pieces, a message
  schedule in a window of sixteen words.
\<close>

section \<open>One block\<close>

definition SHA256_DIGEST_LEN :: nat where "SHA256_DIGEST_LEN = 32"
definition SHA256_BLOCK_LEN :: nat where "SHA256_BLOCK_LEN = 64"

text \<open>The round constants, in the rows of the source.\<close>

definition sha_K :: "u32 list" where
  "sha_K =
     [0x428a2f98, 0x71374491, 0xb5c0fbcf, 0xe9b5dba5] @ [0x3956c25b, 0x59f111f1, 0x923f82a4, 0xab1c5ed5] @
     [0xd807aa98, 0x12835b01, 0x243185be, 0x550c7dc3] @ [0x72be5d74, 0x80deb1fe, 0x9bdc06a7, 0xc19bf174] @
     [0xe49b69c1, 0xefbe4786, 0x0fc19dc6, 0x240ca1cc] @ [0x2de92c6f, 0x4a7484aa, 0x5cb0a9dc, 0x76f988da] @
     [0x983e5152, 0xa831c66d, 0xb00327c8, 0xbf597fc7] @ [0xc6e00bf3, 0xd5a79147, 0x06ca6351, 0x14292967] @
     [0x27b70a85, 0x2e1b2138, 0x4d2c6dfc, 0x53380d13] @ [0x650a7354, 0x766a0abb, 0x81c2c92e, 0x92722c85] @
     [0xa2bfe8a1, 0xa81a664b, 0xc24b8b70, 0xc76c51a3] @ [0xd192e819, 0xd6990624, 0xf40e3585, 0x106aa070] @
     [0x19a4c116, 0x1e376c08, 0x2748774c, 0x34b0bcb5] @ [0x391c0cb3, 0x4ed8aa4a, 0x5b9cca4f, 0x682e6ff3] @
     [0x748f82ee, 0x78a5636f, 0x84c87814, 0x8cc70208] @ [0x90befffa, 0xa4506ceb, 0xbef9a3f7, 0xc67178f2]"

definition rotr :: "u32 \<Rightarrow> nat \<Rightarrow> u32" where
  "rotr x n = drop_bit n x OR push_bit (32 - n) x"

definition CH :: "u32 \<Rightarrow> u32 \<Rightarrow> u32 \<Rightarrow> u32" where "CH x y z = (x AND y) XOR (NOT x AND z)"
definition MAJ :: "u32 \<Rightarrow> u32 \<Rightarrow> u32 \<Rightarrow> u32" where "MAJ x y z = (x AND y) XOR (x AND z) XOR (y AND z)"
definition BSIG0 :: "u32 \<Rightarrow> u32" where "BSIG0 x = rotr x 2 XOR rotr x 13 XOR rotr x 22"
definition BSIG1 :: "u32 \<Rightarrow> u32" where "BSIG1 x = rotr x 6 XOR rotr x 11 XOR rotr x 25"
definition SSIG0 :: "u32 \<Rightarrow> u32" where "SSIG0 x = rotr x 7 XOR rotr x 18 XOR drop_bit 3 x"
definition SSIG1 :: "u32 \<Rightarrow> u32" where "SSIG1 x = rotr x 17 XOR rotr x 19 XOR drop_bit 10 x"

record sha256_ctx =
  sx_h :: "u32 list"
  sx_bits :: u64
  sx_block :: bytes
  sx_block_len :: nat

text \<open>The eight working variables.\<close>

type_synonym sha_vars = "u32 \<times> u32 \<times> u32 \<times> u32 \<times> u32 \<times> u32 \<times> u32 \<times> u32"

fun sha_step :: "u32 \<Rightarrow> u32 \<Rightarrow> sha_vars \<Rightarrow> sha_vars" where
  "sha_step k w (a, b, c, d, e, f, g, h) =
     (let t1 = h + BSIG1 e + CH e f g + k + w; t2 = BSIG0 a + MAJ a b c in (t1 + t2, a, b, c, d + t1, e, f, g))"

definition block_word :: "bytes \<Rightarrow> nat \<Rightarrow> u32" where
  "block_word blk t =
     push_bit 24 (ucast (blk ! (t * 4))) OR push_bit 16 (ucast (blk ! (t * 4 + 1))) OR push_bit 8 (ucast (blk ! (t * 4 + 2)))
     OR ucast (blk ! (t * 4 + 3))"

text \<open>Turn \<open>t\<close> of the loop, on the window \<open>W\<close> and the variables.\<close>

definition compress_turn :: "nat \<Rightarrow> u32 list \<times> sha_vars \<Rightarrow> u32 list \<times> sha_vars" where
  "compress_turn t s =
     (case s of (W, v) \<Rightarrow>
        (let W1 = (if 16 \<le> t
                   then W[t mod 16 := W ! (t mod 16) + (SSIG1 (W ! ((t + 14) mod 16)) + W ! ((t + 9) mod 16) + SSIG0 (W ! ((t + 1) mod 16)))]
                   else W)
         in (W1, sha_step (sha_K ! t) (W1 ! (t mod 16)) v)))"

definition vars_of :: "u32 list \<Rightarrow> sha_vars" where
  "vars_of h = (h ! 0, h ! 1, h ! 2, h ! 3, h ! 4, h ! 5, h ! 6, h ! 7)"

fun add_vars :: "u32 list \<Rightarrow> sha_vars \<Rightarrow> u32 list" where
  "add_vars hs (a, b, c, d, e, f, g, h) =
     [hs ! 0 + a, hs ! 1 + b, hs ! 2 + c, hs ! 3 + d, hs ! 4 + e, hs ! 5 + f, hs ! 6 + g, hs ! 7 + h]"

definition sha256_compress :: "bytes \<Rightarrow> sha256_ctx \<Rightarrow> sha256_ctx" where
  "sha256_compress blk ctx =
     (let W = map (block_word blk) [0..<16]
      in ctx\<lparr>sx_h := add_vars (sx_h ctx) (snd (fold compress_turn [0..<64] (W, vars_of (sx_h ctx))))\<rparr>)"

section \<open>The context\<close>

definition sha_H0 :: "u32 list" where
  "sha_H0 = [0x6a09e667, 0xbb67ae85, 0x3c6ef372, 0xa54ff53a, 0x510e527f, 0x9b05688c, 0x1f83d9ab, 0x5be0cd19]"

definition sha256_init :: "sha256_ctx \<Rightarrow> sha256_ctx" where
  "sha256_init ctx = ctx\<lparr>sx_h := sha_H0, sx_bits := 0, sx_block_len := 0\<rparr>"

text \<open>
  The loop of \<open>sha256_update\<close>.  No call leaves \<open>block_len\<close> at 64 or above; in such a context, where the code's loop
  would not end, the model stops.
\<close>

function update_loop :: "bytes \<Rightarrow> sha256_ctx \<Rightarrow> sha256_ctx" where
  "update_loop p ctx =
     (if p = [] \<or> SHA256_BLOCK_LEN \<le> sx_block_len ctx then ctx
      else
        (let space = SHA256_BLOCK_LEN - sx_block_len ctx;
             n = (if length p < space then length p else space);
             c1 = ctx\<lparr>sx_block := blit (sx_block_len ctx) (take n p) (sx_block ctx), sx_block_len := sx_block_len ctx + n\<rparr>;
             c2 = (if sx_block_len c1 = SHA256_BLOCK_LEN then (sha256_compress (sx_block c1) c1)\<lparr>sx_block_len := 0\<rparr> else c1)
         in update_loop (drop n p) c2))"
  by pat_completeness auto
termination
  by (relation "measure (\<lambda>(p, _). length p)") auto

declare update_loop.simps [simp del]

definition sha256_update :: "bytes \<Rightarrow> sha256_ctx \<Rightarrow> sha256_ctx" where
  "sha256_update p ctx = update_loop p (ctx\<lparr>sx_bits := sx_bits ctx + word_of_nat (length p) * 8\<rparr>)"

text \<open>\<open>block[block_len++] = b\<close>, and the zeros up to a length.\<close>

definition block_put :: "u8 \<Rightarrow> sha256_ctx \<Rightarrow> sha256_ctx" where
  "block_put b ctx = ctx\<lparr>sx_block := (sx_block ctx)[sx_block_len ctx := b], sx_block_len := sx_block_len ctx + 1\<rparr>"

definition block_zeros :: "nat \<Rightarrow> sha256_ctx \<Rightarrow> sha256_ctx" where
  "block_zeros n ctx = (block_put 0 ^^ (n - sx_block_len ctx)) ctx"

definition be_word :: "u32 \<Rightarrow> bytes" where
  "be_word v = [ucast (drop_bit 24 v), ucast (drop_bit 16 v), ucast (drop_bit 8 v), ucast v]"

text \<open>The digest and the context, which is wiped.\<close>

definition sha256_final :: "sha256_ctx \<Rightarrow> bytes \<times> sha256_ctx" where
  "sha256_final ctx =
     (let bits = sx_bits ctx;
          c1 = block_put 0x80 ctx;
          c2 = (if SHA256_BLOCK_LEN - 8 < sx_block_len c1
                then (let d = block_zeros SHA256_BLOCK_LEN c1 in (sha256_compress (sx_block d) d)\<lparr>sx_block_len := 0\<rparr>)
                else c1);
          c3 = block_zeros (SHA256_BLOCK_LEN - 8) c2;
          c4 = fold (\<lambda>i. block_put (ucast (drop_bit (i * 8) bits))) [7, 6, 5, 4, 3, 2, 1, 0] c3;
          c5 = sha256_compress (sx_block c4) c4
      in (concat (map be_word (sx_h c5)),
          ctx\<lparr>sx_h := replicate 8 0, sx_bits := 0, sx_block := replicate SHA256_BLOCK_LEN 0, sx_block_len := 0\<rparr>))"

text \<open>A context on the stack, before its initialisation.\<close>

definition stack_ctx :: sha256_ctx where
  "stack_ctx = \<lparr>sx_h = replicate 8 0, sx_bits = 0, sx_block = replicate SHA256_BLOCK_LEN 0, sx_block_len = 0\<rparr>"

definition sha256 :: "bytes \<Rightarrow> bytes" where
  "sha256 data = fst (sha256_final (sha256_update data (sha256_init stack_ctx)))"

section \<open>HMAC, comparison and fingerprint\<close>

definition hmac_sha256 :: "bytes \<Rightarrow> bytes \<Rightarrow> bytes" where
  "hmac_sha256 key msg =
     (let k0 = replicate SHA256_BLOCK_LEN 0;
          k = (if SHA256_BLOCK_LEN < length key then blit 0 (sha256 key) k0 else blit 0 key k0);
          inner = fst (sha256_final (sha256_update msg (sha256_update (map (\<lambda>x. x XOR 0x36) k) (sha256_init stack_ctx))))
      in fst (sha256_final (sha256_update inner (sha256_update (map (\<lambda>x. x XOR 0x5c) k) (sha256_init stack_ctx)))))"

definition sha256_verify :: "bytes \<Rightarrow> bytes \<Rightarrow> nat \<Rightarrow> bool" where
  "sha256_verify x y n = (fold (\<lambda>i diff. diff OR (x ! i XOR y ! i)) [0..<n] 0 = 0)"

definition KEY_FINGERPRINT_HEX_LEN :: nat where "KEY_FINGERPRINT_HEX_LEN = 16"

definition hex_digits :: string where "hex_digits = ''0123456789abcdef''"

definition key_fingerprint_hex :: "bytes \<Rightarrow> string" where
  "key_fingerprint_hex key =
     (let digest = sha256 key
      in concat (map (\<lambda>i. [hex_digits ! unat (drop_bit 4 (digest ! i)), hex_digits ! unat (digest ! i AND 0x0f)])
           [0..<KEY_FINGERPRINT_HEX_LEN div 2]))"

end
