(* ===== verification/Sha256_Correct.thy ===== *)
theory Sha256_Correct
  imports Sha256
begin

text \<open>
  The hash is that of FIPS 180-4, however the message is cut into pieces; HMAC is that of RFC 2104; the comparison
  of digests is equality.
\<close>

section \<open>The standard\<close>









section \<open>The window of sixteen words\<close>



section \<open>Feeding a message in pieces\<close>









section \<open>The end of the message\<close>



lemma block_put_keeps [simp]: "sx_h (block_put x ctx) = sx_h ctx" "sx_bits (block_put x ctx) = sx_bits ctx"
  by (simp_all add: block_put_def)










section \<open>HMAC and comparison\<close>







lemma or_zero_iff: "(a OR b = (0 :: 'a :: len word)) = (a = 0 \<and> b = 0)" "(a XOR b = 0) = (a = b)"
  by (auto simp: bit_eq_iff bit_simps)

lemma verify_equal:
  assumes "n \<le> length x" and "n \<le> length y"
  shows "sha256_verify x y n \<longleftrightarrow> take n x = take n y"
proof -
  have "fold (\<lambda>i diff. diff OR (x ! i XOR y ! i)) xs d = 0 \<longleftrightarrow> d = 0 \<and> (\<forall>i \<in> set xs. x ! i = y ! i)" for xs d
    by (induction xs arbitrary: d) (auto simp: or_zero_iff)
  then have "sha256_verify x y n \<longleftrightarrow> (\<forall>i < n. x ! i = y ! i)" by (auto simp: sha256_verify_def)
  also have "\<dots> \<longleftrightarrow> take n x = take n y" using assms by (simp add: list_eq_iff_nth_eq)
  finally show ?thesis .
qed

section \<open>Properties\<close>




end
