(* ===== verification/Spec2Isabelle.thy ===== *)
theory Spec2Isabelle
  imports Buddy_Correct Kobj_Correct Sched_Safe Lock_Correct Llp_Serial Mem_Domain_Correct Chan_Safe Idstore_Correct Uheap_Correct Der_Correct Sha256_Correct
begin

text \<open>
  LugalOS is a small operating system for RISC-V boards: a kernel with up to 32 tasks on up to two harts,
  drivers and user programs as tasks that call each other over message channels, and a memory-protection unit
  between them.  This development models the kernel's core in the order the machine builds on it and proves
  what each part has to keep.

  \<^bold>\<open>The parts and their theories.\<close>

  \<^item> Page allocator, \<open>kernel/palloc.c\<close>: \<open>Page_Alloc\<close> has the two zones (bitmap, owner table, counters) as records
    and one definition per function; \<open>Page_Alloc_Correct\<close> shows the zone invariant, that \<open>zone_alloc\<close> is a
    first fit, that allocated blocks never overlap, that a listing is complete, and the length check's gap.
  \<^item> Buddy allocator, \<open>kernel/balloc.c\<close>: \<open>Buddy\<close> has the tree of longest free blocks as the array the code keeps
    and relates it to a set of blocks; \<open>Buddy_Correct\<close> states allocation, release, completeness and the absence of
    fragmentation.  Its arena comes from the page allocator through the interface in \<open>Page_Source\<close>, interpreted on
    the model of \<open>palloc.c\<close>.
  \<^item> Kernel objects, \<open>kernel/kobj.c\<close>: \<open>Wlist\<close> has the linked lists of waiters in a store of nodes (an
    interpretation of the queue contract in \<open>Fifo\<close>), \<open>Kobj\<close> semaphores, mutexes, queues, event groups, timers
    and handles; \<open>Kobj_Correct\<close> shows over all operation sequences that lists stay well linked and no object keeps
    a waiter it could serve, and what each hand-off does.
  \<^item> Scheduler, \<open>kernel/sched.c\<close>: \<open>Sched\<close> has the task table, the scan, the switch as far as \<open>ctx_switch\<close>,
    blocking with its wake token, creation, exit and the reaper.  \<open>Sched_Correct\<close> has the step relation of harts,
    ticks and wakes with its invariant, \<open>Sched_Safe\<close> the properties.
  \<^item> Locks, \<open>kernel/lock.c\<close>: \<open>Lock\<close> has the yielding locks, the wait-for graph and the recorded lock order,
    \<open>Lock_Correct\<close> exclusion, acyclicity and the inversion count.
  \<^item> Memory domains, \<open>arch/riscv/common/mem_domain.c\<close> and \<open>kernel/uaccess.c\<close>: \<open>Mem_Domain\<close> has the PMP entries
    and the user copies, \<open>Mem_Domain_Correct\<close> that an activated domain is what the hardware enforces and that a
    copy touches only bytes the task could have touched itself.
  \<^item> Channels, \<open>kernel/chan.c\<close>: \<open>Chan\<close> has one function per section under the endpoint's lock, \<open>Chan_Queue\<close> the
    ring of waiting tasks as a list and as a second interpretation of \<open>Fifo\<close>, \<open>Chan_Steps\<close> an endpoint between its
    clients and its owner as interleaved steps, with the scheduler's side reduced to four states per task and
    lemmas that the scheduler's model acts so.  \<open>Chan_Correct\<close> has the invariant, \<open>Chan_Safe\<close> the properties and the
    two runs that go wrong.
  \<^item> Serial links, \<open>kernel/crc32.c\<close>, \<open>drivers/slip.c\<close> and \<open>kernel/llp.c\<close>: \<open>Slip\<close> and \<open>Slip_Correct\<close> for the byte
    stream, \<open>Llp\<close> for the link protocol with its callbacks as parameters, \<open>Llp_Serial\<close> for the frames that
    survive noise and damage.
  \<^item> Identity record, \<open>kernel/idstore.c\<close>: \<open>Idstore\<close> has the 4096-byte record with its typed fields, \<open>Idstore_Correct\<close>
    that what is stored is read back on any block device (the locale \<open>block_store\<close>, interpreted on the device of the
    source's selftest), that damage is refused and that a rewrite keeps fields of unknown type.
  \<^item> Heap of confined runtimes, \<open>kernel/uheap.c\<close>: \<open>Uheap\<close> has the boundary-tagged arena as bytes with one definition per
    function, \<open>Uheap_Lists\<close> the segregated free lists as doubly linked lists in those bytes, \<open>Uheap_Blocks\<close> the
    arena as a sequence of blocks, \<open>Uheap_Ops\<close> what each call does to it, \<open>Uheap_Client\<close> a client that holds, writes
    and frees allocations.  \<open>Uheap_Inv\<close>, \<open>Uheap_Steps\<close> and \<open>Uheap_Check\<close> carry the invariant over all runs,
    \<open>Uheap_Correct\<close> has the properties and the two calls that go wrong.
  \<^item> DER, base64 and PEM, \<open>kernel/der.c\<close>: \<open>Der\<close> has the writer with its buffer and open elements, the reader of spans
    and the text encodings; \<open>Der_Text\<close> shows that base64 and PEM are read back, \<open>Der_Correct\<close> that the writer
    leaves the encoding of a tree or fails, that the reader takes the shortest encoding only, and what an INTEGER is worth.
  \<^item> SHA-256 and HMAC, \<open>kernel/sha256.c\<close>: \<open>Sha256\<close> has the context and the window of sixteen words,
    \<open>Sha256_Correct\<close> the hash of FIPS 180-4 and the HMAC of RFC 2104 and that the code computes them, in pieces of any size.
  \<open>Prelude\<close> has the shared vocabulary: byte and word types, 32-bit wrap-around, powers of two, flat memory.

  \<^bold>\<open>How the code is rendered.\<close>  A struct is a record, a static table a list in the state record, a null pointer
  an option.  A counter or index is a natural number whose wrap-around is written out where its operands do not
  exclude it; where bits are taken apart it is a word.  A function that changes state returns the state; a halt of the
  kernel is an outcome or \<open>None\<close>.  What a function asks of the machine (the clock, the hart, whether interrupts are
  masked) is an argument.  Loops are recursions with a measure, and so total; the one walk over pointers that
  might not end (\<open>wl_remove\<close>) is a partial function to an option, and its theorems say that it returns.

  \<^bold>\<open>Interfaces.\<close>  \<open>page_source\<close> and \<open>page_memory\<close> (what a client of the page allocator may rely on), \<open>block_pool\<close> and
  \<open>fifo\<close> are locales, each interpreted on the model of the code that provides it; the clients' properties rest on
  those interpretations.

  \<^bold>\<open>Bounds.\<close>  32 tasks, 2 harts, 16 endpoints with 8 waiting places each are the code's constants.  No
  theorem uses fuel.  Sequences of operations are of any length.

  \<^bold>\<open>Not modelled.\<close>  The spinlocks themselves (a section under one is one step), \<open>printk\<close>, the selftests, the
  trace and statistics calls without effect on the state; the Sv39 back end of the memory domains
  (\<open>CONFIG_MODE_S\<close>) and the \<open>/proc\<close> texts; the context switch in assembly.  Outside the kernel's core: the
  drivers (register sequences of particular chips), the network stack, the file systems and the 9P server, the
  shell, the Lisp interpreter, the applications, and the fonts, which are data.
\<close>

end
